(* ===== verification/Prelude.thy ===== *)
theory Prelude
  imports Complex_Main "HOL-Library.Word" "HOL-Library.Log_Nat"
begin

text \<open>
  What every component shares: the JavaScript values the TypeScript runtime computes with
  (UTF-16 strings, double precision numbers restricted to the operations the code uses,
  plain objects with their inherited members), results that may be a thrown error, and the
  generic lemmas on lists, association lists and sums that carry the component proofs.
\<close>

named_theorems js_simps \<open>unfolding rules for the JavaScript primitives\<close>
named_theorems res_simps \<open>rules for results that may be errors\<close>

section \<open>Strings\<close>

text \<open>
  A JavaScript string is a sequence of UTF-16 code units. Literals of the source are
  written with \<open>ascii\<close>.
\<close>

type_synonym code_unit = "16 word"
type_synonym jsstr = "code_unit list"

definition unit_of_char :: "char \<Rightarrow> code_unit" where
  "unit_of_char c = word_of_int (of_char c)"

definition ascii :: "string \<Rightarrow> jsstr" where
  "ascii s = map unit_of_char s"

definition in_range :: "int \<Rightarrow> int \<Rightarrow> code_unit \<Rightarrow> bool" where
  "in_range lo hi u \<longleftrightarrow> lo \<le> uint u \<and> uint u \<le> hi"

definition is_upper_unit :: "code_unit \<Rightarrow> bool" where
  "is_upper_unit u \<longleftrightarrow> in_range 65 90 u"

definition is_lower_unit :: "code_unit \<Rightarrow> bool" where
  "is_lower_unit u \<longleftrightarrow> in_range 97 122 u"

definition is_digit_unit :: "code_unit \<Rightarrow> bool" where
  "is_digit_unit u \<longleftrightarrow> in_range 48 57 u"

definition is_alnum_unit :: "code_unit \<Rightarrow> bool" where
  "is_alnum_unit u \<longleftrightarrow> is_upper_unit u \<or> is_lower_unit u \<or> is_digit_unit u"

text \<open>Surrogates, and \<open>String.prototype.isWellFormed\<close>: no lone surrogate.\<close>

definition is_high_surrogate :: "code_unit \<Rightarrow> bool" where
  "is_high_surrogate u \<longleftrightarrow> in_range 0xD800 0xDBFF u"

definition is_low_surrogate :: "code_unit \<Rightarrow> bool" where
  "is_low_surrogate u \<longleftrightarrow> in_range 0xDC00 0xDFFF u"

lemmas unit_defs = ascii_def unit_of_char_def in_range_def is_upper_unit_def is_lower_unit_def
  is_digit_unit_def is_alnum_unit_def is_high_surrogate_def is_low_surrogate_def

fun isWellFormed :: "jsstr \<Rightarrow> bool" where
  "isWellFormed [] = True"
| "isWellFormed [u] = (\<not> is_high_surrogate u \<and> \<not> is_low_surrogate u)"
| "isWellFormed (u # v # us) =
     (if is_high_surrogate u then is_low_surrogate v \<and> isWellFormed us
      else \<not> is_low_surrogate u \<and> isWellFormed (v # us))"

text \<open>Decimal notation of an integer, as \<open>String(n)\<close> prints a safe integer or a bigint.\<close>

function int_digits :: "int \<Rightarrow> int list" where
  "int_digits n = (if n < 10 then [n] else int_digits (n div 10) @ [n mod 10])"
  by pat_completeness auto
termination
  by (relation "measure nat") auto

declare int_digits.simps [simp del]

definition digit_unit :: "int \<Rightarrow> code_unit" where
  "digit_unit d = word_of_int (48 + d)"

definition int_string :: "int \<Rightarrow> jsstr" where
  "int_string i =
     (if i < 0 then ascii ''-'' @ map digit_unit (int_digits (- i))
      else map digit_unit (int_digits i))"

fun digits_value :: "int \<Rightarrow> int list \<Rightarrow> int" where
  "digits_value acc [] = acc"
| "digits_value acc (d # ds) = digits_value (10 * acc + d) ds"

lemma digits_value_append:
  "digits_value acc (xs @ ys) = digits_value (digits_value acc xs) ys"
  by (induction xs arbitrary: acc) auto

lemma digits_value_int_digits [simp]: "digits_value 0 (int_digits n) = n"
proof (induction n rule: int_digits.induct)
  case (1 n)
  show ?case
  proof (cases "n < 10")
    case True
    then show ?thesis by (simp add: int_digits.simps [of n])
  next
    case False
    then show ?thesis
      using "1.IH" by (simp add: int_digits.simps [of n] digits_value_append)
  qed
qed

lemma int_digits_range: "0 \<le> n \<Longrightarrow> d \<in> set (int_digits n) \<Longrightarrow> 0 \<le> d \<and> d < 10"
proof (induction n rule: int_digits.induct)
  case (1 n)
  then show ?case by (cases "n < 10") (auto simp: int_digits.simps [of n])
qed

lemma int_digits_not_Nil [simp]: "int_digits n \<noteq> []"
  by (subst int_digits.simps) simp

lemma uint_digit_unit: "0 \<le> d \<Longrightarrow> d < 10 \<Longrightarrow> uint (digit_unit d) = 48 + d"
  unfolding digit_unit_def by (subst uint_word_of_int) simp

lemma digit_unit_inj:
  "0 \<le> d \<Longrightarrow> d < 10 \<Longrightarrow> 0 \<le> e \<Longrightarrow> e < 10 \<Longrightarrow> digit_unit d = digit_unit e \<Longrightarrow> d = e"
  using uint_digit_unit by (metis add_left_cancel)

lemma map_digit_unit_inj:
  assumes "\<forall>d \<in> set xs. 0 \<le> d \<and> d < 10" and "\<forall>d \<in> set ys. 0 \<le> d \<and> d < 10"
    and "map digit_unit xs = map digit_unit ys"
  shows "xs = ys"
proof (rule map_inj_on [OF assms(3)])
  show "inj_on digit_unit (set xs \<union> set ys)"
    using assms(1,2) digit_unit_inj by (auto simp: inj_on_def)
qed

lemma int_string_units: "0 \<le> i \<Longrightarrow> u \<in> set (int_string i) \<Longrightarrow> is_digit_unit u"
  using int_digits_range
  by (fastforce simp: int_string_def is_digit_unit_def in_range_def uint_digit_unit)

lemma int_string_not_Nil [simp]: "int_string i \<noteq> []"
  by (simp add: int_string_def)

lemma int_string_inj_nonneg:
  assumes "0 \<le> i" and "0 \<le> j" and "int_string i = int_string j"
  shows "i = j"
proof -
  from assms have "map digit_unit (int_digits i) = map digit_unit (int_digits j)"
    by (simp add: int_string_def)
  with assms have "int_digits i = int_digits j"
    using map_digit_unit_inj int_digits_range by blast
  then show ?thesis by (metis digits_value_int_digits)
qed

section \<open>Results that may be errors\<close>

text \<open>The \<open>throw new TypeError(message)\<close> and \<open>throw new Error(message)\<close> of the source.\<close>

datatype js_exn = TypeError string | ErrorExn string

type_synonym 'a res = "js_exn + 'a"

definition bindR :: "'a res \<Rightarrow> ('a \<Rightarrow> 'b res) \<Rightarrow> 'b res" where
  "bindR m f = (case m of Inl e \<Rightarrow> Inl e | Inr x \<Rightarrow> f x)"

lemma bindR_simps [simp, res_simps]:
  "bindR (Inl e) f = Inl e"
  "bindR (Inr x) f = f x"
  by (simp_all add: bindR_def)

lemma bindR_Inr_conv [res_simps]:
  "bindR m f = Inr y \<longleftrightarrow> (\<exists>x. m = Inr x \<and> f x = Inr y)"
  by (cases m) auto

lemma bindR_Inl_conv:
  "bindR m f = Inl e \<longleftrightarrow> m = Inl e \<or> (\<exists>x. m = Inr x \<and> f x = Inl e)"
  by (cases m) auto

section \<open>Numbers\<close>

text \<open>
  A JavaScript number is an IEEE double. The finite values are kept as rationals (a value
  that is no double is simply never produced by the code), with the negative zero apart.
\<close>

datatype jsnum = NaN | PosInf | NegInf | NegZero | Fin rat

definition MAX_SAFE_INTEGER :: int where
  "MAX_SAFE_INTEGER = 9007199254740991"

definition safe_int :: "int \<Rightarrow> bool" where
  "safe_int i \<longleftrightarrow> \<bar>i\<bar> \<le> MAX_SAFE_INTEGER"

fun safe_integer :: "jsnum \<Rightarrow> int option" where
  "safe_integer (Fin r) =
     (if of_int \<lfloor>r\<rfloor> = r \<and> safe_int \<lfloor>r\<rfloor> then Some \<lfloor>r\<rfloor> else None)"
| "safe_integer NegZero = Some 0"
| "safe_integer _ = None"

abbreviation num :: "int \<Rightarrow> jsnum" where
  "num i \<equiv> Fin (of_int i)"

lemma safe_integer_num [simp]:
  "safe_integer (num i) = (if safe_int i then Some i else None)"
  by simp

lemma safe_integer_SomeD: "safe_integer x = Some i \<Longrightarrow> safe_int i"
  by (cases x) (auto simp: safe_int_def MAX_SAFE_INTEGER_def split: if_splits)

text \<open>
  Values of type \<open>unknown\<close>: what the validating functions of the runtime receive.
\<close>

datatype jsval =
    Undefined
  | Null
  | Bool bool
  | Num jsnum
  | Str jsstr
  | BigInt int
  | Arr "jsval list"
  | Obj "(jsstr \<times> jsval) list"
  | Opaque nat

section \<open>Plain objects\<close>

text \<open>
  A plain object used as a dictionary is the list of its own properties in insertion order.
  Reading a property that is not its own finds the members of \<open>Object.prototype\<close>; a
  function found there has the given \<open>length\<close>, the accessor \<open>__proto__\<close> none.
\<close>

type_synonym 'v dict = "(jsstr \<times> 'v) list"

datatype 'v property = Own 'v | Inherited "nat option" | Missing

definition object_prototype :: "(jsstr \<times> nat option) list" where
  "object_prototype =
     [(ascii ''constructor'', Some 1), (ascii ''hasOwnProperty'', Some 1),
      (ascii ''isPrototypeOf'', Some 1), (ascii ''propertyIsEnumerable'', Some 1),
      (ascii ''toLocaleString'', Some 0), (ascii ''toString'', Some 0),
      (ascii ''valueOf'', Some 0), (ascii ''__defineGetter__'', Some 2),
      (ascii ''__defineSetter__'', Some 2), (ascii ''__lookupGetter__'', Some 1),
      (ascii ''__lookupSetter__'', Some 1), (ascii ''__proto__'', None)]"

definition inherited :: "jsstr \<Rightarrow> bool" where
  "inherited k \<longleftrightarrow> map_of object_prototype k \<noteq> None"

definition js_get :: "'v dict \<Rightarrow> jsstr \<Rightarrow> 'v property" where
  "js_get d k =
     (case map_of d k of
        Some v \<Rightarrow> Own v
      | None \<Rightarrow> (case map_of object_prototype k of Some n \<Rightarrow> Inherited n | None \<Rightarrow> Missing))"

text \<open>The object \<open>{...d, [k]: v}\<close>: an own property keeps its place, a new one comes last.\<close>

fun js_set :: "jsstr \<Rightarrow> 'v \<Rightarrow> 'v dict \<Rightarrow> 'v dict" where
  "js_set k v [] = [(k, v)]"
| "js_set k v (p # ps) = (if fst p = k then (k, v) # ps else p # js_set k v ps)"

text \<open>
  \<open>Object.values\<close> lists the array indices among the keys first, in ascending order, and
  the other keys in insertion order.
\<close>

definition units_value :: "jsstr \<Rightarrow> int" where
  "units_value k = digits_value 0 (map (\<lambda>u. uint u - 48) k)"

definition array_index :: "jsstr \<Rightarrow> bool" where
  "array_index k \<longleftrightarrow>
     k \<noteq> [] \<and> list_all is_digit_unit k \<and> (k = [digit_unit 0] \<or> hd k \<noteq> digit_unit 0)
     \<and> units_value k < 4294967295"

definition js_values :: "'v dict \<Rightarrow> 'v list" where
  "js_values d =
     map snd (sort_key (\<lambda>p. units_value (fst p)) (filter (\<lambda>p. array_index (fst p)) d)
              @ filter (\<lambda>p. \<not> array_index (fst p)) d)"

definition dict_ok :: "'v dict \<Rightarrow> bool" where
  "dict_ok d \<longleftrightarrow> distinct (map fst d)"

lemma map_of_js_set [simp]: "map_of (js_set k v d) = (map_of d)(k \<mapsto> v)"
  by (induction d) (auto simp: fun_eq_iff)

lemma keys_js_set [simp]: "fst ` set (js_set k v d) = insert k (fst ` set d)"
  by (induction d) auto

lemma dict_ok_Nil [simp]: "dict_ok []"
  by (simp add: dict_ok_def)

lemma dict_ok_js_set [simp]: "dict_ok d \<Longrightarrow> dict_ok (js_set k v d)"
proof (induction d)
  case Nil
  then show ?case by (simp add: dict_ok_def)
next
  case (Cons p d)
  then show ?case by (auto simp: dict_ok_def)
qed

lemma js_get_Own_iff: "js_get d k = Own v \<longleftrightarrow> map_of d k = Some v"
  by (auto simp: js_get_def split: option.splits)

lemma js_get_Missing_iff: "js_get d k = Missing \<longleftrightarrow> map_of d k = None \<and> \<not> inherited k"
  by (auto simp: js_get_def inherited_def split: option.splits)

lemma js_get_not_inherited:
  "\<not> inherited k \<Longrightarrow> js_get d k = (case map_of d k of Some v \<Rightarrow> Own v | None \<Rightarrow> Missing)"
  by (auto simp: js_get_Missing_iff js_get_Own_iff split: option.splits)

lemma js_get_cases [case_names Own Inherited Missing]:
  assumes "\<And>v. js_get d k = Own v \<Longrightarrow> map_of d k = Some v \<Longrightarrow> P"
    and "\<And>n. js_get d k = Inherited n \<Longrightarrow> map_of d k = None \<Longrightarrow> inherited k \<Longrightarrow> P"
    and "js_get d k = Missing \<Longrightarrow> map_of d k = None \<Longrightarrow> \<not> inherited k \<Longrightarrow> P"
  shows P
proof (cases "js_get d k")
  case (Inherited n)
  then have "map_of d k = None \<and> inherited k"
    by (auto simp: js_get_def inherited_def split: option.splits)
  with Inherited assms(2) show P by blast
qed (use assms in \<open>auto simp: js_get_Missing_iff js_get_Own_iff\<close>)

lemma js_set_same [simp]: "map_of d k = Some v \<Longrightarrow> js_set k v d = d"
  by (induction d) (auto split: if_splits)

text \<open>
  Sums over the values of a dictionary: what one assignment changes of them. The counters
  of the ledger are such sums.
\<close>

definition dict_sum :: "('v \<Rightarrow> int) \<Rightarrow> 'v dict \<Rightarrow> int" where
  "dict_sum f d = sum_list (map (\<lambda>p. f (snd p)) d)"

lemma dict_sum_js_set:
  assumes "dict_ok d"
  shows "dict_sum f (js_set k v d)
     = dict_sum f d + f v - (case map_of d k of Some w \<Rightarrow> f w | None \<Rightarrow> 0)"
  using assms
proof (induction d)
  case Nil
  then show ?case by (simp add: dict_sum_def)
next
  case (Cons p d)
  show ?case
  proof (cases "fst p = k")
    case True
    then show ?thesis by (cases p) (auto simp: dict_sum_def)
  next
    case False
    with Cons show ?thesis by (cases p) (auto simp: dict_sum_def dict_ok_def)
  qed
qed

lemma dict_sum_zero: "(\<And>k v. (k, v) \<in> set d \<Longrightarrow> f v = 0) \<Longrightarrow> dict_sum f d = 0"
  by (induction d) (force simp: dict_sum_def)+

lemma dict_sum_nonneg: "(\<And>k v. (k, v) \<in> set d \<Longrightarrow> 0 \<le> f v) \<Longrightarrow> 0 \<le> dict_sum f d"
  by (induction d) (force simp: dict_sum_def)+

lemma dict_sum_ge_member:
  "(\<And>k v. (k, v) \<in> set d \<Longrightarrow> 0 \<le> f v) \<Longrightarrow> map_of d k = Some v \<Longrightarrow> f v \<le> dict_sum f d"
proof (induction d)
  case Nil
  then show ?case by simp
next
  case (Cons p d)
  have "0 \<le> dict_sum f d" using Cons.prems(1) by (intro dict_sum_nonneg) auto
  moreover have "0 \<le> f (snd p)" using Cons.prems(1) [of "fst p" "snd p"] by simp
  moreover have "fst p \<noteq> k \<Longrightarrow> f v \<le> dict_sum f d"
    using Cons.prems by (intro Cons.IH) (auto split: if_splits)
  ultimately show ?case
    using Cons.prems(2) by (cases "fst p = k") (auto simp: dict_sum_def)
qed

end
