(* ===== verification/Identity.thy ===== *)
theory Identity
  imports Prelude
begin

text \<open>
  The identity vocabulary of \<open>runtime/outbound/identity.ts\<close>: tenant, budget pool,
  correlation and invocation identifiers, and the invocation context with its nesting rule.
\<close>

section \<open>Checked identifiers\<close>

definition identity_unit :: "code_unit \<Rightarrow> bool" where
  "identity_unit u \<longleftrightarrow> is_alnum_unit u \<or> u \<in> set (ascii ''._:-'')"

text \<open>
  The pattern \<open>^[A-Za-z0-9][A-Za-z0-9._:-]{0,n}$\<close>, with \<open>n\<close> = 127 for identifiers and
  63 for schedule and policy versions.
\<close>

definition identity_pattern :: "nat \<Rightarrow> jsstr \<Rightarrow> bool" where
  "identity_pattern n s =
     (case s of
        [] \<Rightarrow> False
      | u # us \<Rightarrow> is_alnum_unit u \<and> list_all identity_unit us \<and> length us \<le> n)"

definition IDENTITY_PATTERN :: "jsstr \<Rightarrow> bool" where
  "IDENTITY_PATTERN s = identity_pattern 127 s"

definition checkIdentity :: "string \<Rightarrow> jsval \<Rightarrow> jsstr res" where
  "checkIdentity kind v =
     (case v of
        Str s \<Rightarrow> if IDENTITY_PATTERN s then Inr s else Inl (TypeError (''invalid '' @ kind))
      | _ \<Rightarrow> Inl (TypeError (''invalid '' @ kind)))"

definition identityValue :: "string \<Rightarrow> jsval \<Rightarrow> jsstr res" where
  "identityValue kind v =
     (case v of
        Str s \<Rightarrow>
          if s = [] \<or> 256 < length s \<or> \<not> isWellFormed s \<or> 0 \<in> set s
          then Inl (TypeError (''invalid '' @ kind)) else Inr s
      | _ \<Rightarrow> Inl (TypeError (''invalid '' @ kind)))"

definition tenantId :: "jsval \<Rightarrow> jsstr res" where
  "tenantId v = checkIdentity ''tenant'' v"

definition poolId :: "jsval \<Rightarrow> jsstr res" where
  "poolId v = checkIdentity ''budget pool'' v"

definition correlationId :: "jsval \<Rightarrow> jsstr res" where
  "correlationId v = checkIdentity ''correlation'' v"

definition invocationId :: "jsval \<Rightarrow> jsstr res" where
  "invocationId v = checkIdentity ''invocation'' v"

lemmas id_defs = tenantId_def poolId_def correlationId_def invocationId_def checkIdentity_def

section \<open>Invocation contexts\<close>

record invocation_context =
  ctx_tenant :: jsstr
  ctx_pool :: jsstr
  ctx_correlation :: jsstr

text \<open>
  The parameter \<open>fresh\<close> is the identifier \<open>crypto.randomUUID()\<close> returns when the caller
  passes no correlation.
\<close>

definition invocationContext :: "jsstr \<Rightarrow> jsval \<Rightarrow> jsval \<Rightarrow> jsval \<Rightarrow> invocation_context res" where
  "invocationContext fresh tenant pool correlation =
     (let c = (if correlation = Undefined then Str fresh else correlation) in
      bindR (tenantId tenant) (\<lambda>t.
      bindR (poolId pool) (\<lambda>p.
      bindR (correlationId c) (\<lambda>k.
        Inr \<lparr>ctx_tenant = t, ctx_pool = p, ctx_correlation = k\<rparr>))))"

definition identity_string :: "jsval \<Rightarrow> bool" where
  "identity_string v = (case v of Str s \<Rightarrow> IDENTITY_PATTERN s | _ \<Rightarrow> False)"

definition obj_field :: "jsval dict \<Rightarrow> string \<Rightarrow> jsval" where
  "obj_field ps k = (case map_of ps (ascii k) of Some v \<Rightarrow> v | None \<Rightarrow> Undefined)"

definition isInvocationContext :: "jsval \<Rightarrow> bool" where
  "isInvocationContext v =
     (case v of
        Obj ps \<Rightarrow> identity_string (obj_field ps ''tenant'')
          \<and> identity_string (obj_field ps ''pool'')
          \<and> identity_string (obj_field ps ''correlation'')
      | _ \<Rightarrow> False)"

definition nestContext ::
  "invocation_context \<Rightarrow> invocation_context \<Rightarrow> invocation_context res" where
  "nestContext active next =
     (if ctx_tenant active \<noteq> ctx_tenant next \<or> ctx_pool active \<noteq> ctx_pool next
      then Inl (TypeError ''nested scope cannot replace tenant/pool'')
      else Inr active)"

definition contextReport :: "invocation_context \<Rightarrow> jsval" where
  "contextReport c =
     Obj [(ascii ''tenant'', Str (ctx_tenant c)), (ascii ''pool'', Str (ctx_pool c)),
          (ascii ''correlation'', Str (ctx_correlation c))]"

section \<open>Lemmas\<close>

lemma checkIdentity_Inr [res_simps]:
  "checkIdentity kind v = Inr s \<longleftrightarrow> v = Str s \<and> IDENTITY_PATTERN s"
  by (auto simp: checkIdentity_def split: jsval.splits if_splits)

lemma ids_Inr [res_simps]:
  "tenantId v = Inr s \<longleftrightarrow> v = Str s \<and> IDENTITY_PATTERN s"
  "poolId v = Inr s \<longleftrightarrow> v = Str s \<and> IDENTITY_PATTERN s"
  "correlationId v = Inr s \<longleftrightarrow> v = Str s \<and> IDENTITY_PATTERN s"
  "invocationId v = Inr s \<longleftrightarrow> v = Str s \<and> IDENTITY_PATTERN s"
  by (simp_all add: tenantId_def poolId_def correlationId_def invocationId_def checkIdentity_Inr)

lemma identityValue_Inr [res_simps]:
  "identityValue kind v = Inr s \<longleftrightarrow>
     v = Str s \<and> s \<noteq> [] \<and> length s \<le> 256 \<and> isWellFormed s \<and> 0 \<notin> set s"
  by (auto simp: identityValue_def split: jsval.splits if_splits)

lemma identity_unit_code: "identity_unit u \<Longrightarrow> 45 \<le> uint u \<and> uint u \<le> 122"
  by (auto simp: identity_unit_def unit_defs)

lemma IDENTITY_PATTERN_units: "IDENTITY_PATTERN s \<Longrightarrow> u \<in> set s \<Longrightarrow> identity_unit u"
  by (auto simp: IDENTITY_PATTERN_def identity_pattern_def identity_unit_def list_all_iff
      split: list.splits)

text \<open>The line feed that separates the parts of a ledger key occurs in no identifier.\<close>

lemma IDENTITY_PATTERN_no_newline: "IDENTITY_PATTERN s \<Longrightarrow> 10 \<notin> set s"
  using IDENTITY_PATTERN_units identity_unit_code [of 10] by fastforce

lemma isInvocationContext_report:
  "IDENTITY_PATTERN (ctx_tenant c) \<Longrightarrow> IDENTITY_PATTERN (ctx_pool c) \<Longrightarrow>
   IDENTITY_PATTERN (ctx_correlation c) \<Longrightarrow> isInvocationContext (contextReport c)"
  by (simp add: isInvocationContext_def contextReport_def obj_field_def identity_string_def
      ascii_def unit_of_char_def)

end
