(* ===== verification/JsNumber.thy ===== *)
theory JsNumber
  imports Prelude
begin

text \<open>
  Double precision arithmetic on safe integers. The runtime computes epochs, budgets and
  counters with JavaScript numbers; the lemmas say where the double operations are exact
  and that leaving the safe range is always detected by \<open>Number.isSafeInteger\<close>.
\<close>

section \<open>Operations\<close>

text \<open>
  Rounding to the nearest double (ties to the even significand). Exponents are unbounded
  here: the code only divides, adds and multiplies safe integers, whose results are far
  from the overflow and underflow thresholds.
\<close>

definition round_half_even :: "rat \<Rightarrow> int" where
  "round_half_even y =
     (let f = \<lfloor>y\<rfloor>; d = y - of_int f in
      if d < 1 / 2 then f
      else if 1 / 2 < d then f + 1
      else if even f then f else f + 1)"

definition rat_log2 :: "rat \<Rightarrow> int" where
  "rat_log2 x =
     (let (a, b) = quotient_of x; k = bitlen a - bitlen b in
      if (2::rat) powi k \<le> x then k else k - 1)"

definition fl :: "rat \<Rightarrow> rat" where
  "fl x =
     (if x = 0 then 0
      else let s = rat_log2 \<bar>x\<bar> - 52 in
        sgn x * (of_int (round_half_even (\<bar>x\<bar> * 2 powi (- s))) * 2 powi s))"

definition js_add :: "int \<Rightarrow> int \<Rightarrow> int" where
  "js_add a b = \<lfloor>fl (of_int (a + b))\<rfloor>"

definition js_sub :: "int \<Rightarrow> int \<Rightarrow> int" where
  "js_sub a b = \<lfloor>fl (of_int (a - b))\<rfloor>"

definition js_mul :: "int \<Rightarrow> int \<Rightarrow> int" where
  "js_mul a b = \<lfloor>fl (of_int (a * b))\<rfloor>"

text \<open>\<open>Math.floor(a / b)\<close>: the quotient is rounded before the floor is taken.\<close>

definition js_floor_div :: "int \<Rightarrow> int \<Rightarrow> int" where
  "js_floor_div a b = \<lfloor>fl (of_int a / of_int b)\<rfloor>"

text \<open>The remainder of doubles is exact; its sign is the dividend's.\<close>

definition js_rem :: "int \<Rightarrow> int \<Rightarrow> int" where
  "js_rem a b = sgn a * (\<bar>a\<bar> mod \<bar>b\<bar>)"

lemmas js_arith_defs = js_add_def js_sub_def js_mul_def js_floor_div_def

section \<open>Rounding\<close>

lemma round_half_even_int [simp]: "round_half_even (of_int n) = n"
  by (simp add: round_half_even_def)

lemma round_half_even_ge: "of_int n \<le> y \<Longrightarrow> n \<le> round_half_even y"
  by (auto simp: round_half_even_def Let_def le_floor_iff) linarith

lemma round_half_even_le: "y \<le> of_int n \<Longrightarrow> round_half_even y \<le> n"
proof -
  assume y: "y \<le> of_int n"
  show ?thesis
  proof (cases "\<lfloor>y\<rfloor> = n")
    case True
    with y have "y = of_int n" by linarith
    then show ?thesis by simp
  next
    case False
    with y have "\<lfloor>y\<rfloor> < n" by linarith
    then show ?thesis by (auto simp: round_half_even_def Let_def)
  qed
qed

lemma round_half_even_less: "y < of_int n - 1 / 2 \<Longrightarrow> round_half_even y < n"
  by (auto simp: round_half_even_def Let_def) linarith+

lemma rat_log2_bounds:
  assumes "0 < x"
  shows "(2::rat) powi (rat_log2 x) \<le> x \<and> x < 2 powi (rat_log2 x + 1)"
proof -
  obtain a b where q: "quotient_of x = (a, b)" by (cases "quotient_of x")
  have b: "0 < b" and x: "x = of_int a / of_int b"
    using q quotient_of_denom_pos quotient_of_div by auto
  from assms b x have a: "0 < a" by (simp add: zero_less_divide_iff)
  define k where "k = bitlen a - bitlen b"
  have pa: "2 ^ nat (bitlen a - 1) \<le> a" "a < 2 ^ nat (bitlen a)"
    using bitlen_bounds [OF a] by auto
  have pb: "2 ^ nat (bitlen b - 1) \<le> b" "b < 2 ^ nat (bitlen b)"
    using bitlen_bounds [OF b] by auto
  have la: "0 < bitlen a" and lb: "0 < bitlen b" 
    using a b bitlen_nonneg bitlen_eq_zero_iff by (metis less_le not_less)+
  have powi_nat: "(2::rat) powi n = of_int (2 ^ nat n)" if "0 \<le> n" for n :: int
    using that by (simp add: power_int_def)
  have Pa: "(2::rat) powi (bitlen a - 1) \<le> of_int a" "of_int a < (2::rat) powi bitlen a"
    using pa la by (simp_all add: powi_nat flip: of_int_le_iff of_int_less_iff)
  have Pb: "(2::rat) powi (bitlen b - 1) \<le> of_int b" "of_int b < (2::rat) powi bitlen b"
    using pb lb by (simp_all add: powi_nat flip: of_int_le_iff of_int_less_iff)
  have lo: "(2::rat) powi (k - 1) \<le> x"
  proof -
    have "(2::rat) powi (k - 1) * of_int b \<le> 2 powi (k - 1) * 2 powi bitlen b"
      using Pb(2) by (intro mult_left_mono) auto
    also have "\<dots> = 2 powi (bitlen a - 1)"
      by (simp add: k_def flip: power_int_add)
    also have "\<dots> \<le> of_int a" by (rule Pa)
    finally show ?thesis using b x by (simp add: le_divide_eq)
  qed
  have hi: "x < (2::rat) powi (k + 1)"
  proof -
    have "of_int a < (2::rat) powi bitlen a" by (rule Pa)
    also have "\<dots> = 2 powi (k + 1) * 2 powi (bitlen b - 1)"
      by (simp add: k_def flip: power_int_add)
    also have "\<dots> \<le> 2 powi (k + 1) * of_int b"
      using Pb(1) by (intro mult_left_mono) auto
    finally show ?thesis using b x by (simp add: divide_less_eq)
  qed
  show ?thesis
    using lo hi q by (auto simp: rat_log2_def k_def Let_def not_le)
qed

text \<open>
  The rounded value written with its significand and the weight \<open>2 powi s\<close> of its last bit.
\<close>

lemma fl_pos:
  assumes "0 < x"
  obtains s where "fl x = of_int (round_half_even (x * 2 powi (- s))) * 2 powi s"
    and "(2::rat) powi 52 \<le> x * 2 powi (- s)" and "x * 2 powi (- s) < (2::rat) powi 53"
proof
  define s where "s = rat_log2 x - 52"
  have lo: "2 powi (s + 52) \<le> x" and hi: "x < 2 powi (s + 53)"
    using rat_log2_bounds [OF assms] by (simp_all add: s_def add.commute)
  show "fl x = of_int (round_half_even (x * 2 powi (- s))) * 2 powi s"
    using assms by (simp add: fl_def s_def Let_def)
  have shift: "(2::rat) powi (s + n) * 2 powi (- s) = 2 powi n" for n
    by (simp flip: power_int_add)
  show "(2::rat) powi 52 \<le> x * 2 powi (- s)"
    using mult_right_mono [OF lo, of "2 powi (- s)"] by (simp only: shift) simp
  show "x * 2 powi (- s) < (2::rat) powi 53"
    using mult_strict_right_mono [OF hi, of "2 powi (- s)"] by (simp only: shift) simp
qed

lemma fl_0 [simp]: "fl 0 = 0"
  by (simp add: fl_def)

lemma fl_uminus: "fl (- x) = - fl x"
  by (simp add: fl_def Let_def sgn_minus)

section \<open>Integers\<close>

lemma fl_int_exact:
  assumes "\<bar>n\<bar> \<le> 2 ^ 53"
  shows "fl (of_int n) = of_int n"
proof -
  have pos: "fl (of_int n) = of_int n" if n: "0 < n" "n \<le> 2 ^ 53" for n :: int
  proof -
    obtain s where s: "fl (of_int n) = of_int (round_half_even (of_int n * 2 powi (- s))) * 2 powi s"
      "(2::rat) powi 52 \<le> of_int n * 2 powi (- s)" "of_int n * 2 powi (- s) < (2::rat) powi 53"
      using fl_pos [of "of_int n"] n by auto
    show ?thesis
    proof (cases "s \<le> 0")
      case True
      have "of_int n * (2::rat) powi (- s) = of_int (n * 2 ^ nat (- s))"
        using True by (simp add: power_int_def)
      then have "fl (of_int n) = of_int n * (2 powi (- s) * 2 powi s)"
        using s(1) by (metis mult.assoc round_half_even_int)
      then show ?thesis by (simp flip: power_int_add)
    next
      case False
      then have "of_int n * (2::rat) powi (- s) \<le> of_int n * 2 powi (- 1)"
        using n by (intro mult_left_mono power_int_increasing) auto
      also have "\<dots> \<le> 2 powi 52" using n by (simp add: power_int_def)
      finally have e: "of_int n * (2::rat) powi (- s) = of_int (2 ^ 52)"
        using s(2) by (simp add: power_int_def)
      then have "fl (of_int n) = of_int n * 2 powi (- s) * 2 powi s"
        using s(1) by (metis round_half_even_int)
      then show ?thesis by (simp add: mult.assoc flip: power_int_add)
    qed
  qed
  show ?thesis
  proof (cases n "0 :: int" rule: linorder_cases)
    case less
    with pos [of "- n"] assms show ?thesis by (simp add: fl_uminus)
  qed (use pos assms in auto)
qed

lemma fl_ge_two53:
  assumes "2 ^ 53 \<le> n"
  shows "2 ^ 53 \<le> fl (of_int n)"
proof -
  have n: "(0::rat) < of_int n" "(2::rat) powi 53 \<le> of_int n"
    using assms by (simp_all add: power_int_def flip: of_int_le_iff)
  obtain s where s: "fl (of_int n) = of_int (round_half_even (of_int n * 2 powi (- s))) * 2 powi s"
    "(2::rat) powi 52 \<le> of_int n * 2 powi (- s)" "of_int n * 2 powi (- s) < (2::rat) powi 53"
    using fl_pos [OF n(1)] by auto
  have "1 \<le> s"
  proof (rule ccontr)
    assume "\<not> 1 \<le> s"
    then have "(2::rat) powi 0 \<le> 2 powi (- s)" by (intro power_int_increasing) auto
    then have "of_int n * 1 \<le> of_int n * (2::rat) powi (- s)"
      using n by (intro mult_left_mono) auto
    with s(3) n(2) show False by simp
  qed
  have "2 ^ 52 \<le> round_half_even (of_int n * 2 powi (- s))"
    using s(2) by (intro round_half_even_ge) (simp add: power_int_def)
  then have "(2::rat) powi 52 * 2 powi 1
      \<le> of_int (round_half_even (of_int n * 2 powi (- s))) * 2 powi s"
    using \<open>1 \<le> s\<close> by (intro mult_mono power_int_increasing) (auto simp: power_int_def simp flip: of_int_le_iff)
  then show ?thesis using s(1) by (simp add: power_int_def)
qed

lemma floor_fl_unsafe:
  assumes "\<not> safe_int n"
  shows "\<not> safe_int \<lfloor>fl (of_int n)\<rfloor>"
proof (cases "0 \<le> n")
  case True
  with assms have "2 ^ 53 \<le> n" by (simp add: safe_int_def MAX_SAFE_INTEGER_def)
  from fl_ge_two53 [OF this] have "of_int (2 ^ 53) \<le> fl (of_int n)" by simp
  then have "2 ^ 53 \<le> \<lfloor>fl (of_int n)\<rfloor>" by (simp only: le_floor_iff)
  then show ?thesis by (simp add: safe_int_def MAX_SAFE_INTEGER_def)
next
  case False
  with assms have "2 ^ 53 \<le> - n" by (simp add: safe_int_def MAX_SAFE_INTEGER_def)
  from fl_ge_two53 [OF this] have "fl (of_int n) \<le> - of_int (2 ^ 53)" by (simp add: fl_uminus)
  then have "\<lfloor>fl (of_int n)\<rfloor> \<le> - (2 ^ 53)" by linarith
  moreover have "(2::int) ^ 53 = 9007199254740992" by simp
  ultimately show ?thesis unfolding safe_int_def MAX_SAFE_INTEGER_def by linarith
qed

lemma floor_fl_exact: "\<bar>n\<bar> \<le> 2 ^ 53 \<Longrightarrow> \<lfloor>fl (of_int n)\<rfloor> = n"
  by (simp only: fl_int_exact floor_of_int)

lemma safe_int_le: "safe_int n \<Longrightarrow> \<bar>n\<bar> \<le> 2 ^ 53"
  by (simp add: safe_int_def MAX_SAFE_INTEGER_def)

lemma safe_floor_fl_iff [simp]: "safe_int \<lfloor>fl (of_int n)\<rfloor> \<longleftrightarrow> safe_int n"
  using floor_fl_unsafe floor_fl_exact safe_int_le by metis

lemma js_exact [simp, js_simps]:
  "safe_int (a + b) \<Longrightarrow> js_add a b = a + b"
  "safe_int (a - b) \<Longrightarrow> js_sub a b = a - b"
  "safe_int (a * b) \<Longrightarrow> js_mul a b = a * b"
  unfolding js_arith_defs by (rule floor_fl_exact [OF safe_int_le]; assumption)+

lemma safe_js_iff [simp, js_simps]:
  "safe_int (js_add a b) \<longleftrightarrow> safe_int (a + b)"
  "safe_int (js_sub a b) \<longleftrightarrow> safe_int (a - b)"
  "safe_int (js_mul a b) \<longleftrightarrow> safe_int (a * b)"
  unfolding js_arith_defs by (rule safe_floor_fl_iff)+

lemma js_mul_large:
  assumes "0 \<le> a * b" and "\<not> safe_int (a * b)"
  shows "MAX_SAFE_INTEGER < js_mul a b"
proof -
  from assms have "2 ^ 53 \<le> a * b" by (simp add: safe_int_def MAX_SAFE_INTEGER_def)
  from fl_ge_two53 [OF this] have "of_int (2 ^ 53) \<le> fl (of_int (a * b))" by simp
  then have "2 ^ 53 \<le> js_mul a b" unfolding js_mul_def by (simp only: le_floor_iff)
  then show ?thesis by (simp add: MAX_SAFE_INTEGER_def)
qed

text \<open>
  \<open>Math.floor(a / b)\<close> is the exact integer quotient of nonnegative safe integers: the
  rounding of the quotient never carries it over the next integer.
\<close>

lemma js_floor_div_exact [simp, js_simps]:
  assumes "0 \<le> a" and "safe_int a" and "0 < b"
  shows "js_floor_div a b = a div b"
proof (cases "a = 0")
  case True
  then show ?thesis by (simp add: js_floor_div_def)
next
  case False
  define x where "x = (of_int a / of_int b :: rat)"
  define n where "n = a div b"
  have a: "0 < a" "a < 2 ^ 53"
    using assms False by (simp_all add: safe_int_def MAX_SAFE_INTEGER_def)
  have x0: "0 < x" using a assms by (simp add: x_def)
  obtain s where s: "fl x = of_int (round_half_even (x * 2 powi (- s))) * 2 powi s"
    "(2::rat) powi 52 \<le> x * 2 powi (- s)" "x * 2 powi (- s) < (2::rat) powi 53"
    using fl_pos [OF x0] by auto
  have s0: "s \<le> 0"
  proof (rule ccontr)
    assume "\<not> s \<le> 0"
    then have "x * 2 powi (- s) \<le> x * 2 powi (- 1)"
      using x0 by (intro mult_left_mono power_int_increasing) auto
    also have "x \<le> of_int a" using a assms by (simp add: x_def divide_le_eq)
    finally have "x * 2 powi (- s) < 2 powi 52"
      using a by (simp add: power_int_def flip: of_int_less_iff)
    with s(2) show False by simp
  qed
  define t where "t = nat (- s)"
  have pw: "(2::rat) powi (- s) = of_int (2 ^ t)" "(2::rat) powi s = 1 / of_int (2 ^ t)"
    using s0 by (simp_all add: t_def power_int_def power_one_over field_simps)
  have nx: "of_int n \<le> x" "of_int b * x = of_int a"
    using assms by (simp_all add: n_def x_def floor_divide_of_int_eq)
       (metis floor_divide_of_int_eq of_int_floor_le)
  have "of_int (n * 2 ^ t) \<le> x * 2 powi (- s)"
    using nx by (simp add: pw mult_right_mono)
  then have ge: "n * 2 ^ t \<le> round_half_even (x * 2 powi (- s))" by (rule round_half_even_ge)
  have step: "a + 1 \<le> (n + 1) * b"
    using assms by (simp add: n_def) (metis add.commute distrib_left mult.commute mult.right_neutral
        zless_add1_eq add1_zle_eq div_mult_mod_eq pos_mod_bound add_strict_left_mono)
  have "b < 2 * 2 ^ t"
  proof -
    have "(of_int (2 ^ 52 * b) :: rat) \<le> of_int (a * 2 ^ t)"
      using s(2) [unfolded pw(1)] assms by (simp add: x_def field_simps)
    then have "2 ^ 52 * b \<le> a * 2 ^ t" by (simp only: of_int_le_iff)
    also have "\<dots> < 2 ^ 53 * 2 ^ t" using a by simp
    finally show ?thesis by simp
  qed
  have "of_int b * (x * 2 powi (- s)) < of_int b * (of_int ((n + 1) * 2 ^ t) - 1 / 2)"
  proof -
    have "2 * (a * 2 ^ t) + 2 * 2 ^ t \<le> 2 * ((n + 1) * b * 2 ^ t)"
      using mult_right_mono [OF step, of "2 ^ t"] by (simp add: algebra_simps)
    with \<open>b < 2 * 2 ^ t\<close> have "2 * (a * 2 ^ t) < 2 * ((n + 1) * b * 2 ^ t) - b" by linarith
    then have "(of_int (2 * (a * 2 ^ t)) :: rat) < of_int (2 * ((n + 1) * b * 2 ^ t) - b)"
      by (simp only: of_int_less_iff)
    then show ?thesis
      by (simp add: pw field_simps flip: nx(2))
  qed
  then have lt: "round_half_even (x * 2 powi (- s)) < (n + 1) * 2 ^ t"
    using assms by (intro round_half_even_less) simp
  define r where "r = round_half_even (x * 2 powi (- s))"
  have "(of_int (n * 2 ^ t) :: rat) \<le> of_int r" and "(of_int r :: rat) < of_int ((n + 1) * 2 ^ t)"
    using ge lt by (simp_all only: r_def of_int_le_iff of_int_less_iff)
  moreover have "fl x = of_int r / of_int (2 ^ t)" using s(1) by (simp add: r_def pw)
  ultimately have "of_int n \<le> fl x" and "fl x < of_int n + 1"
    by (simp_all add: le_divide_eq divide_less_eq)
  then have "\<lfloor>fl x\<rfloor> = n" by (simp add: floor_eq_iff)
  then show ?thesis by (simp add: js_floor_div_def x_def n_def)
qed

lemma js_rem_mod [simp, js_simps]: "0 \<le> a \<Longrightarrow> 0 < b \<Longrightarrow> js_rem a b = a mod b"
  by (cases "a = 0") (simp_all add: js_rem_def)

end
