(* ===== verification/Epoch.thy ===== *)
theory Epoch
  imports Identity JsNumber
begin

text \<open>
  The fixed-epoch schedules of \<open>runtime/outbound/epoch.ts\<close>: the half-open epoch that holds
  a clock reading, and the validated transition to a new schedule at a boundary of the old.
\<close>

section \<open>Schedules\<close>

record epoch_schedule =
  sch_pool :: jsstr
  sch_limit :: int
  sch_periodMs :: int
  sch_anchorMs :: int
  sch_version :: jsstr

record epoch_bounds =
  ep_start :: int
  ep_end :: int

definition VERSION_PATTERN :: "jsstr \<Rightarrow> bool" where
  "VERSION_PATTERN s = identity_pattern 63 s"

definition checkTokens :: "string \<Rightarrow> jsval \<Rightarrow> int \<Rightarrow> int res" where
  "checkTokens name v minimum =
     (case v of
        Num n \<Rightarrow>
          (case safe_integer n of
             Some i \<Rightarrow>
               if i < minimum then Inl (TypeError (''invalid epoch '' @ name)) else Inr i
           | None \<Rightarrow> Inl (TypeError (''invalid epoch '' @ name)))
      | _ \<Rightarrow> Inl (TypeError (''invalid epoch '' @ name)))"

definition checkVersion :: "jsval \<Rightarrow> jsstr res" where
  "checkVersion v =
     (case v of
        Str s \<Rightarrow> if VERSION_PATTERN s then Inr s else Inl (TypeError ''invalid epoch version'')
      | _ \<Rightarrow> Inl (TypeError ''invalid epoch version''))"

record schedule_init =
  init_pool :: jsval
  init_limit :: jsval
  init_periodMs :: jsval
  init_anchorMs :: jsval
  init_version :: jsval

definition epochSchedule :: "schedule_init \<Rightarrow> epoch_schedule res" where
  "epochSchedule i =
     bindR (poolId (init_pool i)) (\<lambda>pool.
     bindR (checkTokens ''limit'' (init_limit i) 0) (\<lambda>limit.
     bindR (checkTokens ''period'' (init_periodMs i) 1) (\<lambda>periodMs.
     bindR (checkTokens ''anchor'' (init_anchorMs i) 0) (\<lambda>anchorMs.
     bindR (checkVersion (init_version i)) (\<lambda>version.
       Inr \<lparr>sch_pool = pool, sch_limit = limit, sch_periodMs = periodMs,
            sch_anchorMs = anchorMs, sch_version = version\<rparr>)))))"

definition epochContaining :: "epoch_schedule \<Rightarrow> int \<Rightarrow> epoch_bounds option res" where
  "epochContaining schedule nowMs =
     bindR (checkTokens ''clock'' (Num (num nowMs)) 0) (\<lambda>_.
       if nowMs < sch_anchorMs schedule then Inr None
       else
         let elapsed = js_sub nowMs (sch_anchorMs schedule);
             start = js_add (sch_anchorMs schedule)
                       (js_mul (js_floor_div elapsed (sch_periodMs schedule)) (sch_periodMs schedule));
             end_ms = js_add start (sch_periodMs schedule)
         in if \<not> safe_int end_ms then Inl (TypeError ''epoch end unrepresentable'')
            else Inr (Some \<lparr>ep_start = start, ep_end = end_ms\<rparr>))"

section \<open>Transitions\<close>

record schedule_change =
  chg_limit :: jsval
  chg_periodMs :: jsval
  chg_anchorMs :: jsval
  chg_version :: jsval

text \<open>The first boundary of a schedule at or after the clock.\<close>

definition transition_boundary :: "epoch_schedule \<Rightarrow> int \<Rightarrow> int" where
  "transition_boundary current nowMs =
     (if nowMs < sch_anchorMs current then sch_anchorMs current
      else
        let elapsed = js_sub nowMs (sch_anchorMs current);
            offset = js_floor_div elapsed (sch_periodMs current)
        in if js_rem elapsed (sch_periodMs current) = 0 then nowMs
           else js_add (sch_anchorMs current)
                  (js_mul (js_add offset 1) (sch_periodMs current)))"

definition transitionSchedule ::
  "epoch_schedule \<Rightarrow> schedule_change \<Rightarrow> int \<Rightarrow> epoch_schedule res" where
  "transitionSchedule current change nowMs =
     bindR (checkTokens ''clock'' (Num (num nowMs)) 0) (\<lambda>_.
     bindR (checkVersion (chg_version change)) (\<lambda>version.
       if version = sch_version current then Inl (TypeError ''schedule version must advance'')
       else
     bindR (if chg_limit change = Undefined then Inr (sch_limit current)
            else checkTokens ''limit'' (chg_limit change) 0) (\<lambda>limit.
     bindR (if chg_periodMs change = Undefined then Inr (sch_periodMs current)
            else checkTokens ''period'' (chg_periodMs change) 1) (\<lambda>periodMs.
       let boundary = transition_boundary current nowMs in
       if \<not> safe_int boundary then Inl (TypeError ''schedule boundary unrepresentable'')
       else
     bindR (if chg_anchorMs change = Undefined then Inr boundary
            else bindR (checkTokens ''anchor'' (chg_anchorMs change) 0) (\<lambda>anchorMs.
              if anchorMs < boundary \<or> anchorMs < sch_anchorMs current
                 \<or> js_rem (js_sub anchorMs (sch_anchorMs current)) (sch_periodMs current) \<noteq> 0
              then Inl (TypeError ''schedule anchor must be a future boundary of the old schedule'')
              else Inr anchorMs)) (\<lambda>anchorMs.
       Inr \<lparr>sch_pool = sch_pool current, sch_limit = limit, sch_periodMs = periodMs,
            sch_anchorMs = anchorMs, sch_version = version\<rparr>)))))"

section \<open>Well-formed schedules\<close>

definition schedule_ok :: "epoch_schedule \<Rightarrow> bool" where
  "schedule_ok s \<longleftrightarrow>
     IDENTITY_PATTERN (sch_pool s) \<and> VERSION_PATTERN (sch_version s)
     \<and> 0 \<le> sch_limit s \<and> safe_int (sch_limit s)
     \<and> 1 \<le> sch_periodMs s \<and> safe_int (sch_periodMs s)
     \<and> 0 \<le> sch_anchorMs s \<and> safe_int (sch_anchorMs s)"

text \<open>A time is a boundary of a schedule when an epoch of the schedule starts there.\<close>

definition boundary_of :: "epoch_schedule \<Rightarrow> int \<Rightarrow> bool" where
  "boundary_of s t \<longleftrightarrow> sch_anchorMs s \<le> t \<and> (t - sch_anchorMs s) mod sch_periodMs s = 0"

lemma checkTokens_Inr [res_simps]:
  "checkTokens name v m = Inr i \<longleftrightarrow> (\<exists>n. v = Num n \<and> safe_integer n = Some i \<and> m \<le> i)"
  by (auto simp: checkTokens_def split: jsval.splits option.splits if_splits)

lemma checkTokens_safe: "checkTokens name v m = Inr i \<Longrightarrow> safe_int i \<and> m \<le> i"
  by (auto simp: checkTokens_Inr dest: safe_integer_SomeD)

lemma checkTokens_num [res_simps]:
  "checkTokens name (Num (num i)) m
     = (if safe_int i \<and> m \<le> i then Inr i else Inl (TypeError (''invalid epoch '' @ name)))"
  by (simp add: checkTokens_def)

lemma checkVersion_Inr [res_simps]: "checkVersion v = Inr s \<longleftrightarrow> v = Str s \<and> VERSION_PATTERN s"
  by (auto simp: checkVersion_def split: jsval.splits if_splits)

lemma epochSchedule_ok: "epochSchedule i = Inr s \<Longrightarrow> schedule_ok s"
  by (auto simp: epochSchedule_def schedule_ok_def res_simps dest: safe_integer_SomeD)

lemma safe_int_between: "0 \<le> i \<Longrightarrow> i \<le> j \<Longrightarrow> safe_int j \<Longrightarrow> safe_int i"
  by (simp add: safe_int_def)

lemma elapsed_start:
  assumes "schedule_ok s" and "sch_anchorMs s \<le> now" and "safe_int now"
  defines "elapsed \<equiv> now - sch_anchorMs s"
  defines "start \<equiv> sch_anchorMs s + elapsed div sch_periodMs s * sch_periodMs s"
  shows "js_sub now (sch_anchorMs s) = elapsed"
    and "js_add (sch_anchorMs s)
           (js_mul (js_floor_div elapsed (sch_periodMs s)) (sch_periodMs s)) = start"
    and "sch_anchorMs s \<le> start" and "start \<le> now" and "now < start + sch_periodMs s"
proof -
  have p: "1 \<le> sch_periodMs s" and a: "0 \<le> sch_anchorMs s"
    using assms(1) by (simp_all add: schedule_ok_def)
  have e: "0 \<le> elapsed" "elapsed \<le> now" using assms(2) a by (simp_all add: elapsed_def)
  have se: "safe_int elapsed" using e assms(3) safe_int_between by blast
  then show sub: "js_sub now (sch_anchorMs s) = elapsed" by (simp add: elapsed_def)
  have q: "elapsed div sch_periodMs s * sch_periodMs s \<le> elapsed"
    using p by (simp add: minus_mod_eq_div_mult [symmetric])
  have q0: "0 \<le> elapsed div sch_periodMs s * sch_periodMs s"
    using e p by (simp add: pos_imp_zdiv_nonneg_iff)
  show "sch_anchorMs s \<le> start" using q0 by (simp add: start_def)
  show le: "start \<le> now" using q by (simp add: start_def elapsed_def)
  have "elapsed mod sch_periodMs s < sch_periodMs s" using p by simp
  then show "now < start + sch_periodMs s"
    by (simp add: start_def elapsed_def minus_mod_eq_div_mult [symmetric])
  have "safe_int (elapsed div sch_periodMs s * sch_periodMs s)"
    using q q0 se safe_int_between by blast
  moreover have "safe_int start"
    using le assms(3) a q0 safe_int_between by (metis add_nonneg_nonneg start_def)
  ultimately show "js_add (sch_anchorMs s)
           (js_mul (js_floor_div elapsed (sch_periodMs s)) (sch_periodMs s)) = start"
    using e se p by (simp add: start_def)
qed

text \<open>The exact value of \<open>epochContaining\<close> on a well-formed schedule.\<close>

lemma epochContaining_eq:
  assumes "schedule_ok s" and "0 \<le> now" and "safe_int now"
  shows "epochContaining s now =
    (if now < sch_anchorMs s then Inr None
     else let start = sch_anchorMs s + (now - sch_anchorMs s) div sch_periodMs s * sch_periodMs s in
       if \<not> safe_int (start + sch_periodMs s) then Inl (TypeError ''epoch end unrepresentable'')
       else Inr (Some \<lparr>ep_start = start, ep_end = start + sch_periodMs s\<rparr>))"
proof (cases "now < sch_anchorMs s")
  case True
  with assms show ?thesis by (simp add: epochContaining_def res_simps)
next
  case False
  then have "sch_anchorMs s \<le> now" by simp
  note e = elapsed_start [OF assms(1) this assms(3)]
  from False assms e(1,2) show ?thesis
    by (auto simp: epochContaining_def res_simps Let_def)
qed

lemma epochContaining_Some:
  assumes "schedule_ok s" and "epochContaining s now = Inr (Some e)"
  shows "boundary_of s (ep_start e)" and "ep_end e = ep_start e + sch_periodMs s"
    and "ep_start e \<le> now" and "now < ep_end e" and "0 \<le> ep_start e" and "safe_int (ep_end e)"
    and "sch_anchorMs s \<le> now" and "safe_int now"
proof -
  from assms(2) have now: "0 \<le> now" "safe_int now"
    by (auto simp: epochContaining_def res_simps split: if_splits)
  from assms(2) epochContaining_eq [OF assms(1) now] have anc: "sch_anchorMs s \<le> now"
    and e: "e = \<lparr>ep_start = sch_anchorMs s
              + (now - sch_anchorMs s) div sch_periodMs s * sch_periodMs s,
            ep_end = sch_anchorMs s
              + (now - sch_anchorMs s) div sch_periodMs s * sch_periodMs s + sch_periodMs s\<rparr>"
    and se: "safe_int (ep_end e)"
    by (auto simp: Let_def split: if_splits)
  note el = elapsed_start [OF assms(1) anc now(2)]
  show "boundary_of s (ep_start e)" using el(3) e by (simp add: boundary_of_def)
  show "ep_end e = ep_start e + sch_periodMs s" "ep_start e \<le> now" "now < ep_end e"
    using e el(4,5) by simp_all
  show "0 \<le> ep_start e" using e el(3) assms(1) by (simp add: schedule_ok_def)
  show "safe_int (ep_end e)" by (rule se)
  show "sch_anchorMs s \<le> now" "safe_int now" using anc now by simp_all
qed

section \<open>Boundaries\<close>

lemma boundary_of_anchor [simp]: "boundary_of s (sch_anchorMs s)"
  by (simp add: boundary_of_def)

text \<open>Between two boundaries of a schedule there is room for a whole epoch.\<close>

lemma boundary_room:
  assumes "schedule_ok s" and "boundary_of s t" and "boundary_of s b" and "t < b"
  shows "t + sch_periodMs s \<le> b"
proof -
  from assms have "sch_periodMs s dvd t - sch_anchorMs s" "sch_periodMs s dvd b - sch_anchorMs s"
    by (simp_all add: boundary_of_def dvd_eq_mod_eq_0)
  then have "sch_periodMs s dvd (b - sch_anchorMs s) - (t - sch_anchorMs s)" by (rule dvd_diff [rotated])
  then have "sch_periodMs s dvd b - t" by simp
  then have "sch_periodMs s \<le> b - t" using assms(4) by (intro zdvd_imp_le) auto
  then show ?thesis by simp
qed

lemma transition_boundary_eq:
  assumes s: "schedule_ok s" and now: "sch_anchorMs s \<le> now" "safe_int now"
    and off: "(now - sch_anchorMs s) mod sch_periodMs s \<noteq> 0"
    and safe: "safe_int (transition_boundary s now)"
  shows "transition_boundary s now
    = sch_anchorMs s + ((now - sch_anchorMs s) div sch_periodMs s + 1) * sch_periodMs s"
proof -
  let ?e = "now - sch_anchorMs s" and ?p = "sch_periodMs s" and ?a = "sch_anchorMs s"
  have p: "1 \<le> ?p" and a: "0 \<le> ?a" using s by (simp_all add: schedule_ok_def)
  have e: "0 \<le> ?e" using now by simp
  have se: "safe_int ?e" using e a now by (intro safe_int_between [of ?e now]) auto
  have q0: "0 \<le> ?e div ?p" using e p by (simp add: pos_imp_zdiv_nonneg_iff)
  have "?e div ?p * 1 \<le> ?e div ?p * ?p" using p q0 by (intro mult_left_mono) auto
  moreover have "?e div ?p * ?p < ?e"
  proof -
    have "0 \<le> ?e mod ?p" using p by simp
    with off have "0 < ?e mod ?p" by linarith
    then show ?thesis by (simp add: minus_mod_eq_div_mult [symmetric])
  qed
  ultimately have "safe_int (?e div ?p + 1)"
    using se q0 by (intro safe_int_between [of "?e div ?p + 1" ?e]) auto
  then have b: "transition_boundary s now = js_add ?a (js_mul (?e div ?p + 1) ?p)"
    using now e se p off by (simp add: transition_boundary_def Let_def)
  have "safe_int ((?e div ?p + 1) * ?p)"
  proof (rule ccontr)
    assume "\<not> safe_int ((?e div ?p + 1) * ?p)"
    then have "MAX_SAFE_INTEGER < js_mul (?e div ?p + 1) ?p"
      using q0 p by (intro js_mul_large) auto
    then have "\<not> safe_int (?a + js_mul (?e div ?p + 1) ?p)" using a by (simp add: safe_int_def)
    with safe b show False by simp
  qed
  with safe b show ?thesis by simp
qed

lemma transition_boundary_props:
  assumes s: "schedule_ok s" and now: "0 \<le> now" "safe_int now"
    and safe: "safe_int (transition_boundary s now)"
  shows "boundary_of s (transition_boundary s now) \<and> now \<le> transition_boundary s now"
proof -
  let ?e = "now - sch_anchorMs s" and ?p = "sch_periodMs s" and ?a = "sch_anchorMs s"
  have p: "1 \<le> ?p" using s by (simp add: schedule_ok_def)
  consider "now < ?a" | "?a \<le> now" "?e mod ?p = 0" | "?a \<le> now" "?e mod ?p \<noteq> 0" by linarith
  then show ?thesis
  proof cases
    case 1
    then show ?thesis by (simp add: transition_boundary_def)
  next
    case 2
    have "safe_int ?e" using 2(1) s now
      by (intro safe_int_between [of ?e now]) (auto simp: schedule_ok_def)
    with 2 p show ?thesis by (simp add: transition_boundary_def Let_def boundary_of_def)
  next
    case 3
    have b: "transition_boundary s now = ?a + (?e div ?p + 1) * ?p"
      using transition_boundary_eq s 3 now safe by blast
    have "0 \<le> ?e div ?p" using 3 p by (simp add: pos_imp_zdiv_nonneg_iff)
    moreover have "?e < (?e div ?p + 1) * ?p"
      using p by (simp add: distrib_right minus_mod_eq_div_mult [symmetric])
    ultimately show ?thesis using b p by (simp add: boundary_of_def)
  qed
qed

text \<open>
  What an accepted transition guarantees: the new schedule is well formed, belongs to the
  same pool, has a new version, and is anchored at a boundary of the old one that is not in
  the past.
\<close>

lemma transitionSchedule_InrE:
  assumes "transitionSchedule s c now = Inr s'"
  obtains version limit periodMs anchorMs where
    "checkTokens ''clock'' (Num (num now)) 0 = Inr now"
    "checkVersion (chg_version c) = Inr version" "version \<noteq> sch_version s"
    "limit = sch_limit s \<or> checkTokens ''limit'' (chg_limit c) 0 = Inr limit"
    "periodMs = sch_periodMs s \<or> checkTokens ''period'' (chg_periodMs c) 1 = Inr periodMs"
    "safe_int (transition_boundary s now)"
    "anchorMs = transition_boundary s now \<or>
       checkTokens ''anchor'' (chg_anchorMs c) 0 = Inr anchorMs
       \<and> transition_boundary s now \<le> anchorMs \<and> sch_anchorMs s \<le> anchorMs
       \<and> js_rem (js_sub anchorMs (sch_anchorMs s)) (sch_periodMs s) = 0"
    "s' = \<lparr>sch_pool = sch_pool s, sch_limit = limit, sch_periodMs = periodMs,
          sch_anchorMs = anchorMs, sch_version = version\<rparr>"
  using assms unfolding transitionSchedule_def bindR_Inr_conv Let_def
  by (auto simp: bindR_Inr_conv checkTokens_num not_less split: if_splits)

lemma transitionSchedule_Inr:
  assumes s: "schedule_ok s" and t: "transitionSchedule s c now = Inr s'"
  shows "schedule_ok s'" and "sch_pool s' = sch_pool s" and "sch_version s' \<noteq> sch_version s"
    and "boundary_of s (sch_anchorMs s')" and "now \<le> sch_anchorMs s'"
proof -
  let ?b = "transition_boundary s now"
  obtain version limit periodMs anchorMs where
    now: "checkTokens ''clock'' (Num (num now)) 0 = Inr now"
    and v: "checkVersion (chg_version c) = Inr version" "version \<noteq> sch_version s"
    and l: "limit = sch_limit s \<or> checkTokens ''limit'' (chg_limit c) 0 = Inr limit"
    and p: "periodMs = sch_periodMs s \<or> checkTokens ''period'' (chg_periodMs c) 1 = Inr periodMs"
    and b: "safe_int ?b"
    and a: "anchorMs = ?b \<or> checkTokens ''anchor'' (chg_anchorMs c) 0 = Inr anchorMs
       \<and> ?b \<le> anchorMs \<and> sch_anchorMs s \<le> anchorMs
       \<and> js_rem (js_sub anchorMs (sch_anchorMs s)) (sch_periodMs s) = 0"
    and s': "s' = \<lparr>sch_pool = sch_pool s, sch_limit = limit, sch_periodMs = periodMs,
          sch_anchorMs = anchorMs, sch_version = version\<rparr>"
    by (rule transitionSchedule_InrE [OF t])
  have now': "0 \<le> now" "safe_int now" using checkTokens_safe [OF now] by simp_all
  have bp: "boundary_of s ?b" "now \<le> ?b" using transition_boundary_props [OF s now' b] by auto
  have sp: "1 \<le> sch_periodMs s" "0 \<le> sch_anchorMs s" using s by (simp_all add: schedule_ok_def)
  have sa: "safe_int anchorMs" "0 \<le> anchorMs"
    using a b bp(2) now' by (auto dest: checkTokens_safe)
  have "boundary_of s anchorMs"
    using a
  proof (elim disjE conjE)
    assume "anchorMs = ?b"
    with bp show ?thesis by simp
  next
    assume an: "sch_anchorMs s \<le> anchorMs"
      and r: "js_rem (js_sub anchorMs (sch_anchorMs s)) (sch_periodMs s) = 0"
    have "safe_int (anchorMs - sch_anchorMs s)"
      using an sp sa by (auto intro: safe_int_between [of "anchorMs - sch_anchorMs s" anchorMs])
    with an r sp show ?thesis by (simp add: boundary_of_def)
  qed
  then show "boundary_of s (sch_anchorMs s')" using s' by simp
  show "now \<le> sch_anchorMs s'" using a bp s' by auto
  show "sch_pool s' = sch_pool s" "sch_version s' \<noteq> sch_version s" using s' v by simp_all
  have "0 \<le> limit \<and> safe_int limit" using l s by (auto simp: schedule_ok_def dest: checkTokens_safe)
  moreover have "1 \<le> periodMs \<and> safe_int periodMs"
    using p s by (auto simp: schedule_ok_def dest: checkTokens_safe)
  ultimately show "schedule_ok s'" using s s' sa v by (simp add: schedule_ok_def checkVersion_Inr)
qed

end
