(* ===== verification/JsonString.thy ===== *)
theory JsonString
  imports Prelude
begin

text \<open>
  The string part of \<open>JSON.stringify\<close>: quoting with the escapes of the language
  definition. Lone surrogates are escaped, so the output is always well-formed Unicode.
\<close>

definition hex_unit :: "int \<Rightarrow> code_unit" where
  "hex_unit d = word_of_int (if d < 10 then 48 + d else 87 + d)"

text \<open>The escape with four lower-case hexadecimal digits.\<close>

definition unicode_escape :: "code_unit \<Rightarrow> jsstr" where
  "unicode_escape u =
     (let n = uint u in
      [92, 117, hex_unit (n div 4096), hex_unit (n div 256 mod 16),
       hex_unit (n div 16 mod 16), hex_unit (n mod 16)])"

definition quote_unit :: "code_unit \<Rightarrow> jsstr" where
  "quote_unit u =
     (if u = 8 then [92, 98] else if u = 9 then [92, 116] else if u = 10 then [92, 110]
      else if u = 12 then [92, 102] else if u = 13 then [92, 114]
      else if u = 34 then [92, 34] else if u = 92 then [92, 92]
      else if uint u < 32 then unicode_escape u
      else [u])"

fun quote_units :: "jsstr \<Rightarrow> jsstr" where
  "quote_units [] = []"
| "quote_units [u] =
     (if is_high_surrogate u \<or> is_low_surrogate u then unicode_escape u else quote_unit u)"
| "quote_units (u # v # us) =
     (if is_high_surrogate u then
        (if is_low_surrogate v then u # v # quote_units us
         else unicode_escape u @ quote_units (v # us))
      else if is_low_surrogate u then unicode_escape u @ quote_units (v # us)
      else quote_unit u @ quote_units (v # us))"

definition json_string :: "jsstr \<Rightarrow> jsstr" where
  "json_string s = [34] @ quote_units s @ [34]"

text \<open>\<open>JSON.stringify\<close> of an array of strings.\<close>

fun json_strings :: "jsstr list \<Rightarrow> jsstr" where
  "json_strings [] = []"
| "json_strings [s] = json_string s"
| "json_strings (s # t # ss) = json_string s @ [44] @ json_strings (t # ss)"

definition json_string_array :: "jsstr list \<Rightarrow> jsstr" where
  "json_string_array ss = [91] @ json_strings ss @ [93]"

end
