(* ===== verification/Ledger.thy ===== *)
theory Ledger
  imports Epoch JsonString "HOL-Library.List_Lexorder"
begin

text \<open>
  The token ledger of \<open>runtime/outbound/ledger.ts\<close>: its records and the operations
  reserve, fence, settle, release, reconcile, the reports and the pool configuration. Each
  operation is the function the code passes to \<open>runTransaction\<close> (its \<open>_apply\<close>
  definition) and the operation over a store built from it in the theory \<open>LedgerStore\<close>.
\<close>

section \<open>Metering profiles and usage\<close>

record metering_profile =
  mp_provider :: jsstr
  mp_model :: jsstr
  mp_version :: jsstr

record profile_init =
  pi_provider :: jsval
  pi_model :: jsval
  pi_version :: jsval

definition meteringProfile :: "profile_init \<Rightarrow> metering_profile res" where
  "meteringProfile i =
     bindR (identityValue ''metering provider'' (pi_provider i)) (\<lambda>p.
     bindR (identityValue ''metering model'' (pi_model i)) (\<lambda>m.
     bindR (identityValue ''metering version'' (pi_version i)) (\<lambda>v.
       Inr \<lparr>mp_provider = p, mp_model = m, mp_version = v\<rparr>)))"

definition profileId :: "metering_profile \<Rightarrow> jsstr" where
  "profileId p = mp_provider p @ ascii ''/'' @ mp_model p @ ascii ''/'' @ mp_version p"

text \<open>
  The digest function of \<open>node:crypto\<close> is the parameter \<open>sha256_hex\<close>: it maps a text to
  the hexadecimal SHA-256 digest of its UTF-8 encoding.
\<close>

definition profileKey :: "(jsstr \<Rightarrow> jsstr) \<Rightarrow> metering_profile \<Rightarrow> jsstr" where
  "profileKey sha256_hex p =
     sha256_hex (json_string_array [mp_provider p, mp_model p, mp_version p])"

record usage =
  inputTokens :: int
  outputTokens :: int

definition checkUsageTokens :: "jsval \<Rightarrow> int option" where
  "checkUsageTokens v =
     (case v of
        Num n \<Rightarrow>
          (case safe_integer n of
             Some i \<Rightarrow> if i < 0 then None else Some i
           | None \<Rightarrow> None)
      | _ \<Rightarrow> None)"

definition meteringUsage :: "jsval \<Rightarrow> jsval \<Rightarrow> usage option" where
  "meteringUsage inputs outputs =
     (case (checkUsageTokens inputs, checkUsageTokens outputs) of
        (Some i, Some k) \<Rightarrow>
          if \<not> safe_int (js_add i k) then None
          else Some \<lparr>inputTokens = i, outputTokens = k\<rparr>
      | _ \<Rightarrow> None)"

definition usageTotal :: "usage \<Rightarrow> int" where
  "usageTotal u = js_add (inputTokens u) (outputTokens u)"

section \<open>Ledger records\<close>

datatype invocation_state = Held | Fenced | Settled | Released

record invocation_record =
  inv_id :: jsstr
  inv_tenant :: jsstr
  inv_pool :: jsstr
  inv_correlation :: jsstr
  inv_epochStart :: int
  inv_epochEnd :: int
  inv_limit :: int
  inv_scheduleVersion :: jsstr
  inv_profile :: metering_profile
  inv_profileIdentity :: jsstr
  inv_upperBound :: int
  inv_state :: invocation_state
  inv_fenced :: bool
  inv_usage :: "usage option"
  inv_breach :: bool

text \<open>
  The value under an invocation identifier. \<open>Bare\<close> is the object
  \<open>{state: "fenced", fenced: true}\<close> with no other field: \<open>fence\<close> writes it when the
  identifier names a member inherited from \<open>Object.prototype\<close>.
\<close>

datatype inv_entry = Rec invocation_record | Bare

record epoch_row =
  row_tenant :: jsstr
  row_pool :: jsstr
  row_start :: int
  row_end :: int
  row_limit :: int
  row_scheduleVersion :: jsstr
  row_committed :: int
  row_held :: int

record ledger_state =
  lst_version :: int
  lst_schedules :: "epoch_schedule list dict"
  lst_epochs :: "epoch_row dict"
  lst_invocations :: "inv_entry dict"
  lst_quarantined :: "unit dict"

definition emptyLedgerState :: ledger_state where
  "emptyLedgerState =
     \<lparr>lst_version = 0, lst_schedules = [], lst_epochs = [], lst_invocations = [],
      lst_quarantined = []\<rparr>"

definition epochRowKey :: "jsstr \<Rightarrow> jsstr \<Rightarrow> int \<Rightarrow> jsstr" where
  "epochRowKey tenant pool start = tenant @ [10] @ pool @ [10] @ int_string start"

definition inv_row_key :: "invocation_record \<Rightarrow> jsstr" where
  "inv_row_key r = epochRowKey (inv_tenant r) (inv_pool r) (inv_epochStart r)"

datatype unavailable_reason =
    MissingContext
  | InvalidPolicy
  | StorageUnavailable
  | AmbiguousCommit
  | InvalidUsage
  | ConflictingSettlement
  | MissingQualification
  | BreachedProfile
  | UnknownInvocation

text \<open>What the function given to \<open>runTransaction\<close> returns: whether to write, what, and the value.\<close>

datatype 'a applied = NoWrite 'a | Write ledger_state 'a

section \<open>Helpers\<close>

definition checkUpperBound :: "jsval \<Rightarrow> int res" where
  "checkUpperBound v =
     (case v of
        Num n \<Rightarrow>
          (case safe_integer n of
             Some i \<Rightarrow>
               if i < 1 then Inl (TypeError ''invalid reservation upper bound'') else Inr i
           | None \<Rightarrow> Inl (TypeError ''invalid reservation upper bound''))
      | _ \<Rightarrow> Inl (TypeError ''invalid reservation upper bound''))"

definition checkClock :: "jsval \<Rightarrow> jsval \<Rightarrow> int res" where
  "checkClock dateNow nowMs =
     (case (if nowMs = Undefined \<or> nowMs = Null then dateNow else nowMs) of
        Num n \<Rightarrow>
          (case safe_integer n of
             Some i \<Rightarrow> if i < 0 then Inl (TypeError ''invalid ledger clock'') else Inr i
           | None \<Rightarrow> Inl (TypeError ''invalid ledger clock''))
      | _ \<Rightarrow> Inl (TypeError ''invalid ledger clock''))"

definition fits :: "int \<Rightarrow> int \<Rightarrow> int \<Rightarrow> int \<Rightarrow> bool" where
  "fits limit committed held upperBound =
     (if upperBound > limit then False
      else let headroom = js_sub limit upperBound in
        if committed > headroom then False
        else held \<le> js_sub headroom committed)"

definition remainingTokens :: "int \<Rightarrow> int \<Rightarrow> int \<Rightarrow> int" where
  "remainingTokens limit committed held = max 0 (js_sub (js_sub limit committed) held)"

definition nextVersion :: "ledger_state \<Rightarrow> int" where
  "nextVersion s = js_add (lst_version s) 1"

fun applicable_from :: "epoch_schedule option \<Rightarrow> epoch_schedule list \<Rightarrow> int \<Rightarrow> epoch_schedule option"
where
  "applicable_from picked [] nowMs = picked"
| "applicable_from picked (v # vs) nowMs =
     (if sch_anchorMs v > nowMs then picked else applicable_from (Some v) vs nowMs)"

definition applicableSchedule :: "epoch_schedule list \<Rightarrow> int \<Rightarrow> epoch_schedule option" where
  "applicableSchedule versions nowMs = applicable_from None versions nowMs"

section \<open>Reserve\<close>

datatype reserve_outcome =
    Admitted invocation_record int int bool
    \<comment> \<open>record, remaining, epochResetMs, duplicate\<close>
  | Exceeded jsstr int int int
    \<comment> \<open>pool, required, remaining, epochResetMs\<close>
  | ReserveUnavailable unavailable_reason jsstr jsstr
    \<comment> \<open>reason, correlation, invocationId\<close>

record reserve_args =
  ra_tenant :: jsstr
  ra_pool :: jsstr
  ra_correlation :: jsstr
  ra_profile :: metering_profile
  ra_upperBound :: int
  ra_id :: jsstr
  ra_at :: int

definition reserve_conflicts :: "reserve_args \<Rightarrow> inv_entry \<Rightarrow> bool" where
  "reserve_conflicts a e =
     (case e of
        Bare \<Rightarrow> True
      | Rec r \<Rightarrow> inv_tenant r \<noteq> ra_tenant a \<or> inv_pool r \<noteq> ra_pool a
          \<or> inv_correlation r \<noteq> ra_correlation a \<or> inv_upperBound r \<noteq> ra_upperBound a
          \<or> inv_profileIdentity r \<noteq> profileId (ra_profile a))"

definition fresh_row :: "reserve_args \<Rightarrow> epoch_schedule \<Rightarrow> epoch_bounds \<Rightarrow> epoch_row" where
  "fresh_row a schedule e =
     \<lparr>row_tenant = ra_tenant a, row_pool = ra_pool a, row_start = ep_start e, row_end = ep_end e,
      row_limit = sch_limit schedule, row_scheduleVersion = sch_version schedule,
      row_committed = 0, row_held = 0\<rparr>"

definition held_record :: "reserve_args \<Rightarrow> epoch_row \<Rightarrow> invocation_record" where
  "held_record a current =
     \<lparr>inv_id = ra_id a, inv_tenant = ra_tenant a, inv_pool = ra_pool a,
      inv_correlation = ra_correlation a, inv_epochStart = row_start current,
      inv_epochEnd = row_end current, inv_limit = row_limit current,
      inv_scheduleVersion = row_scheduleVersion current, inv_profile = ra_profile a,
      inv_profileIdentity = profileId (ra_profile a), inv_upperBound = ra_upperBound a,
      inv_state = Held, inv_fenced = False, inv_usage = None, inv_breach = False\<rparr>"

text \<open>The admission proper, once the schedule and the epoch are known and the identifier is new.\<close>

definition reserve_admit ::
  "(jsstr \<Rightarrow> jsstr) \<Rightarrow> reserve_args \<Rightarrow> epoch_schedule \<Rightarrow> epoch_bounds \<Rightarrow> ledger_state
   \<Rightarrow> reserve_outcome applied" where
  "reserve_admit sha a schedule e s =
     (if map_of (lst_quarantined s) (profileKey sha (ra_profile a)) = Some ()
      then NoWrite (ReserveUnavailable BreachedProfile (ra_correlation a) (ra_id a))
      else
        let key = epochRowKey (ra_tenant a) (ra_pool a) (ep_start e);
            current = (case map_of (lst_epochs s) key of Some row \<Rightarrow> row
                       | None \<Rightarrow> fresh_row a schedule e)
        in if \<not> fits (row_limit current) (row_committed current) (row_held current) (ra_upperBound a)
           then NoWrite (Exceeded (ra_pool a) (ra_upperBound a)
                  (remainingTokens (row_limit current) (row_committed current) (row_held current))
                  (row_end current))
           else
             let r = held_record a current;
                 row = current\<lparr>row_held := js_add (row_held current) (ra_upperBound a)\<rparr>
             in Write
                  \<lparr>lst_version = nextVersion s, lst_schedules = lst_schedules s,
                   lst_epochs = js_set key row (lst_epochs s),
                   lst_invocations = js_set (ra_id a) (Rec r) (lst_invocations s),
                   lst_quarantined = lst_quarantined s\<rparr>
                  (Admitted r (remainingTokens (row_limit row) (row_committed row) (row_held row))
                     (row_end row) False))"

definition reserve_existing ::
  "reserve_args \<Rightarrow> epoch_schedule \<Rightarrow> epoch_bounds \<Rightarrow> ledger_state \<Rightarrow> inv_entry
   \<Rightarrow> reserve_outcome" where
  "reserve_existing a schedule e s existing =
     (if reserve_conflicts a existing
      then ReserveUnavailable ConflictingSettlement (ra_correlation a) (ra_id a)
      else (case existing of
         Bare \<Rightarrow> ReserveUnavailable ConflictingSettlement (ra_correlation a) (ra_id a)
       | Rec r \<Rightarrow>
           Admitted r
             (case map_of (lst_epochs s) (epochRowKey (ra_tenant a) (ra_pool a) (ep_start e)) of
                None \<Rightarrow> sch_limit schedule
              | Some c \<Rightarrow> remainingTokens (row_limit c) (row_committed c) (row_held c))
             (ep_end e) True))"

text \<open>Iterating over an inherited function, as the code does for such a pool name, throws.\<close>

definition pick_schedule :: "ledger_state \<Rightarrow> jsstr \<Rightarrow> int \<Rightarrow> epoch_schedule option res" where
  "pick_schedule s pool nowMs =
     (case js_get (lst_schedules s) pool of
        Missing \<Rightarrow> Inr None
      | Inherited _ \<Rightarrow> Inl (TypeError ''versions is not iterable'')
      | Own versions \<Rightarrow> Inr (applicableSchedule versions nowMs))"

definition reserve_in_epoch ::
  "(jsstr \<Rightarrow> jsstr) \<Rightarrow> reserve_args \<Rightarrow> epoch_schedule \<Rightarrow> epoch_bounds \<Rightarrow> ledger_state
   \<Rightarrow> reserve_outcome applied" where
  "reserve_in_epoch sha a schedule e s =
     (case js_get (lst_invocations s) (ra_id a) of
        Own existing \<Rightarrow> NoWrite (reserve_existing a schedule e s existing)
      | Inherited _ \<Rightarrow> NoWrite (ReserveUnavailable ConflictingSettlement (ra_correlation a) (ra_id a))
      | Missing \<Rightarrow> reserve_admit sha a schedule e s)"

definition reserve_apply ::
  "(jsstr \<Rightarrow> jsstr) \<Rightarrow> reserve_args \<Rightarrow> ledger_state \<Rightarrow> reserve_outcome applied res" where
  "reserve_apply sha a s =
     bindR (pick_schedule s (ra_pool a) (ra_at a)) (\<lambda>picked.
     case picked of
       None \<Rightarrow> Inr (NoWrite (ReserveUnavailable InvalidPolicy (ra_correlation a) (ra_id a)))
     | Some schedule \<Rightarrow>
         bindR (epochContaining schedule (ra_at a)) (\<lambda>epoch.
         case epoch of
           None \<Rightarrow> Inr (NoWrite (ReserveUnavailable InvalidPolicy (ra_correlation a) (ra_id a)))
         | Some e \<Rightarrow> Inr (reserve_in_epoch sha a schedule e s)))"

section \<open>Fence\<close>

datatype fence_outcome =
    FenceFenced inv_entry bool \<comment> \<open>record, duplicate\<close>
  | FenceUnavailable unavailable_reason

definition set_invocation :: "jsstr \<Rightarrow> inv_entry \<Rightarrow> ledger_state \<Rightarrow> ledger_state" where
  "set_invocation key r s =
     \<lparr>lst_version = nextVersion s, lst_schedules = lst_schedules s, lst_epochs = lst_epochs s,
      lst_invocations = js_set key r (lst_invocations s), lst_quarantined = lst_quarantined s\<rparr>"

definition fence_apply :: "jsstr \<Rightarrow> ledger_state \<Rightarrow> fence_outcome applied res" where
  "fence_apply key s =
     (case js_get (lst_invocations s) key of
        Missing \<Rightarrow> Inr (NoWrite (FenceUnavailable UnknownInvocation))
      | Inherited _ \<Rightarrow> Inr (Write (set_invocation key Bare s) (FenceFenced Bare False))
      | Own Bare \<Rightarrow> Inr (NoWrite (FenceFenced Bare True))
      | Own (Rec existing) \<Rightarrow>
          if inv_state existing = Settled \<or> inv_state existing = Released
          then Inr (NoWrite (FenceUnavailable ConflictingSettlement))
          else if inv_fenced existing then Inr (NoWrite (FenceFenced (Rec existing) True))
          else
            let r = existing\<lparr>inv_state := Fenced, inv_fenced := True\<rparr>
            in Inr (Write (set_invocation key (Rec r) s) (FenceFenced (Rec r) False)))"

section \<open>Settle\<close>

record breach_report =
  br_profile :: jsstr
  br_upperBound :: int
  br_actual :: int

datatype settle_outcome =
    SettleSettled invocation_record int int bool "breach_report option"
    \<comment> \<open>record, actual, released, duplicate, breach\<close>
  | SettleUnavailable unavailable_reason

definition breach_of :: "invocation_record \<Rightarrow> int \<Rightarrow> breach_report" where
  "breach_of r actual =
     \<lparr>br_profile = inv_profileIdentity r, br_upperBound = inv_upperBound r, br_actual = actual\<rparr>"

definition settle_write ::
  "(jsstr \<Rightarrow> jsstr) \<Rightarrow> jsstr \<Rightarrow> usage \<Rightarrow> invocation_record \<Rightarrow> epoch_row \<Rightarrow> ledger_state
   \<Rightarrow> settle_outcome applied" where
  "settle_write sha key u existing row s =
     (let actual = usageTotal u;
          committed = js_add (row_committed row) actual
      in if \<not> safe_int committed then NoWrite (SettleUnavailable InvalidUsage)
         else
           let breached = actual > inv_upperBound existing;
               r = existing\<lparr>inv_state := Settled, inv_usage := Some u, inv_breach := breached\<rparr>;
               nextRow = row\<lparr>row_committed := committed,
                 row_held := js_sub (row_held row) (inv_upperBound existing)\<rparr>;
               pkey = profileKey sha (inv_profile existing);
               quarantined =
                 (if breached \<and> map_of (lst_quarantined s) pkey \<noteq> Some ()
                  then js_set pkey () (lst_quarantined s) else lst_quarantined s)
           in Write
                \<lparr>lst_version = nextVersion s, lst_schedules = lst_schedules s,
                 lst_epochs = js_set (inv_row_key existing) nextRow (lst_epochs s),
                 lst_invocations = js_set key (Rec r) (lst_invocations s),
                 lst_quarantined = quarantined\<rparr>
                (if breached then SettleSettled r actual 0 False (Some (breach_of existing actual))
                 else SettleSettled r actual (js_sub (inv_upperBound existing) actual) False None))"

definition settle_apply ::
  "(jsstr \<Rightarrow> jsstr) \<Rightarrow> jsstr \<Rightarrow> usage \<Rightarrow> ledger_state \<Rightarrow> settle_outcome applied res" where
  "settle_apply sha key u s =
     (case js_get (lst_invocations s) key of
        Missing \<Rightarrow> Inr (NoWrite (SettleUnavailable UnknownInvocation))
      | Inherited _ \<Rightarrow> Inr (NoWrite (SettleUnavailable StorageUnavailable))
      | Own Bare \<Rightarrow> Inr (NoWrite (SettleUnavailable StorageUnavailable))
      | Own (Rec existing) \<Rightarrow>
          if inv_state existing = Released
          then Inr (NoWrite (SettleUnavailable ConflictingSettlement))
          else if inv_state existing = Settled then
            (case inv_usage existing of
               None \<Rightarrow> Inl (TypeError ''settled usage is undefined'')
             | Some settled \<Rightarrow>
                 if inputTokens settled \<noteq> inputTokens u \<or> outputTokens settled \<noteq> outputTokens u
                 then Inr (NoWrite (SettleUnavailable ConflictingSettlement))
                 else Inr (NoWrite (SettleSettled existing (usageTotal u) 0 True
                   (if inv_breach existing then Some (breach_of existing (usageTotal u)) else None))))
          else
            (case map_of (lst_epochs s) (inv_row_key existing) of
               None \<Rightarrow> Inr (NoWrite (SettleUnavailable StorageUnavailable))
             | Some row \<Rightarrow> Inr (settle_write sha key u existing row s)))"

section \<open>Release\<close>

datatype release_outcome =
    ReleaseReleased invocation_record bool \<comment> \<open>record, duplicate\<close>
  | ReleaseHeld inv_entry
  | ReleaseUnavailable unavailable_reason

definition release_write ::
  "jsstr \<Rightarrow> invocation_record \<Rightarrow> epoch_row \<Rightarrow> ledger_state \<Rightarrow> release_outcome applied" where
  "release_write key existing row s =
     (let r = existing\<lparr>inv_state := Released\<rparr>;
          nextRow = row\<lparr>row_held := js_sub (row_held row) (inv_upperBound existing)\<rparr>
      in Write
           \<lparr>lst_version = nextVersion s, lst_schedules = lst_schedules s,
            lst_epochs = js_set (inv_row_key existing) nextRow (lst_epochs s),
            lst_invocations = js_set key (Rec r) (lst_invocations s),
            lst_quarantined = lst_quarantined s\<rparr>
           (ReleaseReleased r False))"

definition release_apply :: "jsstr \<Rightarrow> ledger_state \<Rightarrow> release_outcome applied res" where
  "release_apply key s =
     (case js_get (lst_invocations s) key of
        Missing \<Rightarrow> Inr (NoWrite (ReleaseUnavailable UnknownInvocation))
      | Inherited _ \<Rightarrow> Inr (NoWrite (ReleaseUnavailable StorageUnavailable))
      | Own Bare \<Rightarrow> Inr (NoWrite (ReleaseHeld Bare))
      | Own (Rec existing) \<Rightarrow>
          if inv_state existing = Settled
          then Inr (NoWrite (ReleaseUnavailable ConflictingSettlement))
          else if inv_state existing = Released
          then Inr (NoWrite (ReleaseReleased existing True))
          else if inv_fenced existing then Inr (NoWrite (ReleaseHeld (Rec existing)))
          else
            (case map_of (lst_epochs s) (inv_row_key existing) of
               None \<Rightarrow> Inr (NoWrite (ReleaseUnavailable StorageUnavailable))
             | Some row \<Rightarrow> Inr (release_write key existing row s)))"

section \<open>Pool configuration\<close>

datatype configure_outcome = Configured | NotConfigured unavailable_reason

definition set_schedules :: "jsstr \<Rightarrow> epoch_schedule list \<Rightarrow> ledger_state \<Rightarrow> ledger_state" where
  "set_schedules key vs s =
     \<lparr>lst_version = nextVersion s, lst_schedules = js_set key vs (lst_schedules s),
      lst_epochs = lst_epochs s, lst_invocations = lst_invocations s,
      lst_quarantined = lst_quarantined s\<rparr>"

definition configure_apply :: "epoch_schedule \<Rightarrow> ledger_state \<Rightarrow> configure_outcome applied res" where
  "configure_apply pinned s =
     (if js_get (lst_schedules s) (sch_pool pinned) \<noteq> Missing
      then Inr (NoWrite (NotConfigured InvalidPolicy))
      else Inr (Write (set_schedules (sch_pool pinned) [pinned] s) Configured))"

datatype transition_outcome =
    Transitioned epoch_schedule
  | NotTransitioned unavailable_reason

text \<open>
  The last schedule version of a pool. An inherited function of \<open>length\<close> 0 counts as an
  empty list; any other inherited value is read as a list without elements at its end, and
  the transition of an undefined schedule throws.
\<close>

definition transition_apply ::
  "jsstr \<Rightarrow> schedule_change \<Rightarrow> int \<Rightarrow> ledger_state \<Rightarrow> transition_outcome applied res" where
  "transition_apply key change nowMs s =
     (case js_get (lst_schedules s) key of
        Missing \<Rightarrow> Inr (NoWrite (NotTransitioned InvalidPolicy))
      | Inherited n \<Rightarrow>
          if n = Some 0 then Inr (NoWrite (NotTransitioned InvalidPolicy))
          else bindR (checkTokens ''clock'' (Num (num nowMs)) 0) (\<lambda>_.
               bindR (checkVersion (chg_version change)) (\<lambda>_.
                 Inl (TypeError ''current is undefined'')))
      | Own versions \<Rightarrow>
          if versions = [] then Inr (NoWrite (NotTransitioned InvalidPolicy))
          else bindR (transitionSchedule (last versions) change nowMs) (\<lambda>schedule.
            Inr (Write (set_schedules key (versions @ [schedule]) s) (Transitioned schedule))))"

section \<open>Reports\<close>

definition entry_state :: "inv_entry \<Rightarrow> invocation_state" where
  "entry_state e = (case e of Rec r \<Rightarrow> inv_state r | Bare \<Rightarrow> Fenced)"

definition unresolved :: "inv_entry \<Rightarrow> bool" where
  "unresolved e \<longleftrightarrow> entry_state e = Held \<or> entry_state e = Fenced"

definition entry_identity :: "inv_entry \<Rightarrow> jsstr option" where
  "entry_identity e = (case e of Rec r \<Rightarrow> Some (inv_profileIdentity r) | Bare \<Rightarrow> None)"

definition entry_breach :: "inv_entry \<Rightarrow> bool" where
  "entry_breach e = (case e of Rec r \<Rightarrow> inv_breach r | Bare \<Rightarrow> False)"

datatype epoch_status =
    StatusFound epoch_row int
  | StatusAbsent

definition status_of :: "jsstr \<Rightarrow> jsstr \<Rightarrow> int \<Rightarrow> ledger_state \<Rightarrow> epoch_status" where
  "status_of tenant pool start s =
     (case map_of (lst_epochs s) (epochRowKey tenant pool start) of
        None \<Rightarrow> StatusAbsent
      | Some row \<Rightarrow>
          StatusFound row (int (length (filter
            (\<lambda>e. case e of Bare \<Rightarrow> False
                 | Rec r \<Rightarrow> inv_tenant r = tenant \<and> inv_pool r = pool \<and> inv_epochStart r = start
                     \<and> unresolved e)
            (js_values (lst_invocations s))))))"

record ledger_health =
  lh_epochs :: nat
  lh_committed :: int
  lh_held :: int
  lh_unresolved :: nat
  lh_quarantined :: "jsstr list"

definition saturating_add :: "int \<Rightarrow> int \<Rightarrow> int" where
  "saturating_add t x =
     (let s = js_add t x in if safe_int s then s else MAX_SAFE_INTEGER)"

text \<open>
  The profiles the report lists: a breached record is kept when no earlier record, breached
  or not, has its profile identity.
\<close>

fun first_breached :: "inv_entry list \<Rightarrow> inv_entry list \<Rightarrow> jsstr list" where
  "first_breached earlier [] = []"
| "first_breached earlier (e # es) =
     (case e of
        Rec r \<Rightarrow>
          (if inv_breach r \<and> Some (inv_profileIdentity r) \<notin> entry_identity ` set earlier
           then [inv_profileIdentity r] else [])
      | Bare \<Rightarrow> []) @ first_breached (earlier @ [e]) es"

definition health_of :: "ledger_state \<Rightarrow> ledger_health" where
  "health_of s =
     \<lparr>lh_epochs = length (lst_epochs s),
      lh_committed = foldl (\<lambda>t r. saturating_add t (row_committed r)) 0 (js_values (lst_epochs s)),
      lh_held = foldl (\<lambda>t r. saturating_add t (row_held r)) 0 (js_values (lst_epochs s)),
      lh_unresolved = length (filter unresolved (js_values (lst_invocations s))),
      lh_quarantined = sort (first_breached [] (js_values (lst_invocations s)))\<rparr>"

end
