(* ===== verification/LedgerInv.thy ===== *)
theory LedgerInv
  imports Ledger
begin

text \<open>
  The accounting invariant of the ledger and its preservation by every operation: each
  epoch row holds exactly the upper bounds of its unresolved invocations and has committed
  exactly the usage of its settled ones, so the tokens of a row are conserved.
\<close>

section \<open>The invariant\<close>

definition held_at :: "jsstr \<Rightarrow> inv_entry \<Rightarrow> int" where
  "held_at k e =
     (case e of
        Rec r \<Rightarrow> if inv_row_key r = k \<and> unresolved e then inv_upperBound r else 0
      | Bare \<Rightarrow> 0)"

definition used_at :: "jsstr \<Rightarrow> inv_entry \<Rightarrow> int" where
  "used_at k e =
     (case e of
        Rec r \<Rightarrow>
          if inv_row_key r = k \<and> inv_state r = Settled
          then (case inv_usage r of Some u \<Rightarrow> usageTotal u | None \<Rightarrow> 0) else 0
      | Bare \<Rightarrow> 0)"

definition breach_at :: "jsstr \<Rightarrow> inv_entry dict \<Rightarrow> bool" where
  "breach_at k I \<longleftrightarrow>
     (\<exists>id r. map_of I id = Some (Rec r) \<and> inv_row_key r = k \<and> inv_breach r)"

definition usage_ok :: "usage \<Rightarrow> bool" where
  "usage_ok u \<longleftrightarrow> 0 \<le> inputTokens u \<and> 0 \<le> outputTokens u \<and> safe_int (inputTokens u + outputTokens u)"

definition record_ok :: "(jsstr \<Rightarrow> jsstr) \<Rightarrow> unit dict \<Rightarrow> jsstr \<Rightarrow> invocation_record \<Rightarrow> bool" where
  "record_ok sha Q k r \<longleftrightarrow>
     inv_id r = k \<and> 1 \<le> inv_upperBound r \<and> safe_int (inv_upperBound r)
     \<and> inv_profileIdentity r = profileId (inv_profile r)
     \<and> (inv_breach r \<longrightarrow> map_of Q (profileKey sha (inv_profile r)) = Some ())
     \<and> (case inv_state r of
          Held \<Rightarrow> \<not> inv_fenced r \<and> inv_usage r = None \<and> \<not> inv_breach r
        | Fenced \<Rightarrow> inv_fenced r \<and> inv_usage r = None \<and> \<not> inv_breach r
        | Released \<Rightarrow> \<not> inv_fenced r \<and> inv_usage r = None \<and> \<not> inv_breach r
        | Settled \<Rightarrow> (case inv_usage r of None \<Rightarrow> False
            | Some u \<Rightarrow> usage_ok u \<and> (inv_breach r \<longleftrightarrow> inv_upperBound r < usageTotal u)))"

definition row_key_ok :: "jsstr \<Rightarrow> epoch_row \<Rightarrow> bool" where
  "row_key_ok k row \<longleftrightarrow>
     k = epochRowKey (row_tenant row) (row_pool row) (row_start row)
     \<and> IDENTITY_PATTERN (row_tenant row) \<and> IDENTITY_PATTERN (row_pool row)
     \<and> 0 \<le> row_start row \<and> row_start row < row_end row
     \<and> 0 \<le> row_limit row \<and> safe_int (row_limit row)"

definition row_sound :: "inv_entry dict \<Rightarrow> jsstr \<Rightarrow> epoch_row \<Rightarrow> bool" where
  "row_sound I k row \<longleftrightarrow>
     row_key_ok k row
     \<and> row_held row = dict_sum (held_at k) I
     \<and> row_committed row = dict_sum (used_at k) I
     \<and> row_held row \<le> row_limit row \<and> safe_int (row_committed row)
     \<and> (\<not> breach_at k I \<longrightarrow> row_committed row + row_held row \<le> row_limit row)"

text \<open>
  The schedule versions of a pool: each is anchored at a boundary of its predecessor.
\<close>

fun schedule_chain :: "jsstr \<Rightarrow> epoch_schedule list \<Rightarrow> bool" where
  "schedule_chain pool [] = True"
| "schedule_chain pool [s] = (schedule_ok s \<and> sch_pool s = pool)"
| "schedule_chain pool (s # t # ss) =
     (schedule_ok s \<and> sch_pool s = pool \<and> boundary_of s (sch_anchorMs t)
      \<and> schedule_chain pool (t # ss))"

definition ledger_inv :: "(jsstr \<Rightarrow> jsstr) \<Rightarrow> ledger_state \<Rightarrow> bool" where
  "ledger_inv sha s \<longleftrightarrow>
     dict_ok (lst_epochs s) \<and> dict_ok (lst_invocations s)
     \<and> (\<forall>k row. map_of (lst_epochs s) k = Some row \<longrightarrow> row_sound (lst_invocations s) k row)
     \<and> (\<forall>k r. map_of (lst_invocations s) k = Some (Rec r) \<longrightarrow>
          record_ok sha (lst_quarantined s) k r
          \<and> (\<exists>row. map_of (lst_epochs s) (inv_row_key r) = Some row))
     \<and> (\<forall>k vs. map_of (lst_schedules s) k = Some vs \<longrightarrow> vs \<noteq> [] \<and> schedule_chain k vs)"

lemma ledger_inv_empty: "ledger_inv sha emptyLedgerState"
  by (simp add: ledger_inv_def emptyLedgerState_def)

lemma ledger_invD:
  assumes "ledger_inv sha s"
  shows "dict_ok (lst_epochs s)" and "dict_ok (lst_invocations s)"
    and "map_of (lst_epochs s) k = Some row \<Longrightarrow> row_sound (lst_invocations s) k row"
    and "map_of (lst_invocations s) k = Some (Rec r) \<Longrightarrow> record_ok sha (lst_quarantined s) k r"
    and "map_of (lst_invocations s) k = Some (Rec r) \<Longrightarrow>
         \<exists>row. map_of (lst_epochs s) (inv_row_key r) = Some row"
    and "map_of (lst_schedules s) k = Some vs \<Longrightarrow> vs \<noteq> [] \<and> schedule_chain k vs"
  using assms by (auto simp: ledger_inv_def)

section \<open>Keys\<close>

lemma append_sep_inj:
  "xs @ [c] @ ys = xs' @ [c] @ ys' \<Longrightarrow> c \<notin> set xs \<Longrightarrow> c \<notin> set xs' \<Longrightarrow> xs = xs' \<and> ys = ys'"
proof (induction xs arbitrary: xs')
  case Nil
  then show ?case by (cases xs') auto
next
  case (Cons x xs)
  then show ?case by (cases xs') auto
qed

lemma epochRowKey_inj:
  assumes "epochRowKey t p i = epochRowKey t' p' i'"
    and "IDENTITY_PATTERN t" "IDENTITY_PATTERN t'" "IDENTITY_PATTERN p" "IDENTITY_PATTERN p'"
    and "0 \<le> i" "0 \<le> i'"
  shows "t = t' \<and> p = p' \<and> i = i'"
proof -
  note no = IDENTITY_PATTERN_no_newline
  from assms(1) have "t = t' \<and> p @ [10] @ int_string i = p' @ [10] @ int_string i'"
    using append_sep_inj [of t 10 _ t'] no [OF assms(2)] no [OF assms(3)]
    unfolding epochRowKey_def by blast
  moreover from this have "p = p' \<and> int_string i = int_string i'"
    using append_sep_inj [of p 10 _ p'] no [OF assms(4)] no [OF assms(5)] by blast
  ultimately show ?thesis using int_string_inj_nonneg assms(6,7) by blast
qed

text \<open>No epoch key names an inherited member, so the code's plain lookup is an own lookup.\<close>

lemma epochRowKey_not_inherited: "\<not> inherited (epochRowKey t p i)"
proof
  assume "inherited (epochRowKey t p i)"
  then have "epochRowKey t p i \<in> fst ` set object_prototype"
    by (auto simp: inherited_def dest: map_of_SomeD intro: rev_image_eqI)
  moreover have "\<forall>k \<in> fst ` set object_prototype. 10 \<notin> set k" by code_simp
  moreover have "10 \<in> set (epochRowKey t p i)" by (simp add: epochRowKey_def)
  ultimately show False by blast
qed

section \<open>Counting\<close>

lemma fits_iff:
  assumes "0 \<le> limit" "safe_int limit" "0 \<le> c" "0 \<le> h" "1 \<le> u"
  shows "fits limit c h u \<longleftrightarrow> c + h + u \<le> limit"
proof (cases "u \<le> limit")
  case True
  with assms have "safe_int (limit - u)" by (simp add: safe_int_def)
  then have hr: "js_sub limit u = limit - u" by simp
  show ?thesis
  proof (cases "c \<le> limit - u")
    case le: True
    with assms True have "safe_int (limit - u - c)" by (simp add: safe_int_def)
    with hr le True show ?thesis by (simp add: fits_def Let_def) linarith
  next
    case False
    with assms hr True show ?thesis by (simp add: fits_def Let_def)
  qed
next
  case False
  with assms show ?thesis by (simp add: fits_def)
qed

lemma usageTotal_ok: "usage_ok u \<Longrightarrow> usageTotal u = inputTokens u + outputTokens u"
  by (simp add: usage_ok_def usageTotal_def)

lemma usageTotal_nonneg: "usage_ok u \<Longrightarrow> 0 \<le> usageTotal u"
  by (simp add: usageTotal_ok) (simp add: usage_ok_def)

lemma meteringUsage_ok: "meteringUsage i k = Some u \<Longrightarrow> usage_ok u"
  by (auto simp: meteringUsage_def checkUsageTokens_def usage_ok_def
      split: option.splits jsval.splits if_splits)

lemma held_at_Rec [simp]:
  "held_at k (Rec r) =
     (if inv_row_key r = k \<and> (inv_state r = Held \<or> inv_state r = Fenced) then inv_upperBound r else 0)"
  by (auto simp: held_at_def unresolved_def entry_state_def)

lemma used_at_Rec [simp]:
  "used_at k (Rec r) =
     (if inv_row_key r = k \<and> inv_state r = Settled
      then (case inv_usage r of Some u \<Rightarrow> usageTotal u | None \<Rightarrow> 0) else 0)"
  by (simp add: used_at_def)

lemma at_Bare [simp]: "held_at k Bare = 0" "used_at k Bare = 0"
  by (simp_all add: held_at_def used_at_def)

lemma entry_record_ok:
  assumes "ledger_inv sha s" and "(i, Rec r) \<in> set (lst_invocations s)"
  shows "record_ok sha (lst_quarantined s) i r"
  using assms ledger_invD(2,4) by (auto simp: dict_ok_def)

lemma held_at_nonneg: "ledger_inv sha s \<Longrightarrow> (i, e) \<in> set (lst_invocations s) \<Longrightarrow> 0 \<le> held_at k e"
  by (cases e) (auto simp: record_ok_def dest!: entry_record_ok)

lemma used_at_nonneg: "ledger_inv sha s \<Longrightarrow> (i, e) \<in> set (lst_invocations s) \<Longrightarrow> 0 \<le> used_at k e"
  by (cases e) (auto simp: record_ok_def usageTotal_nonneg dest!: entry_record_ok split: option.splits)

lemma row_nonneg:
  assumes "ledger_inv sha s" and "map_of (lst_epochs s) k = Some row"
  shows "0 \<le> row_held row" and "0 \<le> row_committed row"
proof -
  have "0 \<le> dict_sum (held_at k) (lst_invocations s)" "0 \<le> dict_sum (used_at k) (lst_invocations s)"
    using held_at_nonneg [OF assms(1)] used_at_nonneg [OF assms(1)] by (blast intro: dict_sum_nonneg)+
  then show "0 \<le> row_held row" "0 \<le> row_committed row"
    using ledger_invD(3) [OF assms] by (simp_all add: row_sound_def)
qed

lemma row_held_ge:
  assumes "ledger_inv sha s" and "map_of (lst_invocations s) i = Some (Rec r)"
    and "inv_state r = Held \<or> inv_state r = Fenced"
    and "map_of (lst_epochs s) (inv_row_key r) = Some row"
  shows "inv_upperBound r \<le> row_held row"
proof -
  have "held_at (inv_row_key r) (Rec r) \<le> dict_sum (held_at (inv_row_key r)) (lst_invocations s)"
    using held_at_nonneg [OF assms(1)] assms(2) by (rule dict_sum_ge_member)
  then show ?thesis using assms(3) ledger_invD(3) [OF assms(1,4)] by (simp add: row_sound_def)
qed

section \<open>One invocation and its row change together\<close>

text \<open>
  Every operation that writes an invocation record also writes the row of that record (or
  leaves it as it is). What has to be shown of such a step is about that record and that
  row only; the sums of all other rows are unchanged.
\<close>

lemma row_sound_cong:
  "dict_sum (held_at k) I' = dict_sum (held_at k) I \<Longrightarrow>
   dict_sum (used_at k) I' = dict_sum (used_at k) I \<Longrightarrow>
   breach_at k I' = breach_at k I \<Longrightarrow> row_sound I' k row = row_sound I k row"
  by (simp add: row_sound_def)

lemma breach_at_js_set:
  "breach_at k (js_set i (Rec r) I) \<longleftrightarrow>
     inv_row_key r = k \<and> inv_breach r
     \<or> (\<exists>id r'. id \<noteq> i \<and> map_of I id = Some (Rec r') \<and> inv_row_key r' = k \<and> inv_breach r')"
  by (auto simp: breach_at_def)

lemma breach_at_js_set_Bare:
  assumes "map_of I i = None"
  shows "breach_at k (js_set i Bare I) \<longleftrightarrow> breach_at k I"
proof -
  have "map_of (js_set i Bare I) j = Some (Rec r) \<longleftrightarrow> map_of I j = Some (Rec r)" for j r
    using assms by auto
  then show ?thesis unfolding breach_at_def by blast
qed

lemma ledger_inv_step:
  assumes inv: "ledger_inv sha s"
    and key: "inv_row_key r = K"
    and old: "map_of (lst_invocations s) i = None \<or>
              (\<exists>r0. map_of (lst_invocations s) i = Some (Rec r0) \<and> inv_row_key r0 = K
                 \<and> \<not> inv_breach r0)"
    and rec: "record_ok sha Q i r"
    and quar: "\<And>p. map_of (lst_quarantined s) p = Some () \<Longrightarrow> map_of Q p = Some ()"
    and row: "row_sound (js_set i (Rec r) (lst_invocations s)) K row"
    and s': "lst_epochs s' = js_set K row (lst_epochs s)"
      "lst_invocations s' = js_set i (Rec r) (lst_invocations s)"
      "lst_quarantined s' = Q" "lst_schedules s' = lst_schedules s"
  shows "ledger_inv sha s'"
proof -
  let ?I = "lst_invocations s" and ?I' = "js_set i (Rec r) (lst_invocations s)"
  have sums: "dict_sum (held_at k) ?I' = dict_sum (held_at k) ?I"
      "dict_sum (used_at k) ?I' = dict_sum (used_at k) ?I" if "k \<noteq> K" for k
    using that key old ledger_invD(2) [OF inv] by (auto simp: dict_sum_js_set)
  have ne: "id \<noteq> i" if "map_of ?I id = Some (Rec x)" "inv_row_key x \<noteq> K" for id x
    using that old by auto
  have br: "breach_at k ?I' \<longleftrightarrow> breach_at k ?I" if "k \<noteq> K" for k
    using that key ne unfolding breach_at_js_set unfolding breach_at_def by blast
  have others: "row_sound ?I' k x" if "k \<noteq> K" "map_of (lst_epochs s) k = Some x" for k x
    using ledger_invD(3) [OF inv that(2)] row_sound_cong sums [OF that(1)] br [OF that(1)] by blast
  have recs: "record_ok sha Q j x" if "map_of ?I j = Some (Rec x)" for j x
    using ledger_invD(4) [OF inv that] quar by (auto simp: record_ok_def)
  show ?thesis
    unfolding ledger_inv_def s'
    using ledger_invD(1,2,5,6) [OF inv] others recs rec row key by auto
qed

section \<open>The operations keep the invariant\<close>

definition args_ok :: "reserve_args \<Rightarrow> bool" where
  "args_ok a \<longleftrightarrow>
     IDENTITY_PATTERN (ra_tenant a) \<and> IDENTITY_PATTERN (ra_pool a) \<and> IDENTITY_PATTERN (ra_id a)
     \<and> 1 \<le> ra_upperBound a \<and> safe_int (ra_upperBound a)"

lemma open_state: "st \<noteq> Settled \<Longrightarrow> st \<noteq> Released \<Longrightarrow> st = Held \<or> st = Fenced"
  by (cases st) auto

lemma row_sound_change:
  assumes inv: "ledger_inv sha s" and E: "map_of (lst_epochs s) K = Some row0"
    and I: "map_of (lst_invocations s) i = Some (Rec r0)" and k0: "inv_row_key r0 = K"
    and k: "inv_row_key r = K" and fields: "row_key_ok K row" "row_limit row = row_limit row0"
    and held: "row_held row = row_held row0 + held_at K (Rec r) - held_at K (Rec r0)"
    and used: "row_committed row = row_committed row0 + used_at K (Rec r) - used_at K (Rec r0)"
    and bounds: "row_held row \<le> row_limit row" "safe_int (row_committed row)"
    and total: "\<not> inv_breach r \<Longrightarrow> row_committed row + row_held row \<le> row_committed row0 + row_held row0"
    and nb: "\<not> inv_breach r0"
  shows "row_sound (js_set i (Rec r) (lst_invocations s)) K row"
proof -
  have r0: "row_sound (lst_invocations s) K row0" using ledger_invD(3) [OF inv E] .
  have "row_held row = dict_sum (held_at K) (js_set i (Rec r) (lst_invocations s))"
       "row_committed row = dict_sum (used_at K) (js_set i (Rec r) (lst_invocations s))"
    using r0 held used I by (simp_all add: dict_sum_js_set ledger_invD(2) [OF inv] row_sound_def)
  moreover have "row_committed row + row_held row \<le> row_limit row"
    if "\<not> breach_at K (js_set i (Rec r) (lst_invocations s))"
  proof -
    from that k have "\<not> inv_breach r" and "\<not> breach_at K (lst_invocations s)"
      using nb I unfolding breach_at_js_set unfolding breach_at_def by (auto, metis inv_entry.inject option.inject)
    with r0 total fields show ?thesis by (simp add: row_sound_def)
  qed
  ultimately show ?thesis using fields bounds by (simp add: row_sound_def)
qed

lemma fence_apply_inv:
  assumes "ledger_inv sha s" and "fence_apply key s = Inr (Write s' out)"
  shows "ledger_inv sha s'"
proof (cases rule: js_get_cases [of "lst_invocations s" key])
  case (Own e)
  with assms(2) obtain r where e: "e = Rec r"
    and st: "inv_state r = Held \<or> inv_state r = Fenced" "\<not> inv_fenced r"
    and s': "s' = set_invocation key (Rec (r\<lparr>inv_state := Fenced, inv_fenced := True\<rparr>)) s"
    by (auto simp: fence_apply_def Let_def dest!: open_state split: inv_entry.splits if_splits)
  let ?r = "r\<lparr>inv_state := Fenced, inv_fenced := True\<rparr>"
  have I: "map_of (lst_invocations s) key = Some (Rec r)" using Own e by simp
  have rk: "record_ok sha (lst_quarantined s) key r" using ledger_invD(4) [OF assms(1) I] .
  obtain row where E: "map_of (lst_epochs s) (inv_row_key r) = Some row"
    using ledger_invD(5) [OF assms(1) I] by blast
  have rs: "row_sound (lst_invocations s) (inv_row_key r) row" using ledger_invD(3) [OF assms(1) E] .
  have key: "inv_row_key ?r = inv_row_key r" by (simp add: inv_row_key_def)
  show ?thesis
  proof (rule ledger_inv_step [OF assms(1) key, where row = row and i = key])
    show "row_sound (js_set key (Rec ?r) (lst_invocations s)) (inv_row_key r) row"
      using st rs rk by (intro row_sound_change [OF assms(1) E I _ key])
        (auto simp: row_sound_def key record_ok_def)
    show "record_ok sha (lst_quarantined s) key ?r"
      using rk st by (auto simp: record_ok_def split: invocation_state.splits)
  qed (use I s' E rk st in \<open>auto simp: set_invocation_def record_ok_def\<close>)
next
  case (Inherited n)
  then have s': "s' = set_invocation key Bare s" using assms(2) by (simp add: fence_apply_def)
  have "dict_sum f (js_set key Bare (lst_invocations s)) = dict_sum f (lst_invocations s)"
    if "f Bare = 0" for f
    using that Inherited ledger_invD(2) [OF assms(1)] by (simp add: dict_sum_js_set)
  moreover have "breach_at k (js_set key Bare (lst_invocations s)) \<longleftrightarrow> breach_at k (lst_invocations s)" for k
    using Inherited by (simp add: breach_at_js_set_Bare)
  ultimately have "row_sound (js_set key Bare (lst_invocations s)) k row
      \<longleftrightarrow> row_sound (lst_invocations s) k row" for k row
    by (intro row_sound_cong) auto
  then show ?thesis
    using assms(1) by (auto simp: ledger_inv_def s' set_invocation_def)
next
  case Missing
  then show ?thesis using assms(2) by (simp add: fence_apply_def)
qed

lemma settle_apply_inv:
  assumes inv: "ledger_inv sha s" and u: "usage_ok u"
    and ap: "settle_apply sha key u s = Inr (Write s' out)"
  shows "ledger_inv sha s'"
proof -
  obtain r row where I: "map_of (lst_invocations s) key = Some (Rec r)"
    and st: "inv_state r = Held \<or> inv_state r = Fenced"
    and E: "map_of (lst_epochs s) (inv_row_key r) = Some row"
    and w: "settle_write sha key u r row s = Write s' out"
    using ap by (auto simp: settle_apply_def js_get_Own_iff dest!: open_state
        split: property.splits inv_entry.splits if_splits option.splits)
  let ?A = "usageTotal u" and ?U = "inv_upperBound r" and ?K = "inv_row_key r"
  let ?r = "r\<lparr>inv_state := Settled, inv_usage := Some u, inv_breach := ?U < ?A\<rparr>"
  let ?row = "row\<lparr>row_committed := js_add (row_committed row) ?A, row_held := js_sub (row_held row) ?U\<rparr>"
  let ?p = "profileKey sha (inv_profile r)"
  let ?Q = "if ?U < ?A \<and> map_of (lst_quarantined s) ?p \<noteq> Some ()
            then js_set ?p () (lst_quarantined s) else lst_quarantined s"
  have safe: "safe_int (row_committed row + ?A)"
    using w by (auto simp: settle_write_def Let_def split: if_splits)
  have s': "lst_epochs s' = js_set ?K ?row (lst_epochs s)"
    "lst_invocations s' = js_set key (Rec ?r) (lst_invocations s)"
    "lst_quarantined s' = ?Q" "lst_schedules s' = lst_schedules s"
    using w safe by (auto simp: settle_write_def Let_def split: if_splits)
  have rk: "record_ok sha (lst_quarantined s) key r" using ledger_invD(4) [OF inv I] .
  have rs: "row_sound (lst_invocations s) ?K row" using ledger_invD(3) [OF inv E] .
  have le: "?U \<le> row_held row" using row_held_ge [OF inv I st E] .
  have nn: "0 \<le> row_held row" "0 \<le> row_committed row" using row_nonneg [OF inv E] by simp_all
  have "safe_int (row_held row - ?U)" using le rs rk
    by (auto simp: row_sound_def row_key_ok_def record_ok_def safe_int_def)
  then have arith: "js_sub (row_held row) ?U = row_held row - ?U"
    "js_add (row_committed row) ?A = row_committed row + ?A" using safe by simp_all
  have key: "inv_row_key ?r = ?K" by (simp add: inv_row_key_def)
  have nb: "\<not> inv_breach r" using rk st by (auto simp: record_ok_def)
  show ?thesis
  proof (rule ledger_inv_step [OF inv key _ _ _ _ s'])
    show "row_sound (js_set key (Rec ?r) (lst_invocations s)) ?K ?row"
    proof (rule row_sound_change [OF inv E I refl key])
      show "row_key_ok ?K ?row" using rs by (simp add: row_sound_def row_key_ok_def)
      show "row_held ?row = row_held row + held_at ?K (Rec ?r) - held_at ?K (Rec r)"
        "row_committed ?row = row_committed row + used_at ?K (Rec ?r) - used_at ?K (Rec r)"
        using arith key st by auto
      show "row_held ?row \<le> row_limit ?row" "safe_int (row_committed ?row)"
        using arith rs rk safe by (auto simp: row_sound_def record_ok_def)
      show "row_committed ?row + row_held ?row \<le> row_committed row + row_held row"
        if "\<not> inv_breach ?r" using that arith by simp
    qed (use nb in simp_all)
    show "record_ok sha ?Q key ?r" using rk u by (auto simp: record_ok_def)
  qed (use I nb in auto)
qed

lemma release_apply_inv:
  assumes inv: "ledger_inv sha s" and ap: "release_apply key s = Inr (Write s' out)"
  shows "ledger_inv sha s'"
proof -
  obtain r row where I: "map_of (lst_invocations s) key = Some (Rec r)"
    and st: "inv_state r = Held \<or> inv_state r = Fenced" "\<not> inv_fenced r"
    and E: "map_of (lst_epochs s) (inv_row_key r) = Some row"
    and w: "release_write key r row s = Write s' out"
    using ap by (auto simp: release_apply_def js_get_Own_iff dest!: open_state
        split: property.splits inv_entry.splits if_splits option.splits)
  have s': "lst_epochs s' = js_set (inv_row_key r)
        (row\<lparr>row_held := js_sub (row_held row) (inv_upperBound r)\<rparr>) (lst_epochs s)"
      "lst_invocations s' = js_set key (Rec (r\<lparr>inv_state := Released\<rparr>)) (lst_invocations s)"
      "lst_quarantined s' = lst_quarantined s" "lst_schedules s' = lst_schedules s"
    using w by (auto simp: release_write_def Let_def)
  let ?r = "r\<lparr>inv_state := Released\<rparr>" and ?K = "inv_row_key r"
  let ?row = "row\<lparr>row_held := js_sub (row_held row) (inv_upperBound r)\<rparr>"
  have rk: "record_ok sha (lst_quarantined s) key r" using ledger_invD(4) [OF inv I] .
  have rs: "row_sound (lst_invocations s) ?K row" using ledger_invD(3) [OF inv E] .
  have le: "inv_upperBound r \<le> row_held row" using row_held_ge [OF inv I st(1) E] .
  have "safe_int (row_held row - inv_upperBound r)" using le rs rk
    by (auto simp: row_sound_def row_key_ok_def record_ok_def safe_int_def)
  then have arith: "js_sub (row_held row) (inv_upperBound r) = row_held row - inv_upperBound r" by simp
  have key: "inv_row_key ?r = ?K" by (simp add: inv_row_key_def)
  show ?thesis
  proof (rule ledger_inv_step [OF inv key _ _ _ _ s'])
    show "row_sound (js_set key (Rec ?r) (lst_invocations s)) ?K ?row"
      using st rs rk arith by (intro row_sound_change [OF inv E I refl key])
        (auto simp: row_sound_def row_key_ok_def record_ok_def key)
    show "record_ok sha (lst_quarantined s) key ?r"
      using rk st by (auto simp: record_ok_def split: invocation_state.splits)
  qed (use I rk st in \<open>auto simp: record_ok_def\<close>)
qed

lemma absent_row_sums:
  assumes inv: "ledger_inv sha s" and E: "map_of (lst_epochs s) K = None"
  shows "dict_sum (held_at K) (lst_invocations s) = 0"
    and "dict_sum (used_at K) (lst_invocations s) = 0"
    and "\<not> breach_at K (lst_invocations s)"
proof -
  have ne: "inv_row_key r \<noteq> K" if "(i, Rec r) \<in> set (lst_invocations s)" for i r
    using that ledger_invD(5) [OF inv] ledger_invD(2) [OF inv] E by (force simp: dict_ok_def)
  have "held_at K e = 0 \<and> used_at K e = 0" if "(i, e) \<in> set (lst_invocations s)" for i e
    using that ne by (cases e) auto
  then show "dict_sum (held_at K) (lst_invocations s) = 0"
    "dict_sum (used_at K) (lst_invocations s) = 0"
    by (blast intro: dict_sum_zero)+
  show "\<not> breach_at K (lst_invocations s)"
    using ne by (auto simp: breach_at_def dest: map_of_SomeD)
qed

text \<open>The row an admission starts from, existing or fresh, is sound.\<close>

lemma reserve_row:
  assumes inv: "ledger_inv sha s" and a: "args_ok a" and sch: "schedule_ok schedule"
    and e: "epochContaining schedule now = Inr (Some e)"
    and K: "K = epochRowKey (ra_tenant a) (ra_pool a) (ep_start e)"
    and c: "current = (case map_of (lst_epochs s) K of Some row \<Rightarrow> row | None \<Rightarrow> fresh_row a schedule e)"
  shows "row_sound (lst_invocations s) K current" and "row_tenant current = ra_tenant a"
    and "row_pool current = ra_pool a" and "row_start current = ep_start e"
    and "inv_row_key (held_record a current) = K"
    and "0 \<le> row_held current" and "0 \<le> row_committed current"
proof -
  note ep = epochContaining_Some [OF sch e]
  have all: "row_sound (lst_invocations s) K current \<and> row_tenant current = ra_tenant a
      \<and> row_pool current = ra_pool a \<and> row_start current = ep_start e
      \<and> 0 \<le> row_held current \<and> 0 \<le> row_committed current"
  proof (cases "map_of (lst_epochs s) K")
    case None
    then have "row_key_ok K current"
      using a sch ep K c by (simp add: fresh_row_def row_key_ok_def args_ok_def schedule_ok_def)
    with None c sch show ?thesis using absent_row_sums [OF inv None]
      by (simp add: row_sound_def fresh_row_def schedule_ok_def safe_int_def MAX_SAFE_INTEGER_def)
  next
    case (Some row)
    then have rs: "row_sound (lst_invocations s) K row" by (rule ledger_invD(3) [OF inv])
    then have "epochRowKey (row_tenant row) (row_pool row) (row_start row)
        = epochRowKey (ra_tenant a) (ra_pool a) (ep_start e)"
      using K by (simp add: row_sound_def row_key_ok_def)
    then have "row_tenant row = ra_tenant a \<and> row_pool row = ra_pool a \<and> row_start row = ep_start e"
      using rs a ep(5) by (intro epochRowKey_inj) (auto simp: row_sound_def row_key_ok_def args_ok_def)
    with Some rs c row_nonneg [OF inv Some] show ?thesis by simp
  qed
  then show "row_sound (lst_invocations s) K current" "row_tenant current = ra_tenant a"
    "row_pool current = ra_pool a" "row_start current = ep_start e"
    "0 \<le> row_held current" "0 \<le> row_committed current" by simp_all
  from all show "inv_row_key (held_record a current) = K"
    by (simp add: inv_row_key_def held_record_def K)
qed

lemma reserve_admit_inv:
  assumes inv: "ledger_inv sha s" and a: "args_ok a" and sch: "schedule_ok schedule"
    and e: "epochContaining schedule now = Inr (Some e)"
    and new: "map_of (lst_invocations s) (ra_id a) = None"
    and ap: "reserve_admit sha a schedule e s = Write s' out"
  shows "ledger_inv sha s'"
proof -
  define K where "K = epochRowKey (ra_tenant a) (ra_pool a) (ep_start e)"
  define c where "c = (case map_of (lst_epochs s) K of Some row \<Rightarrow> row | None \<Rightarrow> fresh_row a schedule e)"
  let ?U = "ra_upperBound a"
  let ?r = "held_record a c" and ?row = "c\<lparr>row_held := js_add (row_held c) ?U\<rparr>"
  note cr = reserve_row [OF inv a sch e K_def c_def]
  have f: "fits (row_limit c) (row_committed c) (row_held c) ?U"
    and s': "lst_epochs s' = js_set K ?row (lst_epochs s)"
      "lst_invocations s' = js_set (ra_id a) (Rec ?r) (lst_invocations s)"
      "lst_quarantined s' = lst_quarantined s" "lst_schedules s' = lst_schedules s"
    using ap unfolding reserve_admit_def Let_def K_def [symmetric] c_def [symmetric]
    by (auto split: if_splits)
  have lim: "0 \<le> row_limit c" "safe_int (row_limit c)"
    using cr(1) by (simp_all add: row_sound_def row_key_ok_def)
  have tot: "row_committed c + row_held c + ?U \<le> row_limit c"
    using f fits_iff [OF lim cr(7,6)] a by (simp add: args_ok_def)
  then have "safe_int (row_held c + ?U)"
    using cr(6,7) lim a by (simp add: safe_int_def args_ok_def)
  then have add: "js_add (row_held c) ?U = row_held c + ?U" by simp
  have st: "inv_state ?r = Held" "inv_upperBound ?r = ?U" "\<not> inv_breach ?r"
    by (simp_all add: held_record_def)
  show ?thesis
  proof (rule ledger_inv_step [OF inv cr(5) _ _ _ _ s'])
    have br: "breach_at K (js_set (ra_id a) (Rec ?r) (lst_invocations s)) \<longleftrightarrow> breach_at K (lst_invocations s)"
    proof -
      have "id \<noteq> ra_id a" if "map_of (lst_invocations s) id = Some x" for id x
        using that new by auto
      with st(3) show ?thesis unfolding breach_at_js_set unfolding breach_at_def by blast
    qed
    show "row_sound (js_set (ra_id a) (Rec ?r) (lst_invocations s)) K ?row"
      using cr(1,5,6,7) tot add st new br
      by (auto simp: row_sound_def row_key_ok_def dict_sum_js_set ledger_invD(2) [OF inv])
    show "record_ok sha (lst_quarantined s) (ra_id a) ?r"
      using a by (simp add: record_ok_def held_record_def args_ok_def)
  qed (use new in auto)
qed

section \<open>Schedules\<close>

lemma schedule_chain_ok: "schedule_chain p vs \<Longrightarrow> v \<in> set vs \<Longrightarrow> schedule_ok v \<and> sch_pool v = p"
  by (induction p vs rule: schedule_chain.induct) auto

lemma schedule_chain_snoc:
  "schedule_chain p vs \<Longrightarrow> vs \<noteq> [] \<Longrightarrow> schedule_ok t \<Longrightarrow> sch_pool t = p \<Longrightarrow>
   boundary_of (last vs) (sch_anchorMs t) \<Longrightarrow> schedule_chain p (vs @ [t])"
  by (induction p vs rule: schedule_chain.induct) auto

lemma applicable_from_in:
  "applicable_from p vs now = Some v \<Longrightarrow> p = Some v \<or> (v \<in> set vs \<and> sch_anchorMs v \<le> now)"
  by (induction p vs now rule: applicable_from.induct) (auto split: if_splits)

lemma applicableSchedule_in:
  "applicableSchedule vs now = Some v \<Longrightarrow> v \<in> set vs \<and> sch_anchorMs v \<le> now"
  using applicable_from_in by (fastforce simp: applicableSchedule_def)

text \<open>A reservation that reaches the admission has a well-formed schedule and its epoch.\<close>

lemma pick_schedule_ok:
  assumes "ledger_inv sha s" and "pick_schedule s pool now = Inr (Some schedule)"
  shows "schedule_ok schedule"
proof -
  obtain vs where "map_of (lst_schedules s) pool = Some vs" "applicableSchedule vs now = Some schedule"
    using assms(2) by (auto simp: pick_schedule_def js_get_Own_iff split: property.splits)
  then show ?thesis
    using ledger_invD(6) [OF assms(1)] applicableSchedule_in schedule_chain_ok by blast
qed

lemma reserve_apply_InrE:
  assumes "reserve_apply sha a s = Inr ap"
  obtains (NoSchedule) "pick_schedule s (ra_pool a) (ra_at a) = Inr None"
      "ap = NoWrite (ReserveUnavailable InvalidPolicy (ra_correlation a) (ra_id a))"
    | (NoEpoch) schedule where "pick_schedule s (ra_pool a) (ra_at a) = Inr (Some schedule)"
      "epochContaining schedule (ra_at a) = Inr None"
      "ap = NoWrite (ReserveUnavailable InvalidPolicy (ra_correlation a) (ra_id a))"
    | (Epoch) schedule e where "pick_schedule s (ra_pool a) (ra_at a) = Inr (Some schedule)"
      "epochContaining schedule (ra_at a) = Inr (Some e)"
      "ap = reserve_in_epoch sha a schedule e s"
proof -
  obtain picked where p: "pick_schedule s (ra_pool a) (ra_at a) = Inr picked"
    using assms by (auto simp: reserve_apply_def bindR_Inr_conv)
  show thesis
  proof (cases picked)
    case None
    with p assms NoSchedule show thesis by (simp add: reserve_apply_def)
  next
    case (Some schedule)
    with p assms obtain epoch where e: "epochContaining schedule (ra_at a) = Inr epoch"
      by (auto simp: reserve_apply_def bindR_Inr_conv)
    show thesis
      by (cases epoch) (use p Some e assms NoEpoch Epoch in \<open>simp_all add: reserve_apply_def\<close>)
  qed
qed

lemma reserve_apply_inv:
  assumes inv: "ledger_inv sha s" and a: "args_ok a"
    and ap: "reserve_apply sha a s = Inr (Write s' out)"
  shows "ledger_inv sha s'"
  using ap
proof (cases rule: reserve_apply_InrE)
  case (Epoch schedule e)
  then have "js_get (lst_invocations s) (ra_id a) = Missing"
    and "reserve_admit sha a schedule e s = Write s' out"
    by (cases "js_get (lst_invocations s) (ra_id a)"; simp add: reserve_in_epoch_def)+
  then show ?thesis
    using reserve_admit_inv [OF inv a pick_schedule_ok [OF inv Epoch(1)] Epoch(2)]
    by (simp add: js_get_Missing_iff)
qed simp_all

lemma configure_apply_inv:
  assumes "ledger_inv sha s" and "schedule_ok pinned"
    and "configure_apply pinned s = Inr (Write s' out)"
  shows "ledger_inv sha s'"
proof -
  from assms(3) have "s' = set_schedules (sch_pool pinned) [pinned] s"
    by (simp add: configure_apply_def split: if_splits)
  with assms(1,2) show ?thesis by (simp add: ledger_inv_def set_schedules_def)
qed

lemma transition_apply_inv:
  assumes inv: "ledger_inv sha s" and ap: "transition_apply key change now s = Inr (Write s' out)"
  shows "ledger_inv sha s'"
proof -
  obtain vs t where vs: "map_of (lst_schedules s) key = Some vs" "vs \<noteq> []"
    and t: "transitionSchedule (last vs) change now = Inr t"
    and s': "s' = set_schedules key (vs @ [t]) s"
    using ap by (auto simp: transition_apply_def bindR_Inr_conv js_get_Own_iff split: property.splits if_splits)
  have ch: "schedule_chain key vs" using ledger_invD(6) [OF inv vs(1)] by simp
  then have l: "schedule_ok (last vs)" "sch_pool (last vs) = key"
    using schedule_chain_ok vs(2) last_in_set by blast+
  have "schedule_chain key (vs @ [t])"
    using schedule_chain_snoc [OF ch vs(2)] transitionSchedule_Inr [OF l(1) t] l(2) by simp
  then show ?thesis using inv by (auto simp: ledger_inv_def s' set_schedules_def)
qed

end
