(* ===== verification/LedgerStore.thy ===== *)
theory LedgerStore
  imports LedgerInv
begin

text \<open>
  The operations of \<open>runtime/outbound/ledger.ts\<close> over a \<open>LedgerStore\<close>: optimistic
  transactions with bounded retries, the memory backend, and the contract of a backend as a
  locale in which atomicity of a transaction is proved once, under arbitrary interference
  of other clients.
\<close>

section \<open>Stores and transactions\<close>

datatype commit_result = Committed | NotCommitted | CommitThrew

text \<open>
  A backend over a world \<open>'w\<close>: \<open>load\<close> gives no state when it throws, \<open>commit\<close> takes
  the expected version and the next state.
\<close>

record 'w ledger_store =
  ls_load :: "'w \<Rightarrow> ledger_state option \<times> 'w"
  ls_commit :: "'w \<Rightarrow> int \<Rightarrow> ledger_state \<Rightarrow> commit_result \<times> 'w"

datatype 'a tx_result = TxOk 'a | TxUnavailable | TxAmbiguous | TxThrow js_exn

fun tx_attempts ::
  "nat \<Rightarrow> 'w ledger_store \<Rightarrow> (ledger_state \<Rightarrow> 'a applied res) \<Rightarrow> ledger_state \<Rightarrow> 'w
   \<Rightarrow> 'a tx_result \<times> 'w" where
  "tx_attempts 0 store ap loaded w = (TxUnavailable, w)"
| "tx_attempts (Suc n) store ap loaded w =
     (case ap loaded of
        Inl e \<Rightarrow> (TxThrow e, w)
      | Inr (NoWrite v) \<Rightarrow> (TxOk v, w)
      | Inr (Write next v) \<Rightarrow>
          (case ls_commit store w (lst_version loaded) next of
             (Committed, w1) \<Rightarrow> (TxOk v, w1)
           | (CommitThrew, w1) \<Rightarrow> (TxAmbiguous, w1)
           | (NotCommitted, w1) \<Rightarrow>
               (case ls_load store w1 of
                  (None, w2) \<Rightarrow> (TxUnavailable, w2)
                | (Some s, w2) \<Rightarrow> tx_attempts n store ap s w2)))"

definition runTransaction ::
  "'w ledger_store \<Rightarrow> (ledger_state \<Rightarrow> 'a applied res) \<Rightarrow> 'w \<Rightarrow> 'a tx_result \<times> 'w" where
  "runTransaction store ap w =
     (case ls_load store w of
        (None, w1) \<Rightarrow> (TxUnavailable, w1)
      | (Some s, w1) \<Rightarrow> tx_attempts 64 store ap s w1)"

text \<open>The memory backend: its world is the current state.\<close>

definition createMemoryLedgerStore :: "ledger_state ledger_store" where
  "createMemoryLedgerStore =
     \<lparr>ls_load = (\<lambda>current. (Some current, current)),
      ls_commit = (\<lambda>current expectedVersion next.
        if lst_version current \<noteq> expectedVersion then (NotCommitted, current)
        else if lst_version next \<noteq> js_add expectedVersion 1 then (CommitThrew, current)
        else (Committed, next))\<rparr>"

section \<open>The operations\<close>

text \<open>
  What an operation reads besides its arguments: the identifiers \<open>crypto.randomUUID()\<close>
  would mint and \<open>Date.now()\<close>.
\<close>

record ledger_env =
  env_correlation :: jsstr
  env_invocation :: jsstr
  env_dateNow :: jsval

record reserve_input =
  ri_tenant :: jsval
  ri_pool :: jsval
  ri_correlation :: jsval
  ri_profile :: profile_init
  ri_qualified :: jsval
  ri_upperBound :: jsval
  ri_invocationId :: jsval
  ri_nowMs :: jsval

definition finish :: "(unavailable_reason \<Rightarrow> 'a) \<Rightarrow> 'a tx_result \<times> 'w \<Rightarrow> 'a res \<times> 'w" where
  "finish unavailable run =
     (case run of
        (TxOk v, w) \<Rightarrow> (Inr v, w)
      | (TxThrow e, w) \<Rightarrow> (Inl e, w)
      | (TxAmbiguous, w) \<Rightarrow> (Inr (unavailable AmbiguousCommit), w)
      | (TxUnavailable, w) \<Rightarrow> (Inr (unavailable StorageUnavailable), w))"

definition with_checked :: "'a res \<Rightarrow> 'w \<Rightarrow> ('a \<Rightarrow> 'b res \<times> 'w) \<Rightarrow> 'b res \<times> 'w" where
  "with_checked m w f = (case m of Inl e \<Rightarrow> (Inl e, w) | Inr x \<Rightarrow> f x)"

definition reserve_checked :: "ledger_env \<Rightarrow> reserve_input \<Rightarrow> reserve_args res" where
  "reserve_checked env i =
     bindR (tenantId (ri_tenant i)) (\<lambda>tenant.
     bindR (poolId (ri_pool i)) (\<lambda>pool.
     bindR (if ri_correlation i = Undefined then Inr (env_correlation env)
            else correlationId (ri_correlation i)) (\<lambda>correlation.
     bindR (meteringProfile (ri_profile i)) (\<lambda>profile.
     bindR (checkUpperBound (ri_upperBound i)) (\<lambda>upperBound.
     bindR (if ri_invocationId i = Undefined then Inr (env_invocation env)
            else invocationId (ri_invocationId i)) (\<lambda>id.
     bindR (checkClock (env_dateNow env) (ri_nowMs i)) (\<lambda>now.
       Inr \<lparr>ra_tenant = tenant, ra_pool = pool, ra_correlation = correlation,
            ra_profile = profile, ra_upperBound = upperBound, ra_id = id, ra_at = now\<rparr>)))))))"

definition reserve ::
  "(jsstr \<Rightarrow> jsstr) \<Rightarrow> ledger_env \<Rightarrow> 'w ledger_store \<Rightarrow> reserve_input \<Rightarrow> 'w
   \<Rightarrow> reserve_outcome res \<times> 'w" where
  "reserve sha env store i w =
     with_checked (reserve_checked env i) w (\<lambda>a.
       if ri_qualified i \<noteq> Bool True
       then (Inr (ReserveUnavailable MissingQualification (ra_correlation a) (ra_id a)), w)
       else finish (\<lambda>reason. ReserveUnavailable reason (ra_correlation a) (ra_id a))
              (runTransaction store (reserve_apply sha a) w))"

definition fence :: "'w ledger_store \<Rightarrow> jsval \<Rightarrow> 'w \<Rightarrow> fence_outcome res \<times> 'w" where
  "fence store invId w =
     with_checked (invocationId invId) w (\<lambda>key.
       finish FenceUnavailable (runTransaction store (fence_apply key) w))"

definition settle ::
  "(jsstr \<Rightarrow> jsstr) \<Rightarrow> 'w ledger_store \<Rightarrow> jsval \<Rightarrow> jsval \<Rightarrow> jsval \<Rightarrow> 'w
   \<Rightarrow> settle_outcome res \<times> 'w" where
  "settle sha store invId inputs outputs w =
     with_checked (invocationId invId) w (\<lambda>key.
       case meteringUsage inputs outputs of
         None \<Rightarrow> (Inr (SettleUnavailable InvalidUsage), w)
       | Some u \<Rightarrow> finish SettleUnavailable (runTransaction store (settle_apply sha key u) w))"

definition releaseUndispatched ::
  "'w ledger_store \<Rightarrow> jsval \<Rightarrow> 'w \<Rightarrow> release_outcome res \<times> 'w" where
  "releaseUndispatched store invId w =
     with_checked (invocationId invId) w (\<lambda>key.
       finish ReleaseUnavailable (runTransaction store (release_apply key) w))"

definition configurePool ::
  "'w ledger_store \<Rightarrow> schedule_init \<Rightarrow> 'w \<Rightarrow> configure_outcome res \<times> 'w" where
  "configurePool store schedule w =
     with_checked (epochSchedule schedule) w (\<lambda>pinned.
       finish NotConfigured (runTransaction store (configure_apply pinned) w))"

definition transitionPool ::
  "ledger_env \<Rightarrow> 'w ledger_store \<Rightarrow> jsval \<Rightarrow> schedule_change \<Rightarrow> jsval \<Rightarrow> 'w
   \<Rightarrow> transition_outcome res \<times> 'w" where
  "transitionPool env store pool change nowMs w =
     with_checked (poolId pool) w (\<lambda>key.
     with_checked (checkClock (env_dateNow env) nowMs) w (\<lambda>now.
       finish NotTransitioned (runTransaction store (transition_apply key change now) w)))"

datatype 'a read_outcome = ReadOk 'a | ReadUnavailable

definition read_state ::
  "'w ledger_store \<Rightarrow> (ledger_state \<Rightarrow> 'a) \<Rightarrow> 'w \<Rightarrow> 'a read_outcome \<times> 'w" where
  "read_state store f w =
     (case ls_load store w of
        (None, w1) \<Rightarrow> (ReadUnavailable, w1)
      | (Some s, w1) \<Rightarrow> (ReadOk (f s), w1))"

text \<open>
  \<open>reconcile\<close> finds an own record, an inherited member (which the code reports as found)
  or nothing.
\<close>

definition reconcile ::
  "'w ledger_store \<Rightarrow> jsval \<Rightarrow> 'w \<Rightarrow> inv_entry property read_outcome res \<times> 'w" where
  "reconcile store invId w =
     with_checked (invocationId invId) w (\<lambda>key.
       (case read_state store (\<lambda>s. js_get (lst_invocations s) key) w of (r, w1) \<Rightarrow> (Inr r, w1)))"

definition checkEpochStart :: "jsval \<Rightarrow> int res" where
  "checkEpochStart v =
     (case v of
        Num n \<Rightarrow>
          (case safe_integer n of
             Some i \<Rightarrow> if i < 0 then Inl (TypeError ''invalid epoch start'') else Inr i
           | None \<Rightarrow> Inl (TypeError ''invalid epoch start''))
      | _ \<Rightarrow> Inl (TypeError ''invalid epoch start''))"

definition epochStatus ::
  "'w ledger_store \<Rightarrow> jsval \<Rightarrow> jsval \<Rightarrow> jsval \<Rightarrow> 'w \<Rightarrow> epoch_status read_outcome res \<times> 'w" where
  "epochStatus store tenant pool epochStart w =
     with_checked (tenantId tenant) w (\<lambda>t.
     with_checked (poolId pool) w (\<lambda>p.
     with_checked (checkEpochStart epochStart) w (\<lambda>i.
       (case read_state store (status_of t p i) w of (r, w1) \<Rightarrow> (Inr r, w1)))))"

definition ledgerHealth :: "'w ledger_store \<Rightarrow> 'w \<Rightarrow> ledger_health read_outcome \<times> 'w" where
  "ledgerHealth store w = read_state store health_of w"

section \<open>The steps of the ledger\<close>

text \<open>
  One committed write of some client. The version counter is a double, so a step is
  counted only while the counter is below \<open>MAX_SAFE_INTEGER\<close>; past it the increment is
  lost and no further commit is accepted as new.
\<close>

inductive ledger_step :: "(jsstr \<Rightarrow> jsstr) \<Rightarrow> ledger_state \<Rightarrow> ledger_state \<Rightarrow> bool" for sha where
  step_reserve: "args_ok a \<Longrightarrow> reserve_apply sha a s = Inr (Write t v) \<Longrightarrow>
     \<bar>lst_version s\<bar> < MAX_SAFE_INTEGER \<Longrightarrow> ledger_step sha s t"
| step_fence: "fence_apply key s = Inr (Write t v) \<Longrightarrow>
     \<bar>lst_version s\<bar> < MAX_SAFE_INTEGER \<Longrightarrow> ledger_step sha s t"
| step_settle: "usage_ok u \<Longrightarrow> settle_apply sha key u s = Inr (Write t v) \<Longrightarrow>
     \<bar>lst_version s\<bar> < MAX_SAFE_INTEGER \<Longrightarrow> ledger_step sha s t"
| step_release: "release_apply key s = Inr (Write t v) \<Longrightarrow>
     \<bar>lst_version s\<bar> < MAX_SAFE_INTEGER \<Longrightarrow> ledger_step sha s t"
| step_configure: "schedule_ok p \<Longrightarrow> configure_apply p s = Inr (Write t v) \<Longrightarrow>
     \<bar>lst_version s\<bar> < MAX_SAFE_INTEGER \<Longrightarrow> ledger_step sha s t"
| step_transition: "transition_apply key c now s = Inr (Write t v) \<Longrightarrow>
     \<bar>lst_version s\<bar> < MAX_SAFE_INTEGER \<Longrightarrow> ledger_step sha s t"

abbreviation ledger_steps :: "(jsstr \<Rightarrow> jsstr) \<Rightarrow> ledger_state \<Rightarrow> ledger_state \<Rightarrow> bool" where
  "ledger_steps sha \<equiv> (ledger_step sha)\<^sup>*\<^sup>*"

lemmas apply_inv = reserve_apply_inv fence_apply_inv settle_apply_inv release_apply_inv
  configure_apply_inv transition_apply_inv

lemma ledger_step_inv: "ledger_step sha s t \<Longrightarrow> ledger_inv sha s \<Longrightarrow> ledger_inv sha t"
  by (induction rule: ledger_step.induct) (auto intro: apply_inv)

lemma ledger_steps_inv: "ledger_steps sha s t \<Longrightarrow> ledger_inv sha s \<Longrightarrow> ledger_inv sha t"
  by (induction rule: rtranclp_induct) (auto intro: ledger_step_inv)

text \<open>Every write advances the version by the double increment.\<close>

lemma reserve_admit_version:
  "reserve_admit sha a schedule e s = Write t v \<Longrightarrow> lst_version t = nextVersion s"
  by (auto simp: reserve_admit_def Let_def split: if_splits)

lemma reserve_apply_version:
  assumes "reserve_apply sha a s = Inr (Write t v)"
  shows "lst_version t = nextVersion s"
  using assms
proof (cases rule: reserve_apply_InrE)
  case (Epoch schedule e)
  then show ?thesis
    by (cases "js_get (lst_invocations s) (ra_id a)")
       (auto simp: reserve_in_epoch_def dest: reserve_admit_version [OF sym])
qed simp_all

lemma fence_apply_version:
  "fence_apply key s = Inr (Write t v) \<Longrightarrow> lst_version t = nextVersion s"
  by (auto simp: fence_apply_def Let_def set_invocation_def
      split: property.splits inv_entry.splits if_splits)

lemma settle_write_version:
  "settle_write sha key u r row s = Write t v \<Longrightarrow> lst_version t = nextVersion s"
  by (auto simp: settle_write_def Let_def split: if_splits)

lemma settle_apply_version:
  "settle_apply sha key u s = Inr (Write t v) \<Longrightarrow> lst_version t = nextVersion s"
  by (auto simp: settle_apply_def dest: settle_write_version
      split: property.splits inv_entry.splits if_splits option.splits)

lemma release_apply_version:
  "release_apply key s = Inr (Write t v) \<Longrightarrow> lst_version t = nextVersion s"
  by (auto simp: release_apply_def release_write_def Let_def
      split: property.splits inv_entry.splits if_splits option.splits)

lemma configure_apply_version:
  "configure_apply p s = Inr (Write t v) \<Longrightarrow> lst_version t = nextVersion s"
  by (auto simp: configure_apply_def set_schedules_def split: if_splits)

lemma transition_apply_version:
  "transition_apply key c now s = Inr (Write t v) \<Longrightarrow> lst_version t = nextVersion s"
  by (auto simp: transition_apply_def set_schedules_def bindR_Inr_conv
      split: property.splits if_splits)

lemmas apply_version = reserve_apply_version fence_apply_version settle_apply_version
  release_apply_version configure_apply_version transition_apply_version

lemma ledger_step_version: "ledger_step sha s t \<Longrightarrow> lst_version t = lst_version s + 1"
  by (induction rule: ledger_step.induct)
     (auto dest!: apply_version simp: nextVersion_def safe_int_def)

lemma ledger_steps_version: "ledger_steps sha s t \<Longrightarrow> s = t \<or> lst_version s < lst_version t"
  by (induction rule: rtranclp_induct) (auto dest: ledger_step_version)

section \<open>The contract of a backend\<close>

text \<open>
  A backend shows a persisted state (its \<open>view\<close>). Other clients may move it between two
  calls, along \<open>rely\<close>, which never returns to a version it has left. A commit replaces
  the persisted state exactly when its version is the expected one; a commit that throws
  may or may not have done so.
\<close>

locale ledger_backend =
  fixes store :: "'w ledger_store"
    and view :: "'w \<Rightarrow> ledger_state"
    and rely :: "ledger_state \<Rightarrow> ledger_state \<Rightarrow> bool"
  assumes rely_refl: "rely s s"
    and rely_trans: "rely s t \<Longrightarrow> rely t u \<Longrightarrow> rely s u"
    and rely_version: "rely s t \<Longrightarrow> s = t \<or> lst_version s < lst_version t"
    and load_Some: "ls_load store w = (Some s, w') \<Longrightarrow> rely (view w) s \<and> view w' = s"
    and load_None: "ls_load store w = (None, w') \<Longrightarrow> rely (view w) (view w')"
    and commit_done: "ls_commit store w v next = (Committed, w') \<Longrightarrow>
          \<exists>s. rely (view w) s \<and> lst_version s = v \<and> view w' = next"
    and commit_lost: "ls_commit store w v next = (NotCommitted, w') \<Longrightarrow> rely (view w) (view w')"
    and commit_threw: "ls_commit store w v next = (CommitThrew, w') \<Longrightarrow>
          rely (view w) (view w')
          \<or> (\<exists>s. rely (view w) s \<and> lst_version s = v \<and> view w' = next)"
begin

text \<open>
  The effect of one transaction on the persisted state: the function was applied to a
  state the backend held, and a value is only returned for a write that replaced exactly
  the state the value was computed from.
\<close>

definition tx_effect ::
  "(ledger_state \<Rightarrow> 'a applied res) \<Rightarrow> ledger_state \<Rightarrow> 'a tx_result \<Rightarrow> ledger_state \<Rightarrow> bool" where
  "tx_effect ap s0 res s1 \<longleftrightarrow>
     (case res of
        TxOk v \<Rightarrow> \<exists>s. rely s0 s \<and> (ap s = Inr (NoWrite v) \<and> s1 = s \<or> ap s = Inr (Write s1 v))
      | TxThrow e \<Rightarrow> \<exists>s. rely s0 s \<and> ap s = Inl e \<and> s1 = s
      | TxUnavailable \<Rightarrow> rely s0 s1
      | TxAmbiguous \<Rightarrow> rely s0 s1 \<or> (\<exists>s v. rely s0 s \<and> ap s = Inr (Write s1 v)))"

lemma tx_effect_rely: "rely s s0 \<Longrightarrow> tx_effect ap s0 res s1 \<Longrightarrow> tx_effect ap s res s1"
  unfolding tx_effect_def by (cases res) (auto intro: rely_trans)

lemma same_version: "rely s t \<Longrightarrow> lst_version t = lst_version s \<Longrightarrow> t = s"
  using rely_version by fastforce

lemma tx_attempts_effect:
  "tx_attempts n store ap (view w) w = (res, w') \<Longrightarrow> tx_effect ap (view w) res (view w')"
proof (induction n arbitrary: w)
  case 0
  then show ?case by (simp add: tx_effect_def rely_refl)
next
  case (Suc n)
  show ?case
  proof (cases "ap (view w)")
    case (Inl e)
    with Suc.prems rely_refl show ?thesis by (auto simp: tx_effect_def)
  next
    case (Inr a)
    show ?thesis
    proof (cases a)
      case (NoWrite v)
      with Inr Suc.prems rely_refl [of "view w"] show ?thesis by (force simp: tx_effect_def)
    next
      case (Write nxt v)
      obtain c w1 where c: "ls_commit store w (lst_version (view w)) nxt = (c, w1)"
        by (cases "ls_commit store w (lst_version (view w)) nxt")
      have eq: "s = view w" if "rely (view w) s" "lst_version s = lst_version (view w)" for s
        using same_version that by blast
      show ?thesis
      proof (cases c)
        case Committed
        with c commit_done eq have "view w1 = nxt" by blast
        then show ?thesis
          using Committed c Suc.prems Inr Write rely_refl [of "view w"]
          by (fastforce simp: tx_effect_def)
      next
        case CommitThrew
        with c commit_threw eq have "rely (view w) (view w1) \<or> view w1 = nxt" by blast
        with CommitThrew c Suc.prems Inr Write rely_refl show ?thesis
          by (auto simp: tx_effect_def)
      next
        case NotCommitted
        with c have r1: "rely (view w) (view w1)" using commit_lost by blast
        obtain l w2 where l: "ls_load store w1 = (l, w2)" by (cases "ls_load store w1")
        show ?thesis
        proof (cases l)
          case None
          with l load_None have "rely (view w1) (view w2)" by blast
          with None l NotCommitted c Suc.prems Inr Write r1 rely_trans show ?thesis
            by (auto simp: tx_effect_def)
        next
          case (Some s)
          with l load_Some have r2: "rely (view w1) s" and v2: "view w2 = s" by blast+
          have "tx_attempts n store ap (view w2) w2 = (res, w')"
            using Some l NotCommitted c Suc.prems Inr Write v2 by simp
          from Suc.IH [OF this] v2 show ?thesis
            using tx_effect_rely rely_trans [OF r1 r2] by blast
        qed
      qed
    qed
  qed
qed

theorem runTransaction_effect:
  assumes "runTransaction store ap w = (res, w')"
  shows "tx_effect ap (view w) res (view w')"
proof -
  obtain l w1 where l: "ls_load store w = (l, w1)" by (cases "ls_load store w")
  show ?thesis
  proof (cases l)
    case None
    with l load_None assms show ?thesis by (auto simp: runTransaction_def tx_effect_def)
  next
    case (Some s)
    with l load_Some have r: "rely (view w) s" and v: "view w1 = s" by blast+
    have "tx_attempts 64 store ap (view w1) w1 = (res, w')"
      using Some l assms v by (simp add: runTransaction_def)
    from tx_attempts_effect [OF this] v r show ?thesis using tx_effect_rely by blast
  qed
qed

text \<open>A property the other clients and the applied function keep is kept by a transaction.\<close>

theorem runTransaction_keeps:
  assumes "runTransaction store ap w = (res, w')" and "P (view w)"
    and "\<And>s t. rely s t \<Longrightarrow> P s \<Longrightarrow> P t"
    and "\<And>s t v. ap s = Inr (Write t v) \<Longrightarrow> P s \<Longrightarrow> P t"
  shows "P (view w')"
  using runTransaction_effect [OF assms(1)] assms(2-4)
  by (cases res) (auto simp: tx_effect_def)

end

section \<open>The memory backend shared by several clients\<close>

text \<open>
  A call of another client whose transaction commits. Before each access of the client
  under consideration, the next batch of such calls takes effect: every interleaving of
  complete transactions of other clients with the loads and commits of one client.
\<close>

datatype ledger_call =
    CallReserve reserve_args
  | CallFence jsstr
  | CallSettle jsstr usage
  | CallRelease jsstr
  | CallConfigure epoch_schedule
  | CallTransition jsstr schedule_change int

fun written :: "'a applied res \<Rightarrow> ledger_state option" where
  "written (Inr (Write t v)) = Some t"
| "written _ = None"

fun call_write :: "(jsstr \<Rightarrow> jsstr) \<Rightarrow> ledger_call \<Rightarrow> ledger_state \<Rightarrow> ledger_state option" where
  "call_write sha (CallReserve a) s = (if args_ok a then written (reserve_apply sha a s) else None)"
| "call_write sha (CallFence k) s = written (fence_apply k s)"
| "call_write sha (CallSettle k u) s = (if usage_ok u then written (settle_apply sha k u s) else None)"
| "call_write sha (CallRelease k) s = written (release_apply k s)"
| "call_write sha (CallConfigure p) s = (if schedule_ok p then written (configure_apply p s) else None)"
| "call_write sha (CallTransition k c now) s = written (transition_apply k c now s)"

definition call_step :: "(jsstr \<Rightarrow> jsstr) \<Rightarrow> ledger_call \<Rightarrow> ledger_state \<Rightarrow> ledger_state" where
  "call_step sha c s =
     (if \<bar>lst_version s\<bar> < MAX_SAFE_INTEGER
      then (case call_write sha c s of Some t \<Rightarrow> t | None \<Rightarrow> s) else s)"

type_synonym shared_memory = "ledger_state \<times> ledger_call list list"

fun others_run :: "(jsstr \<Rightarrow> jsstr) \<Rightarrow> shared_memory \<Rightarrow> shared_memory" where
  "others_run sha (s, []) = (s, [])"
| "others_run sha (s, cs # css) = (fold (call_step sha) cs s, css)"

definition sharedMemoryStore :: "(jsstr \<Rightarrow> jsstr) \<Rightarrow> shared_memory ledger_store" where
  "sharedMemoryStore sha =
     \<lparr>ls_load = (\<lambda>w. let (s, css) = others_run sha w;
                        (l, s') = ls_load createMemoryLedgerStore s in (l, (s', css))),
      ls_commit = (\<lambda>w v next. let (s, css) = others_run sha w;
                        (c, s') = ls_commit createMemoryLedgerStore s v next in (c, (s', css)))\<rparr>"

lemma written_Some: "written x = Some t \<longleftrightarrow> (\<exists>v. x = Inr (Write t v))"
  by (cases x rule: written.cases) auto

lemma call_step_cases: "call_step sha c s = s \<or> ledger_step sha s (call_step sha c s)"
  by (cases c)
     (auto simp: call_step_def written_Some intro: ledger_step.intros split: option.splits if_splits)

lemma call_steps: "ledger_steps sha s (fold (call_step sha) cs s)"
proof (induction cs arbitrary: s)
  case Nil
  then show ?case by simp
next
  case (Cons c cs)
  have "ledger_steps sha s (call_step sha c s)" using call_step_cases [of sha c s] by auto
  with Cons [of "call_step sha c s"] show ?case by simp
qed

lemma others_run_steps: "ledger_steps sha (fst w) (fst (others_run sha w))"
  by (cases "(sha, w)" rule: others_run.cases) (simp_all add: call_steps)

lemma memory_simps [simp]:
  "ls_load createMemoryLedgerStore s = (Some s, s)"
  "ls_commit createMemoryLedgerStore s v next =
     (if lst_version s \<noteq> v then (NotCommitted, s)
      else if lst_version next \<noteq> js_add v 1 then (CommitThrew, s) else (Committed, next))"
  by (simp_all add: createMemoryLedgerStore_def)

interpretation memory: ledger_backend createMemoryLedgerStore "\<lambda>s. s" "\<lambda>s t. s = t"
  by unfold_locales (auto split: if_splits)

interpretation shared: ledger_backend "sharedMemoryStore sha" fst "ledger_steps sha" for sha
proof unfold_locales
  fix s t
  show "ledger_steps sha s t \<Longrightarrow> s = t \<or> lst_version s < lst_version t"
    by (rule ledger_steps_version)
next
  fix w s w'
  show "ls_load (sharedMemoryStore sha) w = (Some s, w') \<Longrightarrow> ledger_steps sha (fst w) s \<and> fst w' = s"
    using others_run_steps [of sha w]
    by (cases "others_run sha w") (auto simp: sharedMemoryStore_def)
next
  fix w v n w'
  show "ls_commit (sharedMemoryStore sha) w v n = (Committed, w') \<Longrightarrow>
      \<exists>s. ledger_steps sha (fst w) s \<and> lst_version s = v \<and> fst w' = n"
    using others_run_steps [of sha w]
    by (auto simp: sharedMemoryStore_def split: prod.splits if_splits)
  show "ls_commit (sharedMemoryStore sha) w v n = (NotCommitted, w') \<Longrightarrow>
      ledger_steps sha (fst w) (fst w')"
    using others_run_steps [of sha w]
    by (auto simp: sharedMemoryStore_def split: prod.splits if_splits)
  show "ls_commit (sharedMemoryStore sha) w v n = (CommitThrew, w') \<Longrightarrow>
      ledger_steps sha (fst w) (fst w')
      \<or> (\<exists>s. ledger_steps sha (fst w) s \<and> lst_version s = v \<and> fst w' = n)"
    using others_run_steps [of sha w]
    by (auto simp: sharedMemoryStore_def split: prod.splits if_splits)
qed (auto simp: sharedMemoryStore_def split: prod.splits)

text \<open>
  A transaction that races against at most 64 batches of other clients' commits is decided
  within its 64 attempts.
\<close>

lemma tx_attempts_converges:
  assumes version: "\<And>s t v. ap s = Inr (Write t v) \<Longrightarrow> lst_version t = nextVersion s"
  shows "length css < n \<Longrightarrow>
    \<exists>r w'. tx_attempts n (sharedMemoryStore sha) ap s (s, css) = (r, w')
      \<and> r \<noteq> TxUnavailable \<and> r \<noteq> TxAmbiguous"
proof (induction n arbitrary: s css)
  case 0
  then show ?case by simp
next
  case (Suc n)
  show ?case
  proof (cases "ap s")
    case (Inr a)
    show ?thesis
    proof (cases a)
      case (Write t v)
      obtain s1 css1 where o1: "others_run sha (s, css) = (s1, css1)" by (cases "others_run sha (s, css)")
      obtain s2 css2 where o2: "others_run sha (s1, css1) = (s2, css2)" by (cases "others_run sha (s1, css1)")
      have ver: "lst_version t = js_add (lst_version s) 1"
        using version Inr Write by (simp add: nextVersion_def)
      show ?thesis
      proof (cases "lst_version s1 = lst_version s")
        case True
        then show ?thesis using Inr Write o1 ver by (simp add: sharedMemoryStore_def)
      next
        case False
        then have "css \<noteq> []" using o1 by auto
        then have "length css2 < n" using o1 o2 Suc.prems by (cases css; cases css1) auto
        then show ?thesis using Inr Write o1 o2 False Suc.IH [of css2 s2]
          by (simp add: sharedMemoryStore_def)
      qed
    qed (use Inr in simp)
  qed simp
qed

end
