(* ===== verification/LedgerHistory.thy ===== *)
theory LedgerHistory
  imports LedgerStore
begin

text \<open>
  What the ledger never takes back: along every sequence of committed writes an invocation
  record keeps its identity and moves only forward through its states, and a quarantined
  profile stays quarantined.
\<close>

section \<open>The life of an invocation\<close>

fun state_advances :: "invocation_state \<Rightarrow> invocation_state \<Rightarrow> bool" where
  "state_advances Held t = True"
| "state_advances Fenced t = (t = Fenced \<or> t = Settled)"
| "state_advances Settled t = (t = Settled)"
| "state_advances Released t = (t = Released)"

text \<open>The fields a record keeps for its whole life.\<close>

definition record_core :: "invocation_record \<Rightarrow> invocation_record" where
  "record_core r = r\<lparr>inv_state := Held, inv_fenced := False, inv_usage := None, inv_breach := False\<rparr>"

fun entry_advances :: "inv_entry \<Rightarrow> inv_entry \<Rightarrow> bool" where
  "entry_advances (Rec r) (Rec r') =
     (record_core r' = record_core r \<and> state_advances (inv_state r) (inv_state r')
      \<and> (inv_state r = Settled \<or> inv_state r = Released \<longrightarrow> r' = r))"
| "entry_advances Bare Bare = True"
| "entry_advances _ _ = False"

lemma state_advances_refl [simp]: "state_advances s s"
  by (cases s) simp_all

lemma state_advances_trans: "state_advances s t \<Longrightarrow> state_advances t u \<Longrightarrow> state_advances s u"
  by (cases s; cases t; cases u) simp_all

lemma entry_advances_refl [simp]: "entry_advances e e"
  by (cases e) simp_all

lemma entry_advances_trans:
  "entry_advances e f \<Longrightarrow> entry_advances f g \<Longrightarrow> entry_advances e g"
  by (cases e; cases f; cases g) (auto intro: state_advances_trans)

lemma entry_advances_RecE:
  assumes "entry_advances (Rec r) e"
  obtains r' where "e = Rec r'" "record_core r' = record_core r"
    "state_advances (inv_state r) (inv_state r')"
    "inv_state r = Settled \<or> inv_state r = Released \<Longrightarrow> r' = r"
  using assms by (cases e) auto

lemma record_coreD:
  assumes "record_core r' = record_core r"
  shows "inv_id r' = inv_id r" "inv_tenant r' = inv_tenant r" "inv_pool r' = inv_pool r"
    "inv_correlation r' = inv_correlation r" "inv_epochStart r' = inv_epochStart r"
    "inv_epochEnd r' = inv_epochEnd r" "inv_profile r' = inv_profile r"
    "inv_profileIdentity r' = inv_profileIdentity r" "inv_upperBound r' = inv_upperBound r"
  using assms by (cases r; cases r'; simp add: record_core_def)+

definition invocations_advance :: "ledger_state \<Rightarrow> ledger_state \<Rightarrow> bool" where
  "invocations_advance s t \<longleftrightarrow>
     (\<forall>k e. map_of (lst_invocations s) k = Some e \<longrightarrow>
        (\<exists>e'. map_of (lst_invocations t) k = Some e' \<and> entry_advances e e'))"

lemma invocations_advance_set:
  "lst_invocations t = js_set k e' (lst_invocations s) \<Longrightarrow>
   (\<And>e. map_of (lst_invocations s) k = Some e \<Longrightarrow> entry_advances e e') \<Longrightarrow> invocations_advance s t"
  by (auto simp: invocations_advance_def)

lemma invocations_advance_same:
  "lst_invocations t = lst_invocations s \<Longrightarrow> invocations_advance s t"
  by (auto simp: invocations_advance_def)

lemma reserve_in_epoch_WriteE:
  assumes "reserve_in_epoch sha a schedule e s = Write t v"
  obtains "js_get (lst_invocations s) (ra_id a) = Missing" "reserve_admit sha a schedule e s = Write t v"
  using assms by (cases "js_get (lst_invocations s) (ra_id a)") (simp_all add: reserve_in_epoch_def)

lemma reserve_apply_WriteE:
  assumes "reserve_apply sha a s = Inr (Write t v)"
  obtains schedule e where "pick_schedule s (ra_pool a) (ra_at a) = Inr (Some schedule)"
    "epochContaining schedule (ra_at a) = Inr (Some e)"
    "js_get (lst_invocations s) (ra_id a) = Missing" "reserve_admit sha a schedule e s = Write t v"
  using assms
proof (cases rule: reserve_apply_InrE)
  case (Epoch schedule e)
  then have "reserve_in_epoch sha a schedule e s = Write t v" by simp
  then show thesis using that Epoch(1,2) by (blast elim: reserve_in_epoch_WriteE)
qed simp_all

text \<open>What an admission writes.\<close>

lemma reserve_apply_fields:
  assumes "reserve_apply sha a s = Inr (Write t v)"
  obtains r where "lst_invocations t = js_set (ra_id a) (Rec r) (lst_invocations s)"
    "map_of (lst_invocations s) (ra_id a) = None" "lst_quarantined t = lst_quarantined s"
    "lst_schedules t = lst_schedules s" "\<not> reserve_conflicts a (Rec r)" "inv_state r = Held"
    "map_of (lst_quarantined s) (profileKey sha (ra_profile a)) \<noteq> Some ()"
    "\<exists>left reset. v = Admitted r left reset False"
proof -
  obtain schedule e where m: "js_get (lst_invocations s) (ra_id a) = Missing"
    and w: "reserve_admit sha a schedule e s = Write t v"
    using assms by (rule reserve_apply_WriteE)
  define c where "c = (case map_of (lst_epochs s) (epochRowKey (ra_tenant a) (ra_pool a) (ep_start e))
    of Some row \<Rightarrow> row | None \<Rightarrow> fresh_row a schedule e)"
  show thesis
    by (rule that [of "held_record a c"])
       (use m w in \<open>auto simp: reserve_admit_def Let_def c_def [symmetric] js_get_Missing_iff
          reserve_conflicts_def held_record_def split: if_splits\<close>)
qed

lemma reserve_apply_advance:
  assumes "reserve_apply sha a s = Inr (Write t v)"
  shows "invocations_advance s t"
  using assms by (rule reserve_apply_fields) (auto intro: invocations_advance_set)

lemma fence_apply_advance:
  assumes "fence_apply key s = Inr (Write t v)"
  shows "invocations_advance s t"
proof (cases rule: js_get_cases [of "lst_invocations s" key])
  case (Own e)
  with assms obtain r where "e = Rec r" "inv_state r = Held \<or> inv_state r = Fenced"
    and "t = set_invocation key (Rec (r\<lparr>inv_state := Fenced, inv_fenced := True\<rparr>)) s"
    by (auto simp: fence_apply_def Let_def dest!: open_state split: inv_entry.splits if_splits)
  with Own show ?thesis
    by (auto intro!: invocations_advance_set simp: record_core_def set_invocation_def)
next
  case (Inherited n)
  then show ?thesis
    using assms by (auto intro!: invocations_advance_set [of _ key Bare] simp: fence_apply_def set_invocation_def)
next
  case Missing
  then show ?thesis using assms by (simp add: fence_apply_def)
qed

text \<open>What a settlement writes.\<close>

lemma settle_apply_fields:
  assumes "settle_apply sha key u s = Inr (Write t v)"
  obtains r where "map_of (lst_invocations s) key = Some (Rec r)"
    "inv_state r = Held \<or> inv_state r = Fenced"
    "lst_invocations t = js_set key (Rec (r\<lparr>inv_state := Settled, inv_usage := Some u,
       inv_breach := inv_upperBound r < usageTotal u\<rparr>)) (lst_invocations s)"
    "lst_quarantined t =
       (if inv_upperBound r < usageTotal u
           \<and> map_of (lst_quarantined s) (profileKey sha (inv_profile r)) \<noteq> Some ()
        then js_set (profileKey sha (inv_profile r)) () (lst_quarantined s) else lst_quarantined s)"
    "lst_schedules t = lst_schedules s"
proof -
  obtain r row where I: "map_of (lst_invocations s) key = Some (Rec r)"
    and st: "inv_state r = Held \<or> inv_state r = Fenced"
    and w: "settle_write sha key u r row s = Write t v"
    using assms by (auto simp: settle_apply_def js_get_Own_iff dest!: open_state
        split: property.splits inv_entry.splits if_splits option.splits)
  show thesis
    by (rule that [OF I st]) (use w in \<open>auto simp: settle_write_def Let_def split: if_splits\<close>)
qed

lemma settle_apply_advance:
  assumes "settle_apply sha key u s = Inr (Write t v)"
  shows "invocations_advance s t"
  using assms by (rule settle_apply_fields) (auto intro!: invocations_advance_set simp: record_core_def)

lemma release_apply_fields:
  assumes "release_apply key s = Inr (Write t v)"
  obtains r where "map_of (lst_invocations s) key = Some (Rec r)"
    "inv_state r = Held \<or> inv_state r = Fenced" "\<not> inv_fenced r"
    "lst_invocations t = js_set key (Rec (r\<lparr>inv_state := Released\<rparr>)) (lst_invocations s)"
    "lst_quarantined t = lst_quarantined s" "lst_schedules t = lst_schedules s"
proof -
  obtain r row where I: "map_of (lst_invocations s) key = Some (Rec r)"
    and st: "inv_state r = Held \<or> inv_state r = Fenced" "\<not> inv_fenced r"
    and w: "release_write key r row s = Write t v"
    using assms by (auto simp: release_apply_def js_get_Own_iff dest!: open_state
        split: property.splits inv_entry.splits if_splits option.splits)
  show thesis by (rule that [OF I st]) (use w in \<open>auto simp: release_write_def Let_def\<close>)
qed

lemma release_apply_advance:
  assumes "release_apply key s = Inr (Write t v)" and "ledger_inv sha s"
  shows "invocations_advance s t"
  using assms(1)
proof (rule release_apply_fields)
  fix r assume I: "map_of (lst_invocations s) key = Some (Rec r)"
    and "inv_state r = Held \<or> inv_state r = Fenced" "\<not> inv_fenced r"
    and "lst_invocations t = js_set key (Rec (r\<lparr>inv_state := Released\<rparr>)) (lst_invocations s)"
  with ledger_invD(4) [OF assms(2) I] show ?thesis
    by (auto intro!: invocations_advance_set simp: record_core_def record_ok_def)
qed

lemma configure_apply_fields:
  "configure_apply p s = Inr (Write t v) \<Longrightarrow>
   lst_invocations t = lst_invocations s \<and> lst_quarantined t = lst_quarantined s"
  by (auto simp: configure_apply_def set_schedules_def split: if_splits)

lemma transition_apply_fields:
  "transition_apply key c now s = Inr (Write t v) \<Longrightarrow>
   lst_invocations t = lst_invocations s \<and> lst_quarantined t = lst_quarantined s"
  by (auto simp: transition_apply_def set_schedules_def bindR_Inr_conv split: property.splits if_splits)

lemma ledger_step_advance:
  assumes "ledger_step sha s t" and "ledger_inv sha s"
  shows "invocations_advance s t"
  using assms(1)
proof (cases rule: ledger_step.cases)
  case step_configure
  then show ?thesis by (blast intro: invocations_advance_same dest: configure_apply_fields)
next
  case step_transition
  then show ?thesis by (blast intro: invocations_advance_same dest: transition_apply_fields)
qed (use assms(2) in \<open>blast intro: reserve_apply_advance fence_apply_advance settle_apply_advance
       release_apply_advance\<close>)+

lemma ledger_steps_advance:
  assumes "ledger_steps sha s t" and "ledger_inv sha s"
  shows "invocations_advance s t"
  using assms(1)
proof (induction rule: rtranclp_induct)
  case base
  show ?case by (rule invocations_advance_same) simp
next
  case (step t u)
  from ledger_steps_inv [OF step(1) assms(2)] step(2) have "invocations_advance t u"
    by (rule ledger_step_advance [rotated])
  with step.IH show ?case unfolding invocations_advance_def by (blast intro: entry_advances_trans)
qed

text \<open>The record under an identifier in every later state.\<close>

lemma record_later:
  assumes "ledger_steps sha s t" and "ledger_inv sha s"
    and "map_of (lst_invocations s) k = Some (Rec r)"
  obtains r' where "map_of (lst_invocations t) k = Some (Rec r')" "record_core r' = record_core r"
    "state_advances (inv_state r) (inv_state r')"
    "inv_state r = Settled \<or> inv_state r = Released \<Longrightarrow> r' = r"
proof -
  obtain e where e: "map_of (lst_invocations t) k = Some e" "entry_advances (Rec r) e"
    using ledger_steps_advance [OF assms(1,2)] assms(3) unfolding invocations_advance_def by blast
  from e(2) show thesis by (rule entry_advances_RecE) (use that e(1) in blast)
qed

section \<open>Quarantine\<close>

lemma ledger_step_quarantine:
  assumes "ledger_step sha s t" and "map_of (lst_quarantined s) p = Some ()"
  shows "map_of (lst_quarantined t) p = Some ()"
  using assms(1)
proof (cases rule: ledger_step.cases)
  case (step_reserve a v)
  from step_reserve(2) show ?thesis by (rule reserve_apply_fields) (simp add: assms(2))
next
  case (step_fence key v)
  then show ?thesis
    by (auto simp: fence_apply_def Let_def set_invocation_def assms(2)
        split: property.splits inv_entry.splits if_splits)
next
  case (step_settle u key v)
  from step_settle(2) show ?thesis by (rule settle_apply_fields) (simp add: assms(2))
next
  case (step_release key v)
  from step_release(1) show ?thesis by (rule release_apply_fields) (simp add: assms(2))
qed (use assms(2) in \<open>auto dest!: configure_apply_fields transition_apply_fields\<close>)

lemma ledger_steps_quarantine:
  "ledger_steps sha s t \<Longrightarrow> map_of (lst_quarantined s) p = Some () \<Longrightarrow>
   map_of (lst_quarantined t) p = Some ()"
  by (induction rule: rtranclp_induct) (auto intro: ledger_step_quarantine)

end
