(* ===== verification/LedgerProps.thy ===== *)
theory LedgerProps
  imports LedgerHistory
begin

text \<open>
  The properties of the ledger: token conservation, exact admission, idempotence, the
  invocation state machine, quarantine, and atomicity of the operations under interference.
\<close>

section \<open>A small history\<close>

text \<open>
  Concrete values for the witnesses: a pool of 100 tokens in epochs of 1000 ms, a
  reservation of 60 tokens, and its settlement at 40 or at 70 tokens. The digest parameter is
  instantiated by the identity.
\<close>

definition demo_schedule :: epoch_schedule where
  "demo_schedule = \<lparr>sch_pool = ascii ''pool'', sch_limit = 100, sch_periodMs = 1000,
     sch_anchorMs = 0, sch_version = ascii ''v1''\<rparr>"

definition demo_profile :: metering_profile where
  "demo_profile = \<lparr>mp_provider = ascii ''p'', mp_model = ascii ''m'', mp_version = ascii ''1''\<rparr>"

definition demo_args :: reserve_args where
  "demo_args = \<lparr>ra_tenant = ascii ''acme'', ra_pool = ascii ''pool'', ra_correlation = ascii ''c'',
     ra_profile = demo_profile, ra_upperBound = 60, ra_id = ascii ''i1'', ra_at = 1500\<rparr>"

definition demo_usage :: usage where
  "demo_usage = \<lparr>inputTokens = 30, outputTokens = 10\<rparr>"

definition demo_excess :: usage where
  "demo_excess = \<lparr>inputTokens = 30, outputTokens = 40\<rparr>"

definition demo_configured :: ledger_state where
  "demo_configured = fold (call_step id) [CallConfigure demo_schedule] emptyLedgerState"

definition demo_held :: ledger_state where
  "demo_held = fold (call_step id) [CallConfigure demo_schedule, CallReserve demo_args] emptyLedgerState"

definition demo_settled :: ledger_state where
  "demo_settled = fold (call_step id)
     [CallConfigure demo_schedule, CallReserve demo_args, CallSettle (ascii ''i1'') demo_usage]
     emptyLedgerState"

definition demo_key :: jsstr where
  "demo_key = epochRowKey (ascii ''acme'') (ascii ''pool'') 1000"

lemma demo_reachable:
  "ledger_steps id emptyLedgerState demo_configured"
  "ledger_steps id emptyLedgerState demo_held"
  "ledger_steps id emptyLedgerState demo_settled"
  unfolding demo_configured_def demo_held_def demo_settled_def by (rule call_steps)+


lemma reachable_inv: "ledger_steps sha emptyLedgerState s \<Longrightarrow> ledger_inv sha s"
  using ledger_steps_inv ledger_inv_empty by blast

section \<open>Conservation\<close>

text \<open>
  C1: in every state the ledger can reach, each epoch row holds exactly the upper bounds of
  its unresolved invocations and has committed exactly the usage of its settled ones; both
  are non-negative and representable, the held tokens never exceed the limit, and without a
  breached invocation neither does the sum of committed and held tokens.
\<close>

theorem ledger_conserves_tokens:
  assumes "ledger_steps sha emptyLedgerState s" and "map_of (lst_epochs s) k = Some row"
  shows "row_held row = dict_sum (held_at k) (lst_invocations s)
    \<and> row_committed row = dict_sum (used_at k) (lst_invocations s)
    \<and> 0 \<le> row_held row \<and> row_held row \<le> row_limit row
    \<and> 0 \<le> row_committed row \<and> safe_int (row_committed row)
    \<and> (breach_at k (lst_invocations s) \<or> row_committed row + row_held row \<le> row_limit row)"
proof -
  from reachable_inv [OF assms(1)] have inv: "ledger_inv sha s" .
  from ledger_invD(3) [OF inv assms(2)] row_nonneg [OF inv assms(2)] show ?thesis
    by (auto simp: row_sound_def)
qed

theorem ledger_conserves_tokens_witness:
  "\<exists>row. map_of (lst_epochs demo_held) demo_key = Some row \<and> row_held row = 60
     \<and> row_held row = dict_sum (held_at demo_key) (lst_invocations demo_held)"
proof -
  have "map_option row_held (map_of (lst_epochs demo_held) demo_key) = Some 60" by code_simp
  then show ?thesis using ledger_conserves_tokens [OF demo_reachable(2)] by auto
qed

section \<open>Admission\<close>




section \<open>Idempotence\<close>



text \<open>
  C26: a settlement is final and idempotent. In every later state, settling with the same
  usage reports the same record as a duplicate and writes nothing, settling with another
  usage is a conflict, and the invocation can be neither fenced nor released.
\<close>

theorem settle_final:
  assumes "ledger_steps sha emptyLedgerState s" and "usage_ok used"
    and "settle_apply sha key used s = Inr (Write t (SettleSettled r actual released False breach))"
    and "ledger_steps sha t u"
  shows "settle_apply sha key used u = Inr (NoWrite (SettleSettled r actual 0 True breach))
    \<and> (used' = used \<or> settle_apply sha key used' u = Inr (NoWrite (SettleUnavailable ConflictingSettlement)))
    \<and> fence_apply key u = Inr (NoWrite (FenceUnavailable ConflictingSettlement))
    \<and> release_apply key u = Inr (NoWrite (ReleaseUnavailable ConflictingSettlement))"
proof -
  have inv: "ledger_inv sha t" using settle_apply_inv reachable_inv assms(1,2,3) by blast
  obtain r0 row where
    w: "settle_write sha key used r0 row s = Write t (SettleSettled r actual released False breach)"
    using assms(3) by (auto simp: settle_apply_def
        split: property.splits inv_entry.splits if_splits option.splits)
  then have r: "r = r0\<lparr>inv_state := Settled, inv_usage := Some used,
        inv_breach := inv_upperBound r0 < usageTotal used\<rparr>"
    by (auto simp: settle_write_def Let_def split: if_splits)
  have t: "map_of (lst_invocations t) key = Some (Rec r)" and act: "actual = usageTotal used"
    and br: "breach = (if inv_breach r then Some (breach_of r actual) else None)"
    using w r by (auto simp: settle_write_def breach_of_def Let_def split: if_splits)
  from assms(4) inv t have "map_of (lst_invocations u) key = Some (Rec r)"
    by (rule record_later) (simp add: r)
  then have own: "js_get (lst_invocations u) key = Own (Rec r)" by (simp add: js_get_Own_iff)
  have st: "inv_state r = Settled" "inv_usage r = Some used" using r by simp_all
  have ne: "inputTokens used \<noteq> inputTokens used' \<or> outputTokens used \<noteq> outputTokens used'"
    if "used' \<noteq> used" using that by (cases used; cases used') auto
  show ?thesis using own st act br ne
    by (auto simp: settle_apply_def fence_apply_def release_apply_def)
qed

theorem settle_final_witness:
  "\<exists>t r. settle_apply id (ascii ''i1'') demo_usage demo_held
       = Inr (Write t (SettleSettled r 40 20 False None))
     \<and> settle_apply id (ascii ''i1'') demo_usage t = Inr (NoWrite (SettleSettled r 40 0 True None))
     \<and> settle_apply id (ascii ''i1'') demo_excess t = Inr (NoWrite (SettleUnavailable ConflictingSettlement))"
proof -
  have "(case settle_apply id (ascii ''i1'') demo_usage demo_held of
      Inr (Write t (SettleSettled r a l d b)) \<Rightarrow> Some (a, l, d, b) | _ \<Rightarrow> None) = Some (40, 20, False, None)"
    by code_simp
  then obtain t r where w: "settle_apply id (ascii ''i1'') demo_usage demo_held
      = Inr (Write t (SettleSettled r 40 20 False None))"
    by (auto split: sum.splits applied.splits settle_outcome.splits)
  have "usage_ok demo_usage" and "demo_excess \<noteq> demo_usage" by code_simp+
  with w settle_final [OF demo_reachable(2) _ w rtranclp.rtrancl_refl, of demo_excess] show ?thesis by blast
qed

section \<open>The invocation state machine\<close>

text \<open>
  C27: between any two reachable states every invocation record persists, keeps its
  identifier, tenant, pool, correlation, epoch, profile and upper bound, and moves only
  forward: a fenced invocation can only be settled, a settled or released one never changes.
\<close>

theorem invocation_moves_forward:
  assumes "ledger_steps sha emptyLedgerState s" and "ledger_steps sha s t"
    and "map_of (lst_invocations s) k = Some (Rec r)"
  shows "\<exists>r'. map_of (lst_invocations t) k = Some (Rec r') \<and> inv_id r' = k
    \<and> record_core r' = record_core r \<and> state_advances (inv_state r) (inv_state r')
    \<and> (inv_state r = Held \<or> inv_state r = Fenced \<or> r' = r)"
proof -
  have inv: "ledger_inv sha s" using assms(1) by (rule reachable_inv)
  from record_later [OF assms(2) inv assms(3)] obtain r' where
    r': "map_of (lst_invocations t) k = Some (Rec r')" "record_core r' = record_core r"
      "state_advances (inv_state r) (inv_state r')"
    and fin: "inv_state r = Settled \<or> inv_state r = Released \<Longrightarrow> r' = r" by blast
  have "record_ok sha (lst_quarantined t) k r'"
    using ledger_invD(4) [OF ledger_steps_inv [OF assms(2) inv] r'(1)] .
  with r' fin show ?thesis by (cases "inv_state r") (auto simp: record_ok_def)
qed

theorem invocation_moves_forward_witness:
  "\<exists>r r'. map_of (lst_invocations demo_held) (ascii ''i1'') = Some (Rec r)
     \<and> inv_state r = Held \<and> map_of (lst_invocations demo_settled) (ascii ''i1'') = Some (Rec r')
     \<and> record_core r' = record_core r"
proof -
  have "(case map_of (lst_invocations demo_held) (ascii ''i1'') of
      Some (Rec r) \<Rightarrow> Some (inv_state r) | _ \<Rightarrow> None) = Some Held" by code_simp
  then obtain r where r: "map_of (lst_invocations demo_held) (ascii ''i1'') = Some (Rec r)" "inv_state r = Held"
    by (auto split: option.splits inv_entry.splits)
  have "ledger_steps id demo_held demo_settled"
    using call_steps [of id demo_held "[CallSettle (ascii ''i1'') demo_usage]"]
    by (simp add: demo_held_def demo_settled_def)
  from invocation_moves_forward [OF demo_reachable(2) this r(1)] r show ?thesis by blast
qed

section \<open>Quarantine\<close>

text \<open>
  C28: a settlement above the reserved upper bound reports the breach, marks the record and
  quarantines the metering profile for good: in no later state is a new invocation of that
  profile admitted.
\<close>

theorem breach_quarantines_profile:
  assumes "ledger_steps sha emptyLedgerState s" and "usage_ok used"
    and "map_of (lst_invocations s) key = Some (Rec r0)" and "inv_upperBound r0 < usageTotal used"
    and "settle_apply sha key used s = Inr (Write t out)"
    and "ledger_steps sha t u" and "ra_profile a = inv_profile r0"
  shows "(\<exists>r. out = SettleSettled r (usageTotal used) 0 False (Some (breach_of r0 (usageTotal used)))
      \<and> inv_breach r) \<and> (\<nexists>u' v. reserve_apply sha a u = Inr (Write u' v))"
proof (rule conjI)
  obtain row where w: "settle_write sha key used r0 row s = Write t out"
    using assms(3,5) by (auto simp: settle_apply_def js_get_Own_iff
        split: property.splits inv_entry.splits if_splits option.splits)
  then show "\<exists>r. out = SettleSettled r (usageTotal used) 0 False (Some (breach_of r0 (usageTotal used)))
      \<and> inv_breach r"
    using assms(4) by (auto simp: settle_write_def Let_def split: if_splits)
  have "map_of (lst_quarantined t) (profileKey sha (inv_profile r0)) = Some ()"
    using w assms(4) by (auto simp: settle_write_def Let_def split: if_splits)
  with assms(6) have "map_of (lst_quarantined u) (profileKey sha (ra_profile a)) = Some ()"
    unfolding assms(7) by (rule ledger_steps_quarantine)
  then show "\<nexists>u' v. reserve_apply sha a u = Inr (Write u' v)"
    by (auto elim: reserve_apply_fields)
qed

theorem breach_quarantines_profile_witness:
  "\<exists>t out. settle_apply id (ascii ''i1'') demo_excess demo_held = Inr (Write t out)
     \<and> (\<exists>r b. out = SettleSettled r 70 0 False (Some b) \<and> inv_breach r)
     \<and> (\<nexists>u v. reserve_apply id (demo_args\<lparr>ra_id := ascii ''i2''\<rparr>) t = Inr (Write u v))"
proof -
  have "(case settle_apply id (ascii ''i1'') demo_excess demo_held of
      Inr (Write t r) \<Rightarrow> True | _ \<Rightarrow> False)" by code_simp
  then obtain t out where w: "settle_apply id (ascii ''i1'') demo_excess demo_held = Inr (Write t out)"
    by (auto split: sum.splits applied.splits)
  have "(case map_of (lst_invocations demo_held) (ascii ''i1'') of
      Some (Rec r) \<Rightarrow> Some (inv_upperBound r, inv_profile r) | _ \<Rightarrow> None) = Some (60, demo_profile)"
    by code_simp
  then obtain r0 where r0: "map_of (lst_invocations demo_held) (ascii ''i1'') = Some (Rec r0)"
    "inv_upperBound r0 = 60" "inv_profile r0 = demo_profile"
    by (auto split: option.splits inv_entry.splits)
  have u: "usage_ok demo_excess" "usageTotal demo_excess = 70" by code_simp+
  have p: "ra_profile (demo_args\<lparr>ra_id := ascii ''i2''\<rparr>) = inv_profile r0"
    using r0 by (simp add: demo_args_def)
  have "inv_upperBound r0 < usageTotal demo_excess" using r0 u by simp
  from breach_quarantines_profile [OF demo_reachable(2) u(1) r0(1) this w rtranclp.rtrancl_refl p]
  show ?thesis using w u(2) by metis
qed

section \<open>Operations over a shared store\<close>

text \<open>An operation took effect on a state: its outcome and the state it leaves are those of its function there.\<close>

fun took_effect :: "'a applied res \<Rightarrow> ledger_state \<Rightarrow> 'a res \<Rightarrow> ledger_state \<Rightarrow> bool" where
  "took_effect (Inl e) s out s' \<longleftrightarrow> out = Inl e \<and> s' = s"
| "took_effect (Inr (NoWrite v)) s out s' \<longleftrightarrow> out = Inr v \<and> s' = s"
| "took_effect (Inr (Write t v)) s out s' \<longleftrightarrow> out = Inr v \<and> s' = t"

lemma shared_load:
  "ls_load (sharedMemoryStore sha) w = (Some (fst (others_run sha w)), others_run sha w)"
  by (cases "others_run sha w") (simp add: sharedMemoryStore_def)

lemma runTransaction_converges:
  assumes "\<And>s t v. ap s = Inr (Write t v) \<Longrightarrow> lst_version t = nextVersion s"
    and "length (snd w) \<le> 64"
  obtains r w' where "runTransaction (sharedMemoryStore sha) ap w = (r, w')"
    "r \<noteq> TxUnavailable" "r \<noteq> TxAmbiguous"
proof -
  obtain s css where w: "others_run sha w = (s, css)" by (cases "others_run sha w")
  have "length css < 64" using assms(2) w by (cases "(sha, w)" rule: others_run.cases) auto
  have "\<exists>r w'. tx_attempts 64 (sharedMemoryStore sha) ap s (s, css) = (r, w')
      \<and> r \<noteq> TxUnavailable \<and> r \<noteq> TxAmbiguous"
    by (rule tx_attempts_converges) (use assms(1) \<open>length css < 64\<close> in blast)+
  with that show thesis by (auto simp: runTransaction_def shared_load w)
qed

lemma shared_transaction:
  assumes "\<And>s t v. ap s = Inr (Write t v) \<Longrightarrow> lst_version t = nextVersion s"
    and "length (snd w) \<le> 64"
    and "finish un (runTransaction (sharedMemoryStore sha) ap w) = (out, w')"
  shows "\<exists>s. ledger_steps sha (fst w) s \<and> took_effect (ap s) s out (fst w')"
proof -
  obtain r w1 where r: "runTransaction (sharedMemoryStore sha) ap w = (r, w1)"
    "r \<noteq> TxUnavailable" "r \<noteq> TxAmbiguous"
    using assms(1,2) by (rule runTransaction_converges)
  have eff: "shared.tx_effect sha ap (fst w) r (fst w1)" using r(1) by (rule shared.runTransaction_effect)
  show ?thesis
  proof (cases r)
    case (TxOk v)
    with r(1) assms(3) have "out = Inr v" "w' = w1" by (simp_all add: finish_def)
    with eff TxOk show ?thesis by (auto simp: shared.tx_effect_def intro: exI)
  next
    case (TxThrow e)
    with r(1) assms(3) have "out = Inl e" "w' = w1" by (simp_all add: finish_def)
    with eff TxThrow show ?thesis by (auto simp: shared.tx_effect_def)
  qed (use r in simp_all)
qed

text \<open>
  C6: a reservation is atomic and decided under interference. Other clients may commit any
  operations before each of its loads and commits; if they do so at most 64 times, the
  reservation takes effect on exactly one state they left: its outcome is the one computed
  from that state, and the store afterwards holds that state, with the admission added when
  it admits.
\<close>

theorem reserve_atomic:
  assumes "reserve_checked env i = Inr a" and "ri_qualified i = Bool True"
    and "length (snd w) \<le> 64" and "reserve sha env (sharedMemoryStore sha) i w = (out, w')"
  shows "\<exists>s. ledger_steps sha (fst w) s \<and> took_effect (reserve_apply sha a s) s out (fst w')"
proof (rule shared_transaction [OF reserve_apply_version assms(3)])
  show "finish (\<lambda>reason. ReserveUnavailable reason (ra_correlation a) (ra_id a))
      (runTransaction (sharedMemoryStore sha) (reserve_apply sha a) w) = (out, w')"
    using assms(1,2,4) by (simp add: reserve_def with_checked_def)
qed

definition demo_env :: ledger_env where
  "demo_env = \<lparr>env_correlation = ascii ''c'', env_invocation = ascii ''i1'', env_dateNow = Num (num 1500)\<rparr>"

definition demo_input :: reserve_input where
  "demo_input = \<lparr>ri_tenant = Str (ascii ''acme''), ri_pool = Str (ascii ''pool''),
     ri_correlation = Undefined, ri_profile = \<lparr>pi_provider = Str (ascii ''p''),
       pi_model = Str (ascii ''m''), pi_version = Str (ascii ''1'')\<rparr>,
     ri_qualified = Bool True, ri_upperBound = Num (num 60), ri_invocationId = Undefined,
     ri_nowMs = Undefined\<rparr>"

text \<open>
  A race: the pool is configured before the first load, another client reserves the same
  tokens between that load and the commit, and the reservation is refused on its second
  attempt.
\<close>

definition demo_race :: shared_memory where
  "demo_race = (emptyLedgerState, [[CallConfigure demo_schedule],
     [CallReserve (demo_args\<lparr>ra_id := ascii ''i2''\<rparr>)]])"

theorem reserve_atomic_witness:
  "\<exists>w' s. reserve id demo_env (sharedMemoryStore id) demo_input demo_race
       = (Inr (Exceeded (ascii ''pool'') 60 40 2000), w')
     \<and> ledger_steps id (fst demo_race) s
     \<and> took_effect (reserve_apply id demo_args s) s (Inr (Exceeded (ascii ''pool'') 60 40 2000)) (fst w')"
proof -
  have c: "reserve_checked demo_env demo_input = Inr demo_args" by code_simp
  have "fst (reserve id demo_env (sharedMemoryStore id) demo_input demo_race)
      = Inr (Exceeded (ascii ''pool'') 60 40 2000)" by code_simp
  then obtain w' where w': "reserve id demo_env (sharedMemoryStore id) demo_input demo_race
      = (Inr (Exceeded (ascii ''pool'') 60 40 2000), w')" by (metis prod.collapse)
  have "ri_qualified demo_input = Bool True" "length (snd demo_race) \<le> 64" by code_simp+
  from reserve_atomic [OF c this w'] w' show ?thesis by blast
qed

lemma finish_keeps_inv:
  assumes "ledger_inv sha (fst w)"
    and "\<And>s t v. ap s = Inr (Write t v) \<Longrightarrow> ledger_inv sha s \<Longrightarrow> ledger_inv sha t"
  shows "ledger_inv sha (fst (snd (finish un (runTransaction (sharedMemoryStore sha) ap w))))"
proof -
  obtain r w' where r: "runTransaction (sharedMemoryStore sha) ap w = (r, w')"
    by (cases "runTransaction (sharedMemoryStore sha) ap w")
  have "ledger_inv sha (fst w')"
    using shared.runTransaction_keeps [OF r, of "ledger_inv sha"] assms ledger_steps_inv by blast
  then show ?thesis by (cases r) (simp_all add: r finish_def)
qed

lemma with_checked_inv:
  "ledger_inv sha (fst w) \<Longrightarrow> (\<And>x. m = Inr x \<Longrightarrow> ledger_inv sha (fst (snd (f x)))) \<Longrightarrow>
   ledger_inv sha (fst (snd (with_checked m w f)))"
  by (cases m) (simp_all add: with_checked_def)

lemma reserve_checked_ok:
  "reserve_checked env i = Inr a \<Longrightarrow> IDENTITY_PATTERN (env_invocation env) \<Longrightarrow> args_ok a"
  by (auto simp: reserve_checked_def res_simps args_ok_def checkUpperBound_def
      dest: safe_integer_SomeD split: if_splits jsval.splits option.splits)

lemma reserve_keeps_inv:
  assumes "ledger_inv sha (fst w)" and "IDENTITY_PATTERN (env_invocation env)"
  shows "ledger_inv sha (fst (snd (reserve sha env (sharedMemoryStore sha) i w)))"
proof -
  have "ledger_inv sha (fst (snd (finish un (runTransaction (sharedMemoryStore sha) (reserve_apply sha a) w))))"
    if "reserve_checked env i = Inr a" for a un
    by (rule finish_keeps_inv [OF assms(1)])
       (rule reserve_apply_inv [OF _ reserve_checked_ok [OF that assms(2)]])
  then show ?thesis
    unfolding reserve_def by (intro with_checked_inv) (simp_all add: assms(1))
qed

lemma checked_keeps_inv:
  assumes "ledger_inv sha (fst w)"
    and "\<And>x s t v. m = Inr x \<Longrightarrow> ap x s = Inr (Write t v) \<Longrightarrow> ledger_inv sha s \<Longrightarrow> ledger_inv sha t"
  shows "ledger_inv sha (fst (snd (with_checked m w
           (\<lambda>x. finish un (runTransaction (sharedMemoryStore sha) (ap x) w)))))"
  using assms by (blast intro: with_checked_inv finish_keeps_inv)

lemma operation_inv:
  assumes "ledger_inv sha (fst w)"
  shows "ledger_inv sha (fst (snd (fence (sharedMemoryStore sha) k w)))"
    and "ledger_inv sha (fst (snd (settle sha (sharedMemoryStore sha) k inputs outputs w)))"
    and "ledger_inv sha (fst (snd (releaseUndispatched (sharedMemoryStore sha) k w)))"
    and "ledger_inv sha (fst (snd (configurePool (sharedMemoryStore sha) sch w)))"
    and "ledger_inv sha (fst (snd (transitionPool env (sharedMemoryStore sha) k change now w)))"
proof -
  show "ledger_inv sha (fst (snd (fence (sharedMemoryStore sha) k w)))"
    unfolding fence_def using assms fence_apply_inv by (blast intro: checked_keeps_inv)
  have "ledger_inv sha (fst (snd (finish un (runTransaction (sharedMemoryStore sha) (settle_apply sha key u) w))))"
    if "meteringUsage inputs outputs = Some u" for key u un
    using assms settle_apply_inv meteringUsage_ok [OF that] by (blast intro: finish_keeps_inv)
  then show "ledger_inv sha (fst (snd (settle sha (sharedMemoryStore sha) k inputs outputs w)))"
    unfolding settle_def using assms by (intro with_checked_inv) (simp_all split: option.split)
  show "ledger_inv sha (fst (snd (releaseUndispatched (sharedMemoryStore sha) k w)))"
    unfolding releaseUndispatched_def using assms release_apply_inv by (blast intro: checked_keeps_inv)
  show "ledger_inv sha (fst (snd (configurePool (sharedMemoryStore sha) sch w)))"
    unfolding configurePool_def using assms configure_apply_inv epochSchedule_ok
    by (blast intro: checked_keeps_inv)
  show "ledger_inv sha (fst (snd (transitionPool env (sharedMemoryStore sha) k change now w)))"
    unfolding transitionPool_def using assms transition_apply_inv
    by (blast intro: with_checked_inv checked_keeps_inv)
qed

text \<open>
  C7: the accounting invariant survives every public operation, whatever arguments it is
  given, whatever it returns or throws, and however other clients interfere. The only
  assumption is that a minted invocation identifier has the form the ledger accepts.
\<close>

theorem operations_keep_invariant:
  assumes "ledger_inv sha (fst w)" and "IDENTITY_PATTERN (env_invocation env)"
  shows "ledger_inv sha (fst (snd (reserve sha env (sharedMemoryStore sha) i w)))
    \<and> ledger_inv sha (fst (snd (fence (sharedMemoryStore sha) k w)))
    \<and> ledger_inv sha (fst (snd (settle sha (sharedMemoryStore sha) k inputs outputs w)))
    \<and> ledger_inv sha (fst (snd (releaseUndispatched (sharedMemoryStore sha) k w)))
    \<and> ledger_inv sha (fst (snd (configurePool (sharedMemoryStore sha) sch w)))
    \<and> ledger_inv sha (fst (snd (transitionPool env (sharedMemoryStore sha) k change now w)))"
  using operation_inv [OF assms(1)] reserve_keeps_inv [OF assms] by blast

theorem operations_keep_invariant_witness:
  "ledger_inv id (fst (snd (reserve id demo_env (sharedMemoryStore id) demo_input demo_race)))"
proof -
  have "ledger_inv id (fst demo_race)" by (simp add: demo_race_def ledger_inv_empty)
  moreover have "IDENTITY_PATTERN (env_invocation demo_env)" by code_simp
  ultimately show ?thesis using operations_keep_invariant by blast
qed

section \<open>Epochs\<close>





text \<open>
  An accepted schedule transition yields a well-formed schedule of the same pool under a
  new version, anchored at a boundary of the schedule it replaces and never in the past: an
  epoch that began before the clock reading runs to its end.
\<close>

lemma transition_at_boundary:
  assumes "schedule_ok v" and "transitionSchedule v change now = Inr v'"
  shows "schedule_ok v' \<and> sch_pool v' = sch_pool v \<and> sch_version v' \<noteq> sch_version v
    \<and> boundary_of v (sch_anchorMs v') \<and> now \<le> sch_anchorMs v'
    \<and> (\<forall>e. epochContaining v now = Inr (Some e) \<longrightarrow>
         sch_anchorMs v' = ep_start e \<and> ep_start e = now \<or> ep_end e \<le> sch_anchorMs v')"
proof -
  note t = transitionSchedule_Inr [OF assms]
  have "sch_anchorMs v' = ep_start e \<and> ep_start e = now \<or> ep_end e \<le> sch_anchorMs v'"
    if "epochContaining v now = Inr (Some e)" for e
    using boundary_room [OF assms(1) epochContaining_Some(1) [OF assms(1) that] t(4)]
      epochContaining_Some(2,3) [OF assms(1) that] t(5) by linarith
  with t show ?thesis by blast
qed

section \<open>Where the code departs from its documentation\<close>

text \<open>
  A transition whose clock is exactly on a boundary takes effect at once: it changes the
  period of the epoch that started at that very reading, which may already hold reservations.
\<close>

theorem transition_can_split_current_epoch:
  "\<exists>change v'. transitionSchedule demo_schedule change 1000 = Inr v'
     \<and> epochContaining demo_schedule 1000 = Inr (Some \<lparr>ep_start = 1000, ep_end = 2000\<rparr>)
     \<and> epochContaining v' 1000 = Inr (Some \<lparr>ep_start = 1000, ep_end = 1010\<rparr>)"
proof -
  let ?c = "\<lparr>chg_limit = Undefined, chg_periodMs = Num (num 10),
       chg_anchorMs = Undefined, chg_version = Str (ascii ''v2'')\<rparr>"
  let ?v = "\<lparr>sch_pool = ascii ''pool'', sch_limit = 100,
      sch_periodMs = 10, sch_anchorMs = 1000, sch_version = ascii ''v2''\<rparr>"
  have "transitionSchedule demo_schedule ?c 1000 = Inr ?v" by code_simp
  moreover have "epochContaining demo_schedule 1000 = Inr (Some \<lparr>ep_start = 1000, ep_end = 2000\<rparr>)"
    by code_simp
  moreover have "epochContaining ?v 1000 = Inr (Some \<lparr>ep_start = 1000, ep_end = 1010\<rparr>)" by code_simp
  ultimately show ?thesis by blast
qed

text \<open>
  An identifier that names a member of \<open>Object.prototype\<close> is found by the plain property
  lookup although nothing was reserved: fencing it on an empty ledger succeeds.
\<close>

theorem fence_accepts_inherited_name:
  "fst (fence createMemoryLedgerStore (Str (ascii ''toString'')) emptyLedgerState)
     = Inr (FenceFenced Bare False)"
  by code_simp

text \<open>
  The health report lists a breached profile only if no earlier invocation has the same
  profile identity, breached or not.
\<close>

theorem health_omits_breached_profile:
  "let s = fold (call_step id)
     [CallConfigure demo_schedule, CallReserve (demo_args\<lparr>ra_upperBound := 5\<rparr>),
      CallReserve (demo_args\<lparr>ra_id := ascii ''i2'', ra_upperBound := 5\<rparr>),
      CallSettle (ascii ''i2'') demo_usage] emptyLedgerState
   in lst_quarantined s \<noteq> [] \<and> lh_quarantined (health_of s) = []"
  by code_simp

end
