(* ===== verification/JsString.thy ===== *)
theory JsString
  imports Prelude
begin

text \<open>
  The string operations the runtime uses: prefix and suffix tests, splitting at a separator,
  lower case, and their laws.
\<close>

section \<open>Prefixes, suffixes and separators\<close>

definition startsWith :: "'a list \<Rightarrow> 'a list \<Rightarrow> bool" where
  "startsWith s p \<longleftrightarrow> take (length p) s = p"

definition endsWith :: "'a list \<Rightarrow> 'a list \<Rightarrow> bool" where
  "endsWith s p \<longleftrightarrow> length p \<le> length s \<and> drop (length s - length p) s = p"

fun split_on :: "'a \<Rightarrow> 'a list \<Rightarrow> 'a list list" where
  "split_on c [] = [[]]"
| "split_on c (x # xs) =
     (if x = c then [] # split_on c xs
      else (case split_on c xs of p # ps \<Rightarrow> (x # p) # ps | [] \<Rightarrow> [[x]]))"

fun join_on :: "'a \<Rightarrow> 'a list list \<Rightarrow> 'a list" where
  "join_on c [] = []"
| "join_on c [p] = p"
| "join_on c (p # q # ps) = p @ c # join_on c (q # ps)"

lemma startsWith_iff: "startsWith s p \<longleftrightarrow> (\<exists>t. s = p @ t)"
  unfolding startsWith_def by (metis append_eq_conv_conj append_take_drop_id)

lemma endsWith_iff: "endsWith s p \<longleftrightarrow> (\<exists>t. s = t @ p)"
proof
  assume "endsWith s p"
  then show "\<exists>t. s = t @ p" unfolding endsWith_def by (metis append_take_drop_id)
qed (auto simp: endsWith_def)

lemma split_on_not_Nil [simp]: "split_on c s \<noteq> []"
  by (induction s) (auto split: list.splits)

lemma split_on_join [simp]: "join_on c (split_on c s) = s"
proof (induction s)
  case (Cons x s)
  obtain p ps where "split_on c s = p # ps" by (cases "split_on c s") auto
  with Cons show ?case by (cases ps) auto
qed simp

lemma split_on_part: "p \<in> set (split_on c s) \<Longrightarrow> c \<notin> set p"
proof (induction s arbitrary: p)
  case (Cons x s)
  then show ?case by (auto split: if_splits list.splits)
qed simp

lemma split_on_no_sep: "c \<notin> set s \<Longrightarrow> split_on c s = [s]"
  by (induction s) auto

lemma split_on_append: "c \<notin> set p \<Longrightarrow> split_on c (p @ c # s) = p # split_on c s"
  by (induction p) auto

lemma join_split_on:
  "ps \<noteq> [] \<Longrightarrow> (\<And>p. p \<in> set ps \<Longrightarrow> c \<notin> set p) \<Longrightarrow> split_on c (join_on c ps) = ps"
  by (induction c ps rule: join_on.induct) (simp_all add: split_on_no_sep split_on_append)

section \<open>Lower case\<close>

text \<open>
  The effect of \<open>toLowerCase\<close> on host names. Besides the letters A to Z only the Kelvin
  sign has an ASCII lower case; every other unit is kept here, since its lower case contains
  a unit outside ASCII, which the host patterns refuse just like the unit itself.
\<close>

definition lower_unit :: "code_unit \<Rightarrow> code_unit" where
  "lower_unit u =
     (if is_upper_unit u then u + 32 else if u = 0x212A then 107 else u)"

definition toLowerCase :: "jsstr \<Rightarrow> jsstr" where
  "toLowerCase s = map lower_unit s"

lemma lower_unit_idem [simp]: "lower_unit (lower_unit u) = lower_unit u"
proof (cases "is_upper_unit u")
  case True
  then have "65 \<le> uint u \<and> uint u \<le> 90" by (simp add: is_upper_unit_def in_range_def)
  then have "uint (u + 32) = uint u + 32" by (simp add: uint_word_ariths)
  with True show ?thesis
    by (auto simp: lower_unit_def is_upper_unit_def in_range_def dest: arg_cong [of _ _ uint])
qed (auto simp: lower_unit_def unit_defs)

lemma toLowerCase_idem [simp]: "toLowerCase (toLowerCase s) = toLowerCase s"
  by (simp add: toLowerCase_def)

lemma length_toLowerCase [simp]: "length (toLowerCase s) = length s"
  by (simp add: toLowerCase_def)

section \<open>Decimal notation\<close>

lemma units_value_int_string: "0 \<le> i \<Longrightarrow> units_value (int_string i) = i"
proof -
  assume "0 \<le> i"
  then have "map (\<lambda>u. uint u - 48) (map digit_unit (int_digits i)) = int_digits i"
    using int_digits_range [of i] by (auto simp: uint_digit_unit intro!: map_idI)
  with \<open>0 \<le> i\<close> show ?thesis by (simp add: units_value_def int_string_def)
qed

section \<open>String order\<close>

text \<open>The operator \<open><\<close> on strings compares code units from the left.\<close>

fun str_less :: "jsstr \<Rightarrow> jsstr \<Rightarrow> bool" where
  "str_less xs [] = False"
| "str_less [] (y # ys) = True"
| "str_less (x # xs) (y # ys) = (uint x < uint y \<or> x = y \<and> str_less xs ys)"

lemma str_less_irrefl [simp]: "\<not> str_less xs xs"
  by (induction xs) auto

lemma str_less_trans: "str_less xs ys \<Longrightarrow> str_less ys zs \<Longrightarrow> str_less xs zs"
proof (induction xs ys arbitrary: zs rule: str_less.induct)
  case (3 x xs y ys)
  then show ?case by (cases zs) auto
qed (auto elim: str_less.elims)

lemma str_less_total: "str_less xs ys \<or> xs = ys \<or> str_less ys xs"
proof (induction xs ys rule: str_less.induct)
  case (1 xs)
  then show ?case by (cases xs) auto
next
  case (3 x xs y ys)
  then show ?case using word_uint_eq_iff [of x y] by (cases "x = y") (auto simp: linorder_neq_iff)
qed simp

end
