(* ===== verification/DestinationPolicy.thy ===== *)
theory DestinationPolicy
  imports Identity JsString
begin

text \<open>
  The destination and redirect policy of \<open>runtime/outbound/destination-policy.ts\<close>: the
  validation of a policy, the admission of a webhook URL by its rules, and the ruling on one
  redirect hop.
\<close>

section \<open>Policies\<close>

definition env_unit :: "code_unit \<Rightarrow> bool" where
  "env_unit u \<longleftrightarrow> is_upper_unit u \<or> is_digit_unit u \<or> u = 95"

definition ENV_PATTERN :: "jsstr \<Rightarrow> bool" where
  "ENV_PATTERN s =
     (case s of [] \<Rightarrow> False
      | u # us \<Rightarrow> (is_upper_unit u \<or> u = 95) \<and> list_all env_unit us \<and> length us \<le> 127)"

definition envName :: "jsval \<Rightarrow> jsstr res" where
  "envName v =
     (case v of
        Str s \<Rightarrow> if ENV_PATTERN s then Inr s
                 else Inl (TypeError ''invalid credential environment name'')
      | _ \<Rightarrow> Inl (TypeError ''invalid credential environment name''))"

datatype destination_scheme = Http | Https | AnyScheme

record destination_rule =
  rule_scheme :: destination_scheme
  rule_host :: jsstr
  rule_port :: "int option"
  rule_pathPrefix :: "jsstr option"
  rule_credential :: "jsstr option"

datatype redirect_policy = RedirectDeny | SameOrigin | Allowlisted
datatype network_scope = ScopeDeny | ScopeAllow

record destination_policy =
  pol_version :: jsstr
  pol_rules :: "destination_rule list"
  pol_redirect :: redirect_policy
  pol_maxRedirectHops :: int
  pol_loopback :: network_scope
  pol_privateNetworks :: network_scope

section \<open>Host names\<close>

abbreviation dot :: code_unit where
  "dot \<equiv> 46"

abbreviation colon :: code_unit where
  "colon \<equiv> 58"

definition dns_unit :: "code_unit \<Rightarrow> bool" where
  "dns_unit u \<longleftrightarrow> is_lower_unit u \<or> is_digit_unit u"

text \<open>One label of \<open>DNS_PATTERN\<close>: 1 to 63 units, the first and the last alphanumeric.\<close>

definition dns_label :: "jsstr \<Rightarrow> bool" where
  "dns_label s \<longleftrightarrow>
     s \<noteq> [] \<and> length s \<le> 63 \<and> dns_unit (hd s) \<and> dns_unit (last s)
     \<and> list_all (\<lambda>u. dns_unit u \<or> u = 45) s"

definition DNS_PATTERN :: "jsstr \<Rightarrow> bool" where
  "DNS_PATTERN s \<longleftrightarrow> 1 \<le> length s \<and> length s \<le> 253 \<and> list_all dns_label (split_on dot s)"

definition IPV4_PATTERN :: "jsstr \<Rightarrow> bool" where
  "IPV4_PATTERN s \<longleftrightarrow>
     length (split_on dot s) = 4
     \<and> list_all (\<lambda>p. p \<noteq> [] \<and> length p \<le> 3 \<and> list_all is_digit_unit p) (split_on dot s)"

definition hex_colon :: "code_unit \<Rightarrow> bool" where
  "hex_colon u \<longleftrightarrow> is_digit_unit u \<or> in_range 97 102 u \<or> u = colon"

definition IPV6_PATTERN :: "jsstr \<Rightarrow> bool" where
  "IPV6_PATTERN s \<longleftrightarrow>
     takeWhile hex_colon s \<noteq> []
     \<and> (case dropWhile hex_colon s of
          [] \<Rightarrow> True
        | u # us \<Rightarrow> u = dot \<and> us \<noteq> [] \<and> list_all (\<lambda>v. is_digit_unit v \<or> v = dot) us)"

definition parseIPv4 :: "jsstr \<Rightarrow> int list option" where
  "parseIPv4 host =
     (if \<not> IPV4_PATTERN host then None
      else let parts = map units_value (split_on dot host)
           in if list_ex (\<lambda>p. p > 255) parts then None else Some parts)"

definition wildcard :: "jsstr \<Rightarrow> bool" where
  "wildcard s \<longleftrightarrow> startsWith s (ascii ''*.'')"

definition checkHost :: "jsval \<Rightarrow> jsstr res" where
  "checkHost v =
     (case v of
        Str s \<Rightarrow>
          (let text = toLowerCase s;
               bare = (if wildcard text then drop 2 text else text)
           in if bare = [] \<or> 253 < length bare then Inl (TypeError ''invalid destination host'')
              else if list_all (\<lambda>u. is_digit_unit u \<or> u = dot) bare
              then (if wildcard text \<or> parseIPv4 bare = None
                    then Inl (TypeError ''invalid destination host'') else Inr text)
              else if \<not> (DNS_PATTERN bare \<or> \<not> wildcard text \<and> IPV6_PATTERN bare)
              then Inl (TypeError ''invalid destination host'')
              else Inr text)
      | _ \<Rightarrow> Inl (TypeError ''invalid destination host''))"

definition checkPort :: "jsval \<Rightarrow> int res" where
  "checkPort v =
     (case v of
        Num n \<Rightarrow>
          (case safe_integer n of
             Some i \<Rightarrow> if i < 1 \<or> i > 65535 then Inl (TypeError ''invalid destination port'') else Inr i
           | None \<Rightarrow> Inl (TypeError ''invalid destination port''))
      | _ \<Rightarrow> Inl (TypeError ''invalid destination port''))"

definition checkPathPrefix :: "jsval \<Rightarrow> jsstr res" where
  "checkPathPrefix v =
     (case v of
        Str s \<Rightarrow> if \<not> startsWith s (ascii ''/'') \<or> \<not> isWellFormed s
                 then Inl (TypeError ''invalid destination path prefix'') else Inr s
      | _ \<Rightarrow> Inl (TypeError ''invalid destination path prefix''))"

text \<open>Reading a property whose name is no member of \<open>Object.prototype\<close>.\<close>

definition field :: "jsval dict \<Rightarrow> string \<Rightarrow> jsval" where
  "field d k = (case map_of d (ascii k) of Some v \<Rightarrow> v | None \<Rightarrow> Undefined)"

definition optional_field :: "(jsval \<Rightarrow> 'a res) \<Rightarrow> jsval \<Rightarrow> 'a option res" where
  "optional_field check v = (if v = Undefined then Inr None else bindR (check v) (\<lambda>x. Inr (Some x)))"

definition checkScheme :: "jsval \<Rightarrow> destination_scheme res" where
  "checkScheme v =
     (if v = Str (ascii ''http'') then Inr Http
      else if v = Str (ascii ''https'') then Inr Https
      else if v = Str (ascii ''any'') then Inr AnyScheme
      else Inl (TypeError ''invalid destination scheme''))"

definition checkRule :: "jsval \<Rightarrow> destination_rule res" where
  "checkRule v =
     (case v of
        Obj d \<Rightarrow>
          bindR (checkScheme (field d ''scheme'')) (\<lambda>scheme.
          bindR (checkHost (field d ''host'')) (\<lambda>host.
          bindR (optional_field checkPort (field d ''port'')) (\<lambda>port.
          bindR (optional_field checkPathPrefix (field d ''pathPrefix'')) (\<lambda>pathPrefix.
          bindR (optional_field envName (field d ''credential'')) (\<lambda>credential.
            Inr \<lparr>rule_scheme = scheme, rule_host = host, rule_port = port,
                 rule_pathPrefix = pathPrefix, rule_credential = credential\<rparr>)))))
      | _ \<Rightarrow> Inl (TypeError ''invalid destination rule''))"

definition checkScope :: "jsval \<Rightarrow> string \<Rightarrow> network_scope res" where
  "checkScope v name =
     (if v = Str (ascii ''deny'') then Inr ScopeDeny
      else if v = Str (ascii ''allow'') then Inr ScopeAllow
      else Inl (TypeError (''invalid '' @ name @ '' scope'')))"

fun mapR :: "('a \<Rightarrow> 'b res) \<Rightarrow> 'a list \<Rightarrow> 'b list res" where
  "mapR f [] = Inr []"
| "mapR f (x # xs) = bindR (f x) (\<lambda>y. bindR (mapR f xs) (\<lambda>ys. Inr (y # ys)))"

definition checkRedirect :: "jsval \<Rightarrow> redirect_policy res" where
  "checkRedirect v =
     (if v = Str (ascii ''deny'') then Inr RedirectDeny
      else if v = Str (ascii ''same-origin'') then Inr SameOrigin
      else if v = Str (ascii ''allowlisted'') then Inr Allowlisted
      else Inl (TypeError ''invalid redirect policy''))"

definition checkHops :: "jsval \<Rightarrow> int res" where
  "checkHops v =
     (case v of
        Num n \<Rightarrow>
          (case safe_integer n of
             Some i \<Rightarrow> if i < 0 \<or> i > 8 then Inl (TypeError ''invalid redirect hop bound'') else Inr i
           | None \<Rightarrow> Inl (TypeError ''invalid redirect hop bound''))
      | _ \<Rightarrow> Inl (TypeError ''invalid redirect hop bound''))"

definition destinationPolicy :: "jsval \<Rightarrow> destination_policy res" where
  "destinationPolicy v =
     (case v of
        Obj d \<Rightarrow>
          bindR (case field d ''version'' of
                   Str s \<Rightarrow> if identity_pattern 63 s then Inr s
                            else Inl (TypeError ''invalid destination policy version'')
                 | _ \<Rightarrow> Inl (TypeError ''invalid destination policy version'')) (\<lambda>version.
          bindR (case field d ''rules'' of
                   Arr vs \<Rightarrow> mapR checkRule vs
                 | _ \<Rightarrow> Inl (TypeError ''invalid destination rules'')) (\<lambda>rules.
          bindR (checkRedirect (field d ''redirect'')) (\<lambda>redirect.
          bindR (checkHops (field d ''maxRedirectHops'')) (\<lambda>hops.
          bindR (if field d ''loopback'' = Undefined then Inr ScopeDeny
                 else checkScope (field d ''loopback'') ''loopback'') (\<lambda>loopback.
          bindR (if field d ''privateNetworks'' = Undefined then Inr ScopeDeny
                 else checkScope (field d ''privateNetworks'') ''private-network'') (\<lambda>priv.
            Inr \<lparr>pol_version = version, pol_rules = rules, pol_redirect = redirect,
                 pol_maxRedirectHops = hops, pol_loopback = loopback,
                 pol_privateNetworks = priv\<rparr>))))))
      | _ \<Rightarrow> Inl (TypeError ''invalid destination policy''))"

section \<open>Network scopes\<close>

definition isLoopbackLiteral :: "jsstr \<Rightarrow> bool" where
  "isLoopbackLiteral host =
     (case parseIPv4 host of
        Some v4 \<Rightarrow> v4 ! 0 = 127
      | None \<Rightarrow> host = ascii ''::1'' \<or> host = ascii ''0:0:0:0:0:0:0:1'')"

definition isPrivateLiteral :: "jsstr \<Rightarrow> bool" where
  "isPrivateLiteral host =
     (case parseIPv4 host of
        Some v4 \<Rightarrow>
          v4 ! 0 = 10
          \<or> (v4 ! 0 = 172 \<and> v4 ! 1 \<ge> 16 \<and> v4 ! 1 \<le> 31)
          \<or> (v4 ! 0 = 192 \<and> v4 ! 1 = 168)
          \<or> (v4 ! 0 = 169 \<and> v4 ! 1 = 254)
          \<or> v4 ! 0 = 127
          \<or> (v4 ! 0 = 0 \<and> v4 ! 1 = 0 \<and> v4 ! 2 = 0 \<and> v4 ! 3 = 0)
      | None \<Rightarrow>
          colon \<in> set host
          \<and> (let hd' = hd (split_on colon (toLowerCase host)) in
               startsWith hd' (ascii ''fc'') \<or> startsWith hd' (ascii ''fd'')
               \<or> hd' = ascii ''fe80'' \<or> hd' = ascii ''fe81'' \<or> hd' = ascii ''fe82'' \<or> hd' = ascii ''fe83''
               \<or> (hd' \<noteq> [] \<and> list_all (\<lambda>u. u = 48) hd')
               \<or> host = ascii ''::1'' \<or> host = ascii ''0:0:0:0:0:0:0:1''))"

section \<open>Destinations\<close>

text \<open>
  A parsed URL and the platform's URL implementation, a parameter of the decisions:
  \<open>new URL(text)\<close>, \<open>new URL(text, base)\<close> (\<open>None\<close> when the constructor throws) and the
  \<open>href\<close> after clearing user name, password and hash. The port is \<open>None\<close> for the empty
  string, otherwise the number its digits denote.
\<close>

record url =
  u_protocol :: jsstr
  u_username :: jsstr
  u_password :: jsstr
  u_hostname :: jsstr
  u_port :: "int option"
  u_pathname :: jsstr
  u_hash :: jsstr
  u_origin :: jsstr
  u_href :: jsstr

record url_api =
  url_parse :: "jsstr \<Rightarrow> url option"
  url_resolve :: "jsstr \<Rightarrow> url \<Rightarrow> url option"
  url_stripped :: "url \<Rightarrow> jsstr"

datatype destination_decision =
    DestAllowed nat "jsstr option" \<comment> \<open>ruleIndex, credential\<close>
  | DestDenied string

definition DEFAULT_PORTS :: "jsstr \<Rightarrow> int" where
  "DEFAULT_PORTS protocol = (if protocol = ascii ''http:'' then 80 else 443)"

definition checkUrlShape :: "destination_policy \<Rightarrow> url \<Rightarrow> string option" where
  "checkUrlShape policy parsed =
     (if u_protocol parsed \<noteq> ascii ''http:'' \<and> u_protocol parsed \<noteq> ascii ''https:''
      then Some ''unsupported-scheme''
      else if u_username parsed \<noteq> [] \<or> u_password parsed \<noteq> [] then Some ''userinfo-forbidden''
      else if u_hash parsed \<noteq> [] then Some ''fragment-forbidden''
      else
        let host = toLowerCase (u_hostname parsed) in
        if isLoopbackLiteral host \<and> pol_loopback policy = ScopeDeny then Some ''loopback-denied''
        else if isPrivateLiteral host \<and> pol_privateNetworks policy = ScopeDeny
        then Some ''private-network-denied''
        else None)"

definition hostMatches :: "jsstr \<Rightarrow> jsstr \<Rightarrow> bool" where
  "hostMatches rule host =
     (if wildcard rule then
        let suffix = drop 2 rule in
          length host > length suffix + 1 \<and> endsWith host suffix
          \<and> host ! (length host - length suffix - 1) = dot
          \<and> \<not> IPV4_PATTERN host \<and> colon \<notin> set host
      else host = rule)"

definition scheme_matches :: "destination_scheme \<Rightarrow> jsstr \<Rightarrow> bool" where
  "scheme_matches s protocol =
     (case s of AnyScheme \<Rightarrow> True | Http \<Rightarrow> protocol = ascii ''http:'' | Https \<Rightarrow> protocol = ascii ''https:'')"

definition rule_matches :: "destination_rule \<Rightarrow> url \<Rightarrow> bool" where
  "rule_matches rule parsed \<longleftrightarrow>
     scheme_matches (rule_scheme rule) (u_protocol parsed)
     \<and> hostMatches (rule_host rule) (toLowerCase (u_hostname parsed))
     \<and> (case rule_port rule of Some p \<Rightarrow> p | None \<Rightarrow> DEFAULT_PORTS (u_protocol parsed))
       = (case u_port parsed of None \<Rightarrow> DEFAULT_PORTS (u_protocol parsed) | Some p \<Rightarrow> p)
     \<and> (case rule_pathPrefix rule of None \<Rightarrow> True | Some p \<Rightarrow> startsWith (u_pathname parsed) p)"

fun first_rule :: "nat \<Rightarrow> destination_rule list \<Rightarrow> url \<Rightarrow> destination_decision" where
  "first_rule index [] parsed = DestDenied ''no-matching-rule''"
| "first_rule index (rule # rules) parsed =
     (if rule_matches rule parsed then DestAllowed index (rule_credential rule)
      else first_rule (Suc index) rules parsed)"

definition evaluateDestination ::
  "url_api \<Rightarrow> destination_policy \<Rightarrow> jsstr \<Rightarrow> destination_decision" where
  "evaluateDestination api policy url =
     (case url_parse api url of
        None \<Rightarrow> DestDenied ''invalid-url''
      | Some parsed \<Rightarrow>
          (case checkUrlShape policy parsed of
             Some reason \<Rightarrow> DestDenied reason
           | None \<Rightarrow> first_rule 0 (pol_rules policy) parsed))"

section \<open>Redirects\<close>

datatype redirect_decision =
    RedirAllowed jsstr
  | RedirDenied string

definition redactUrl :: "url_api \<Rightarrow> jsstr \<Rightarrow> jsstr" where
  "redactUrl api url =
     (case url_parse api url of None \<Rightarrow> ascii ''<invalid-url>'' | Some parsed \<Rightarrow> url_stripped api parsed)"

definition evaluateRedirect ::
  "url_api \<Rightarrow> destination_policy \<Rightarrow> jsstr \<Rightarrow> jsstr \<Rightarrow> jsnum \<Rightarrow> redirect_decision res" where
  "evaluateRedirect api policy requestUrl location hopsSoFar =
     (case safe_integer hopsSoFar of
        None \<Rightarrow> Inl (TypeError ''invalid redirect hop count'')
      | Some hops \<Rightarrow>
          if hops < 0 then Inl (TypeError ''invalid redirect hop count'')
          else Inr (
            if pol_redirect policy = RedirectDeny then RedirDenied ''deny''
            else if hops \<ge> pol_maxRedirectHops policy then RedirDenied ''max-hops''
            else (case url_parse api requestUrl of
                None \<Rightarrow> RedirDenied ''invalid-request-url''
              | Some posting \<Rightarrow>
                  (case url_resolve api location posting of
                     None \<Rightarrow> RedirDenied ''invalid-location''
                   | Some target \<Rightarrow>
                       if pol_redirect policy = SameOrigin then
                         (if u_origin target \<noteq> u_origin posting then RedirDenied ''cross-origin''
                          else (case checkUrlShape policy target of
                              Some reason \<Rightarrow> RedirDenied reason
                            | None \<Rightarrow> RedirAllowed (redactUrl api (u_href target))))
                       else
                         (case evaluateDestination api policy (u_href target) of
                            DestDenied reason \<Rightarrow> RedirDenied (''target-'' @ reason)
                          | DestAllowed _ _ \<Rightarrow> RedirAllowed (redactUrl api (u_href target)))))))"

definition credentialValue :: "jsstr \<Rightarrow> (jsstr \<Rightarrow> jsstr option) \<Rightarrow> jsstr option" where
  "credentialValue name readEnvironment =
     (case readEnvironment name of
        None \<Rightarrow> None
      | Some v \<Rightarrow> if v = [] then None else Some v)"

record policy_report =
  rep_version :: jsstr
  rep_redirect :: redirect_policy
  rep_maxRedirectHops :: int
  rep_rules :: "jsstr list"

definition policyReport :: "destination_policy \<Rightarrow> policy_report" where
  "policyReport policy =
     \<lparr>rep_version = pol_version policy, rep_redirect = pol_redirect policy,
      rep_maxRedirectHops = pol_maxRedirectHops policy,
      rep_rules = map rule_host (pol_rules policy)\<rparr>"

section \<open>Well-formed policies\<close>

definition rule_ok :: "destination_rule \<Rightarrow> bool" where
  "rule_ok r \<longleftrightarrow>
     checkHost (Str (rule_host r)) = Inr (rule_host r)
     \<and> (case rule_port r of None \<Rightarrow> True | Some p \<Rightarrow> 1 \<le> p \<and> p \<le> 65535)
     \<and> (case rule_pathPrefix r of None \<Rightarrow> True | Some p \<Rightarrow> startsWith p (ascii ''/'') \<and> isWellFormed p)
     \<and> (case rule_credential r of None \<Rightarrow> True | Some c \<Rightarrow> ENV_PATTERN c)"

definition policy_ok :: "destination_policy \<Rightarrow> bool" where
  "policy_ok p \<longleftrightarrow>
     identity_pattern 63 (pol_version p) \<and> list_all rule_ok (pol_rules p)
     \<and> 0 \<le> pol_maxRedirectHops p \<and> pol_maxRedirectHops p \<le> 8"

lemma checkHost_idem: "checkHost v = Inr h \<Longrightarrow> checkHost (Str h) = Inr h"
proof -
  assume h: "checkHost v = Inr h"
  then obtain s where v: "v = Str s" by (cases v) (simp_all add: checkHost_def)
  have "h = toLowerCase s"
    using h unfolding v checkHost_def Let_def by (simp split: if_split_asm)
  moreover have "checkHost (Str (toLowerCase s)) = checkHost (Str s)" by (simp add: checkHost_def)
  ultimately show "checkHost (Str h) = Inr h" using h v by simp
qed

lemma checkPort_range: "checkPort v = Inr p \<Longrightarrow> 1 \<le> p \<and> p \<le> 65535"
  by (auto simp: checkPort_def split: jsval.splits option.splits if_splits)

lemma checkPathPrefix_ok: "checkPathPrefix v = Inr p \<Longrightarrow> startsWith p (ascii ''/'') \<and> isWellFormed p"
  by (auto simp: checkPathPrefix_def split: jsval.splits if_splits)

lemma envName_ok: "envName v = Inr c \<Longrightarrow> ENV_PATTERN c"
  by (auto simp: envName_def split: jsval.splits if_splits)

lemma optional_field_Inr:
  "optional_field check v = Inr x \<longleftrightarrow>
     (v = Undefined \<and> x = None) \<or> (v \<noteq> Undefined \<and> (\<exists>y. check v = Inr y \<and> x = Some y))"
  by (auto simp: optional_field_def res_simps)

lemma checkRule_ok:
  assumes "checkRule v = Inr r"
  shows "rule_ok r"
proof -
  obtain d scheme host port prefix cred where
    h: "checkHost (field d ''host'') = Inr host"
    and o: "optional_field checkPort (field d ''port'') = Inr port"
      "optional_field checkPathPrefix (field d ''pathPrefix'') = Inr prefix"
      "optional_field envName (field d ''credential'') = Inr cred"
    and r: "r = \<lparr>rule_scheme = scheme, rule_host = host, rule_port = port,
                 rule_pathPrefix = prefix, rule_credential = cred\<rparr>"
    using assms by (auto simp: checkRule_def bindR_Inr_conv split: jsval.splits)
  from o show ?thesis
    unfolding rule_ok_def r optional_field_Inr
    using checkHost_idem [OF h] checkPort_range checkPathPrefix_ok envName_ok
    by (auto split: option.split)
qed

lemma mapR_all:
  "mapR f xs = Inr ys \<Longrightarrow> (\<And>x y. f x = Inr y \<Longrightarrow> P y) \<Longrightarrow> list_all P ys"
  by (induction xs arbitrary: ys) (auto simp: bindR_Inr_conv)

lemma destinationPolicy_ok:
  assumes "destinationPolicy v = Inr p"
  shows "policy_ok p"
proof -
  obtain d vs where "identity_pattern 63 (pol_version p)" "mapR checkRule vs = Inr (pol_rules p)"
    "checkHops (field d ''maxRedirectHops'') = Inr (pol_maxRedirectHops p)"
    using assms by (auto simp: destinationPolicy_def bindR_Inr_conv split: jsval.splits if_splits)
  then show ?thesis
    using mapR_all [of checkRule vs "pol_rules p" rule_ok] checkRule_ok
    by (auto simp: policy_ok_def checkHops_def split: jsval.splits option.splits if_splits)
qed

section \<open>Matching\<close>




lemma wildcard_Cons: "wildcard (42 # 46 # s)"
  by (simp add: wildcard_def startsWith_def unit_defs)

lemma hostMatches_wildcard:
  "hostMatches (42 # 46 # suffix) host \<longleftrightarrow>
     (\<exists>label. label \<noteq> [] \<and> host = label @ dot # suffix) \<and> \<not> IPV4_PATTERN host \<and> colon \<notin> set host"
proof -
  have "(length host > length suffix + 1 \<and> endsWith host suffix
      \<and> host ! (length host - length suffix - 1) = dot) \<longleftrightarrow> (\<exists>label. label \<noteq> [] \<and> host = label @ dot # suffix)"
  proof
    assume a: "length host > length suffix + 1 \<and> endsWith host suffix
        \<and> host ! (length host - length suffix - 1) = dot"
    then obtain t where t: "host = t @ suffix" by (auto simp: endsWith_iff)
    with a have "t \<noteq> []" by auto
    with a t have "last t = dot" by (simp add: nth_append last_conv_nth)
    with \<open>t \<noteq> []\<close> obtain t' where t': "t = t' @ [dot]" by (metis append_butlast_last_id)
    then have "host = t' @ dot # suffix" "t' \<noteq> []" using t a by auto
    then show "\<exists>label. label \<noteq> [] \<and> host = label @ dot # suffix" by blast
  next
    assume "\<exists>label. label \<noteq> [] \<and> host = label @ dot # suffix"
    then show "length host > length suffix + 1 \<and> endsWith host suffix
        \<and> host ! (length host - length suffix - 1) = dot"
      by (auto simp: endsWith_def nth_append)
  qed
  then show ?thesis by (simp add: hostMatches_def wildcard_Cons Let_def) blast
qed

section \<open>IPv4 literals\<close>

definition dotted :: "int \<Rightarrow> int \<Rightarrow> int \<Rightarrow> int \<Rightarrow> jsstr" where
  "dotted a b c d = join_on dot [int_string a, int_string b, int_string c, int_string d]"

lemma int_string_octet:
  assumes "0 \<le> i" "i \<le> 255"
  shows "int_string i \<noteq> []" "length (int_string i) \<le> 3" "list_all is_digit_unit (int_string i)"
    "dot \<notin> set (int_string i)"
proof -
  show "list_all is_digit_unit (int_string i)" using int_string_units assms by (auto simp: list_all_iff)
  then show "dot \<notin> set (int_string i)" by (auto simp: list_all_iff unit_defs)
  have "length (int_digits i) \<le> 3"
    by (subst int_digits.simps, subst int_digits.simps, subst int_digits.simps) (use assms in auto)
  then show "length (int_string i) \<le> 3" using assms by (simp add: int_string_def)
qed simp

lemma parseIPv4_dotted:
  assumes "list_all (\<lambda>i. 0 \<le> i \<and> i \<le> 255) [a, b, c, d]"
  shows "parseIPv4 (dotted a b c d) = Some [a, b, c, d]"
proof -
  have "split_on dot (dotted a b c d) = [int_string a, int_string b, int_string c, int_string d]"
    unfolding dotted_def using assms int_string_octet(4) by (intro join_split_on) auto
  with assms show ?thesis
    by (simp add: parseIPv4_def IPV4_PATTERN_def Let_def int_string_octet units_value_int_string)
qed

section \<open>Properties\<close>

text \<open>A URL implementation for the witnesses: it knows one posting URL and one target.\<close>

definition demo_url :: url where
  "demo_url = \<lparr>u_protocol = ascii ''https:'', u_username = [], u_password = [],
     u_hostname = ascii ''hooks.example.com'', u_port = None, u_pathname = ascii ''/in/1'', u_hash = [],
     u_origin = ascii ''https://hooks.example.com'', u_href = ascii ''https://hooks.example.com/in/1''\<rparr>"

definition demo_private_url :: url where
  "demo_private_url = demo_url\<lparr>u_hostname := dotted 8 8 4 4, u_href := ascii ''https://8.8.4.4/in/1''\<rparr>"

definition demo_api :: url_api where
  "demo_api = \<lparr>url_parse = (\<lambda>t. if t = u_href demo_url then Some demo_url
                            else if t = u_href demo_private_url then Some demo_private_url else None),
     url_resolve = (\<lambda>t b. if t = ascii ''/in/1'' then Some demo_url else None),
     url_stripped = u_href\<rparr>"

definition demo_policy_value :: jsval where
  "demo_policy_value = Obj
     [(ascii ''version'', Str (ascii ''v1'')),
      (ascii ''rules'', Arr [
         Obj [(ascii ''scheme'', Str (ascii ''https'')), (ascii ''host'', Str (ascii ''*.Example.com'')),
              (ascii ''credential'', Str (ascii ''HOOK_KEY''))],
         Obj [(ascii ''scheme'', Str (ascii ''any'')), (ascii ''host'', Str (ascii ''8.8.4.4''))]]),
      (ascii ''redirect'', Str (ascii ''allowlisted'')),
      (ascii ''maxRedirectHops'', Num (num 2))]"

definition demo_policy :: destination_policy where
  "demo_policy = \<lparr>pol_version = ascii ''v1'',
     pol_rules = [\<lparr>rule_scheme = Https, rule_host = ascii ''*.example.com'', rule_port = None,
                   rule_pathPrefix = None, rule_credential = Some (ascii ''HOOK_KEY'')\<rparr>,
                  \<lparr>rule_scheme = AnyScheme, rule_host = ascii ''8.8.4.4'', rule_port = None,
                   rule_pathPrefix = None, rule_credential = None\<rparr>],
     pol_redirect = Allowlisted, pol_maxRedirectHops = 2, pol_loopback = ScopeDeny,
     pol_privateNetworks = ScopeDeny\<rparr>"

lemma demo_policy_checked: "destinationPolicy demo_policy_value = Inr demo_policy"
  by code_simp




lemma checkUrlShape_None:
  "checkUrlShape p u = None \<longleftrightarrow>
     (u_protocol u = ascii ''http:'' \<or> u_protocol u = ascii ''https:'')
     \<and> u_username u = [] \<and> u_password u = [] \<and> u_hash u = []
     \<and> (isLoopbackLiteral (toLowerCase (u_hostname u)) \<longrightarrow> pol_loopback p = ScopeAllow)
     \<and> (isPrivateLiteral (toLowerCase (u_hostname u)) \<longrightarrow> pol_privateNetworks p = ScopeAllow)"
  by (cases "pol_loopback p"; cases "pol_privateNetworks p") (auto simp: checkUrlShape_def Let_def)

lemma lower_digits: "list_all (\<lambda>u. is_digit_unit u \<or> u = dot) s \<Longrightarrow> toLowerCase s = s"
  by (induction s) (auto simp: toLowerCase_def lower_unit_def unit_defs)

lemma dotted_lower:
  assumes "list_all (\<lambda>i. 0 \<le> i \<and> i \<le> 255) [a, b, c, d]"
  shows "toLowerCase (dotted a b c d) = dotted a b c d"
  using assms int_string_octet(3) by (intro lower_digits) (auto simp: dotted_def list_all_iff)

text \<open>
  C32: with private networks denied, no rule can admit a URL whose host is a dotted IPv4
  address in a private, link-local or loopback range or the unspecified address; every such
  URL is http or https and carries neither user information nor a fragment.
\<close>

theorem no_private_ipv4_admitted:
  assumes "evaluateDestination api p url = DestAllowed i cr" and "url_parse api url = Some u"
    and "pol_privateNetworks p = ScopeDeny"
    and "u_hostname u = dotted a b c d" and "list_all (\<lambda>i. 0 \<le> i \<and> i \<le> 255) [a, b, c, d]"
  shows "a \<noteq> 10 \<and> a \<noteq> 127 \<and> \<not> (a = 172 \<and> 16 \<le> b \<and> b \<le> 31) \<and> \<not> (a = 192 \<and> b = 168)
    \<and> \<not> (a = 169 \<and> b = 254) \<and> [a, b, c, d] \<noteq> [0, 0, 0, 0]
    \<and> (u_protocol u = ascii ''http:'' \<or> u_protocol u = ascii ''https:'')
    \<and> u_username u = [] \<and> u_password u = [] \<and> u_hash u = []"
proof -
  have "checkUrlShape p u = None"
    using assms(1,2) by (auto simp: evaluateDestination_def split: option.splits)
  then have shape: "\<not> isPrivateLiteral (dotted a b c d)"
    "u_protocol u = ascii ''http:'' \<or> u_protocol u = ascii ''https:''"
    "u_username u = []" "u_password u = []" "u_hash u = []"
    using assms(3,4) by (auto simp: checkUrlShape_None dotted_lower [OF assms(5)])
  from shape(1) show ?thesis
    using shape(2-5) unfolding isPrivateLiteral_def parseIPv4_dotted [OF assms(5)] by auto
qed

theorem no_private_ipv4_admitted_witness:
  "evaluateDestination demo_api demo_policy (ascii ''https://8.8.4.4/in/1'') = DestAllowed 1 None
   \<and> u_username demo_private_url = []"
proof -
  have e: "evaluateDestination demo_api demo_policy (ascii ''https://8.8.4.4/in/1'') = DestAllowed 1 None"
    and u: "url_parse demo_api (ascii ''https://8.8.4.4/in/1'') = Some demo_private_url"
    and p: "pol_privateNetworks demo_policy = ScopeDeny"
    and h: "u_hostname demo_private_url = dotted 8 8 4 4" by code_simp+
  from no_private_ipv4_admitted [OF e u p h] e show ?thesis by simp
qed

text \<open>
  A wildcard rule matches exactly the proper subdomains of its suffix: a nonempty label
  part, a dot and the suffix. It matches neither the suffix itself nor an IP literal.
\<close>

lemma wildcard_matches_subdomains:
  "hostMatches (ascii ''*.'' @ suffix) host \<longleftrightarrow>
     (\<exists>label. label \<noteq> [] \<and> host = label @ ascii ''.'' @ suffix)
     \<and> \<not> IPV4_PATTERN host \<and> colon \<notin> set host"
  using hostMatches_wildcard [of suffix host] by (simp add: ascii_def unit_of_char_def)

text \<open>
  C33: a redirect is followed only under a policy that permits redirects, for fewer hops than
  the policy's bound (at most 8), and to a target that stays on the posting origin and passes
  the URL checks, or that the full destination policy admits; what is reported is the
  redacted target.
\<close>

theorem redirect_followed_only_if_admitted:
  assumes "destinationPolicy v = Inr p"
    and "evaluateRedirect api p requestUrl location hops = Inr (RedirAllowed t)"
  shows "\<exists>h posting target. safe_integer hops = Some h \<and> 0 \<le> h \<and> h < pol_maxRedirectHops p \<and> h < 8
    \<and> url_parse api requestUrl = Some posting \<and> url_resolve api location posting = Some target
    \<and> t = redactUrl api (u_href target)
    \<and> (pol_redirect p = SameOrigin \<and> u_origin target = u_origin posting \<and> checkUrlShape p target = None
       \<or> pol_redirect p = Allowlisted
         \<and> (\<exists>i c. evaluateDestination api p (u_href target) = DestAllowed i c))"
proof -
  have "pol_maxRedirectHops p \<le> 8" using destinationPolicy_ok [OF assms(1)] by (simp add: policy_ok_def)
  with assms(2) show ?thesis
    by (cases "pol_redirect p")
       (auto simp: evaluateRedirect_def split: option.splits if_splits destination_decision.splits)
qed

theorem redirect_followed_only_if_admitted_witness:
  "\<exists>target. url_resolve demo_api (ascii ''/in/1'') demo_url = Some target
     \<and> (\<exists>i c. evaluateDestination demo_api demo_policy (u_href target) = DestAllowed i c)"
proof -
  have "evaluateRedirect demo_api demo_policy (u_href demo_url) (ascii ''/in/1'') (num 0)
      = Inr (RedirAllowed (u_href demo_url))" by code_simp
  from redirect_followed_only_if_admitted [OF demo_policy_checked this]
  show ?thesis by (auto simp: demo_policy_def demo_api_def)
qed

section \<open>Addresses the private check misses\<close>

text \<open>
  Literals that are private, link-local or unspecified and that \<open>isPrivateLiteral\<close> does not
  recognise: most of \<open>fe80::/10\<close>, the unspecified address in its usual form, and IPv4-mapped
  addresses. A bracketed literal, the form in which a URL's host name gives IPv6 addresses,
  is never recognised as loopback.
\<close>

theorem private_check_gaps:
  "\<not> isPrivateLiteral (ascii ''fe90::1'') \<and> \<not> isPrivateLiteral (ascii ''::'')
   \<and> \<not> isPrivateLiteral (ascii ''::ffff:10.0.0.1'') \<and> \<not> isLoopbackLiteral (ascii ''[::1]'')"
  by code_simp

end
