(* ===== verification/Completion.thy ===== *)
theory Completion
  imports Prelude
begin

text \<open>
  The outcome of a runtime operation as \<open>runtime/completion.ts\<close> boxes it, and the primitive
  operations of \<open>runtime/primitive.ts\<close> with their arithmetic and bounds faults.
\<close>

section \<open>Completions\<close>

datatype standard_kind = Arithmetic | Bounds | ResourceState | AssertionKind | NativeException | Cleanup

text \<open>
  A success, a domain failure (its type identity and the fields of its payload record) or a
  standard failure (its kind and message).
\<close>

datatype 'a completion =
    Ok 'a
  | Domain jsstr "jsval dict"
  | Standard standard_kind jsstr

definition bindC :: "'a completion \<Rightarrow> ('a \<Rightarrow> 'b completion) \<Rightarrow> 'b completion" where
  "bindC m f = (case m of Ok x \<Rightarrow> f x | Domain i p \<Rightarrow> Domain i p | Standard k s \<Rightarrow> Standard k s)"

lemma bindC_simps [simp]:
  "bindC (Ok x) f = f x"
  "bindC (Domain i p) f = Domain i p"
  "bindC (Standard k s) f = Standard k s"
  by (simp_all add: bindC_def)

lemma bindC_Ok_conv: "bindC m f = Ok y \<longleftrightarrow> (\<exists>x. m = Ok x \<and> f x = Ok y)"
  by (cases m) auto

section \<open>Primitive operations\<close>

text \<open>The quotient and the remainder of bigints truncate toward zero.\<close>

definition big_quot :: "int \<Rightarrow> int \<Rightarrow> int" where
  "big_quot a b = sgn a * sgn b * (\<bar>a\<bar> div \<bar>b\<bar>)"

definition big_rem :: "int \<Rightarrow> int \<Rightarrow> int" where
  "big_rem a b = sgn a * (\<bar>a\<bar> mod \<bar>b\<bar>)"

lemma big_quot_rem: "big_quot a b * b + big_rem a b = a"
proof -
  have "big_quot a b * b + big_rem a b = sgn a * (\<bar>a\<bar> div \<bar>b\<bar> * \<bar>b\<bar> + \<bar>a\<bar> mod \<bar>b\<bar>)"
    by (simp add: big_quot_def big_rem_def algebra_simps abs_sgn)
  also have "\<dots> = sgn a * \<bar>a\<bar>" by simp
  finally show ?thesis by (simp add: sgn_mult_abs)
qed

lemma big_rem_bound: "b \<noteq> 0 \<Longrightarrow> \<bar>big_rem a b\<bar> < \<bar>b\<bar>"
  by (cases "a = 0") (simp_all add: big_rem_def abs_mult)

lemma big_rem_sgn: "big_rem a b = 0 \<or> sgn (big_rem a b) = sgn a"
proof (cases "big_rem a b = 0")
  case False
  then have "\<bar>a\<bar> mod \<bar>b\<bar> \<noteq> 0" by (auto simp: big_rem_def)
  moreover have "0 \<le> \<bar>a\<bar> mod \<bar>b\<bar>" by (cases "b = 0") auto
  ultimately show ?thesis by (simp add: big_rem_def sgn_mult)
qed simp

definition intDivide :: "int \<Rightarrow> int \<Rightarrow> int completion" where
  "intDivide l r =
     (if r = 0 then Standard Arithmetic (ascii ''arithmetic: integer division by zero'')
      else Ok (big_quot l r))"

definition intRemainder :: "int \<Rightarrow> int \<Rightarrow> int completion" where
  "intRemainder l r =
     (if r = 0 then Standard Arithmetic (ascii ''arithmetic: integer remainder by zero'')
      else Ok (big_rem l r))"

definition intPower :: "int \<Rightarrow> int \<Rightarrow> int completion" where
  "intPower l r =
     (if r < 0 then Standard Arithmetic (ascii ''arithmetic: negative integer exponent'')
      else Ok (l ^ nat r))"

definition index :: "'a list \<Rightarrow> int \<Rightarrow> 'a completion" where
  "index xs p =
     (if p < 0 \<or> p \<ge> int (length xs) then Standard Bounds (ascii ''bounds: index out of range'')
      else Ok (xs ! nat p))"

definition sliceBound :: "int \<Rightarrow> int \<Rightarrow> int" where
  "sliceBound v len =
     (let relative = (if v < 0 then len + v else v)
      in if relative < 0 then 0 else if relative > len then len else relative)"

text \<open>\<open>value.slice(from, to)\<close> for bounds between 0 and the length.\<close>

definition native_slice :: "'a list \<Rightarrow> int \<Rightarrow> int \<Rightarrow> 'a list" where
  "native_slice xs a b = take (nat b - nat a) (drop (nat a) xs)"

definition slice :: "'a list \<Rightarrow> int option \<Rightarrow> int option \<Rightarrow> 'a list" where
  "slice xs start stop =
     (let len = int (length xs);
          a = (case start of None \<Rightarrow> 0 | Some v \<Rightarrow> sliceBound v len);
          b = (case stop of None \<Rightarrow> len | Some v \<Rightarrow> sliceBound v len)
      in native_slice xs a b)"

lemma sliceBound_range: "0 \<le> len \<Longrightarrow> 0 \<le> sliceBound v len \<and> sliceBound v len \<le> len"
  by (simp add: sliceBound_def Let_def)

lemma slice_split: "slice xs None (Some k) @ slice xs (Some k) None = xs"
  using sliceBound_range [of "int (length xs)" k]
  by (simp add: slice_def Let_def native_slice_def nat_diff_distrib' flip: nat_diff_distrib)

end
