(* ===== verification/Numbers.thy ===== *)
theory Numbers
  imports Completion JsNumber JsString
begin

text \<open>
  The numeric catalogue and the exact amounts of \<open>runtime/number.ts\<close>: conversions between
  text, bigints, doubles and booleans, and exact division with its three rounding rules.
\<close>

section \<open>Doubles\<close>

text \<open>
  The double nearest to a rational (sign and magnitude), with gradual underflow and overflow
  to the infinities: \<open>Number(text)\<close> and \<open>Number(bigint)\<close>.
\<close>

definition to_double :: "bool \<Rightarrow> rat \<Rightarrow> jsnum" where
  "to_double negative x =
     (if x = 0 then (if negative then NegZero else Fin 0)
      else
        let s = max (rat_log2 x - 52) (- 1074);
            r = of_int (round_half_even (x * 2 powi (- s))) * (2::rat) powi s
        in if 2 ^ 1024 \<le> r then (if negative then NegInf else PosInf)
           else if r = 0 then (if negative then NegZero else Fin 0)
           else Fin (if negative then - r else r))"

definition number_of_bigint :: "int \<Rightarrow> jsnum" where
  "number_of_bigint i = to_double (i < 0) (of_int \<bar>i\<bar>)"

fun isFinite :: "jsnum \<Rightarrow> bool" where
  "isFinite (Fin r) = True"
| "isFinite NegZero = True"
| "isFinite _ = False"

fun isNaN :: "jsnum \<Rightarrow> bool" where
  "isNaN NaN = True"
| "isNaN _ = False"

text \<open>The value of \<open>BigInt(x)\<close> for an integral double, none for any other.\<close>

fun integral :: "jsnum \<Rightarrow> int option" where
  "integral (Fin r) = (if of_int \<lfloor>r\<rfloor> = r then Some \<lfloor>r\<rfloor> else None)"
| "integral NegZero = Some 0"
| "integral _ = None"

fun math_floor :: "jsnum \<Rightarrow> jsnum" where
  "math_floor (Fin r) = Fin (of_int \<lfloor>r\<rfloor>)"
| "math_floor x = x"

text \<open>The results of the other roundings that are zero keep the sign of a negative argument.\<close>

definition signed_int :: "rat \<Rightarrow> int \<Rightarrow> jsnum" where
  "signed_int r i = (if i = 0 \<and> r < 0 then NegZero else Fin (of_int i))"

fun math_ceil :: "jsnum \<Rightarrow> jsnum" where
  "math_ceil (Fin r) = signed_int r \<lceil>r\<rceil>"
| "math_ceil x = x"

fun math_trunc :: "jsnum \<Rightarrow> jsnum" where
  "math_trunc (Fin r) = signed_int r (if r < 0 then \<lceil>r\<rceil> else \<lfloor>r\<rfloor>)"
| "math_trunc x = x"

fun math_round :: "jsnum \<Rightarrow> jsnum" where
  "math_round (Fin r) = signed_int r \<lfloor>r + 1 / 2\<rfloor>"
| "math_round x = x"

section \<open>Number texts\<close>

definition strip_sign :: "jsstr \<Rightarrow> bool \<times> jsstr" where
  "strip_sign s = (case s of u # us \<Rightarrow> if u = 45 then (True, us) else (False, s) | [] \<Rightarrow> (False, []))"

definition plain_integer :: "jsstr \<Rightarrow> bool" where
  "plain_integer s \<longleftrightarrow>
     s \<noteq> [] \<and> list_all is_digit_unit s \<and> (s = [digit_unit 0] \<or> hd s \<noteq> digit_unit 0)"

definition integerText :: "jsstr \<Rightarrow> bool" where
  "integerText s \<longleftrightarrow> plain_integer (snd (strip_sign s))"

definition bigint_of_text :: "jsstr \<Rightarrow> int" where
  "bigint_of_text s =
     (if fst (strip_sign s) then - units_value (snd (strip_sign s)) else units_value (snd (strip_sign s)))"

text \<open>The exponent part after \<open>e\<close> or \<open>E\<close>.\<close>

definition exponent_part :: "jsstr \<Rightarrow> int option" where
  "exponent_part s =
     (let (negative, ds) =
            (case s of u # us \<Rightarrow> if u = 45 then (True, us) else if u = 43 then (False, us) else (False, s)
             | [] \<Rightarrow> (False, []))
      in if ds \<noteq> [] \<and> list_all is_digit_unit ds
         then Some (if negative then - units_value ds else units_value ds) else None)"

definition exponent_suffix :: "jsstr \<Rightarrow> int option" where
  "exponent_suffix s =
     (case s of u # us \<Rightarrow> if u = 101 \<or> u = 69 then exponent_part us else None | [] \<Rightarrow> None)"

text \<open>
  The magnitude a text of the form \<open>floatText\<close> denotes: digits, and either nothing more (an
  integer without superfluous zeros), a fraction with an optional exponent, or an exponent.
\<close>

definition float_magnitude :: "jsstr \<Rightarrow> rat option" where
  "float_magnitude s =
     (let ip = takeWhile is_digit_unit s; rest = dropWhile is_digit_unit s in
      if ip = [] then None
      else (case rest of
          [] \<Rightarrow> if plain_integer ip then Some (of_int (units_value ip)) else None
        | u # us \<Rightarrow>
            if u = 46 then
              (let fp = takeWhile is_digit_unit us; rest' = dropWhile is_digit_unit us;
                   scaled = of_int (units_value (ip @ fp)) :: rat in
               if fp = [] then None
               else if rest' = [] then Some (scaled * 10 powi (- int (length fp)))
               else map_option (\<lambda>e. scaled * 10 powi (e - int (length fp))) (exponent_suffix rest'))
            else map_option (\<lambda>e. of_int (units_value ip) * 10 powi e) (exponent_suffix rest)))"

definition floatText :: "jsstr \<Rightarrow> bool" where
  "floatText s \<longleftrightarrow> float_magnitude (snd (strip_sign s)) \<noteq> None"

section \<open>The catalogue\<close>

record number_errors =
  inexact :: jsstr
  invalidNumber :: jsstr
  invalidTextBool :: jsstr
  invalidIntBool :: jsstr

definition invalid :: "jsstr \<Rightarrow> string \<Rightarrow> jsval \<Rightarrow> 'a completion" where
  "invalid identity name v = Domain identity [(ascii name, v)]"

definition fromInt :: "int \<Rightarrow> jsstr completion" where
  "fromInt i = Ok (int_string i)"

definition fromBool :: "bool \<Rightarrow> jsstr completion" where
  "fromBool b = Ok (if b then ascii ''true'' else ascii ''false'')"

definition intToFloat :: "number_errors \<Rightarrow> int \<Rightarrow> jsnum completion" where
  "intToFloat errors i =
     (let converted = number_of_bigint i in
      if \<not> isFinite converted \<or> integral converted \<noteq> Some i
      then invalid (inexact errors) ''reason'' (Str (ascii ''not exactly representable as float''))
      else Ok converted)"

definition floatToInt :: "number_errors \<Rightarrow> jsnum \<Rightarrow> int completion" where
  "floatToInt errors x =
     (case integral x of
        None \<Rightarrow> invalid (inexact errors) ''reason'' (Str (ascii ''not a finite integer''))
      | Some i \<Rightarrow> Ok i)"

definition boolToInt :: "bool \<Rightarrow> int completion" where
  "boolToInt b = Ok (if b then 1 else 0)"

definition intToBool :: "number_errors \<Rightarrow> int \<Rightarrow> bool completion" where
  "intToBool errors i =
     (if i \<noteq> 0 \<and> i \<noteq> 1 then invalid (invalidIntBool errors) ''value'' (BigInt i) else Ok (i = 1))"

definition floor_op :: "jsnum \<Rightarrow> jsnum completion" where
  "floor_op x = Ok (math_floor x)"

definition ceil_op :: "jsnum \<Rightarrow> jsnum completion" where
  "ceil_op x = Ok (math_ceil x)"

definition trunc_op :: "jsnum \<Rightarrow> jsnum completion" where
  "trunc_op x = Ok (math_trunc x)"

definition round_op :: "jsnum \<Rightarrow> jsnum completion" where
  "round_op x = Ok (math_round x)"

definition isFinite_op :: "jsnum \<Rightarrow> bool completion" where
  "isFinite_op x = Ok (isFinite x)"

definition isNaN_op :: "jsnum \<Rightarrow> bool completion" where
  "isNaN_op x = Ok (isNaN x)"

definition toInt :: "number_errors \<Rightarrow> jsstr \<Rightarrow> int completion" where
  "toInt errors s =
     (if \<not> integerText s then invalid (invalidNumber errors) ''input'' (Str s)
      else Ok (bigint_of_text s))"

definition toFloat :: "number_errors \<Rightarrow> jsstr \<Rightarrow> jsnum completion" where
  "toFloat errors s =
     (case float_magnitude (snd (strip_sign s)) of
        None \<Rightarrow> invalid (invalidNumber errors) ''input'' (Str s)
      | Some x \<Rightarrow>
          let converted = to_double (fst (strip_sign s)) x in
          if \<not> isFinite converted then invalid (invalidNumber errors) ''input'' (Str s)
          else Ok converted)"

definition toBool :: "number_errors \<Rightarrow> jsstr \<Rightarrow> bool completion" where
  "toBool errors s =
     (if s \<noteq> ascii ''true'' \<and> s \<noteq> ascii ''false'' then invalid (invalidTextBool errors) ''input'' (Str s)
      else Ok (s = ascii ''true''))"

section \<open>Exact amounts\<close>

record division =
  quotient :: int
  remainder :: int

record rounded =
  rd_value :: int
  remainder_numerator :: int
  denominator :: int

definition divmod :: "jsstr \<Rightarrow> int \<Rightarrow> int \<Rightarrow> division completion" where
  "divmod zeroDivisor n d =
     (if d = 0 then Domain zeroDivisor []
      else Ok \<lparr>quotient = big_quot n d, remainder = big_rem n d\<rparr>)"

definition euclideanDivmod :: "jsstr \<Rightarrow> int \<Rightarrow> int \<Rightarrow> division completion" where
  "euclideanDivmod zeroDivisor n d =
     (if d = 0 then Domain zeroDivisor []
      else
        let q = big_quot n d; r = big_rem n d in
        if r < 0 then Ok \<lparr>quotient = q + (if d < 0 then 1 else - 1),
                         remainder = r + (if d < 0 then - d else d)\<rparr>
        else Ok \<lparr>quotient = q, remainder = r\<rparr>)"

definition roundRatioHalfEven :: "jsstr \<Rightarrow> int \<Rightarrow> int \<Rightarrow> rounded completion" where
  "roundRatioHalfEven zeroDivisor numerator denom =
     (if denom = 0 then Domain zeroDivisor []
      else
        let n = (if denom < 0 then - numerator else numerator);
            d = (if denom < 0 then - denom else denom);
            q = big_quot n d;
            r = big_rem n d;
            twice = 2 * (if r < 0 then - r else r);
            q' = (if twice > d \<or> (twice = d \<and> big_rem q 2 \<noteq> 0)
                  then q + (if n < 0 then - 1 else 1) else q)
        in Ok \<lparr>rd_value = q', remainder_numerator = n - q' * d, denominator = d\<rparr>)"

section \<open>Rounding to the nearest integer\<close>

lemma round_half_even_unique:
  fixes y :: rat
  assumes "2 * \<bar>y - of_int z\<bar> < 1 \<or> (2 * \<bar>y - of_int z\<bar> = 1 \<and> even z)"
  shows "round_half_even y = z"
proof -
  have "2 * \<bar>y - of_int z\<bar> \<le> 1" using assms by auto
  then have "of_int (z - 1) \<le> y" "y < of_int (z + 1)" by (auto simp: abs_if split: if_splits)
  then have "z - 1 \<le> \<lfloor>y\<rfloor>" "\<lfloor>y\<rfloor> < z + 1" by (simp_all only: le_floor_iff floor_less_iff)
  then have "\<lfloor>y\<rfloor> = z \<or> \<lfloor>y\<rfloor> = z - 1" by linarith
  then show ?thesis
  proof
    assume "\<lfloor>y\<rfloor> = z"
    with assms show ?thesis by (auto simp: round_half_even_def Let_def abs_if split: if_splits)
  next
    assume "\<lfloor>y\<rfloor> = z - 1"
    with assms show ?thesis by (auto simp: round_half_even_def Let_def abs_if split: if_splits)
  qed
qed

lemma round_half_even_ratio:
  fixes n d q :: int
  assumes d: "0 < d" and near: "2 * \<bar>n - q * d\<bar> < d \<or> (2 * \<bar>n - q * d\<bar> = d \<and> even q)"
  shows "round_half_even (of_int n / of_int d) = q"
proof (rule round_half_even_unique)
  have "of_int n / of_int d - of_int q = (of_int (n - q * d) / of_int d :: rat)"
    using d by (simp add: diff_divide_distrib)
  then have e: "2 * \<bar>of_int n / of_int d - of_int q\<bar> = (of_int (2 * \<bar>n - q * d\<bar>) / of_int d :: rat)"
    using d by (simp add: abs_divide)
  have "of_int k / of_int d < (1::rat) \<longleftrightarrow> k < d" "of_int k / of_int d = (1::rat) \<longleftrightarrow> k = d" for k
    using d by (simp_all add: divide_less_eq divide_eq_eq)
  then show "2 * \<bar>of_int n / of_int d - of_int q\<bar> < (1::rat)
      \<or> (2 * \<bar>of_int n / of_int d - of_int q\<bar> = (1::rat) \<and> even q)"
    using near unfolding e by blast
qed

lemma big_rem_two: "big_rem q 2 = 0 \<longleftrightarrow> even q"
  by (auto simp: big_rem_def sgn_if even_iff_mod_2_eq_zero [of "\<bar>q\<bar>", symmetric])

text \<open>The correction step on a truncated quotient yields the nearest integer, ties to even.\<close>

lemma half_even_step:
  fixes n d :: int
  defines "q \<equiv> big_quot n d" and "r \<equiv> big_rem n d"
  defines "q' \<equiv> (if 2 * \<bar>r\<bar> > d \<or> (2 * \<bar>r\<bar> = d \<and> odd q) then q + (if n < 0 then - 1 else 1) else q)"
  assumes d: "0 < d"
  shows "2 * \<bar>n - q' * d\<bar> < d \<or> (2 * \<bar>n - q' * d\<bar> = d \<and> even q')"
proof -
  have eq: "n - q * d = r" using big_quot_rem [of n d] by (simp add: q_def r_def)
  have b: "\<bar>r\<bar> < d" using big_rem_bound [of d n] d by (simp add: r_def)
  have sg: "r = 0 \<or> sgn r = sgn n" using big_rem_sgn [of n d] by (simp add: r_def)
  show ?thesis
  proof (cases "2 * \<bar>r\<bar> > d \<or> (2 * \<bar>r\<bar> = d \<and> odd q)")
    case True
    then have "r \<noteq> 0" using d by auto
    with sg have s: "n < 0 \<longleftrightarrow> r < 0" by (auto simp: sgn_if split: if_splits)
    have "n - q' * d = (if n < 0 then r + d else r - d)"
      using True eq by (simp add: q'_def algebra_simps)
    then have "\<bar>n - q' * d\<bar> = d - \<bar>r\<bar>" using s b by (auto simp: abs_if)
    moreover have "even q'" if "2 * \<bar>r\<bar> = d" using True that by (auto simp: q'_def)
    ultimately show ?thesis using True by auto
  next
    case False
    then show ?thesis using eq by (auto simp: q'_def)
  qed
qed

text \<open>
  Exact rounding of a ratio. For a nonzero denominator the reported value is the ratio
  rounded to the nearest integer with ties to the even one, the reported denominator is the
  absolute denominator, and value and remainder restore the ratio exactly.
\<close>

lemma roundRatioHalfEven_exact:
  assumes "d \<noteq> 0"
  shows "\<exists>x. roundRatioHalfEven z n d = Ok x
    \<and> rd_value x = round_half_even (of_int n / of_int d)
    \<and> denominator x = \<bar>d\<bar>
    \<and> (of_int (rd_value x) :: rat) + of_int (remainder_numerator x) / of_int (denominator x)
        = of_int n / of_int d
    \<and> 2 * \<bar>remainder_numerator x\<bar> \<le> denominator x"
proof -
  let ?n = "if d < 0 then - n else n" and ?d = "\<bar>d\<bar>"
  have dpos: "0 < ?d" using assms by simp
  have ratio: "of_int ?n / of_int ?d = (of_int n / of_int d :: rat)"
    using assms by (auto simp: abs_if)
  let ?q = "big_quot ?n ?d" and ?r = "big_rem ?n ?d"
  define q' where "q' = (if 2 * \<bar>?r\<bar> > ?d \<or> (2 * \<bar>?r\<bar> = ?d \<and> odd ?q)
      then ?q + (if ?n < 0 then - 1 else 1) else ?q)"
  have near: "2 * \<bar>?n - q' * ?d\<bar> < ?d \<or> (2 * \<bar>?n - q' * ?d\<bar> = ?d \<and> even q')"
    using half_even_step [OF dpos, of ?n] by (simp add: q'_def)
  have code: "roundRatioHalfEven z n d
      = Ok \<lparr>rd_value = q', remainder_numerator = ?n - q' * ?d, denominator = ?d\<rparr>"
    using assms by (simp add: roundRatioHalfEven_def Let_def q'_def big_rem_two abs_if)
  have "round_half_even (of_int ?n / of_int ?d) = q'" using round_half_even_ratio [OF dpos near] .
  then have "round_half_even (of_int n / of_int d) = q'" by (simp only: ratio)
  moreover have "(of_int q' :: rat) + of_int (?n - q' * ?d) / of_int ?d = of_int ?n / of_int ?d"
    using dpos by (simp only: of_int_diff of_int_mult) (simp add: field_simps)
  then have "(of_int q' :: rat) + of_int (?n - q' * ?d) / of_int ?d = of_int n / of_int d"
    by (simp only: ratio)
  moreover have "2 * \<bar>?n - q' * ?d\<bar> \<le> ?d" using near by linarith
  ultimately show ?thesis unfolding code by simp
qed

text \<open>
  Euclidean division. For a nonzero denominator quotient and remainder restore the
  numerator, the remainder lies between zero and the absolute denominator, and they are the
  only such pair.
\<close>

lemma euclideanDivmod_unique:
  assumes "d \<noteq> 0"
  shows "euclideanDivmod z n d = Ok \<lparr>quotient = q, remainder = r\<rparr>
    \<longleftrightarrow> n = q * d + r \<and> 0 \<le> r \<and> r < \<bar>d\<bar>"
proof -
  define q0 where "q0 = big_quot n d + (if big_rem n d < 0 then if d < 0 then 1 else - 1 else 0)"
  define r0 where "r0 = big_rem n d + (if big_rem n d < 0 then \<bar>d\<bar> else 0)"
  have code: "euclideanDivmod z n d = Ok \<lparr>quotient = q0, remainder = r0\<rparr>"
    using assms by (simp add: euclideanDivmod_def Let_def q0_def r0_def abs_if)
  have eq: "q0 * d + r0 = n" using big_quot_rem [of n d] by (auto simp: q0_def r0_def algebra_simps)
  have b: "0 \<le> r0" "r0 < \<bar>d\<bar>" using big_rem_bound [OF assms, of n] by (auto simp: r0_def)
  have "q = q0 \<and> r = r0" if "n = q * d + r" "0 \<le> r" "r < \<bar>d\<bar>"
  proof -
    have dist: "(q - q0) * d = r0 - r" using that(1) eq by (simp add: algebra_simps)
    have "\<bar>r0 - r\<bar> < \<bar>d\<bar>" using that b by linarith
    then have "\<bar>q - q0\<bar> * \<bar>d\<bar> < 1 * \<bar>d\<bar>" by (simp flip: abs_mult dist)
    then have "q = q0" using assms by simp
    with dist show ?thesis by simp
  qed
  with eq b show ?thesis unfolding code by auto
qed

text \<open>
  Truncated division. For a nonzero denominator quotient and remainder restore the
  numerator, the remainder is smaller than the denominator in absolute value, and a nonzero
  remainder has the sign of the numerator.
\<close>

lemma divmod_exact:
  assumes "d \<noteq> 0"
  shows "\<exists>q r. divmod z n d = Ok \<lparr>quotient = q, remainder = r\<rparr> \<and> n = q * d + r \<and> \<bar>r\<bar> < \<bar>d\<bar>
    \<and> (r = 0 \<or> sgn r = sgn n)"
  using assms big_quot_rem [of n d] big_rem_bound [OF assms, of n] big_rem_sgn [of n d]
  by (simp add: divmod_def)

section \<open>Round trips\<close>

lemma list_all_digit_int_string: "0 \<le> i \<Longrightarrow> list_all is_digit_unit (int_string i)"
  using int_string_units by (auto simp: list_all_iff)

lemma int_digits_hd: "0 < n \<Longrightarrow> hd (int_digits n) \<noteq> 0"
proof (induction n rule: int_digits.induct)
  case (1 n)
  then show ?case by (cases "n < 10") (auto simp: int_digits.simps [of n])
qed

lemma plain_int_string:
  assumes "0 \<le> i"
  shows "plain_integer (int_string i)"
proof (cases "i = 0")
  case True
  then show ?thesis
    by (simp add: plain_integer_def int_string_def int_digits.simps [of 0] is_digit_unit_def in_range_def
        uint_digit_unit)
next
  case False
  then have i: "0 < i" using assms by simp
  have "hd (int_digits i) \<in> set (int_digits i)" by simp
  then have "0 \<le> hd (int_digits i) \<and> hd (int_digits i) < 10" using int_digits_range assms by blast
  with int_digits_hd [OF i] have "digit_unit (hd (int_digits i)) \<noteq> digit_unit 0"
    using digit_unit_inj by force
  then show ?thesis
    using list_all_digit_int_string [OF assms] assms
    by (simp add: plain_integer_def int_string_def hd_map)
qed

lemma strip_sign_nonneg: "0 \<le> i \<Longrightarrow> strip_sign (int_string i) = (False, int_string i)"
  using list_all_digit_int_string [of i]
  by (cases "int_string i") (auto simp: strip_sign_def unit_defs)

lemma strip_sign_neg: "i < 0 \<Longrightarrow> strip_sign (int_string i) = (True, int_string (- i))"
  by (simp add: strip_sign_def int_string_def unit_defs)

text \<open>A plain digit string is the decimal notation of its value.\<close>

lemma units_value_snoc: "units_value (s @ [u]) = 10 * units_value s + (uint u - 48)"
  by (simp add: units_value_def digits_value_append)

lemma units_value_nonneg: "list_all is_digit_unit s \<Longrightarrow> 0 \<le> units_value s"
proof (induction s rule: rev_induct)
  case Nil
  then show ?case by (simp add: units_value_def)
next
  case (snoc u s)
  then show ?case by (simp add: units_value_snoc is_digit_unit_def in_range_def)
qed

lemma digit_unit_value: "is_digit_unit u \<Longrightarrow> digit_unit (uint u - 48) = u"
  by (simp add: digit_unit_def)

lemma units_value_pos:
  "list_all is_digit_unit s \<Longrightarrow> s \<noteq> [] \<Longrightarrow> hd s \<noteq> digit_unit 0 \<Longrightarrow> 0 < units_value s"
proof (induction s rule: rev_induct)
  case (snoc u s)
  show ?case
  proof (cases s)
    case Nil
    with snoc have "u \<noteq> digit_unit 0" by simp
    then have "uint u \<noteq> 48" by (metis add.right_neutral digit_unit_def word_of_int_uint)
    with snoc Nil show ?thesis
      using units_value_snoc [of "[]" u]
      by (simp add: units_value_def is_digit_unit_def in_range_def)
  next
    case (Cons a list)
    then have "0 < units_value s" using snoc by simp
    moreover have "48 \<le> uint u" using snoc.prems(1) by (simp add: is_digit_unit_def in_range_def)
    ultimately show ?thesis by (simp add: units_value_snoc)
  qed
qed simp

lemma int_string_units_value: "plain_integer s \<Longrightarrow> int_string (units_value s) = s"
proof (induction s rule: rev_induct)
  case Nil
  then show ?case by (simp add: plain_integer_def)
next
  case (snoc u s)
  have u: "is_digit_unit u" "list_all is_digit_unit s" using snoc.prems by (simp_all add: plain_integer_def)
  then have ur: "0 \<le> uint u - 48" "uint u - 48 < 10" by (simp_all add: is_digit_unit_def in_range_def)
  show ?case
  proof (cases s)
    case Nil
    then show ?thesis using u ur units_value_snoc [of "[]" u]
      by (simp add: units_value_def int_string_def int_digits.simps [of "uint u - 48"] digit_unit_value)
  next
    case (Cons a list)
    then have h: "hd s \<noteq> digit_unit 0" using snoc.prems by (auto simp: plain_integer_def)
    with Cons u have pl: "plain_integer s" by (simp add: plain_integer_def)
    have pos: "0 < units_value s" using units_value_pos [OF u(2) _ h] Cons by simp
    have v: "units_value (s @ [u]) div 10 = units_value s" "units_value (s @ [u]) mod 10 = uint u - 48"
      using ur by (auto simp: units_value_snoc)
    have ge: "\<not> units_value (s @ [u]) < 10" "0 \<le> units_value (s @ [u])"
      using pos ur by (simp_all add: units_value_snoc)
    have "int_string (units_value (s @ [u])) = int_string (units_value s) @ [digit_unit (uint u - 48)]"
      using ge v pos int_digits.simps [of "units_value (s @ [u])"] by (simp add: int_string_def)
    with snoc.IH [OF pl] u show ?thesis by (simp add: digit_unit_value)
  qed
qed

text \<open>
  Text and integers. The text of every integer parses back to it, and every accepted text
  other than the negative zero is the text of the integer it denotes; texts with a plus
  sign, superfluous zeros, spaces or other characters are the invalid-number failure.
\<close>

lemma int_text_roundtrip:
  "bindC (fromInt i) (toInt errs) = Ok i \<and>
   (toInt errs s = Ok k \<longleftrightarrow> s = int_string k \<or> (s = ascii ''-0'' \<and> k = 0))"
proof -
  have "toInt errs (int_string j) = Ok j" for j
    by (cases "0 \<le> j")
       (simp_all add: toInt_def integerText_def bigint_of_text_def strip_sign_nonneg strip_sign_neg
         plain_int_string units_value_int_string)
  moreover have "toInt errs (ascii ''-0'') = Ok 0" by code_simp
  moreover have "s = int_string k \<or> (s = ascii ''-0'' \<and> k = 0)" if "toInt errs s = Ok k"
  proof -
    obtain neg t where st: "strip_sign s = (neg, t)" by (cases "strip_sign s")
    then have t: "plain_integer t" and k: "k = (if neg then - units_value t else units_value t)"
      using that by (auto simp: toInt_def integerText_def bigint_of_text_def invalid_def split: if_splits)
    have tv: "int_string (units_value t) = t" using int_string_units_value [OF t] .
    have s: "s = (if neg then ascii ''-'' @ t else t)"
      using st by (auto simp: strip_sign_def unit_defs split: list.splits if_splits)
    have nn: "0 \<le> units_value t" using t by (intro units_value_nonneg) (simp add: plain_integer_def)
    show ?thesis
    proof (cases "neg \<and> units_value t = 0")
      case True
      then have "t = int_string 0" using tv by simp
      then have "s = ascii ''-0''" using s True
        by (simp add: int_string_def int_digits.simps [of 0] digit_unit_def unit_defs)
      with True k show ?thesis by simp
    next
      case False
      with s k tv nn show ?thesis by (auto simp: int_string_def)
    qed
  qed
  ultimately show ?thesis by (auto simp: fromInt_def)
qed

lemma rat_log2_ge_0: "1 \<le> x \<Longrightarrow> 0 \<le> rat_log2 x"
proof (rule ccontr)
  assume "1 \<le> x" and "\<not> 0 \<le> rat_log2 x"
  then have "x < 2 powi (rat_log2 x + 1)" "rat_log2 x + 1 \<le> 0" using rat_log2_bounds [of x] by auto
  moreover from this(2) have "(2::rat) powi (rat_log2 x + 1) \<le> 2 powi 0" by (intro power_int_increasing) auto
  ultimately show False using \<open>1 \<le> x\<close> by simp
qed

lemma to_double_int:
  assumes "0 < i" and "i \<le> 2 ^ 53"
  shows "to_double negative (of_int i) = Fin (if negative then - of_int i else of_int i)"
proof -
  have "max (rat_log2 (of_int i) - 52) (- 1074) = rat_log2 (of_int i) - 52"
    using rat_log2_ge_0 [of "of_int i"] assms by simp
  moreover have "of_int (round_half_even (of_int i * 2 powi (- (rat_log2 (of_int i) - 52))))
      * (2::rat) powi (rat_log2 (of_int i) - 52) = of_int i"
    using fl_int_exact [of i] assms by (simp add: fl_def Let_def)
  moreover have "(of_int i :: rat) < 2 ^ 1024"
  proof -
    have "(of_int i :: rat) \<le> 2 ^ 53" using assms by (simp flip: of_int_le_iff)
    also have "\<dots> < 2 ^ 1024" by (rule power_strict_increasing) auto
    finally show ?thesis .
  qed
  ultimately show ?thesis using assms by (simp add: to_double_def Let_def)
qed

lemma number_of_bigint_exact:
  assumes "\<bar>i\<bar> \<le> 2 ^ 53"
  shows "number_of_bigint i = Fin (of_int i)"
proof (cases "i = 0")
  case True
  then show ?thesis by (simp add: number_of_bigint_def to_double_def)
next
  case False
  then show ?thesis using to_double_int [of "\<bar>i\<bar>" "i < 0"] assms
    by (auto simp: number_of_bigint_def)
qed

lemma takeWhile_digits:
  "list_all is_digit_unit s \<Longrightarrow> takeWhile is_digit_unit s = s \<and> dropWhile is_digit_unit s = []"
  by (induction s) auto

text \<open>
  Integers and doubles. Every integer up to 2 to the 53rd in absolute value converts to
  a double without loss, from a bigint as well as from its text, and back to the same
  integer; and whatever the conversion of a bigint accepts, of any size, converts back to it.
\<close>

lemma int_float_roundtrip:
  assumes "\<bar>i\<bar> \<le> 2 ^ 53"
  shows "intToFloat errs i = Ok (Fin (of_int i)) \<and> floatToInt errs (Fin (of_int i)) = Ok i
    \<and> (i < 0 \<or> toFloat errs (int_string i) = Ok (Fin (of_int i)))
    \<and> (intToFloat errs k \<noteq> Ok x \<or> floatToInt errs x = Ok k)"
proof -
  have "toFloat errs (int_string i) = Ok (Fin (of_int i))" if "0 \<le> i"
  proof -
    have "float_magnitude (int_string i) = Some (of_int i)"
      unfolding float_magnitude_def
        takeWhile_digits [OF list_all_digit_int_string [OF that], THEN conjunct1]
        takeWhile_digits [OF list_all_digit_int_string [OF that], THEN conjunct2]
      using that by (simp add: plain_int_string units_value_int_string)
    moreover have "to_double False (of_int i) = Fin (of_int i)"
      using number_of_bigint_exact [OF assms] that by (simp add: number_of_bigint_def)
    ultimately show ?thesis using that by (simp add: toFloat_def strip_sign_nonneg)
  qed
  moreover have "floatToInt errs x = Ok k" if "intToFloat errs k = Ok x"
    using that by (auto simp: intToFloat_def floatToInt_def invalid_def Let_def split: if_splits)
  moreover have "intToFloat errs i = Ok (Fin (of_int i))" "floatToInt errs (Fin (of_int i)) = Ok i"
    using number_of_bigint_exact [OF assms] by (simp_all add: intToFloat_def floatToInt_def)
  ultimately show ?thesis using not_less by blast
qed

definition demo_errors :: number_errors where
  "demo_errors = \<lparr>inexact = ascii ''Inexact'', invalidNumber = ascii ''InvalidNumber'',
     invalidTextBool = ascii ''InvalidTextBool'', invalidIntBool = ascii ''InvalidIntBool''\<rparr>"

end
