(* ===== verification/Unicode.thy ===== *)
theory Unicode
  imports JsString
begin

text \<open>
  Unicode scalar values, UTF-16 and UTF-8: what \<open>codePointAt\<close>, \<open>String.fromCodePoint\<close>,
  \<open>TextEncoder\<close> and the fatal \<open>TextDecoder\<close> compute, and that the encodings are inverse to
  each other on well-formed input.
\<close>

section \<open>Scalar values and UTF-16\<close>

definition scalar :: "int \<Rightarrow> bool" where
  "scalar c \<longleftrightarrow> 0 \<le> c \<and> c \<le> 0x10FFFF \<and> \<not> (0xD800 \<le> c \<and> c \<le> 0xDFFF)"

definition units_of :: "int \<Rightarrow> jsstr" where
  "units_of c =
     (if c < 0x10000 then [word_of_int c]
      else [word_of_int (0xD800 + (c - 0x10000) div 0x400),
            word_of_int (0xDC00 + (c - 0x10000) mod 0x400)])"

definition utf16_encode :: "int list \<Rightarrow> jsstr" where
  "utf16_encode cs = concat (map units_of cs)"

text \<open>The code points of a string; a lone surrogate is read as the replacement character.\<close>

fun utf16_decode :: "jsstr \<Rightarrow> int list" where
  "utf16_decode [] = []"
| "utf16_decode [u] =
     [if is_high_surrogate u \<or> is_low_surrogate u then 0xFFFD else uint u]"
| "utf16_decode (u # v # us) =
     (if is_high_surrogate u \<and> is_low_surrogate v
      then (0x10000 + (uint u - 0xD800) * 0x400 + (uint v - 0xDC00)) # utf16_decode us
      else (if is_high_surrogate u \<or> is_low_surrogate u then 0xFFFD else uint u) # utf16_decode (v # us))"

lemma uint_unit [simp]: "0 \<le> c \<Longrightarrow> c < 0x10000 \<Longrightarrow> uint (word_of_int c :: code_unit) = c"
  by (simp add: uint_word_of_int)

lemma units_of_bmp:
  assumes "scalar c" "c < 0x10000"
  shows "\<exists>u. units_of c = [u] \<and> uint u = c \<and> \<not> is_high_surrogate u \<and> \<not> is_low_surrogate u"
  using assms
  by (auto simp: units_of_def scalar_def is_high_surrogate_def is_low_surrogate_def in_range_def)

lemma units_of_supplementary:
  assumes "scalar c" "0x10000 \<le> c"
  shows "\<exists>u v. units_of c = [u, v] \<and> is_high_surrogate u \<and> is_low_surrogate v
    \<and> 0x10000 + (uint u - 0xD800) * 0x400 + (uint v - 0xDC00) = c"
proof -
  let ?h = "0xD800 + (c - 0x10000) div 0x400" and ?l = "0xDC00 + (c - 0x10000) mod 0x400"
  have h: "0xD800 \<le> ?h" "?h \<le> 0xDBFF" using assms by (auto simp: scalar_def)
  have l: "0xDC00 \<le> ?l" "?l \<le> 0xDFFF"
    using pos_mod_bound [of "0x400" "c - 0x10000"] pos_mod_sign [of "0x400" "c - 0x10000"] by auto
  define u v :: code_unit where "u = word_of_int ?h" and "v = word_of_int ?l"
  have uv: "uint u = ?h" "uint v = ?l"
    unfolding u_def v_def using h l by (intro uint_unit; linarith)+
  have "0x10000 + (?h - 0xD800) * 0x400 + (?l - 0xDC00) = c" by simp
  moreover have "units_of c = [u, v]" using assms by (simp add: units_of_def u_def v_def)
  ultimately show ?thesis using h l
    by (simp add: is_high_surrogate_def is_low_surrogate_def in_range_def uv)
qed

lemma surrogate_disjoint: "is_high_surrogate u \<Longrightarrow> \<not> is_low_surrogate u"
  by (simp add: is_high_surrogate_def is_low_surrogate_def in_range_def)

lemma utf16_decode_units:
  assumes "scalar c"
  shows "utf16_decode (units_of c @ us) = c # utf16_decode us"
proof (cases "c < 0x10000")
  case True
  with assms obtain u where "units_of c = [u]" "uint u = c" "\<not> is_high_surrogate u" "\<not> is_low_surrogate u"
    using units_of_bmp by blast
  then show ?thesis by (cases us) auto
next
  case False
  with assms obtain u v where "units_of c = [u, v]" "is_high_surrogate u" "is_low_surrogate v"
    "0x10000 + (uint u - 0xD800) * 0x400 + (uint v - 0xDC00) = c"
    using units_of_supplementary [of c] by auto
  then show ?thesis by simp
qed

lemma utf16_decode_encode: "list_all scalar cs \<Longrightarrow> utf16_decode (utf16_encode cs) = cs"
  by (induction cs) (simp_all add: utf16_encode_def utf16_decode_units)

lemma isWellFormed_units:
  assumes "scalar c"
  shows "isWellFormed (units_of c @ us) = isWellFormed us"
proof (cases "c < 0x10000")
  case True
  with assms obtain u where "units_of c = [u]" "\<not> is_high_surrogate u" "\<not> is_low_surrogate u"
    using units_of_bmp by blast
  then show ?thesis by (cases us) auto
next
  case False
  with assms obtain u v where "units_of c = [u, v]" "is_high_surrogate u" "is_low_surrogate v"
    using units_of_supplementary [of c] by auto
  then show ?thesis by simp
qed

lemma utf16_encode_wf: "list_all scalar cs \<Longrightarrow> isWellFormed (utf16_encode cs)"
  by (induction cs) (simp_all add: utf16_encode_def isWellFormed_units)

lemma units_of_uint:
  "\<not> is_high_surrogate u \<Longrightarrow> \<not> is_low_surrogate u \<Longrightarrow> units_of (uint u) = [u] \<and> scalar (uint u)"
  using uint_bounded [of u]
  by (auto simp: units_of_def scalar_def is_high_surrogate_def is_low_surrogate_def in_range_def)

lemma units_of_pair:
  assumes "is_high_surrogate u" "is_low_surrogate v"
  defines "c \<equiv> 0x10000 + (uint u - 0xD800) * 0x400 + (uint v - 0xDC00)"
  shows "units_of c = [u, v] \<and> scalar c"
proof -
  have u: "0xD800 \<le> uint u" "uint u \<le> 0xDBFF" and v: "0xDC00 \<le> uint v" "uint v \<le> 0xDFFF"
    using assms by (simp_all add: is_high_surrogate_def is_low_surrogate_def in_range_def)
  have split: "(a * 0x400 + b) div 0x400 = a \<and> (a * 0x400 + b) mod 0x400 = b" if "0 \<le> b" "b < 0x400"
    for a b :: int using that by simp
  have "(c - 0x10000) div 0x400 = uint u - 0xD800 \<and> (c - 0x10000) mod 0x400 = uint v - 0xDC00"
    using split [of "uint v - 0xDC00" "uint u - 0xD800"] v by (simp add: c_def)
  then show ?thesis using u v by (simp add: units_of_def scalar_def) (simp add: c_def)
qed

lemma utf16_encode_decode:
  "isWellFormed s \<Longrightarrow> utf16_encode (utf16_decode s) = s \<and> list_all scalar (utf16_decode s)"
proof (induction s rule: utf16_decode.induct)
  case (3 u v us)
  show ?case
  proof (cases "is_high_surrogate u")
    case True
    with 3 units_of_pair [of u v] show ?thesis by (simp add: utf16_encode_def)
  next
    case False
    with 3 units_of_uint [of u] show ?thesis by (auto simp: utf16_encode_def)
  qed
qed (auto simp: utf16_encode_def units_of_uint)

lemma not_wf_replaced: "\<not> isWellFormed s \<Longrightarrow> utf16_encode (utf16_decode s) \<noteq> s"
proof (induction s rule: utf16_decode.induct)
  case (2 u)
  then have "u \<noteq> word_of_int 0xFFFD" by (auto simp: is_high_surrogate_def is_low_surrogate_def in_range_def)
  with 2 show ?case by (auto simp: utf16_encode_def units_of_def)
next
  case (3 u v us)
  consider "is_high_surrogate u" "is_low_surrogate v" | "is_high_surrogate u" "\<not> is_low_surrogate v"
    | "is_low_surrogate u" | "\<not> is_high_surrogate u" "\<not> is_low_surrogate u" by blast
  then show ?case
  proof cases
    case 1
    with 3 units_of_pair [of u v] show ?thesis by (auto simp: utf16_encode_def)
  next
    case 4
    with 3 units_of_uint [of u] show ?thesis by (auto simp: utf16_encode_def)
  next
    case 2
    then have "u \<noteq> word_of_int 0xFFFD" by (auto simp: is_high_surrogate_def in_range_def)
    with 2 show ?thesis by (auto simp: utf16_encode_def units_of_def)
  next
    case c: 3
    then have "u \<noteq> word_of_int 0xFFFD" by (auto simp: is_low_surrogate_def in_range_def)
    with c surrogate_disjoint show ?thesis by (auto simp: utf16_encode_def units_of_def)
  qed
qed simp

section \<open>UTF-8\<close>

text \<open>Bytes are computed as integers between 0 and 255.\<close>

definition utf8_of :: "int \<Rightarrow> int list" where
  "utf8_of c =
     (if c < 0x80 then [c]
      else if c < 0x800 then [0xC0 + c div 64, 0x80 + c mod 64]
      else if c < 0x10000 then [0xE0 + c div 4096, 0x80 + c div 64 mod 64, 0x80 + c mod 64]
      else [0xF0 + c div 262144, 0x80 + c div 4096 mod 64, 0x80 + c div 64 mod 64, 0x80 + c mod 64])"

definition utf8_encode :: "int list \<Rightarrow> int list" where
  "utf8_encode cs = concat (map utf8_of cs)"

definition continuation :: "int \<Rightarrow> bool" where
  "continuation b \<longleftrightarrow> 0x80 \<le> b \<and> b \<le> 0xBF"

text \<open>
  The fatal decoder: every byte sequence that is not the shortest encoding of a scalar value
  is an error.
\<close>

fun utf8_decode :: "int list \<Rightarrow> int list option" where
  "utf8_decode [] = Some []"
| "utf8_decode (b # bs) =
     (if b < 0x80 then map_option (Cons b) (utf8_decode bs)
      else if 0xC2 \<le> b \<and> b \<le> 0xDF then
        (case bs of
           c # cs \<Rightarrow>
             if continuation c
             then map_option (Cons ((b - 0xC0) * 64 + (c - 0x80))) (utf8_decode cs) else None
         | _ \<Rightarrow> None)
      else if 0xE0 \<le> b \<and> b \<le> 0xEF then
        (case bs of
           c # d # ds \<Rightarrow>
             if continuation c \<and> continuation d \<and> (b = 0xE0 \<longrightarrow> 0xA0 \<le> c) \<and> (b = 0xED \<longrightarrow> c \<le> 0x9F)
             then map_option (Cons ((b - 0xE0) * 4096 + (c - 0x80) * 64 + (d - 0x80))) (utf8_decode ds)
             else None
         | _ \<Rightarrow> None)
      else if 0xF0 \<le> b \<and> b \<le> 0xF4 then
        (case bs of
           c # d # e # es \<Rightarrow>
             if continuation c \<and> continuation d \<and> continuation e
                \<and> (b = 0xF0 \<longrightarrow> 0x90 \<le> c) \<and> (b = 0xF4 \<longrightarrow> c \<le> 0x8F)
             then map_option (Cons ((b - 0xF0) * 262144 + (c - 0x80) * 4096 + (d - 0x80) * 64 + (e - 0x80)))
                    (utf8_decode es)
             else None
         | _ \<Rightarrow> None)
      else None)"

lemma split64: "0 \<le> b \<Longrightarrow> b < 64 \<Longrightarrow> (a * 64 + b) div 64 = a \<and> (a * 64 + b) mod 64 = (b :: int)"
  by simp

lemma utf8_digits:
  fixes c :: int
  shows "c div 4096 = c div 64 div 64" "c div 262144 = c div 64 div 64 div 64"
  by (simp_all add: zdiv_zmult2_eq [symmetric])

lemma digits64:
  fixes c :: int
  obtains h n m l where "c = h * 262144 + n * 4096 + m * 64 + l"
    "0 \<le> n" "n < 64" "0 \<le> m" "m < 64" "0 \<le> l" "l < 64"
    "c mod 64 = l" "c div 64 mod 64 = m" "c div 64 = h * 4096 + n * 64 + m"
    "c div 4096 mod 64 = n" "c div 4096 = h * 64 + n" "c div 262144 = h"
proof -
  define x l where "x = c div 64" and "l = c mod 64"
  define y m where "y = x div 64" and "m = x mod 64"
  define h n where "h = y div 64" and "n = y mod 64"
  have e: "c = x * 64 + l" "x = y * 64 + m" "y = h * 64 + n"
    by (simp_all add: x_def l_def y_def m_def h_def n_def)
  have r: "0 \<le> n" "n < 64" "0 \<le> m" "m < 64" "0 \<le> l" "l < 64"
    by (simp_all only: n_def m_def l_def pos_mod_sign pos_mod_bound zero_less_numeral)
  have d: "c div 4096 = y" "c div 262144 = h" by (simp_all only: utf8_digits x_def y_def h_def)
  have s: "c = h * 262144 + n * 4096 + m * 64 + l" "x = h * 4096 + n * 64 + m" using e by linarith+
  show thesis
    by (rule that [OF s(1) r]) (simp_all only: d flip: l_def x_def m_def n_def, rule s(2), rule e(3))
qed

lemma utf8_decode_three:
  "0 \<le> n \<Longrightarrow> n \<le> 15 \<Longrightarrow> continuation c \<Longrightarrow> continuation d \<Longrightarrow>
   (n = 0 \<longrightarrow> 0xA0 \<le> c) \<Longrightarrow> (n = 13 \<longrightarrow> c \<le> 0x9F) \<Longrightarrow>
   utf8_decode ((0xE0 + n) # c # d # bs)
     = map_option (Cons (n * 4096 + (c - 0x80) * 64 + (d - 0x80))) (utf8_decode bs)"
  by simp

lemma utf8_decode_four:
  "0 \<le> n \<Longrightarrow> n \<le> 4 \<Longrightarrow> continuation c \<Longrightarrow> continuation d \<Longrightarrow> continuation e \<Longrightarrow>
   (n = 0 \<longrightarrow> 0x90 \<le> c) \<Longrightarrow> (n = 4 \<longrightarrow> c \<le> 0x8F) \<Longrightarrow>
   utf8_decode ((0xF0 + n) # c # d # e # bs)
     = map_option (Cons (n * 262144 + (c - 0x80) * 4096 + (d - 0x80) * 64 + (e - 0x80))) (utf8_decode bs)"
  by simp

lemma utf8_decode_of:
  assumes "scalar c"
  shows "utf8_decode (utf8_of c @ bs) = map_option (Cons c) (utf8_decode bs)"
proof -
  have c: "0 \<le> c" "c \<le> 0x10FFFF" "c < 0xD800 \<or> 0xDFFF < c" using assms by (auto simp: scalar_def)
  obtain h n m l where e: "c = h * 262144 + n * 4096 + m * 64 + l"
    and r: "0 \<le> n" "n < 64" "0 \<le> m" "m < 64" "0 \<le> l" "l < 64"
    and d: "c mod 64 = l" "c div 64 mod 64 = m" "c div 64 = h * 4096 + n * 64 + m"
      "c div 4096 mod 64 = n" "c div 4096 = h * 64 + n" "c div 262144 = h"
    by (rule digits64 [of c]) blast
  consider "c < 0x80" | "0x80 \<le> c" "c < 0x800" | "0x800 \<le> c" "c < 0x10000" | "0x10000 \<le> c" by linarith
  then show ?thesis
  proof cases
    case 1
    then show ?thesis by (simp add: utf8_of_def)
  next
    case 2
    have "utf8_of c = [0xC0 + m, 0x80 + l]" "2 \<le> m" "m \<le> 31" "m * 64 + l = c"
    proof -
      have "h * 64 + n = 0" using 2 e r by linarith
      then have h0: "h = 0" using r by linarith
      with \<open>h * 64 + n = 0\<close> have n0: "n = 0" by simp
      note z = h0 n0
      have "c div 64 = m" unfolding d(3) z by simp
      then show "utf8_of c = [0xC0 + m, 0x80 + l]" unfolding utf8_of_def d(1) using 2 by simp
      show v: "m * 64 + l = c" unfolding e z mult_zero_left add_0_left ..
      show "2 \<le> m" "m \<le> 31" using v 2 r(5,6) by linarith+
    qed
    then show ?thesis using r by (simp add: continuation_def)
  next
    case 3
    have z: "h = 0" using 3 e r by linarith
    then have "c div 4096 = n" unfolding d(5) by simp
    then have u: "utf8_of c = [0xE0 + n, 0x80 + m, 0x80 + l]" unfolding utf8_of_def d(1,2) using 3 by simp
    have v: "n * 4096 + m * 64 + l = c" using z e by simp
    have "utf8_decode ((0xE0 + n) # (0x80 + m) # (0x80 + l) # bs)
        = map_option (Cons (n * 4096 + ((0x80 + m) - 0x80) * 64 + ((0x80 + l) - 0x80))) (utf8_decode bs)"
    proof (rule utf8_decode_three)
      show "n \<le> 15" using 3(2) v r by linarith
      show "n = 0 \<longrightarrow> 0xA0 \<le> 0x80 + m" using 3(1) v r by linarith
      show "n = 13 \<longrightarrow> 0x80 + m \<le> 0x9F" using c(3) v r by linarith
    qed (use r in \<open>simp_all add: continuation_def\<close>)
    then show ?thesis by (simp only: u append.simps add_diff_cancel_left' v)
  next
    case 4
    then have u: "utf8_of c = [0xF0 + h, 0x80 + n, 0x80 + m, 0x80 + l]"
      unfolding utf8_of_def d(1,2,4,6) by simp
    have "utf8_decode ((0xF0 + h) # (0x80 + n) # (0x80 + m) # (0x80 + l) # bs)
        = map_option (Cons (h * 262144 + ((0x80 + n) - 0x80) * 4096 + ((0x80 + m) - 0x80) * 64
            + ((0x80 + l) - 0x80))) (utf8_decode bs)"
    proof (rule utf8_decode_four)
      show "0 \<le> h" "h \<le> 4" using 4 c(2) e r by linarith+
      show "h = 0 \<longrightarrow> 0x90 \<le> 0x80 + n" using 4 e r by linarith
      show "h = 4 \<longrightarrow> 0x80 + n \<le> 0x8F" using c(2) e r by linarith
    qed (use r in \<open>simp_all add: continuation_def\<close>)
    then show ?thesis by (simp only: u append.simps add_diff_cancel_left' e [symmetric])
  qed
qed

lemma utf8_decode_encode: "list_all scalar cs \<Longrightarrow> utf8_decode (utf8_encode cs) = Some cs"
  by (induction cs) (simp_all add: utf8_encode_def utf8_decode_of)

lemma utf8_of_range: "scalar c \<Longrightarrow> list_all (\<lambda>b. 0 \<le> b \<and> b < 256) (utf8_of c)"
  by (auto simp: utf8_of_def scalar_def)

lemma utf8_encode_range: "list_all scalar cs \<Longrightarrow> list_all (\<lambda>b. 0 \<le> b \<and> b < 256) (utf8_encode cs)"
  by (induction cs) (auto simp: utf8_encode_def utf8_of_range)

text \<open>What the decoder accepts is the encoding of the scalar values it returns.\<close>

lemma utf8_of_two:
  assumes "0xC2 \<le> b" "b \<le> 0xDF" "continuation c"
  defines "x \<equiv> (b - 0xC0) * 64 + (c - 0x80)"
  shows "utf8_of x = [b, c] \<and> scalar x"
proof -
  have "0x80 \<le> x" "x < 0x800" using assms by (simp_all add: continuation_def)
  moreover have "x div 64 = b - 0xC0 \<and> x mod 64 = c - 0x80"
    using split64 [of "c - 0x80" "b - 0xC0"] assms(3) by (simp add: x_def continuation_def)
  ultimately show ?thesis by (simp add: utf8_of_def scalar_def)
qed

lemma utf8_of_three:
  assumes "0xE0 \<le> b" "b \<le> 0xEF" "continuation c" "continuation d"
    "b = 0xE0 \<longrightarrow> 0xA0 \<le> c" "b = 0xED \<longrightarrow> c \<le> 0x9F"
  defines "x \<equiv> (b - 0xE0) * 4096 + (c - 0x80) * 64 + (d - 0x80)"
  shows "utf8_of x = [b, c, d] \<and> scalar x"
proof -
  have r: "0x80 \<le> c" "c \<le> 0xBF" "0x80 \<le> d" "d \<le> 0xBF" using assms by (simp_all add: continuation_def)
  have "b = 0xE0 \<and> 0xA0 \<le> c \<or> 0xE1 \<le> b \<and> b \<le> 0xEC \<or> b = 0xED \<and> c \<le> 0x9F \<or> 0xEE \<le> b"
    using assms(1,5,6) by auto
  then have "0x800 \<le> x" "x < 0x10000" "\<not> (0xD800 \<le> x \<and> x \<le> 0xDFFF)"
    using assms(2) r unfolding x_def by (elim disjE conjE; auto)+
  moreover have "x div 64 = (b - 0xE0) * 64 + (c - 0x80) \<and> x mod 64 = d - 0x80"
    using split64 [of "d - 0x80" "(b - 0xE0) * 64 + (c - 0x80)"] r by (simp add: x_def algebra_simps)
  moreover have "((b - 0xE0) * 64 + (c - 0x80)) div 64 = b - 0xE0
      \<and> ((b - 0xE0) * 64 + (c - 0x80)) mod 64 = c - 0x80"
    using split64 [of "c - 0x80" "b - 0xE0"] r by simp
  ultimately show ?thesis by (simp add: utf8_of_def scalar_def utf8_digits)
qed

lemma utf8_of_four:
  assumes "0xF0 \<le> b" "b \<le> 0xF4" "continuation c" "continuation d" "continuation e"
    "b = 0xF0 \<longrightarrow> 0x90 \<le> c" "b = 0xF4 \<longrightarrow> c \<le> 0x8F"
  defines "x \<equiv> (b - 0xF0) * 262144 + (c - 0x80) * 4096 + (d - 0x80) * 64 + (e - 0x80)"
  shows "utf8_of x = [b, c, d, e] \<and> scalar x"
proof -
  have r: "0x80 \<le> c" "c \<le> 0xBF" "0x80 \<le> d" "d \<le> 0xBF" "0x80 \<le> e" "e \<le> 0xBF"
    using assms by (simp_all add: continuation_def)
  have "b = 0xF0 \<and> 0x90 \<le> c \<or> 0xF1 \<le> b \<and> b \<le> 0xF3 \<or> b = 0xF4 \<and> c \<le> 0x8F"
    using assms(1,2,6,7) by auto
  then have "0x10000 \<le> x" "x \<le> 0x10FFFF"
    using r unfolding x_def by (elim disjE conjE; auto)+
  moreover have "x div 64 = ((b - 0xF0) * 64 + (c - 0x80)) * 64 + (d - 0x80) \<and> x mod 64 = e - 0x80"
    using split64 [of "e - 0x80" "((b - 0xF0) * 64 + (c - 0x80)) * 64 + (d - 0x80)"] r
    by (simp add: x_def algebra_simps)
  moreover have "(((b - 0xF0) * 64 + (c - 0x80)) * 64 + (d - 0x80)) div 64 = (b - 0xF0) * 64 + (c - 0x80)
      \<and> (((b - 0xF0) * 64 + (c - 0x80)) * 64 + (d - 0x80)) mod 64 = d - 0x80"
    using split64 [of "d - 0x80" "(b - 0xF0) * 64 + (c - 0x80)"] r by simp
  moreover have "((b - 0xF0) * 64 + (c - 0x80)) div 64 = b - 0xF0
      \<and> ((b - 0xF0) * 64 + (c - 0x80)) mod 64 = c - 0x80"
    using split64 [of "c - 0x80" "b - 0xF0"] r by simp
  ultimately show ?thesis by (simp add: utf8_of_def scalar_def utf8_digits)
qed

lemma utf8_encode_decode:
  "list_all (\<lambda>b. 0 \<le> b) bs \<Longrightarrow> utf8_decode bs = Some cs \<Longrightarrow> utf8_encode cs = bs \<and> list_all scalar cs"
proof (induction bs arbitrary: cs rule: utf8_decode.induct)
  case 1
  then show ?case by (auto simp: utf8_encode_def)
next
  case (2 b bs)
  consider (one) "b < 0x80" | (two) "0xC2 \<le> b" "b \<le> 0xDF" | (three) "0xE0 \<le> b" "b \<le> 0xEF"
    | (four) "0xF0 \<le> b" "b \<le> 0xF4" using "2.prems"(2) by (auto split: if_splits)
  then show ?case
  proof cases
    case one
    then obtain ds where "utf8_decode bs = Some ds" "cs = b # ds" using "2.prems" by auto
    with "2.IH"(1) [OF one] "2.prems" one show ?thesis
      by (auto simp: utf8_encode_def utf8_of_def scalar_def)
  next
    case two
    then obtain c cs' ds where "bs = c # cs'" "continuation c" "utf8_decode cs' = Some ds"
      "cs = ((b - 0xC0) * 64 + (c - 0x80)) # ds"
      using "2.prems" by (auto split: list.splits if_splits)
    with "2.IH"(2) two "2.prems" utf8_of_two [of b c] show ?thesis by (auto simp: utf8_encode_def)
  next
    case three
    then obtain c d cs' ds where "bs = c # d # cs'" "continuation c" "continuation d"
      "b = 0xE0 \<longrightarrow> 0xA0 \<le> c" "b = 0xED \<longrightarrow> c \<le> 0x9F" "utf8_decode cs' = Some ds"
      "cs = ((b - 0xE0) * 4096 + (c - 0x80) * 64 + (d - 0x80)) # ds"
      using "2.prems" by (auto split: list.splits if_splits)
    with "2.IH"(3) three "2.prems" utf8_of_three [of b c d] show ?thesis by (auto simp: utf8_encode_def)
  next
    case four
    then obtain c d e cs' ds where "bs = c # d # e # cs'" "continuation c" "continuation d" "continuation e"
      "b = 0xF0 \<longrightarrow> 0x90 \<le> c" "b = 0xF4 \<longrightarrow> c \<le> 0x8F" "utf8_decode cs' = Some ds"
      "cs = ((b - 0xF0) * 262144 + (c - 0x80) * 4096 + (d - 0x80) * 64 + (e - 0x80)) # ds"
      using "2.prems" by (auto split: list.splits if_splits)
    with "2.IH"(4) four "2.prems" utf8_of_four [of b c d e] show ?thesis by (auto simp: utf8_encode_def)
  qed
qed

end
