(* ===== verification/OpaqueStore.thy ===== *)
theory OpaqueStore
  imports Completion
begin

text \<open>
  Opaque tokens over a private weak map, the representation of bytes, maps and sets: a token
  is the key under which its content is held, contents are never mutated, and a fresh token
  never coincides with an existing one.
\<close>

datatype handle = Token nat | Foreign

record 'c opaque_store =
  os_next :: nat
  os_items :: "(nat \<times> 'c) list"

definition empty_store :: "'c opaque_store" where
  "empty_store = \<lparr>os_next = 0, os_items = []\<rparr>"

definition own :: "'c \<Rightarrow> 'c opaque_store \<Rightarrow> handle \<times> 'c opaque_store" where
  "own c st = (Token (os_next st),
     st\<lparr>os_next := Suc (os_next st), os_items := (os_next st, c) # os_items st\<rparr>)"

definition content :: "'c opaque_store \<Rightarrow> handle \<Rightarrow> 'c option" where
  "content st h = (case h of Token t \<Rightarrow> map_of (os_items st) t | Foreign \<Rightarrow> None)"

definition resource_state :: "'a completion" where
  "resource_state = Standard ResourceState (ascii ''resource_state: invalid resource use'')"

definition publish :: "'c \<Rightarrow> 'c opaque_store \<Rightarrow> handle completion \<times> 'c opaque_store" where
  "publish c st = (case own c st of (t, st') \<Rightarrow> (Ok t, st'))"

text \<open>
  A factory method computes the content of the value it returns, which is then published, or
  fails before anything is published.
\<close>

definition publishC :: "'c completion \<Rightarrow> 'c opaque_store \<Rightarrow> handle completion \<times> 'c opaque_store" where
  "publishC m st = (case m of
       Ok c \<Rightarrow> publish c st
     | Domain i p \<Rightarrow> (Domain i p, st)
     | Standard k s \<Rightarrow> (Standard k s, st))"

lemma publishC_simps [simp]:
  "publishC (Ok c) st = publish c st"
  "publishC (Domain i p) st = (Domain i p, st)"
  "publishC (Standard k s) st = (Standard k s, st)"
  "publishC resource_state st = (resource_state, st)"
  by (simp_all add: publishC_def resource_state_def)

section \<open>Laws\<close>

definition store_ok :: "'c opaque_store \<Rightarrow> bool" where
  "store_ok st \<longleftrightarrow> (\<forall>t \<in> fst ` set (os_items st). t < os_next st)"

text \<open>A store extends another when every token of the other still denotes the same content.\<close>

definition extends :: "'c opaque_store \<Rightarrow> 'c opaque_store \<Rightarrow> bool" where
  "extends st st' \<longleftrightarrow> (\<forall>h c. content st h = Some c \<longrightarrow> content st' h = Some c)"

lemma store_ok_empty [simp]: "store_ok empty_store"
  by (simp add: store_ok_def empty_store_def)

lemma extends_refl [simp]: "extends st st"
  by (simp add: extends_def)

lemma extends_trans: "extends a b \<Longrightarrow> extends b c \<Longrightarrow> extends a c"
  by (simp add: extends_def)

lemma extendsD: "extends st st' \<Longrightarrow> content st h = Some c \<Longrightarrow> content st' h = Some c"
  by (simp add: extends_def)

lemma publish_ok:
  assumes "store_ok st" and "publish c st = (r, st')"
  shows "\<exists>t. r = Ok t \<and> content st' t = Some c \<and> content st t = None"
    and "store_ok st'" and "extends st st'"
proof -
  have new: "map_of (os_items st) (os_next st) = None"
    using assms(1) by (auto simp: store_ok_def map_of_eq_None_iff)
  have t: "r = Ok (Token (os_next st))"
    "st' = st\<lparr>os_next := Suc (os_next st), os_items := (os_next st, c) # os_items st\<rparr>"
    using assms(2) by (auto simp: publish_def own_def)
  show "\<exists>t. r = Ok t \<and> content st' t = Some c \<and> content st t = None"
    using new by (simp add: t content_def)
  show "store_ok st'" using assms(1) by (auto simp: t store_ok_def less_Suc_eq)
  show "extends st st'"
    using new by (auto simp: t extends_def content_def split: handle.splits)
qed

lemma publish_obtains:
  assumes "store_ok st"
  obtains t st' where "publish c st = (Ok t, st')" "content st' t = Some c" "content st t = None"
    "store_ok st'" "extends st st'"
proof -
  obtain r st' where p: "publish c st = (r, st')" by (cases "publish c st")
  from publish_ok [OF assms p] that p show thesis by blast
qed

text \<open>
  An invariant of the contents of a store is kept by every method that publishes only
  contents that satisfy it.
\<close>

definition store_inv :: "('c \<Rightarrow> bool) \<Rightarrow> 'c opaque_store \<Rightarrow> bool" where
  "store_inv good st \<longleftrightarrow> store_ok st \<and> (\<forall>h c. content st h = Some c \<longrightarrow> good c)"

lemma store_inv_store_ok: "store_inv good st \<Longrightarrow> store_ok st"
  by (simp add: store_inv_def)

lemma store_invD: "store_inv good st \<Longrightarrow> content st h = Some c \<Longrightarrow> good c"
  by (simp add: store_inv_def)

lemma content_publish:
  assumes "store_ok st" and "publish c st = (r, st')" and "content st' h = Some d"
  shows "d = c \<or> content st h = Some d"
  using assms(2,3) by (cases h) (auto simp: publish_def own_def content_def split: if_splits)

lemma store_inv_publishC:
  assumes "store_inv good st" and "publishC m st = (r, st')" and "\<And>c. m = Ok c \<Longrightarrow> good c"
  shows "store_inv good st' \<and> extends st st'"
proof (cases m)
  case (Ok c)
  then have p: "publish c st = (r, st')" using assms(2) by simp
  have ok: "store_ok st" using assms(1) by (rule store_inv_store_ok)
  have "good d" if "content st' h = Some d" for h d
    using content_publish [OF ok p that] assms(3) [OF Ok] store_invD [OF assms(1)] by blast
  then show ?thesis using publish_ok(2,3) [OF ok p] by (simp add: store_inv_def)
qed (use assms in simp_all)

end
