(* ===== verification/Bytes.thy ===== *)
theory Bytes
  imports Unicode OpaqueStore
begin

text \<open>
  The byte values of \<open>runtime/bytes.ts\<close>: opaque tokens over a private store of octets, and
  their conversions to and from integers, UTF-8 text, base64 and hexadecimal.
\<close>

section \<open>The private store\<close>

type_synonym octet = "8 word"

text \<open>
  Native arrays are copied on the way in and out, so the stored octets are a value of their
  own.
\<close>

type_synonym byte_store = "octet list opaque_store"

definition ownBytes :: "octet list \<Rightarrow> byte_store \<Rightarrow> handle \<times> byte_store" where
  "ownBytes fresh st = own fresh st"

definition isBytes :: "handle \<Rightarrow> byte_store \<Rightarrow> bool" where
  "isBytes v st \<longleftrightarrow> content st v \<noteq> None"

definition backing :: "handle \<Rightarrow> byte_store \<Rightarrow> octet list completion" where
  "backing v st = (case content st v of Some bs \<Rightarrow> Ok bs | None \<Rightarrow> resource_state)"

definition copyBytes :: "handle \<Rightarrow> byte_store \<Rightarrow> octet list completion" where
  "copyBytes v st = backing v st"

definition byteLength :: "handle \<Rightarrow> byte_store \<Rightarrow> int completion" where
  "byteLength v st = bindC (backing v st) (\<lambda>bs. Ok (int (length bs)))"

section \<open>Text encodings\<close>

definition hex_digit :: "int \<Rightarrow> code_unit" where
  "hex_digit d = word_of_int (if d < 10 then 48 + d else 87 + d)"

fun hex_value :: "code_unit \<Rightarrow> int option" where
  "hex_value u =
     (if in_range 48 57 u then Some (uint u - 48)
      else if in_range 97 102 u then Some (uint u - 87)
      else if in_range 65 70 u then Some (uint u - 55) else None)"

definition hex_encode :: "octet list \<Rightarrow> jsstr" where
  "hex_encode bs = concat (map (\<lambda>b. [hex_digit (uint b div 16), hex_digit (uint b mod 16)]) bs)"

text \<open>
  The gate \<open>^([0-9a-fA-F]{2})*$\<close> and the decoder behind it in one: an odd length or a unit
  that is no hexadecimal digit is refused.
\<close>

fun hex_decode :: "jsstr \<Rightarrow> octet list option" where
  "hex_decode [] = Some []"
| "hex_decode [u] = None"
| "hex_decode (u # v # us) =
     (case (hex_value u, hex_value v) of
        (Some a, Some b) \<Rightarrow> map_option (Cons (word_of_int (16 * a + b))) (hex_decode us)
      | _ \<Rightarrow> None)"

definition b64_digit :: "int \<Rightarrow> code_unit" where
  "b64_digit d = word_of_int
     (if d < 26 then 65 + d else if d < 52 then 71 + d else if d < 62 then d - 4
      else if d = 62 then 43 else 47)"

fun b64_value :: "code_unit \<Rightarrow> int option" where
  "b64_value u =
     (if in_range 65 90 u then Some (uint u - 65)
      else if in_range 97 122 u then Some (uint u - 71)
      else if in_range 48 57 u then Some (uint u + 4)
      else if u = 43 then Some 62 else if u = 47 then Some 63 else None)"

fun base64_encode :: "octet list \<Rightarrow> jsstr" where
  "base64_encode [] = []"
| "base64_encode [a] =
     [b64_digit (uint a div 4), b64_digit (uint a mod 4 * 16), 61, 61]"
| "base64_encode [a, b] =
     [b64_digit (uint a div 4), b64_digit (uint a mod 4 * 16 + uint b div 16),
      b64_digit (uint b mod 16 * 4), 61]"
| "base64_encode (a # b # c # bs) =
     b64_digit (uint a div 4) # b64_digit (uint a mod 4 * 16 + uint b div 16)
     # b64_digit (uint b mod 16 * 4 + uint c div 64) # b64_digit (uint c mod 64) # base64_encode bs"

text \<open>
  The gate (length a multiple of four, the standard alphabet, at most two padding signs at
  the end) and the decoder behind it: groups of four sextets, of which the last may have one
  or two replaced by padding. Bits a padded group does not need are ignored.
\<close>

fun base64_decode :: "jsstr \<Rightarrow> octet list option" where
  "base64_decode [] = Some []"
| "base64_decode (s # t # u # v # us) =
     (case (b64_value s, b64_value t) of
        (Some a, Some b) \<Rightarrow>
          (if us = [] \<and> u = 61 \<and> v = 61 then Some [word_of_int (a * 4 + b div 16)]
           else (case b64_value u of
               None \<Rightarrow> None
             | Some c \<Rightarrow>
                 if us = [] \<and> v = 61
                 then Some [word_of_int (a * 4 + b div 16), word_of_int (b mod 16 * 16 + c div 4)]
                 else (case b64_value v of
                     None \<Rightarrow> None
                   | Some d \<Rightarrow>
                       map_option (\<lambda>r. word_of_int (a * 4 + b div 16) # word_of_int (b mod 16 * 16 + c div 4)
                                       # word_of_int (c mod 4 * 64 + d) # r) (base64_decode us))))
      | _ \<Rightarrow> None)"
| "base64_decode _ = None"

section \<open>The operations\<close>

definition invalid_data :: "jsstr \<Rightarrow> jsstr \<Rightarrow> string \<Rightarrow> 'a completion" where
  "invalid_data identity path reason =
     Domain identity [(ascii ''path'', Str path), (ascii ''reason'', Str (ascii reason))]"

definition owned :: "octet list \<Rightarrow> byte_store \<Rightarrow> handle completion \<times> byte_store" where
  "owned bs st = (case ownBytes bs st of (t, st') \<Rightarrow> (Ok t, st'))"

definition empty_bytes :: "byte_store \<Rightarrow> handle completion \<times> byte_store" where
  "empty_bytes st = owned [] st"

text \<open>The octets of a checked data array, or the path and reason of the first element that is none.\<close>

fun octets_from :: "int \<Rightarrow> jsval list \<Rightarrow> (jsstr \<times> string) + octet list" where
  "octets_from i [] = Inr []"
| "octets_from i (v # vs) =
     (case v of
        BigInt n \<Rightarrow>
          if n < 0 \<or> n > 255 then Inl (ascii ''/'' @ int_string i, ''byte_range'')
          else (case octets_from (i + 1) vs of Inl e \<Rightarrow> Inl e | Inr bs \<Rightarrow> Inr (word_of_int n # bs))
      | _ \<Rightarrow> Inl (ascii ''/'' @ int_string i, ''type''))"

definition fromInts :: "jsstr \<Rightarrow> jsval list \<Rightarrow> byte_store \<Rightarrow> handle completion \<times> byte_store" where
  "fromInts identity vs st =
     (case octets_from 0 vs of
        Inl (path, reason) \<Rightarrow> (invalid_data identity path reason, st)
      | Inr bs \<Rightarrow> owned bs st)"

definition toInts :: "handle \<Rightarrow> byte_store \<Rightarrow> int list completion" where
  "toInts v st = bindC (backing v st) (\<lambda>bs. Ok (map uint bs))"

definition text_encode :: "jsstr \<Rightarrow> octet list" where
  "text_encode s = map word_of_int (utf8_encode (utf16_decode s))"

definition text_decode :: "octet list \<Rightarrow> jsstr option" where
  "text_decode bs = map_option utf16_encode (utf8_decode (map uint bs))"

definition fromUTF8 :: "jsstr \<Rightarrow> jsval \<Rightarrow> byte_store \<Rightarrow> handle completion \<times> byte_store" where
  "fromUTF8 identity v st =
     (case v of
        Str text \<Rightarrow>
          if text_decode (text_encode text) \<noteq> Some text
          then (invalid_data identity [] ''unicode_scalar'', st)
          else owned (text_encode text) st
      | _ \<Rightarrow> (invalid_data identity [] ''type'', st))"

definition toUTF8 :: "jsstr \<Rightarrow> handle \<Rightarrow> byte_store \<Rightarrow> jsstr completion" where
  "toUTF8 identity v st =
     bindC (backing v st) (\<lambda>bs.
       case text_decode bs of Some s \<Rightarrow> Ok s | None \<Rightarrow> invalid_data identity [] ''utf8'')"

text \<open>The base64 and hexadecimal operations over their encoder and gated decoder.\<close>

definition encode_with :: "(octet list \<Rightarrow> jsstr) \<Rightarrow> handle \<Rightarrow> byte_store \<Rightarrow> jsstr completion" where
  "encode_with enc v st = bindC (backing v st) (\<lambda>bs. Ok (enc bs))"

definition decode_with ::
  "(jsstr \<Rightarrow> octet list option) \<Rightarrow> string \<Rightarrow> jsstr \<Rightarrow> jsval \<Rightarrow> byte_store
   \<Rightarrow> handle completion \<times> byte_store" where
  "decode_with dec reason identity v st =
     (case v of
        Str text \<Rightarrow>
          (case dec text of
             None \<Rightarrow> (invalid_data identity [] reason, st)
           | Some bs \<Rightarrow> owned bs st)
      | _ \<Rightarrow> (invalid_data identity [] reason, st))"

definition encodeBase64 :: "handle \<Rightarrow> byte_store \<Rightarrow> jsstr completion" where
  "encodeBase64 v st = encode_with base64_encode v st"

definition decodeBase64 :: "jsstr \<Rightarrow> jsval \<Rightarrow> byte_store \<Rightarrow> handle completion \<times> byte_store" where
  "decodeBase64 identity v st = decode_with base64_decode ''base64'' identity v st"

definition encodeHex :: "handle \<Rightarrow> byte_store \<Rightarrow> jsstr completion" where
  "encodeHex v st = encode_with hex_encode v st"

definition decodeHex :: "jsstr \<Rightarrow> jsval \<Rightarrow> byte_store \<Rightarrow> handle completion \<times> byte_store" where
  "decodeHex identity v st = decode_with hex_decode ''hex'' identity v st"

section \<open>Ownership\<close>

lemma backing_Ok: "backing v st = Ok bs \<longleftrightarrow> content st v = Some bs"
  by (auto simp: backing_def resource_state_def split: option.splits)

lemma owned_ok:
  assumes "store_ok st"
  shows "\<exists>t st'. owned bs st = (Ok t, st') \<and> backing t st' = Ok bs \<and> store_ok st' \<and> extends st st'
    \<and> \<not> isBytes t st"
proof -
  obtain t st' where t: "publish bs st = (Ok t, st')" "content st' t = Some bs" "content st t = None"
    "store_ok st'" "extends st st'"
    using assms by (rule publish_obtains)
  have "owned bs st = publish bs st" by (simp add: owned_def publish_def ownBytes_def)
  with t show ?thesis by (auto simp: backing_Ok isBytes_def)
qed

section \<open>Codecs\<close>

text \<open>
  An encoding of octets as text whose decoder undoes it. Every operation pair built on such
  a codec gives back the octets of the token it encoded, under a token of its own.
\<close>

locale byte_text_codec =
  fixes enc :: "octet list \<Rightarrow> jsstr" and dec :: "jsstr \<Rightarrow> octet list option"
  assumes dec_enc: "dec (enc bs) = Some bs"
begin

lemma enc_inject: "enc bs = enc cs \<longleftrightarrow> bs = cs"
  using dec_enc by (metis option.inject)

lemma roundtrip:
  assumes "store_ok st" and "backing v st = Ok bs"
  shows "\<exists>s t st'. encode_with enc v st = Ok s \<and> decode_with dec reason identity (Str s) st = (Ok t, st')
    \<and> backing t st' = Ok bs \<and> store_ok st' \<and> extends st st' \<and> \<not> isBytes t st"
  using owned_ok [OF assms(1), of bs] assms(2) by (simp add: encode_with_def decode_with_def dec_enc)

end

lemma uint_octet [simp]: "0 \<le> c \<Longrightarrow> c < 256 \<Longrightarrow> uint (word_of_int c :: octet) = c"
  by (simp add: uint_word_of_int)

lemma octet_range: "0 \<le> uint (b :: octet)" "uint (b :: octet) < 256"
  using uint_bounded [of b] by simp_all

lemma hex_value_digit: "0 \<le> d \<Longrightarrow> d < 16 \<Longrightarrow> hex_value (hex_digit d) = Some d"
  by (auto simp: hex_digit_def in_range_def)

lemma hex_decode_encode: "hex_decode (hex_encode bs) = Some bs"
proof (induction bs)
  case (Cons b bs)
  have "0 \<le> uint b div 16" "uint b div 16 < 16" using octet_range [of b] by linarith+
  then have "hex_value (hex_digit (uint b div 16)) = Some (uint b div 16)" by (rule hex_value_digit)
  moreover have "hex_value (hex_digit (uint b mod 16)) = Some (uint b mod 16)" by (rule hex_value_digit) auto
  moreover have "word_of_int (16 * (uint b div 16) + uint b mod 16) = b" by simp
  ultimately show ?case using Cons by (simp add: hex_encode_def)
qed (simp add: hex_encode_def)

lemma uint_b64_digit:
  "0 \<le> d \<Longrightarrow> d < 62 \<Longrightarrow>
   uint (b64_digit d) = (if d < 26 then 65 + d else if d < 52 then 71 + d else d - 4)"
  unfolding b64_digit_def by (subst uint_unit) auto

lemma b64_value_digit:
  assumes "0 \<le> d" "d < 64"
  shows "b64_value (b64_digit d) = Some d"
proof -
  consider "d < 62" | "d = 62" | "d = 63" using assms by linarith
  then show ?thesis
  proof cases
    case 1
    with assms show ?thesis by (auto simp: in_range_def uint_b64_digit)
  qed (simp_all add: b64_digit_def in_range_def)
qed

lemma b64_digit_not_pad: "0 \<le> d \<Longrightarrow> d < 64 \<Longrightarrow> b64_digit d \<noteq> 61"
  using b64_value_digit [of d] by (auto simp: in_range_def)

text \<open>The sextets of three octets, and the octets back from them.\<close>

lemma sextets:
  fixes a b c :: octet
  shows "0 \<le> uint a div 4" "uint a div 4 < 64"
    and "0 \<le> uint a mod 4 * 16 + uint b div 16" "uint a mod 4 * 16 + uint b div 16 < 64"
    and "0 \<le> uint b mod 16 * 4 + uint c div 64" "uint b mod 16 * 4 + uint c div 64 < 64"
    and "0 \<le> uint a mod 4 * 16" "uint a mod 4 * 16 < 64"
    and "0 \<le> uint b mod 16 * 4" "uint b mod 16 * 4 < 64"
  using octet_range [of a] octet_range [of b] octet_range [of c] by linarith+

lemma split_digit: "0 \<le> y \<Longrightarrow> y < k \<Longrightarrow> (x * k + y) div k = x \<and> (x * k + y) mod k = (y :: int)"
  by simp

lemma octets_back:
  fixes a b c :: octet
  shows "word_of_int (uint a div 4 * 4 + (uint a mod 4 * 16 + uint b div 16) div 16) = a"
    and "word_of_int ((uint a mod 4 * 16 + uint b div 16) mod 16 * 16
           + (uint b mod 16 * 4 + uint c div 64) div 4) = b"
    and "word_of_int ((uint b mod 16 * 4 + uint c div 64) mod 4 * 64 + uint c mod 64) = c"
    and "word_of_int (uint a div 4 * 4 + uint a mod 4 * 16 div 16) = a"
    and "word_of_int ((uint a mod 4 * 16 + uint b div 16) mod 16 * 16 + uint b mod 16 * 4 div 4) = b"
proof -
  have parts: "(uint a mod 4 * 16 + uint b div 16) div 16 = uint a mod 4"
    "(uint a mod 4 * 16 + uint b div 16) mod 16 = uint b div 16"
    "(uint b mod 16 * 4 + uint c div 64) div 4 = uint b mod 16"
    "(uint b mod 16 * 4 + uint c div 64) mod 4 = uint c div 64"
  proof -
    have "0 \<le> uint b div 16" "uint b div 16 < 16" "0 \<le> uint c div 64" "uint c div 64 < 4"
      using octet_range [of b] octet_range [of c] by linarith+
    then show "(uint a mod 4 * 16 + uint b div 16) div 16 = uint a mod 4"
      "(uint a mod 4 * 16 + uint b div 16) mod 16 = uint b div 16"
      "(uint b mod 16 * 4 + uint c div 64) div 4 = uint b mod 16"
      "(uint b mod 16 * 4 + uint c div 64) mod 4 = uint c div 64"
      using split_digit [of "uint b div 16" 16] split_digit [of "uint c div 64" 4] by simp_all
  qed
  have whole: "uint a div 4 * 4 + uint a mod 4 = uint a" "uint b div 16 * 16 + uint b mod 16 = uint b"
    "uint c div 64 * 64 + uint c mod 64 = uint c" by simp_all
  show "word_of_int (uint a div 4 * 4 + (uint a mod 4 * 16 + uint b div 16) div 16) = a"
    "word_of_int ((uint a mod 4 * 16 + uint b div 16) mod 16 * 16
           + (uint b mod 16 * 4 + uint c div 64) div 4) = b"
    "word_of_int ((uint b mod 16 * 4 + uint c div 64) mod 4 * 64 + uint c mod 64) = c"
    by (simp_all only: parts whole word_of_int_uint)
  show "word_of_int (uint a div 4 * 4 + uint a mod 4 * 16 div 16) = a"
    "word_of_int ((uint a mod 4 * 16 + uint b div 16) mod 16 * 16 + uint b mod 16 * 4 div 4) = b"
    by (simp_all only: parts whole word_of_int_uint nonzero_mult_div_cancel_right zero_neq_numeral not_False_eq_True)
qed

lemmas b64_eval = base64_encode.simps base64_decode.simps prod.case option.case option.map
  simp_thms if_True if_False

lemma base64_decode_encode: "base64_decode (base64_encode bs) = Some bs"
proof (induction bs rule: base64_encode.induct)
  case 1
  then show ?case by simp
next
  case (2 a)
  have v: "b64_value (b64_digit (uint a div 4)) = Some (uint a div 4)"
    "b64_value (b64_digit (uint a mod 4 * 16)) = Some (uint a mod 4 * 16)"
    by (rule b64_value_digit; rule sextets)+
  show ?case by (simp only: b64_eval v octets_back)
next
  case (3 a b)
  have v: "b64_value (b64_digit (uint a div 4)) = Some (uint a div 4)"
    "b64_value (b64_digit (uint a mod 4 * 16 + uint b div 16)) = Some (uint a mod 4 * 16 + uint b div 16)"
    "b64_value (b64_digit (uint b mod 16 * 4)) = Some (uint b mod 16 * 4)"
    by (rule b64_value_digit; rule sextets)+
  have n: "b64_digit (uint b mod 16 * 4) \<noteq> 61" by (rule b64_digit_not_pad; rule sextets)
  show ?case by (simp only: b64_eval v n octets_back)
next
  case (4 a b c bs)
  have v: "b64_value (b64_digit (uint a div 4)) = Some (uint a div 4)"
    "b64_value (b64_digit (uint a mod 4 * 16 + uint b div 16)) = Some (uint a mod 4 * 16 + uint b div 16)"
    "b64_value (b64_digit (uint b mod 16 * 4 + uint c div 64)) = Some (uint b mod 16 * 4 + uint c div 64)"
    by (rule b64_value_digit; rule sextets)+
  have w: "b64_value (b64_digit (uint c mod 64)) = Some (uint c mod 64)" by (rule b64_value_digit) simp_all
  have n: "b64_digit (uint b mod 16 * 4 + uint c div 64) \<noteq> 61" by (rule b64_digit_not_pad; rule sextets)
  have n': "b64_digit (uint c mod 64) \<noteq> 61" by (rule b64_digit_not_pad) simp_all
  show ?case by (simp only: b64_eval v w n n' octets_back 4)
qed

interpretation hex: byte_text_codec hex_encode hex_decode
  by unfold_locales (rule hex_decode_encode)

interpretation base64: byte_text_codec base64_encode base64_decode
  by unfold_locales (rule base64_decode_encode)

section \<open>Properties\<close>

text \<open>
  Base64 and hexadecimal text. The octets of every token encode to a text that decodes
  to a new token with the same octets; no existing token changes.
\<close>

lemma byte_text_roundtrip:
  assumes "store_ok st" and "backing v st = Ok bs"
  shows "(\<exists>s t st'. encodeBase64 v st = Ok s \<and> decodeBase64 identity (Str s) st = (Ok t, st')
      \<and> backing t st' = Ok bs \<and> extends st st' \<and> \<not> isBytes t st)
    \<and> (\<exists>s t st'. encodeHex v st = Ok s \<and> decodeHex identity (Str s) st = (Ok t, st')
      \<and> backing t st' = Ok bs \<and> extends st st' \<and> \<not> isBytes t st)"
  unfolding encodeBase64_def decodeBase64_def encodeHex_def decodeHex_def
  using base64.roundtrip [OF assms] hex.roundtrip [OF assms] by blast

definition demo_store :: byte_store where
  "demo_store = snd (owned [0, 127, 255, 16] empty_store)"

lemma word_of_int_range:
  "list_all (\<lambda>b. 0 \<le> b \<and> b < 256) bs \<Longrightarrow> map uint (map (word_of_int :: int \<Rightarrow> octet) bs) = bs"
  by (induction bs) auto

lemma text_decode_encode: "isWellFormed s \<Longrightarrow> text_decode (text_encode s) = Some s"
proof -
  assume "isWellFormed s"
  note u = utf16_encode_decode [OF this]
  have "map uint (text_encode s) = utf8_encode (utf16_decode s)"
    unfolding text_encode_def using u by (intro word_of_int_range utf8_encode_range) simp
  then show ?thesis using u by (simp add: text_decode_def utf8_decode_encode)
qed

lemma text_encode_wf: "text_decode bs = Some s \<Longrightarrow> isWellFormed s \<and> text_encode s = bs"
proof -
  assume "text_decode bs = Some s"
  then obtain cs where cs: "utf8_decode (map uint bs) = Some cs" "s = utf16_encode cs"
    by (auto simp: text_decode_def)
  have "utf8_encode cs = map uint bs \<and> list_all scalar cs"
    using cs(1) by (intro utf8_encode_decode) (auto simp: list_all_iff)
  then show ?thesis using cs(2)
    by (simp add: text_encode_def utf16_decode_encode utf16_encode_wf comp_def)
qed

text \<open>
  Text to UTF-8. A text becomes bytes exactly when it has no lone surrogate, and those
  bytes decode back to it; a text with a lone surrogate is the invalid-data failure and
  nothing is stored.
\<close>

lemma utf8_text_roundtrip:
  assumes "store_ok st"
  shows "if isWellFormed s
     then \<exists>t st'. fromUTF8 identity (Str s) st = (Ok t, st') \<and> toUTF8 identity t st' = Ok s \<and> extends st st'
     else fromUTF8 identity (Str s) st = (invalid_data identity [] ''unicode_scalar'', st)"
proof (cases "isWellFormed s")
  case True
  then show ?thesis using owned_ok [OF assms, of "text_encode s"] text_decode_encode
    by (auto simp: fromUTF8_def toUTF8_def)
next
  case False
  then have "text_decode (text_encode s) \<noteq> Some s" using text_encode_wf by blast
  with False show ?thesis by (simp add: fromUTF8_def)
qed

text \<open>
  UTF-8 to text. Bytes decode exactly when they are the UTF-8 encoding of a text without
  lone surrogates, and the text returned is the one they encode; any other byte sequence
  (overlong forms, encoded surrogates, truncated or stray bytes) is the invalid-data failure.
\<close>

lemma utf8_decode_exact:
  assumes "backing v st = Ok bs"
  shows "case toUTF8 identity v st of
      Ok r \<Rightarrow> isWellFormed r \<and> text_encode r = bs
    | d \<Rightarrow> d = invalid_data identity [] ''utf8'' \<and> (\<nexists>r. isWellFormed r \<and> text_encode r = bs)"
proof (cases "text_decode bs")
  case None
  then have "\<nexists>r. isWellFormed r \<and> text_encode r = bs" using text_decode_encode by force
  with None assms show ?thesis by (simp add: toUTF8_def invalid_data_def)
next
  case (Some r)
  with assms text_encode_wf show ?thesis by (simp add: toUTF8_def)
qed

definition is_octet :: "jsval \<Rightarrow> bool" where
  "is_octet v = (case v of BigInt n \<Rightarrow> 0 \<le> n \<and> n \<le> 255 | _ \<Rightarrow> False)"

lemma octets_from_Inr:
  "octets_from i vs = Inr bs \<Longrightarrow> list_all is_octet vs \<and> vs = map (\<lambda>b. BigInt (uint b)) bs"
proof (induction vs arbitrary: i bs)
  case (Cons v vs)
  then obtain n bs' where "v = BigInt n" "0 \<le> n" "n \<le> 255" "octets_from (i + 1) vs = Inr bs'"
    "bs = word_of_int n # bs'"
    by (auto split: jsval.splits if_splits sum.splits)
  with Cons.IH show ?case by (auto simp: is_octet_def)
qed auto

lemma octets_from_Inl:
  "octets_from i vs = Inl (path, reason) \<Longrightarrow>
     \<exists>pre v post. vs = pre @ v # post \<and> list_all is_octet pre \<and> \<not> is_octet v
        \<and> path = ascii ''/'' @ int_string (i + int (length pre))
        \<and> reason = (case v of BigInt _ \<Rightarrow> ''byte_range'' | _ \<Rightarrow> ''type'')"
proof (induction vs arbitrary: i)
  case (Cons v vs)
  show ?case
  proof (cases "is_octet v")
    case True
    then obtain n where n: "v = BigInt n" "0 \<le> n" "n \<le> 255" by (auto simp: is_octet_def split: jsval.splits)
    have "octets_from (i + 1) vs = Inl (path, reason)"
      using n Cons.prems by (auto split: sum.splits)
    from Cons.IH [OF this] obtain pre w post where p: "vs = pre @ w # post" "list_all is_octet pre"
      "\<not> is_octet w" "path = ascii ''/'' @ int_string (i + 1 + int (length pre))"
      "reason = (case w of BigInt _ \<Rightarrow> ''byte_range'' | _ \<Rightarrow> ''type'')" by blast
    show ?thesis
      by (rule exI [of _ "v # pre"], rule exI [of _ w], rule exI [of _ post])
         (use p True in \<open>simp add: add.assoc\<close>)
  next
    case False
    then have "octets_from i (v # vs) = Inl (ascii ''/'' @ int_string i,
        case v of BigInt _ \<Rightarrow> ''byte_range'' | _ \<Rightarrow> ''type'')"
      by (cases v) (auto simp: is_octet_def)
    note bad = this
    show ?thesis
      by (rule exI [of _ "[]"], rule exI [of _ v], rule exI [of _ vs])
         (use bad Cons.prems False in simp)
  qed
qed auto

text \<open>
  Bytes from integers. An array all of whose elements are integers from 0 to 255 becomes
  bytes that read back as the same integers; otherwise the failure names the index of the
  first element that is not, and whether it is out of range or no integer.
\<close>

lemma fromInts_exact:
  assumes "store_ok st"
  shows "if list_all is_octet vs
    then \<exists>t st' ns. fromInts identity vs st = (Ok t, st') \<and> toInts t st' = Ok ns \<and> vs = map BigInt ns
         \<and> extends st st'
    else \<exists>pre v post. vs = pre @ v # post \<and> list_all is_octet pre \<and> \<not> is_octet v
         \<and> fromInts identity vs st
             = (invalid_data identity (ascii ''/'' @ int_string (int (length pre)))
                 (case v of BigInt _ \<Rightarrow> ''byte_range'' | _ \<Rightarrow> ''type''), st)"
proof (cases "octets_from 0 vs")
  case (Inl e)
  obtain path reason where [simp]: "e = (path, reason)" by (cases e)
  from octets_from_Inl [of 0 vs path reason] Inl obtain pre v post where
    p: "vs = pre @ v # post" "list_all is_octet pre" "\<not> is_octet v"
      "path = ascii ''/'' @ int_string (int (length pre))"
      "reason = (case v of BigInt _ \<Rightarrow> ''byte_range'' | _ \<Rightarrow> ''type'')" by auto
  then have "\<not> list_all is_octet vs" by simp
  moreover have "fromInts identity vs st = (invalid_data identity path reason, st)"
    using Inl by (simp add: fromInts_def)
  ultimately show ?thesis using p by auto
next
  case (Inr bs)
  from octets_from_Inr [OF this]
  have bs: "list_all is_octet vs" "vs = map (\<lambda>b. BigInt (uint b)) bs" by blast+
  obtain t st' where "owned bs st = (Ok t, st')" "backing t st' = Ok bs" "extends st st'"
    using owned_ok [OF assms] by blast
  then have "fromInts identity vs st = (Ok t, st') \<and> toInts t st' = Ok (map uint bs)
      \<and> vs = map BigInt (map uint bs) \<and> extends st st'"
    using Inr bs by (simp add: fromInts_def toInts_def)
  then show ?thesis using bs(1) by auto
qed

end
