(* ===== verification/Text.thy ===== *)
theory Text
  imports Unicode Completion
begin

text \<open>
  The text catalogue of \<open>runtime/text.ts\<close>: searching, slicing, splitting, replacing and
  joining strings, their Unicode scalar values, and bounded regular expression matching.
\<close>

section \<open>Strings\<close>

fun includes_str :: "jsstr \<Rightarrow> jsstr \<Rightarrow> bool" where
  "includes_str [] v = startsWith [] v"
| "includes_str (u # us) v = (startsWith (u # us) v \<or> includes_str us v)"

definition is_space :: "code_unit \<Rightarrow> bool" where
  "is_space u \<longleftrightarrow> in_range 9 13 u \<or> u \<in> {32, 160, 0x1680, 0x2028, 0x2029, 0x202F, 0x205F, 0x3000, 0xFEFF}
     \<or> in_range 0x2000 0x200A u"

definition trim :: "jsstr \<Rightarrow> jsstr" where
  "trim s = rev (dropWhile is_space (rev (dropWhile is_space s)))"

text \<open>\<open>split\<close> and \<open>replaceAll\<close> for a nonempty pattern: leftmost matches that do not overlap.\<close>

function split_str :: "jsstr \<Rightarrow> jsstr \<Rightarrow> jsstr list" where
  "split_str sep s =
     (case s of
        [] \<Rightarrow> [[]]
      | u # us \<Rightarrow>
          if sep \<noteq> [] \<and> startsWith s sep then [] # split_str sep (drop (length sep) s)
          else (case split_str sep us of p # ps \<Rightarrow> (u # p) # ps | [] \<Rightarrow> [[u]]))"
  by pat_completeness auto
termination
  by (relation "measure (length \<circ> snd)") auto

function replace_all :: "jsstr \<Rightarrow> jsstr \<Rightarrow> jsstr \<Rightarrow> jsstr" where
  "replace_all search replacement s =
     (case s of
        [] \<Rightarrow> []
      | u # us \<Rightarrow>
          if search \<noteq> [] \<and> startsWith s search
          then replacement @ replace_all search replacement (drop (length search) s)
          else u # replace_all search replacement us)"
  by pat_completeness auto
termination
  by (relation "measure (length \<circ> snd \<circ> snd)") auto

declare split_str.simps [simp del] replace_all.simps [simp del]

fun join :: "jsstr list \<Rightarrow> jsstr \<Rightarrow> jsstr" where
  "join [] sep = []"
| "join [p] sep = p"
| "join (p # q # ps) sep = p @ sep @ join (q # ps) sep"

text \<open>The loop that encodes scalar values 4096 at a time.\<close>

function scalar_chunks :: "int list \<Rightarrow> jsstr list" where
  "scalar_chunks cs =
     (if cs = [] then [] else utf16_encode (take 4096 cs) # scalar_chunks (drop 4096 cs))"
  by pat_completeness auto
termination
  by (relation "measure length") auto

declare scalar_chunks.simps [simp del]

section \<open>The catalogue\<close>

record text_identities =
  emptySeparator :: jsstr
  emptyPattern :: jsstr
  invalidUnicode :: jsstr
  invalidRegex :: jsstr
  invalidLimit :: jsstr

text \<open>
  The Unicode tables and the regular expression engine of the platform, parameters of the
  operations that use them: case mappings, normalisation, grapheme segmentation, whether a
  pattern compiles, and all matches of a compiled pattern in order.
\<close>

record text_match =
  m_text :: jsstr
  m_index :: int
  m_groups :: "jsstr option list"

record text_platform =
  tp_lower :: "jsstr \<Rightarrow> jsstr"
  tp_upper :: "jsstr \<Rightarrow> jsstr"
  tp_nfc :: "jsstr \<Rightarrow> jsstr"
  tp_segments :: "jsstr \<Rightarrow> jsstr list"
  tp_compiles :: "jsstr \<Rightarrow> jsstr \<Rightarrow> bool"
  tp_matches :: "jsstr \<Rightarrow> jsstr \<Rightarrow> jsstr \<Rightarrow> text_match list"

definition text_invalid :: "text_identities \<Rightarrow> string \<Rightarrow> 'a completion" where
  "text_invalid ids reason = Domain (invalidUnicode ids) [(ascii ''reason'', Str (ascii reason))]"

definition includes_op :: "jsstr \<Rightarrow> jsstr \<Rightarrow> bool completion" where
  "includes_op s v = Ok (includes_str s v)"

definition startsWith_op :: "jsstr \<Rightarrow> jsstr \<Rightarrow> bool completion" where
  "startsWith_op s v = Ok (startsWith s v)"

definition endsWith_op :: "jsstr \<Rightarrow> jsstr \<Rightarrow> bool completion" where
  "endsWith_op s v = Ok (endsWith s v)"

definition toLowerCase_op :: "text_platform \<Rightarrow> jsstr \<Rightarrow> jsstr completion" where
  "toLowerCase_op tp s = Ok (tp_lower tp s)"

definition toUpperCase_op :: "text_platform \<Rightarrow> jsstr \<Rightarrow> jsstr completion" where
  "toUpperCase_op tp s = Ok (tp_upper tp s)"

definition trim_op :: "jsstr \<Rightarrow> jsstr completion" where
  "trim_op s = Ok (trim s)"

definition slice_op :: "jsstr \<Rightarrow> int \<Rightarrow> int \<Rightarrow> jsstr completion" where
  "slice_op s a b = Ok (slice s (Some a) (Some b))"

definition split_op :: "text_identities \<Rightarrow> jsstr \<Rightarrow> jsstr \<Rightarrow> jsstr list completion" where
  "split_op ids s sep = (if sep = [] then Domain (emptySeparator ids) [] else Ok (split_str sep s))"

definition replaceAll_op :: "text_identities \<Rightarrow> jsstr \<Rightarrow> jsstr \<Rightarrow> jsstr \<Rightarrow> jsstr completion" where
  "replaceAll_op ids s search replacement =
     (if search = [] then Domain (emptyPattern ids) [] else Ok (replace_all search replacement s))"

definition join_op :: "jsstr list \<Rightarrow> jsstr \<Rightarrow> jsstr completion" where
  "join_op items sep = Ok (join items sep)"

definition scalars_op :: "text_identities \<Rightarrow> jsstr \<Rightarrow> int list completion" where
  "scalars_op ids s =
     (if \<not> isWellFormed s then text_invalid ids ''unpaired surrogate'' else Ok (utf16_decode s))"

definition fromScalars_op :: "text_identities \<Rightarrow> int list \<Rightarrow> jsstr completion" where
  "fromScalars_op ids cs =
     (if list_ex (\<lambda>c. c < 0 \<or> c > 0x10FFFF \<or> (c \<ge> 0xD800 \<and> c \<le> 0xDFFF)) cs
      then text_invalid ids ''invalid scalar value''
      else Ok (join (scalar_chunks cs) []))"

definition graphemes_op :: "text_platform \<Rightarrow> text_identities \<Rightarrow> jsstr \<Rightarrow> jsstr list completion" where
  "graphemes_op tp ids s =
     (if \<not> isWellFormed s then text_invalid ids ''unpaired surrogate'' else Ok (tp_segments tp s))"

definition normalizeNFC_op :: "text_platform \<Rightarrow> text_identities \<Rightarrow> jsstr \<Rightarrow> jsstr completion" where
  "normalizeNFC_op tp ids s =
     (if \<not> isWellFormed s then text_invalid ids ''unpaired surrogate'' else Ok (tp_nfc tp s))"

section \<open>Regular expressions\<close>

text \<open>Compiled patterns live behind opaque handles in a private weak map.\<close>

type_synonym regex_store = "(jsstr \<times> jsstr) list"

definition MAX_MATCHES :: int where
  "MAX_MATCHES = 10000"

definition admitted_flags :: "jsstr \<Rightarrow> bool" where
  "admitted_flags flags = list_all (\<lambda>u. u \<in> set (ascii ''imsuv'')) flags"

definition compileRegex ::
  "text_platform \<Rightarrow> text_identities \<Rightarrow> jsstr \<Rightarrow> jsstr \<Rightarrow> regex_store \<Rightarrow> nat completion \<times> regex_store" where
  "compileRegex tp ids pattern flags st =
     (if \<not> admitted_flags flags
      then (Domain (invalidRegex ids) [(ascii ''reason'', Str (ascii ''flags''))], st)
      else if \<not> tp_compiles tp pattern flags
      then (Domain (invalidRegex ids) [(ascii ''reason'', Str (ascii ''syntax''))], st)
      else (Ok (length st), st @ [(pattern, flags)]))"

record match_record =
  mr_text :: jsstr
  mr_start :: int
  mr_end :: int
  mr_groups :: "jsstr list"

definition match_of :: "text_match \<Rightarrow> match_record" where
  "match_of m =
     \<lparr>mr_text = m_text m, mr_start = m_index m, mr_end = m_index m + int (length (m_text m)),
      mr_groups = map (\<lambda>g. case g of None \<Rightarrow> [] | Some t \<Rightarrow> t) (m_groups m)\<rparr>"

text \<open>The scan stops as soon as the limit is reached.\<close>

fun take_matches :: "int \<Rightarrow> match_record list \<Rightarrow> text_match list \<Rightarrow> match_record list" where
  "take_matches limit out [] = out"
| "take_matches limit out (m # ms) =
     (if int (length out) \<ge> limit then out else take_matches limit (out @ [match_of m]) ms)"

definition findMatches ::
  "text_platform \<Rightarrow> text_identities \<Rightarrow> nat \<Rightarrow> jsstr \<Rightarrow> int \<Rightarrow> regex_store
   \<Rightarrow> match_record list completion res" where
  "findMatches tp ids handle s limit st =
     (if length st \<le> handle then Inl (TypeError ''invalid compiler regex handle'')
      else if limit < 0 \<or> limit > MAX_MATCHES
      then Inr (Domain (invalidLimit ids) [(ascii ''limit'', BigInt limit)])
      else Inr (Ok (case st ! handle of
        (source, flags) \<Rightarrow> take_matches limit [] (tp_matches tp source (flags @ ascii ''g'') s))))"

section \<open>Splitting and replacing\<close>

lemma split_str_not_Nil [simp]: "split_str sep s \<noteq> []"
  by (subst split_str.simps) (auto split: list.splits)

lemma split_str_Nil [simp]: "split_str sep [] = [[]]"
  by (simp add: split_str.simps)

lemma replace_all_Nil [simp]: "replace_all search r [] = []"
  by (simp add: replace_all.simps)

lemma join_Cons: "ps \<noteq> [] \<Longrightarrow> join (p # ps) sep = p @ sep @ join ps sep"
  by (cases ps) simp_all

lemma join_hd: "join ((u # p) # ps) sep = u # join (p # ps) sep"
  by (cases ps) simp_all

lemma replace_is_join_split:
  assumes "search \<noteq> []"
  shows "replace_all search r s = join (split_str search s) r"
proof (induction s rule: measure_induct_rule [of length])
  case (less s)
  show ?case
  proof (cases s)
    case (Cons u us)
    show ?thesis
    proof (cases "startsWith s search")
      case True
      have "length (drop (length search) s) < length s" using assms Cons by simp
      from less [OF this] True show ?thesis
        using assms Cons by (subst split_str.simps, subst replace_all.simps) (simp add: join_Cons)
    next
      case False
      obtain p ps where p: "split_str search us = p # ps" by (cases "split_str search us") auto
      have "replace_all search r us = join (p # ps) r" using less [of us] Cons p by simp
      with False p show ?thesis
        using Cons by (subst split_str.simps, subst replace_all.simps) (simp add: join_hd)
    qed
  qed simp
qed

lemma replace_all_self: "replace_all search search s = s"
proof (induction s rule: measure_induct_rule [of length])
  case (less s)
  show ?case
  proof (cases "s = [] \<or> search = [] \<or> \<not> startsWith s search")
    case True
    then show ?thesis using less [of "tl s"] by (cases s) (auto simp: replace_all.simps [of _ _ "_ # _"])
  next
    case False
    then have "replace_all search search s = search @ replace_all search search (drop (length search) s)"
      by (subst replace_all.simps) (auto split: list.split)
    with False less [of "drop (length search) s"] show ?thesis
      by (auto simp: startsWith_def) (metis append_take_drop_id)
  qed
qed

lemma startsWith_prefix: "startsWith p sep \<Longrightarrow> startsWith (p @ t) sep"
  by (auto simp: startsWith_iff)

lemma split_str_parts:
  assumes "sep \<noteq> []"
  shows "(\<exists>t. s = hd (split_str sep s) @ t) \<and> (\<forall>p \<in> set (split_str sep s). \<not> includes_str p sep)"
proof (induction s rule: measure_induct_rule [of length])
  case (less s)
  have empty: "\<not> includes_str [] sep" using assms by (cases sep) (simp_all add: startsWith_def)
  show ?case
  proof (cases s)
    case Nil
    with empty show ?thesis by simp
  next
    case (Cons u us)
    show ?thesis
    proof (cases "startsWith s sep")
      case True
      have "length (drop (length sep) s) < length s" using assms Cons by simp
      note IH = less [OF this]
      have "split_str sep s = [] # split_str sep (drop (length sep) s)"
        using True assms Cons by (subst split_str.simps) simp
      with IH empty show ?thesis by simp
    next
      case False
      obtain p ps where p: "split_str sep us = p # ps" by (cases "split_str sep us") auto
      have sp: "split_str sep s = (u # p) # ps" using False p Cons by (subst split_str.simps) simp
      note IH = less [of us, unfolded p]
      from IH Cons obtain t where t: "us = p @ t" by auto
      have "\<not> startsWith (u # p) sep" using False startsWith_prefix [of "u # p" sep t] Cons t by auto
      then show ?thesis using IH Cons sp t by auto
    qed
  qed
qed

lemma join_append_Nil: "join ps [] = concat ps"
  by (induction ps "[] :: jsstr" rule: join.induct) simp_all

lemma scalar_chunks_concat: "concat (scalar_chunks cs) = utf16_encode cs"
proof (induction cs rule: scalar_chunks.induct)
  case (1 cs)
  show ?case
  proof (cases "cs = []")
    case True
    then show ?thesis by (simp add: scalar_chunks.simps utf16_encode_def)
  next
    case False
    have "utf16_encode cs = utf16_encode (take 4096 cs) @ utf16_encode (drop 4096 cs)"
      unfolding utf16_encode_def by (metis append_take_drop_id concat_append map_append)
    with False 1 show ?thesis by (subst scalar_chunks.simps) simp
  qed
qed

lemma take_matches_eq:
  "0 \<le> limit \<Longrightarrow> int (length out) \<le> limit \<Longrightarrow>
   take_matches limit out ms = out @ map match_of (take (nat limit - length out) ms)"
proof (induction ms arbitrary: out)
  case (Cons m ms)
  show ?case
  proof (cases "int (length out) \<ge> limit")
    case True
    with Cons.prems show ?thesis by simp
  next
    case False
    then have "nat limit - length out = Suc (nat limit - length (out @ [match_of m]))" by simp
    with False Cons show ?thesis by simp
  qed
qed simp

section \<open>Properties\<close>

text \<open>
  Splitting and joining. Splitting a text at a nonempty separator yields parts none of
  which contains the separator and which joined with it restore the text; replacing every
  match of a pattern is the same as joining the parts with the replacement; empty
  separators and patterns are domain failures.
\<close>

lemma split_join_replace:
  assumes "sep \<noteq> []"
  shows "\<exists>ps. split_op ids s sep = Ok ps \<and> join_op ps sep = Ok s
    \<and> list_all (\<lambda>p. \<not> includes_str p sep) ps \<and> replaceAll_op ids s sep r = join_op ps r
    \<and> split_op ids s [] = Domain (emptySeparator ids) []"
proof -
  have "join (split_str sep s) sep = s"
    using replace_is_join_split [OF assms, of sep s] replace_all_self by simp
  then show ?thesis
    using assms split_str_parts [OF assms, of s] replace_is_join_split [OF assms, of r s]
    by (auto simp: split_op_def join_op_def replaceAll_op_def list_all_iff)
qed

definition demo_ids :: text_identities where
  "demo_ids = \<lparr>emptySeparator = ascii ''ES'', emptyPattern = ascii ''EP'', invalidUnicode = ascii ''IU'',
     invalidRegex = ascii ''IR'', invalidLimit = ascii ''IL''\<rparr>"

text \<open>
  Scalar values. A text without lone surrogates gives its scalar values, from which the
  chunked encoder rebuilds the same text; a list of scalar values of any length gives a text
  with exactly these scalar values; lone surrogates and values that are no scalars are
  domain failures.
\<close>

lemma scalars_roundtrip:
  "(if isWellFormed s then bindC (scalars_op ids s) (fromScalars_op ids) = Ok s
    else scalars_op ids s = text_invalid ids ''unpaired surrogate'')
   \<and> (if list_all scalar cs then bindC (fromScalars_op ids cs) (scalars_op ids) = Ok cs
      else fromScalars_op ids cs = text_invalid ids ''invalid scalar value'')"
proof -
  have bad: "list_ex (\<lambda>c. c < 0 \<or> c > 0x10FFFF \<or> (c \<ge> 0xD800 \<and> c \<le> 0xDFFF)) xs \<longleftrightarrow> \<not> list_all scalar xs" for xs
    by (induction xs) (auto simp: scalar_def)
  have from_ok: "fromScalars_op ids xs = Ok (utf16_encode xs)" if "list_all scalar xs" for xs
    using that by (simp add: fromScalars_op_def bad join_append_Nil scalar_chunks_concat)
  show ?thesis
    using utf16_encode_decode [of s] utf16_encode_wf [of cs] utf16_decode_encode [of cs]
    by (auto simp: from_ok scalars_op_def) (simp add: fromScalars_op_def bad)
qed

text \<open>
  Bounded matching. A match search on a compiled handle with a limit from 0 to 10000
  returns exactly the first matches of the platform's scan up to the limit, with their
  positions; any other limit is a domain failure and an unknown handle is refused.
\<close>

lemma findMatches_bounded:
  assumes "h < length st"
  shows "findMatches tp ids h s limit st =
    (if 0 \<le> limit \<and> limit \<le> 10000
     then Inr (Ok (map match_of (take (nat limit) (tp_matches tp (fst (st ! h)) (snd (st ! h) @ ascii ''g'') s))))
     else Inr (Domain (invalidLimit ids) [(ascii ''limit'', BigInt limit)]))"
  using assms
  by (auto simp: findMatches_def MAX_MATCHES_def take_matches_eq split: prod.splits)

definition demo_platform :: text_platform where
  "demo_platform = \<lparr>tp_lower = (\<lambda>s. s), tp_upper = (\<lambda>s. s), tp_nfc = (\<lambda>s. s), tp_segments = (\<lambda>s. [s]),
     tp_compiles = (\<lambda>p f. True),
     tp_matches = (\<lambda>p f s. map (\<lambda>i. \<lparr>m_text = [s ! i], m_index = int i, m_groups = [None]\<rparr>) [0..<length s])\<rparr>"

end
