(* ===== verification/Sets.thy ===== *)
theory Sets
  imports OpaqueStore
begin

text \<open>
  The immutable sets of \<open>runtime/collections/set.ts\<close>: opaque tokens over native sets, which
  iterate in insertion order, and the keys sets and maps share.
\<close>

section \<open>Keys\<close>

text \<open>
  A key is a bigint, a boolean or a string, compared by value; a value of any other type that
  reaches a key position is a host value.
\<close>

datatype Key = KInt int | KBool bool | KStr jsstr | KHost nat
datatype KeyKind = IntKey | BoolKey | StrKey

fun key_typed :: "KeyKind \<Rightarrow> Key \<Rightarrow> bool" where
  "key_typed IntKey (KInt _) = True"
| "key_typed BoolKey (KBool _) = True"
| "key_typed StrKey (KStr _) = True"
| "key_typed _ _ = False"

definition checkKey :: "KeyKind \<Rightarrow> Key \<Rightarrow> unit completion" where
  "checkKey kind key = (if \<not> key_typed kind key then resource_state else Ok ())"

section \<open>Native sets\<close>

text \<open>
  A native set is the list of its elements in insertion order; adding an element it has
  leaves it as it is. \<open>union\<close> appends the new elements of the right set, \<open>difference\<close> keeps
  the order of the left one.
\<close>

definition ns_add :: "'k \<Rightarrow> 'k list \<Rightarrow> 'k list" where
  "ns_add k xs = (if k \<in> set xs then xs else xs @ [k])"

definition ns_union :: "'k list \<Rightarrow> 'k list \<Rightarrow> 'k list" where
  "ns_union xs ys = foldl (\<lambda>acc k. ns_add k acc) xs ys"

definition ns_difference :: "'k list \<Rightarrow> 'k list \<Rightarrow> 'k list" where
  "ns_difference xs ys = filter (\<lambda>k. k \<notin> set ys) xs"

text \<open>\<open>new Set(array)\<close>.\<close>

definition ns_of_array :: "'k list \<Rightarrow> 'k list" where
  "ns_of_array xs = foldl (\<lambda>acc k. ns_add k acc) [] xs"

section \<open>The factory\<close>

record set_content =
  sc_identity :: jsstr
  sc_values :: "Key list"

type_synonym set_store = "set_content opaque_store"

definition isSet :: "jsstr \<Rightarrow> set_store \<Rightarrow> handle \<Rightarrow> bool" where
  "isSet identity st v \<longleftrightarrow> map_option sc_identity (content st v) = Some identity"

definition set_own :: "jsstr \<Rightarrow> Key list \<Rightarrow> set_content" where
  "set_own identity values = \<lparr>sc_identity = identity, sc_values = values\<rparr>"

definition set_backing :: "jsstr \<Rightarrow> set_store \<Rightarrow> handle \<Rightarrow> Key list completion" where
  "set_backing identity st v =
     (case content st v of
        None \<Rightarrow> resource_state
      | Some found \<Rightarrow> if sc_identity found \<noteq> identity then resource_state else Ok (sc_values found))"

definition set_empty :: "jsstr \<Rightarrow> set_store \<Rightarrow> handle completion \<times> set_store" where
  "set_empty identity st = publishC (Ok (set_own identity [])) st"

fun build_keys :: "KeyKind \<Rightarrow> Key list \<Rightarrow> Key list \<Rightarrow> Key list completion" where
  "build_keys kind seen [] = Ok seen"
| "build_keys kind seen (key # rest) =
     bindC (checkKey kind key) (\<lambda>_. build_keys kind (ns_add key seen) rest)"

definition build_set :: "jsstr \<Rightarrow> KeyKind \<Rightarrow> Key list \<Rightarrow> set_store \<Rightarrow> handle completion \<times> set_store" where
  "build_set identity kind values st =
     publishC (bindC (build_keys kind [] values) (\<lambda>seen. Ok (set_own identity seen))) st"

definition set_contains :: "jsstr \<Rightarrow> KeyKind \<Rightarrow> handle \<Rightarrow> Key \<Rightarrow> set_store \<Rightarrow> bool completion" where
  "set_contains identity kind h key st =
     bindC (set_backing identity st h) (\<lambda>source.
     bindC (checkKey kind key) (\<lambda>_. Ok (key \<in> set source)))"

definition set_add :: "jsstr \<Rightarrow> KeyKind \<Rightarrow> handle \<Rightarrow> Key \<Rightarrow> set_store \<Rightarrow> handle completion \<times> set_store" where
  "set_add identity kind h key st =
     publishC (bindC (set_backing identity st h) (\<lambda>source.
       bindC (checkKey kind key) (\<lambda>_. Ok (set_own identity (ns_add key source))))) st"

definition set_union :: "jsstr \<Rightarrow> handle \<Rightarrow> handle \<Rightarrow> set_store \<Rightarrow> handle completion \<times> set_store" where
  "set_union identity left right st =
     publishC (bindC (set_backing identity st left) (\<lambda>a.
       bindC (set_backing identity st right) (\<lambda>b. Ok (set_own identity (ns_union a b))))) st"

definition set_intersection :: "jsstr \<Rightarrow> handle \<Rightarrow> handle \<Rightarrow> set_store \<Rightarrow> handle completion \<times> set_store" where
  "set_intersection identity left right st =
     publishC (bindC (set_backing identity st left) (\<lambda>a.
       bindC (set_backing identity st right) (\<lambda>b.
         Ok (set_own identity (ns_of_array (filter (\<lambda>key. key \<in> set b) a)))))) st"

definition set_difference :: "jsstr \<Rightarrow> handle \<Rightarrow> handle \<Rightarrow> set_store \<Rightarrow> handle completion \<times> set_store" where
  "set_difference identity left right st =
     publishC (bindC (set_backing identity st left) (\<lambda>a.
       bindC (set_backing identity st right) (\<lambda>b. Ok (set_own identity (ns_difference a b))))) st"

section \<open>Native sets as sets\<close>

text \<open>What a client of a native set may rely on, and bulk insertion on top of it.\<close>

locale ordered_set =
  fixes empty :: 's
    and add :: "'k \<Rightarrow> 's \<Rightarrow> 's"
    and elements :: "'s \<Rightarrow> 'k list"
  assumes elements_empty: "elements empty = []"
    and elements_add: "elements (add k s) = elements s @ (if k \<in> set (elements s) then [] else [k])"
begin

definition add_all :: "'k list \<Rightarrow> 's \<Rightarrow> 's" where
  "add_all ks s = foldl (\<lambda>acc k. add k acc) s ks"

lemma add_all_simps [simp]:
  "add_all [] s = s"
  "add_all (k # ks) s = add_all ks (add k s)"
  by (simp_all add: add_all_def)

lemma set_add_all: "set (elements (add_all ks s)) = set (elements s) \<union> set ks"
  by (induction ks arbitrary: s) (auto simp: elements_add)

lemma distinct_add_all: "distinct (elements s) \<Longrightarrow> distinct (elements (add_all ks s))"
  by (induction ks arbitrary: s) (auto simp: elements_add)

text \<open>Elements the set has stay in place; new ones follow in order of first occurrence.\<close>

lemma add_all_order:
  "elements (add_all ks s) = elements s @ rev (remdups (rev (filter (\<lambda>k. k \<notin> set (elements s)) ks)))"
proof (induction ks arbitrary: s)
  case (Cons k ks)
  have split: "rev (remdups (rev zs @ [k])) = k # rev (remdups (rev (filter (\<lambda>x. x \<noteq> k) zs)))" for zs :: "'k list"
    by (induction zs rule: rev_induct) auto
  show ?case
  proof (cases "k \<in> set (elements s)")
    case True
    then show ?thesis by (simp add: Cons elements_add)
  next
    case False
    then show ?thesis by (simp add: Cons elements_add split conj_commute)
  qed
qed (simp add: elements_empty)

end

interpretation ns: ordered_set "[]" ns_add "\<lambda>xs. xs"
  by unfold_locales (auto simp: ns_add_def)

lemma ns_union_add_all: "ns_union xs ys = ns.add_all ys xs"
  by (simp add: ns_union_def ns.add_all_def)

lemma ns_of_array_add_all: "ns_of_array xs = ns.add_all xs []"
  by (simp add: ns_of_array_def ns.add_all_def)

lemma ns_of_array_distinct: "distinct xs \<Longrightarrow> ns_of_array xs = xs"
  by (simp add: ns_of_array_add_all ns.add_all_order distinct_remdups_id)

lemma checkKey_conv: "checkKey kind k = (if key_typed kind k then Ok () else resource_state)"
  by (simp add: checkKey_def)

lemma bindC_resource_state [simp]: "bindC resource_state f = resource_state"
  by (simp add: resource_state_def)

lemma resource_state_not_Ok [simp]: "resource_state \<noteq> Ok x" "Ok x \<noteq> resource_state"
  by (simp_all add: resource_state_def)

lemma build_keys_conv:
  "build_keys kind seen ks = (if list_all (key_typed kind) ks then Ok (ns.add_all ks seen) else resource_state)"
  by (induction ks arbitrary: seen) (auto simp: checkKey_conv)


section \<open>Refinement of mathematical sets\<close>

text \<open>The set a token denotes for the factory of an identity.\<close>

definition set_view :: "jsstr \<Rightarrow> set_store \<Rightarrow> handle \<Rightarrow> Key set option" where
  "set_view identity st h =
     (case content st h of
        Some c \<Rightarrow> if sc_identity c = identity then Some (set (sc_values c)) else None
      | None \<Rightarrow> None)"

definition set_good :: "jsstr \<Rightarrow> KeyKind \<Rightarrow> set_content \<Rightarrow> bool" where
  "set_good identity kind c \<longleftrightarrow> distinct (sc_values c)
     \<and> (sc_identity c = identity \<longrightarrow> list_all (key_typed kind) (sc_values c))"

definition sets_ok :: "jsstr \<Rightarrow> KeyKind \<Rightarrow> set_store \<Rightarrow> bool" where
  "sets_ok identity kind st \<longleftrightarrow> store_inv (set_good identity kind) st"

text \<open>
  An operation yields a set when it returns a token that denotes it, leaving every token that
  existed before as it was.
\<close>

definition yields_set ::
  "jsstr \<Rightarrow> KeyKind \<Rightarrow> set_store \<Rightarrow> handle completion \<times> set_store \<Rightarrow> Key list \<Rightarrow> bool" where
  "yields_set identity kind st out xs \<longleftrightarrow>
     (\<exists>h st'. out = (Ok h, st') \<and> content st' h = Some (set_own identity xs) \<and> content st h = None
        \<and> sets_ok identity kind st' \<and> extends st st')"

lemma set_view_SomeE:
  assumes "set_view identity st h = Some A"
  obtains xs where "content st h = Some (set_own identity xs)" "A = set xs"
    "set_backing identity st h = Ok xs"
proof -
  obtain c where c: "content st h = Some c" "sc_identity c = identity" "A = set (sc_values c)"
    using assms by (auto simp: set_view_def split: option.splits if_splits)
  then have "c = set_own identity (sc_values c)" by (cases c) (simp add: set_own_def)
  then show thesis using that [of "sc_values c"] c by (simp add: set_backing_def)
qed

lemma set_own_sel [simp]:
  "sc_identity (set_own identity xs) = identity" "sc_values (set_own identity xs) = xs"
  by (simp_all add: set_own_def)

lemma yields_set_publishC:
  assumes "sets_ok identity kind st" and "distinct xs" and "list_all (key_typed kind) xs"
  shows "yields_set identity kind st (publishC (Ok (set_own identity xs)) st) xs"
proof -
  have inv: "store_inv (set_good identity kind) st" using assms(1) by (simp add: sets_ok_def)
  obtain t st' where p: "publish (set_own identity xs) st = (Ok t, st')"
    "content st' t = Some (set_own identity xs)" "content st t = None"
    using publish_obtains [OF store_inv_store_ok [OF inv]] by blast
  have "store_inv (set_good identity kind) st' \<and> extends st st'"
    by (rule store_inv_publishC [OF inv, of "Ok (set_own identity xs)" "Ok t"])
      (use p assms in \<open>auto simp: set_good_def\<close>)
  then show ?thesis using p by (simp add: yields_set_def sets_ok_def)
qed

lemma sets_okD:
  assumes "sets_ok identity kind st" and "content st h = Some (set_own identity xs)"
  shows "distinct xs" and "list_all (key_typed kind) xs"
  using store_invD [OF assms(1) [unfolded sets_ok_def] assms(2)] by (auto simp: set_good_def)

lemma build_set_yields:
  assumes "sets_ok identity kind st" and "list_all (key_typed kind) ks"
  shows "yields_set identity kind st (build_set identity kind ks st) (rev (remdups (rev ks)))"
proof -
  have "build_keys kind [] ks = Ok (rev (remdups (rev ks)))"
    using assms(2) by (simp add: build_keys_conv ns.add_all_order)
  then show ?thesis
    using assms(2) by (simp add: build_set_def yields_set_publishC [OF assms(1), simplified] list_all_iff)
qed

lemma build_set_refused:
  "\<not> list_all (key_typed kind) ks \<Longrightarrow> build_set identity kind ks st = (resource_state, st)"
  by (simp add: build_set_def build_keys_conv)

lemma sets_ok_empty: "sets_ok identity kind empty_store"
  by (auto simp: sets_ok_def store_inv_def content_def empty_store_def store_ok_def split: handle.splits)

text \<open>
  C34: The set operations refine the mathematical ones. On two sets of a factory the results
  of union, intersection, difference and add are new tokens for the union, intersection,
  difference and extended set, without repeated elements, in the order of the left set
  followed by the new elements of the right one; contains is membership; every token that
  existed before still denotes the same set.
\<close>

theorem set_operations_refine:
  assumes "sets_ok identity kind st"
    and "content st l = Some (set_own identity xs)" and "content st r = Some (set_own identity ys)"
    and "key_typed kind k"
  shows "set_contains identity kind l k st = Ok (k \<in> set xs)
    \<and> yields_set identity kind st (set_add identity kind l k st) (if k \<in> set xs then xs else xs @ [k])
    \<and> yields_set identity kind st (set_union identity l r st) (xs @ filter (\<lambda>y. y \<notin> set xs) ys)
    \<and> yields_set identity kind st (set_intersection identity l r st) (filter (\<lambda>x. x \<in> set ys) xs)
    \<and> yields_set identity kind st (set_difference identity l r st) (filter (\<lambda>x. x \<notin> set ys) xs)"
proof -
  have dx: "distinct xs" "list_all (key_typed kind) xs" and dy: "distinct ys" "list_all (key_typed kind) ys"
    using sets_okD [OF assms(1)] assms(2,3) by auto
  have b: "set_backing identity st l = Ok xs" "set_backing identity st r = Ok ys"
    using assms(2,3) by (simp_all add: set_backing_def)
  have un: "ns_union xs ys = xs @ filter (\<lambda>y. y \<notin> set xs) ys"
    using dy by (simp add: ns_union_add_all ns.add_all_order distinct_remdups_id)
  have i: "ns_of_array (filter (\<lambda>x. x \<in> set ys) xs) = filter (\<lambda>x. x \<in> set ys) xs"
    using dx by (simp add: ns_of_array_distinct)
  have y: "yields_set identity kind st (publishC (Ok (set_own identity zs)) st) zs"
    if "distinct zs" "set zs \<subseteq> insert k (set xs \<union> set ys)" for zs
    using that dx dy assms(4) by (intro yields_set_publishC [OF assms(1)]) (auto simp: list_all_iff)
  show ?thesis
    unfolding set_contains_def set_add_def set_union_def set_intersection_def set_difference_def
      b bindC_simps checkKey_conv un i ns_add_def ns_difference_def
    using dx dy assms(4) by (auto intro!: y simp del: publishC_simps)
qed

theorem set_operations_refine_witness:
  "\<exists>st l r. yields_set (ascii ''ints'') IntKey st (set_union (ascii ''ints'') l r st) [KInt 2, KInt 1, KInt 3]
     \<and> set_contains (ascii ''ints'') IntKey l (KInt 3) st = Ok False"
proof -
  let ?i = "ascii ''ints''"
  obtain l s1 where l: "content s1 l = Some (set_own ?i [KInt 2, KInt 1])" "sets_ok ?i IntKey s1"
    using build_set_yields [OF sets_ok_empty, of IntKey "[KInt 2, KInt 1, KInt 2]" ?i]
    by (force simp: yields_set_def split: if_splits)
  obtain r s2 where r: "content s2 r = Some (set_own ?i [KInt 3, KInt 1])" "sets_ok ?i IntKey s2" "extends s1 s2"
    using build_set_yields [OF l(2), of "[KInt 3, KInt 1]"] by (force simp: yields_set_def)
  show ?thesis
    using set_operations_refine [OF r(2) extendsD [OF r(3) l(1)] r(1), of "KInt 3"] by fastforce
qed

end
