(* ===== verification/Maps.thy ===== *)
theory Maps
  imports Sets
begin

text \<open>
  The immutable maps of \<open>runtime/collections/map.ts\<close>: opaque tokens over native maps, which
  iterate in insertion order, their point operations, and the batch reduction that replaces a
  fold of point operations by one private copy.
\<close>

section \<open>Native maps\<close>

text \<open>
  A native map is the list of its entries in insertion order: setting a key it has keeps the
  entry's place, a new key comes last.
\<close>

type_synonym ('k, 'v) native_map = "('k \<times> 'v) list"

fun nm_set :: "'k \<Rightarrow> 'v \<Rightarrow> ('k, 'v) native_map \<Rightarrow> ('k, 'v) native_map" where
  "nm_set k v [] = [(k, v)]"
| "nm_set k v (p # ps) = (if fst p = k then (k, v) # ps else p # nm_set k v ps)"

definition nm_has :: "('k, 'v) native_map \<Rightarrow> 'k \<Rightarrow> bool" where
  "nm_has m k \<longleftrightarrow> map_of m k \<noteq> None"

definition nm_delete :: "'k \<Rightarrow> ('k, 'v) native_map \<Rightarrow> ('k, 'v) native_map" where
  "nm_delete k m = filter (\<lambda>p. fst p \<noteq> k) m"

section \<open>The factory\<close>

record map_content =
  mc_identity :: jsstr
  mc_values :: "(Key, jsval) native_map"

type_synonym map_store = "map_content opaque_store"

record map_identities =
  mi_map :: jsstr
  mi_entry :: jsstr
  mi_absent :: jsstr
  mi_exists :: jsstr

definition isMap :: "jsstr \<Rightarrow> map_store \<Rightarrow> handle \<Rightarrow> bool" where
  "isMap identity st v \<longleftrightarrow> map_option mc_identity (content st v) = Some identity"

definition map_own :: "map_identities \<Rightarrow> (Key, jsval) native_map \<Rightarrow> map_content" where
  "map_own ids values = \<lparr>mc_identity = mi_map ids, mc_values = values\<rparr>"

definition map_backing :: "map_identities \<Rightarrow> map_store \<Rightarrow> handle \<Rightarrow> (Key, jsval) native_map completion" where
  "map_backing ids st v =
     (case content st v of
        None \<Rightarrow> resource_state
      | Some found \<Rightarrow> if mc_identity found \<noteq> mi_map ids then resource_state else Ok (mc_values found))"

definition map_error :: "jsstr \<Rightarrow> 'a completion" where
  "map_error identity = Domain identity []"

definition getBody :: "map_identities \<Rightarrow> KeyKind \<Rightarrow> handle \<Rightarrow> Key \<Rightarrow> map_store \<Rightarrow> jsval completion" where
  "getBody ids kind h key st =
     bindC (map_backing ids st h) (\<lambda>source.
     bindC (checkKey kind key) (\<lambda>_.
       case map_of source key of Some v \<Rightarrow> Ok v | None \<Rightarrow> map_error (mi_absent ids)))"

definition insertBody ::
  "map_identities \<Rightarrow> KeyKind \<Rightarrow> handle \<Rightarrow> Key \<Rightarrow> jsval \<Rightarrow> map_store \<Rightarrow> handle completion \<times> map_store" where
  "insertBody ids kind h key v st =
     publishC (bindC (map_backing ids st h) (\<lambda>source.
       bindC (checkKey kind key) (\<lambda>_.
         if nm_has source key then map_error (mi_exists ids)
         else Ok (map_own ids (nm_set key v source))))) st"

definition replaceBody ::
  "map_identities \<Rightarrow> KeyKind \<Rightarrow> handle \<Rightarrow> Key \<Rightarrow> jsval \<Rightarrow> map_store \<Rightarrow> handle completion \<times> map_store" where
  "replaceBody ids kind h key v st =
     publishC (bindC (map_backing ids st h) (\<lambda>source.
       bindC (checkKey kind key) (\<lambda>_.
         if \<not> nm_has source key then map_error (mi_absent ids)
         else Ok (map_own ids (nm_set key v source))))) st"

definition map_empty :: "map_identities \<Rightarrow> map_store \<Rightarrow> handle completion \<times> map_store" where
  "map_empty ids st = publishC (Ok (map_own ids [])) st"

fun build_entries ::
  "map_identities \<Rightarrow> KeyKind \<Rightarrow> (Key, jsval) native_map \<Rightarrow> (Key \<times> jsval) list
     \<Rightarrow> (Key, jsval) native_map completion" where
  "build_entries ids kind values [] = Ok values"
| "build_entries ids kind values (entry # rest) =
     bindC (checkKey kind (fst entry)) (\<lambda>_.
       if nm_has values (fst entry) then map_error (mi_exists ids)
       else build_entries ids kind (nm_set (fst entry) (snd entry) values) rest)"

definition build_map ::
  "map_identities \<Rightarrow> KeyKind \<Rightarrow> (Key \<times> jsval) list \<Rightarrow> map_store \<Rightarrow> handle completion \<times> map_store" where
  "build_map ids kind entries st =
     publishC (bindC (build_entries ids kind [] entries) (\<lambda>values. Ok (map_own ids values))) st"

definition map_remove ::
  "map_identities \<Rightarrow> KeyKind \<Rightarrow> handle \<Rightarrow> Key \<Rightarrow> map_store \<Rightarrow> handle completion \<times> map_store" where
  "map_remove ids kind h key st =
     publishC (bindC (map_backing ids st h) (\<lambda>source.
       bindC (checkKey kind key) (\<lambda>_.
         if \<not> nm_has source key then map_error (mi_absent ids)
         else Ok (map_own ids (nm_delete key source))))) st"

text \<open>An entry record is its identity with the key and the value.\<close>

definition map_entries ::
  "map_identities \<Rightarrow> handle \<Rightarrow> map_store \<Rightarrow> (jsstr \<times> Key \<times> jsval) list completion" where
  "map_entries ids h st =
     bindC (map_backing ids st h) (\<lambda>source. Ok (map (\<lambda>(k, v). (mi_entry ids, k, v)) source))"

text \<open>
  The batch reduction. A transition that throws is the failure its exception is caught as;
  the runner declines with \<open>None\<close>. A transition value is a bigint.
\<close>

fun is_bigint :: "jsval \<Rightarrow> bool" where
  "is_bigint (BigInt _) = True"
| "is_bigint _ = False"

fun as_bigint :: "jsval \<Rightarrow> int" where
  "as_bigint (BigInt i) = i"
| "as_bigint _ = 0"

fun batch_loop ::
  "(Key \<Rightarrow> int completion) \<Rightarrow> (Key \<Rightarrow> int \<Rightarrow> int completion) \<Rightarrow> (Key, jsval) native_map
     \<Rightarrow> Key list \<Rightarrow> (Key, jsval) native_map completion" where
  "batch_loop absent present builder [] = Ok builder"
| "batch_loop absent present builder (key # keys) =
     (case map_of builder key of
        Some previous \<Rightarrow>
          bindC (present key (as_bigint previous)) (\<lambda>v.
            batch_loop absent present (nm_set key (BigInt v) builder) keys)
      | None \<Rightarrow>
          bindC (absent key) (\<lambda>v. batch_loop absent present (nm_set key (BigInt v) builder) keys))"

definition runBatch ::
  "map_identities \<Rightarrow> handle \<Rightarrow> Key list \<Rightarrow> (Key \<Rightarrow> int completion) \<Rightarrow> (Key \<Rightarrow> int \<Rightarrow> int completion)
     \<Rightarrow> map_store \<Rightarrow> (handle completion \<times> map_store) option" where
  "runBatch ids initial keys absent present st =
     (case content st initial of
        None \<Rightarrow> None
      | Some found \<Rightarrow>
          if mc_identity found \<noteq> mi_map ids then None
          else if \<not> list_all (\<lambda>(k, v). is_bigint v) (mc_values found) then None
          else if keys = [] then Some (Ok initial, st)
          else Some (publishC (bindC (batch_loop absent present (mc_values found) keys)
                       (\<lambda>builder. Ok (map_own ids builder))) st))"

section \<open>Native maps as maps\<close>

text \<open>What a client of a native map may rely on: a lookup after an update, and the order.\<close>

locale ordered_map =
  fixes lookup :: "'m \<Rightarrow> 'k \<Rightarrow> 'v option"
    and update :: "'k \<Rightarrow> 'v \<Rightarrow> 'm \<Rightarrow> 'm"
    and keys :: "'m \<Rightarrow> 'k list"
  assumes lookup_update: "lookup (update k v m) = (lookup m)(k \<mapsto> v)"
    and keys_update: "keys (update k v m) = (if lookup m k = None then keys m @ [k] else keys m)"
    and keys_lookup: "set (keys m) = dom (lookup m)"
begin

lemma distinct_keys_update: "distinct (keys m) \<Longrightarrow> distinct (keys (update k v m))"
  by (auto simp: keys_update keys_lookup)

end

lemma map_of_nm_set: "map_of (nm_set k v m) = (map_of m)(k \<mapsto> v)"
  by (induction m) (auto simp: fun_eq_iff)

lemma keys_nm_set:
  "map fst (nm_set k v m) = (if map_of m k = None then map fst m @ [k] else map fst m)"
  by (induction m) auto

interpretation nm: ordered_map map_of nm_set "map fst"
  by unfold_locales (simp_all add: map_of_nm_set keys_nm_set dom_map_of_conv_image_fst)

lemma nm_set_new: "map_of m k = None \<Longrightarrow> nm_set k v m = m @ [(k, v)]"
  by (induction m) (auto split: if_splits)

lemma map_of_nm_delete: "map_of (nm_delete k m) = (map_of m)(k := None)"
  by (induction m) (auto simp: nm_delete_def fun_eq_iff)

lemma distinct_nm_delete: "distinct (map fst m) \<Longrightarrow> distinct (map fst (nm_delete k m))"
  by (simp add: nm_delete_def distinct_map_filter)

section \<open>Refinement of finite maps\<close>

definition map_good :: "map_identities \<Rightarrow> KeyKind \<Rightarrow> map_content \<Rightarrow> bool" where
  "map_good ids kind c \<longleftrightarrow> distinct (map fst (mc_values c))
     \<and> (mc_identity c = mi_map ids \<longrightarrow> list_all (key_typed kind) (map fst (mc_values c)))"

definition maps_ok :: "map_identities \<Rightarrow> KeyKind \<Rightarrow> map_store \<Rightarrow> bool" where
  "maps_ok ids kind st \<longleftrightarrow> store_inv (map_good ids kind) st"

definition yields_map ::
  "map_identities \<Rightarrow> KeyKind \<Rightarrow> map_store \<Rightarrow> handle completion \<times> map_store
     \<Rightarrow> (Key, jsval) native_map \<Rightarrow> bool" where
  "yields_map ids kind st out m \<longleftrightarrow>
     (\<exists>h st'. out = (Ok h, st') \<and> content st' h = Some (map_own ids m) \<and> content st h = None
        \<and> maps_ok ids kind st' \<and> extends st st')"

lemma map_own_sel [simp]:
  "mc_identity (map_own ids m) = mi_map ids" "mc_values (map_own ids m) = m"
  by (simp_all add: map_own_def)

lemma map_backing_own [simp]:
  "content st h = Some (map_own ids m) \<Longrightarrow> map_backing ids st h = Ok m"
  by (simp add: map_backing_def)

lemma maps_okD:
  assumes "maps_ok ids kind st" and "content st h = Some (map_own ids m)"
  shows "distinct (map fst m)" and "list_all (key_typed kind) (map fst m)"
  using store_invD [OF assms(1) [unfolded maps_ok_def] assms(2)] by (auto simp: map_good_def)

lemma yields_map_publish:
  assumes "maps_ok ids kind st" and "distinct (map fst m)" and "list_all (key_typed kind) (map fst m)"
  shows "yields_map ids kind st (publish (map_own ids m) st) m"
proof -
  have inv: "store_inv (map_good ids kind) st" using assms(1) by (simp add: maps_ok_def)
  obtain t st' where p: "publish (map_own ids m) st = (Ok t, st')"
    "content st' t = Some (map_own ids m)" "content st t = None"
    using publish_obtains [OF store_inv_store_ok [OF inv]] by blast
  have "store_inv (map_good ids kind) st' \<and> extends st st'"
    by (rule store_inv_publishC [OF inv, of "Ok (map_own ids m)" "Ok t"])
      (use p assms in \<open>auto simp: map_good_def\<close>)
  then show ?thesis using p by (simp add: yields_map_def maps_ok_def)
qed

lemma maps_ok_empty: "maps_ok ids kind empty_store"
  by (auto simp: maps_ok_def store_inv_def content_def empty_store_def store_ok_def split: handle.splits)

lemma typed_nm_set:
  assumes "list_all (key_typed kind) (map fst m)" and "key_typed kind k"
  shows "list_all (key_typed kind) (map fst (nm_set k v m))"
  using assms by (simp add: keys_nm_set)

lemma build_entries_conv:
  assumes "distinct (map fst es)" and "list_all (key_typed kind) (map fst es)"
    and "\<forall>e \<in> set es. map_of m (fst e) = None"
  shows "build_entries ids kind m es = Ok (m @ es)"
  using assms
proof (induction es arbitrary: m)
  case (Cons e es)
  have "\<forall>e' \<in> set es. map_of (m @ [e]) (fst e') = None"
    using Cons.prems by (cases e) (auto simp: map_add_def split: option.splits)
  then show ?case
    using Cons by (simp add: checkKey_conv nm_has_def nm_set_new)
qed simp

lemma build_map_yields:
  assumes "maps_ok ids kind st" and "distinct (map fst es)" and "list_all (key_typed kind) (map fst es)"
  shows "yields_map ids kind st (build_map ids kind es st) es"
  using yields_map_publish [OF assms] by (simp add: build_map_def build_entries_conv [OF assms(2,3)])

lemma build_entries_duplicate:
  assumes "list_all (key_typed kind) (map fst es)" and "distinct (map fst m)"
    and "\<not> distinct (map fst (m @ es))"
  shows "build_entries ids kind m es = map_error (mi_exists ids)"
  using assms
proof (induction es arbitrary: m)
  case (Cons e es)
  show ?case
  proof (cases "nm_has m (fst e)")
    case False
    then have new: "map_of m (fst e) = None" by (simp add: nm_has_def)
    then have "distinct (map fst (m @ [e]))" using Cons.prems by (auto simp: map_of_eq_None_iff)
    moreover have "nm_set (fst e) (snd e) m = m @ [e]" using new by (simp add: nm_set_new)
    ultimately show ?thesis using False Cons by (simp add: checkKey_conv)
  qed (use Cons.prems in \<open>simp add: checkKey_conv\<close>)
qed simp

text \<open>
  C35: The map operations refine finite maps. On a map of the factory get is the lookup;
  insert extends the map at the end and refuses a key that exists; replace changes the value
  in place and remove deletes the entry, and both refuse an absent key; no refusal changes
  the store, no operation changes an existing map, and bulk construction refuses a repeated
  key and keeps the order of its entries.
\<close>

theorem map_operations_refine:
  assumes "maps_ok ids kind st" and "content st h = Some (map_own ids m)"
    and "key_typed kind k" and "list_all (key_typed kind) (map fst es)"
  shows "getBody ids kind h k st
        = (case map_of m k of Some v \<Rightarrow> Ok v | None \<Rightarrow> Domain (mi_absent ids) [])
    \<and> (if map_of m k = None then yields_map ids kind st (insertBody ids kind h k v st) (m @ [(k, v)])
       else insertBody ids kind h k v st = (Domain (mi_exists ids) [], st))
    \<and> (if map_of m k = None then replaceBody ids kind h k v st = (Domain (mi_absent ids) [], st)
       else \<exists>m'. yields_map ids kind st (replaceBody ids kind h k v st) m'
              \<and> map_of m' = (map_of m)(k \<mapsto> v) \<and> map fst m' = map fst m)
    \<and> (if map_of m k = None then map_remove ids kind h k st = (Domain (mi_absent ids) [], st)
       else yields_map ids kind st (map_remove ids kind h k st) (filter (\<lambda>p. fst p \<noteq> k) m))
    \<and> (if distinct (map fst es) then yields_map ids kind st (build_map ids kind es st) es
       else build_map ids kind es st = (Domain (mi_exists ids) [], st))"
proof -
  have d: "distinct (map fst m)" "list_all (key_typed kind) (map fst m)"
    using maps_okD [OF assms(1,2)] by auto
  have set: "yields_map ids kind st (publish (map_own ids (nm_set k v m)) st) (nm_set k v m)"
    using d assms(3) by (intro yields_map_publish assms(1) nm.distinct_keys_update typed_nm_set)
  have del: "yields_map ids kind st (publish (map_own ids (nm_delete k m)) st) (nm_delete k m)"
    using d by (intro yields_map_publish assms(1) distinct_nm_delete) (auto simp: nm_delete_def list_all_iff)
  have dup: "build_map ids kind es st = (Domain (mi_exists ids) [], st)" if "\<not> distinct (map fst es)"
    using build_entries_duplicate [OF assms(4), of "[]" ids] that by (simp add: build_map_def map_error_def)
  have get: "getBody ids kind h k st
        = (case map_of m k of Some v \<Rightarrow> Ok v | None \<Rightarrow> Domain (mi_absent ids) [])"
    using assms(2,3) by (simp add: getBody_def checkKey_conv map_error_def split: option.split)
  have ins: "if map_of m k = None then yields_map ids kind st (insertBody ids kind h k v st) (m @ [(k, v)])
       else insertBody ids kind h k v st = (Domain (mi_exists ids) [], st)"
    using set assms(2,3) nm_set_new [of m k v]
    by (auto simp: insertBody_def checkKey_conv map_error_def nm_has_def)
  have rep: "if map_of m k = None then replaceBody ids kind h k v st = (Domain (mi_absent ids) [], st)
       else \<exists>m'. yields_map ids kind st (replaceBody ids kind h k v st) m'
              \<and> map_of m' = (map_of m)(k \<mapsto> v) \<and> map fst m' = map fst m"
    using assms(2,3) by (auto simp: replaceBody_def checkKey_conv map_error_def nm_has_def
        map_of_nm_set keys_nm_set intro!: exI [of _ "nm_set k v m"] set)
  have rem: "if map_of m k = None then map_remove ids kind h k st = (Domain (mi_absent ids) [], st)
       else yields_map ids kind st (map_remove ids kind h k st) (filter (\<lambda>p. fst p \<noteq> k) m)"
    using del assms(2,3) by (simp add: map_remove_def checkKey_conv map_error_def nm_has_def nm_delete_def)
  show ?thesis using get ins rep rem dup build_map_yields [OF assms(1) _ assms(4)] by simp
qed

theorem map_operations_refine_witness:
  "\<exists>st h. getBody \<lparr>mi_map = ascii ''m'', mi_entry = ascii ''e'', mi_absent = ascii ''a'', mi_exists = ascii ''x''\<rparr>
       IntKey h (KInt 1) st = Ok (Bool True)"
proof -
  let ?i = "\<lparr>mi_map = ascii ''m'', mi_entry = ascii ''e'', mi_absent = ascii ''a'', mi_exists = ascii ''x''\<rparr>"
  obtain h st where h: "content st h = Some (map_own ?i [(KInt 1, Bool True)])" "maps_ok ?i IntKey st"
    using build_map_yields [OF maps_ok_empty, of "[(KInt 1, Bool True)]" IntKey ?i]
    by (force simp: yields_map_def)
  show ?thesis
    using map_operations_refine [OF h(2,1), of "KInt 1" "[]"] by fastforce
qed

section \<open>The batch reduction\<close>

text \<open>
  The reference: one visit looks the key up and replaces the value found or inserts a new
  one, each time publishing a map; the fold stops at the first failure.
\<close>

definition point_step ::
  "map_identities \<Rightarrow> KeyKind \<Rightarrow> (Key \<Rightarrow> int completion) \<Rightarrow> (Key \<Rightarrow> int \<Rightarrow> int completion)
     \<Rightarrow> handle \<Rightarrow> Key \<Rightarrow> map_store \<Rightarrow> handle completion \<times> map_store" where
  "point_step ids kind absent present h key st =
     (case getBody ids kind h key st of
        Ok previous \<Rightarrow> (case present key (as_bigint previous) of
            Ok v \<Rightarrow> replaceBody ids kind h key (BigInt v) st
          | Domain i p \<Rightarrow> (Domain i p, st) | Standard k s \<Rightarrow> (Standard k s, st))
      | Domain i p \<Rightarrow> (case absent key of
            Ok v \<Rightarrow> insertBody ids kind h key (BigInt v) st
          | Domain i p \<Rightarrow> (Domain i p, st) | Standard k s \<Rightarrow> (Standard k s, st))
      | Standard k s \<Rightarrow> (Standard k s, st))"

fun point_fold ::
  "map_identities \<Rightarrow> KeyKind \<Rightarrow> (Key \<Rightarrow> int completion) \<Rightarrow> (Key \<Rightarrow> int \<Rightarrow> int completion)
     \<Rightarrow> handle \<Rightarrow> Key list \<Rightarrow> map_store \<Rightarrow> handle completion \<times> map_store" where
  "point_fold ids kind absent present h [] st = (Ok h, st)"
| "point_fold ids kind absent present h (key # keys) st =
     (case point_step ids kind absent present h key st of
        (Ok h', st') \<Rightarrow> point_fold ids kind absent present h' keys st'
      | (r, st') \<Rightarrow> (r, st'))"

text \<open>The outcome as a value: the content of the map returned, or the failure.\<close>

definition outcome :: "handle completion \<times> map_store \<Rightarrow> map_content option completion" where
  "outcome out = bindC (fst out) (\<lambda>h. Ok (content (snd out) h))"

definition all_bigint :: "(Key, jsval) native_map \<Rightarrow> bool" where
  "all_bigint m \<longleftrightarrow> list_all (\<lambda>(k, v). is_bigint v) m"

lemma all_bigint_nm_set: "all_bigint m \<Longrightarrow> all_bigint (nm_set k (BigInt v) m)"
  by (induction m) (auto simp: all_bigint_def)

text \<open>One visit is one step of the batch loop, on a published map.\<close>

lemma point_step_conv:
  assumes "maps_ok ids kind st" and "content st h = Some (map_own ids m)" and "key_typed kind k"
    and val_def: "val = (case map_of m k of Some v \<Rightarrow> present k (as_bigint v) | None \<Rightarrow> absent k)"
  shows "case val of
      Ok v \<Rightarrow> yields_map ids kind st (point_step ids kind absent present h k st) (nm_set k (BigInt v) m)
    | Domain i p \<Rightarrow> point_step ids kind absent present h k st = (Domain i p, st)
    | Standard c s \<Rightarrow> point_step ids kind absent present h k st = (Standard c s, st)"
proof -
  have d: "distinct (map fst m)" "list_all (key_typed kind) (map fst m)"
    using maps_okD [OF assms(1,2)] by auto
  have set: "yields_map ids kind st (publish (map_own ids (nm_set k v m)) st) (nm_set k v m)" for v
    using d assms(3) by (intro yields_map_publish assms(1) nm.distinct_keys_update typed_nm_set)
  show ?thesis
    using assms(2,3) set
    by (simp add: val_def point_step_def getBody_def replaceBody_def insertBody_def checkKey_conv
        map_error_def nm_has_def split: option.split completion.split)
qed

lemma point_fold_conv:
  assumes "maps_ok ids kind st" and "content st h = Some (map_own ids m)"
    and "list_all (key_typed kind) ks"
  shows "outcome (point_fold ids kind absent present h ks st)
           = bindC (batch_loop absent present m ks) (\<lambda>b. Ok (Some (map_own ids b)))
       \<and> extends st (snd (point_fold ids kind absent present h ks st))"
  using assms
proof (induction ks arbitrary: h m st)
  case Nil
  then show ?case by (simp add: outcome_def)
next
  case (Cons k ks)
  define val where "val = (case map_of m k of Some v \<Rightarrow> present k (as_bigint v) | None \<Rightarrow> absent k)"
  have loop: "batch_loop absent present m (k # ks)
      = bindC val (\<lambda>v. batch_loop absent present (nm_set k (BigInt v) m) ks)"
    by (simp add: val_def split: option.split)
  have step: "case val of
      Ok v \<Rightarrow> yields_map ids kind st (point_step ids kind absent present h k st) (nm_set k (BigInt v) m)
    | Domain i p \<Rightarrow> point_step ids kind absent present h k st = (Domain i p, st)
    | Standard c s \<Rightarrow> point_step ids kind absent present h k st = (Standard c s, st)"
    by (rule point_step_conv [OF Cons.prems(1,2)]) (use Cons.prems val_def in auto)
  show ?case
  proof (cases val)
    case (Ok v)
    then obtain h' st' where s: "point_step ids kind absent present h k st = (Ok h', st')"
      "content st' h' = Some (map_own ids (nm_set k (BigInt v) m))" "maps_ok ids kind st'" "extends st st'"
      using step by (auto simp: yields_map_def)
    show ?thesis
      using Cons.IH [OF s(3,2)] Cons.prems(3) s(1,4) Ok
      by (auto simp: loop simp del: batch_loop.simps intro: extends_trans)
  qed (use step loop in \<open>auto simp: outcome_def simp del: batch_loop.simps\<close>)
qed

lemma batch_loop_ok:
  assumes "batch_loop absent present m ks = Ok b" and "distinct (map fst m)"
    and "list_all (key_typed kind) (map fst m)" and "list_all (key_typed kind) ks"
  shows "distinct (map fst b) \<and> list_all (key_typed kind) (map fst b)"
  using assms
proof (induction ks arbitrary: m)
  case (Cons k ks)
  obtain v where v: "batch_loop absent present (nm_set k (BigInt v) m) ks = Ok b"
    using Cons.prems(1) by (auto simp: bindC_Ok_conv split: option.splits)
  show ?case
    using Cons.prems by (intro Cons.IH [OF v] nm.distinct_keys_update typed_nm_set) auto
qed simp

text \<open>
  The batch reduction is equivalent to the fold of lookups, replacements and insertions
  it stands for: on a map of the factory whose values are bigints it never declines, ends in
  the same map with the same entry order or in the failure of the same first failing
  transition, and changes no map that existed before.
\<close>

lemma runBatch_equivalent:
  assumes "maps_ok ids kind st" and "content st h = Some (map_own ids m)"
    and "all_bigint m" and "list_all (key_typed kind) ks"
  shows "\<exists>out. runBatch ids h ks absent present st = Some out
     \<and> outcome out = outcome (point_fold ids kind absent present h ks st)
     \<and> extends st (snd out)"
proof (cases "ks = []")
  case True
  then show ?thesis using assms by (simp add: runBatch_def all_bigint_def)
next
  case False
  let ?loop = "batch_loop absent present m ks"
  let ?out = "publishC (bindC ?loop (\<lambda>b. Ok (map_own ids b))) st"
  have run: "runBatch ids h ks absent present st = Some ?out"
    using False assms by (simp add: runBatch_def all_bigint_def)
  have "outcome ?out = bindC ?loop (\<lambda>b. Ok (Some (map_own ids b))) \<and> extends st (snd ?out)"
  proof (cases ?loop)
    case (Ok b)
    have "distinct (map fst b) \<and> list_all (key_typed kind) (map fst b)"
      using batch_loop_ok [OF Ok] maps_okD [OF assms(1,2)] assms(4) by blast
    then have "yields_map ids kind st (publish (map_own ids b) st) b"
      using yields_map_publish [OF assms(1)] by blast
    then show ?thesis using Ok by (auto simp: yields_map_def outcome_def)
  qed (simp_all add: outcome_def)
  then show ?thesis using run point_fold_conv [OF assms(1,2,4)] by simp
qed

end
