(* ===== verification/Arrays.thy ===== *)
theory Arrays
  imports Maps JsString "HOL-Library.Multiset"
begin

text \<open>
  The array operations of \<open>runtime/collections/array.ts\<close> and the worker registrations of
  \<open>runtime/callable.ts\<close> they consult. A callback is a function of its arguments and of the
  state of the program it runs in; its result is the completion the invocation boundary
  authenticates. Elements are visited one after the other, so the state is threaded through.
\<close>

section \<open>Callbacks\<close>

type_synonym ('a, 'b, 's) callback = "'a \<Rightarrow> 's \<Rightarrow> 'b completion \<times> 's"

text \<open>Go on with the value of a success; a failure is thrown to the boundary and returned.\<close>

definition bindS :: "'a completion \<times> 's \<Rightarrow> ('a \<Rightarrow> 's \<Rightarrow> 'b completion \<times> 's) \<Rightarrow> 'b completion \<times> 's" where
  "bindS out f = (case out of
       (Ok x, s) \<Rightarrow> f x s
     | (Domain i p, s) \<Rightarrow> (Domain i p, s)
     | (Standard k m, s) \<Rightarrow> (Standard k m, s))"

lemma bindS_simps [simp]:
  "bindS (Ok x, s) f = f x s"
  "bindS (Domain i p, s) f = (Domain i p, s)"
  "bindS (Standard k m, s) f = (Standard k m, s)"
  by (simp_all add: bindS_def)

lemma bindS_assoc: "bindS (bindS m f) g = bindS m (\<lambda>x s. bindS (f x s) g)"
proof (cases m)
  case (Pair r s)
  then show ?thesis by (cases r) simp_all
qed

lemma bindS_Ok_conv: "bindS m f = (Ok y, s') \<longleftrightarrow> (\<exists>x s. m = (Ok x, s) \<and> f x s = (Ok y, s'))"
proof (cases m)
  case (Pair r s)
  then show ?thesis by (cases r) simp_all
qed

fun observations :: "('a, 'b, 's) callback \<Rightarrow> 'a list \<Rightarrow> 's \<Rightarrow> 'b list completion \<times> 's" where
  "observations action [] s = (Ok [], s)"
| "observations action (x # xs) s =
     bindS (action x s) (\<lambda>v s. bindS (observations action xs s) (\<lambda>vs s. (Ok (v # vs), s)))"

section \<open>Workers\<close>

text \<open>
  The own data of an array that decides whether a native path may read it: it must be a
  frozen array on the unmodified prototype that shadows none of the methods used. Slots are
  dense data.
\<close>

record host_array =
  ha_proxy :: bool
  ha_array :: bool
  ha_prototype :: bool
  ha_frozen :: bool
  ha_symbols :: nat
  ha_own :: "string list"
  ha_slots :: "jsval list"

definition ordinaryElements :: "host_array \<Rightarrow> jsval list option" where
  "ordinaryElements source =
     (if ha_proxy source then None
      else if \<not> ha_array source then None
      else if \<not> ha_prototype source then None
      else if \<not> ha_frozen source then None
      else if ha_symbols source \<noteq> 0 then None
      else if \<exists>key \<in> set [''constructor'', ''keys'', ''map'', ''reduce'']. key \<in> set (ha_own source) then None
      else Some (ha_slots source))"

definition integerElements :: "host_array \<Rightarrow> int list option" where
  "integerElements source =
     (case ordinaryElements source of
        None \<Rightarrow> None
      | Some slots \<Rightarrow> if list_all is_bigint slots then Some (map as_bigint slots) else None)"

fun key_of :: "jsval \<Rightarrow> Key" where
  "key_of (BigInt i) = KInt i"
| "key_of (Bool b) = KBool b"
| "key_of (Str s) = KStr s"
| "key_of _ = KHost 0"

definition leafElements :: "host_array \<Rightarrow> KeyKind \<Rightarrow> jsval list option" where
  "leafElements source keyKind =
     (case ordinaryElements source of
        None \<Rightarrow> None
      | Some slots \<Rightarrow> if list_all (\<lambda>v. key_typed keyKind (key_of v)) slots then Some slots else None)"

text \<open>
  An integer worker. Registration pairs the captured values with their positions among the
  parameters of the companion; a run fills the other positions with the residual arguments.
  A companion that throws is the failure the exception is caught as.
\<close>

record integer_worker =
  iw_arity :: nat
  iw_run :: "int list \<Rightarrow> int completion"

fun operands :: "nat \<Rightarrow> nat \<Rightarrow> (nat \<times> int) list \<Rightarrow> int list \<Rightarrow> int list" where
  "operands slot 0 bound residual = []"
| "operands slot (Suc n) bound residual =
     (case bound of
        (p, v) # rest \<Rightarrow>
          if slot = p then v # operands (Suc slot) n rest residual
          else (case residual of r # rs \<Rightarrow> r # operands (Suc slot) n bound rs | [] \<Rightarrow> [])
      | [] \<Rightarrow> (case residual of r # rs \<Rightarrow> r # operands (Suc slot) n bound rs | [] \<Rightarrow> []))"

definition registerIntegerWorker ::
  "(int list \<Rightarrow> int completion) \<Rightarrow> nat list \<Rightarrow> nat \<Rightarrow> jsval list \<Rightarrow> nat list \<Rightarrow> integer_worker option" where
  "registerIntegerWorker companion positions arity captures resourceIndices =
     (if resourceIndices \<noteq> [] then None
      else if length positions \<noteq> length captures then None
      else if \<not> list_all is_bigint captures then None
      else if positions \<noteq> [] \<and> last positions \<ge> length positions + arity then None
      else Some \<lparr>iw_arity = arity,
                 iw_run = (\<lambda>residual. companion (operands 0 (length positions + arity)
                             (zip positions (map as_bigint captures)) residual))\<rparr>)"

text \<open>Tokens of maps among the values.\<close>

fun handle_of :: "jsval \<Rightarrow> handle" where
  "handle_of (Opaque n) = Token n"
| "handle_of _ = Foreign"

fun value_of :: "handle \<Rightarrow> jsval" where
  "value_of (Token n) = Opaque n"
| "value_of Foreign = Undefined"

record map_leaf_worker =
  lw_kind :: KeyKind
  lw_run :: "jsval \<Rightarrow> jsval \<Rightarrow> map_store \<Rightarrow> jsval completion \<times> map_store"

record map_batch_worker =
  bw_kind :: KeyKind
  bw_factory :: map_identities
  bw_absent :: "Key \<Rightarrow> int completion"
  bw_present :: "Key \<Rightarrow> int \<Rightarrow> int completion"

record trace =
  tr_context :: bool
  tr_owner :: bool

definition unobserved :: "trace \<Rightarrow> bool" where
  "unobserved t \<longleftrightarrow> \<not> tr_context t \<and> \<not> tr_owner t"

section \<open>Operations\<close>


fun worker_reduce :: "integer_worker \<Rightarrow> int \<Rightarrow> int list \<Rightarrow> int completion" where
  "worker_reduce w acc [] = Ok acc"
| "worker_reduce w acc (i # ints) = bindC (iw_run w [acc, i]) (\<lambda>t. worker_reduce w t ints)"


definition array_filter :: "('a, bool, 's) callback \<Rightarrow> 'a list \<Rightarrow> 's \<Rightarrow> 'a list completion \<times> 's" where
  "array_filter action source s =
     bindS (observations action source s) (\<lambda>decisions s.
       (Ok (map fst (filter snd (zip source decisions))), s))"

fun fold_generic :: "('u \<times> 'a, 'u, 's) callback \<Rightarrow> 'u \<Rightarrow> 'a list \<Rightarrow> 's \<Rightarrow> 'u completion \<times> 's" where
  "fold_generic action acc [] s = (Ok acc, s)"
| "fold_generic action acc (x # xs) s = bindS (action (acc, x) s) (\<lambda>acc s. fold_generic action acc xs s)"

definition fold_integer ::
  "trace \<Rightarrow> integer_worker option \<Rightarrow> host_array \<Rightarrow> jsval \<Rightarrow> jsval completion option" where
  "fold_integer t worker source initial =
     (case (worker, integerElements source) of
        (Some w, Some elements) \<Rightarrow>
          if iw_arity w = 2 \<and> unobserved t \<and> is_bigint initial
          then Some (bindC (worker_reduce w (as_bigint initial) elements) (\<lambda>v. Ok (BigInt v)))
          else None
      | _ \<Rightarrow> None)"

definition fold_batch ::
  "trace \<Rightarrow> map_batch_worker option \<Rightarrow> host_array \<Rightarrow> jsval \<Rightarrow> map_store
     \<Rightarrow> (jsval completion \<times> map_store) option" where
  "fold_batch t batched source initial s =
     (case batched of
        None \<Rightarrow> None
      | Some b \<Rightarrow>
          if \<not> unobserved t then None
          else (case leafElements source (bw_kind b) of
              None \<Rightarrow> None
            | Some elements \<Rightarrow>
                (case runBatch (bw_factory b) (handle_of initial) (map key_of elements)
                        (bw_absent b) (bw_present b) s of
                   None \<Rightarrow> None
                 | Some (r, s') \<Rightarrow> Some (bindC r (\<lambda>h. Ok (value_of h)), s'))))"

definition fold_leaf ::
  "trace \<Rightarrow> map_leaf_worker option \<Rightarrow> host_array \<Rightarrow> jsval \<Rightarrow> map_store
     \<Rightarrow> (jsval completion \<times> map_store) option" where
  "fold_leaf t leaf source initial s =
     (case leaf of
        None \<Rightarrow> None
      | Some l \<Rightarrow>
          if \<not> unobserved t then None
          else (case leafElements source (lw_kind l) of
              None \<Rightarrow> None
            | Some elements \<Rightarrow> Some (fold_generic (\<lambda>(m, k). lw_run l m k) initial elements s)))"

definition array_fold ::
  "trace \<Rightarrow> integer_worker option \<Rightarrow> map_batch_worker option \<Rightarrow> map_leaf_worker option
     \<Rightarrow> (jsval \<times> jsval, jsval, map_store) callback \<Rightarrow> host_array \<Rightarrow> jsval \<Rightarrow> map_store
     \<Rightarrow> jsval completion \<times> map_store" where
  "array_fold t worker batched leaf action source initial s =
     (case fold_integer t worker source initial of
        Some r \<Rightarrow> (r, s)
      | None \<Rightarrow> (case fold_batch t batched source initial s of
          Some out \<Rightarrow> out
        | None \<Rightarrow> (case fold_leaf t leaf source initial s of
            Some out \<Rightarrow> out
          | None \<Rightarrow> fold_generic action initial (ha_slots source) s)))"

fun array_forEach :: "('a, unit, 's) callback \<Rightarrow> 'a list \<Rightarrow> 's \<Rightarrow> unit completion \<times> 's" where
  "array_forEach action [] s = (Ok (), s)"
| "array_forEach action (x # xs) s = bindS (action x s) (\<lambda>_ s. array_forEach action xs s)"

fun search :: "('a, bool, 's) callback \<Rightarrow> bool \<Rightarrow> int \<Rightarrow> 'a list \<Rightarrow> 's \<Rightarrow> int completion \<times> 's" where
  "search action stop idx [] s = (Ok (- 1), s)"
| "search action stop idx (x # xs) s =
     bindS (action x s) (\<lambda>v s. if v = stop then (Ok idx, s) else search action stop (idx + 1) xs s)"

definition array_some :: "('a, bool, 's) callback \<Rightarrow> 'a list \<Rightarrow> 's \<Rightarrow> bool completion \<times> 's" where
  "array_some action source s = bindS (search action True 0 source s) (\<lambda>i s. (Ok (i \<noteq> - 1), s))"

definition array_every :: "('a, bool, 's) callback \<Rightarrow> 'a list \<Rightarrow> 's \<Rightarrow> bool completion \<times> 's" where
  "array_every action source s = bindS (search action False 0 source s) (\<lambda>i s. (Ok (i = - 1), s))"

text \<open>The record of identity \<open>none\<close> or of identity \<open>some\<close> with the element found.\<close>

definition array_find ::
  "('a, bool, 's) callback \<Rightarrow> jsstr \<Rightarrow> jsstr \<Rightarrow> 'a list \<Rightarrow> 's \<Rightarrow> (jsstr \<times> 'a option) completion \<times> 's" where
  "array_find action none_id some_id source s =
     bindS (search action True 0 source s) (\<lambda>i s.
       (Ok (if i = - 1 then (none_id, None) else (some_id, Some (source ! nat i))), s))"

text \<open>Sort keys, all of one type in a call, and the comparison of the source.\<close>

datatype sort_key = SKInt int | SKNum jsnum | SKStr jsstr | SKBool bool

fun num_rat :: "jsnum \<Rightarrow> rat" where
  "num_rat (Fin r) = r"
| "num_rat _ = 0"

fun key_less :: "sort_key \<Rightarrow> sort_key \<Rightarrow> bool" where
  "key_less (SKInt a) (SKInt b) = (a < b)"
| "key_less (SKNum a) (SKNum b) = (num_rat a < num_rat b)"
| "key_less (SKStr a) (SKStr b) = str_less a b"
| "key_less (SKBool a) (SKBool b) = (\<not> a \<and> b)"
| "key_less _ _ = False"

fun nonfinite_key :: "sort_key \<Rightarrow> bool" where
  "nonfinite_key (SKNum n) = (n \<in> {NaN, PosInf, NegInf})"
| "nonfinite_key _ = False"

definition nonfiniteSortKeyFailure :: "'a completion" where
  "nonfiniteSortKeyFailure = Standard Arithmetic (ascii ''arithmetic: nonfinite sort key'')"

definition sort_decorate :: "('a, sort_key, 's) callback \<Rightarrow> ('a, sort_key, 's) callback" where
  "sort_decorate action x s =
     bindS (action x s) (\<lambda>k s. if nonfinite_key k then (nonfiniteSortKeyFailure, s) else (Ok k, s))"

definition sort_compare :: "sort_key \<times> nat \<Rightarrow> sort_key \<times> nat \<Rightarrow> int" where
  "sort_compare a b =
     (if key_less (fst a) (fst b) then - 1 else if key_less (fst b) (fst a) then 1
      else int (snd a) - int (snd b))"

text \<open>\<open>toSorted\<close> with a comparison function.\<close>

fun insert_sorted :: "('a \<Rightarrow> 'a \<Rightarrow> int) \<Rightarrow> 'a \<Rightarrow> 'a list \<Rightarrow> 'a list" where
  "insert_sorted cmp x [] = [x]"
| "insert_sorted cmp x (y # ys) = (if cmp x y \<le> 0 then x # y # ys else y # insert_sorted cmp x ys)"

definition toSorted :: "('a \<Rightarrow> 'a \<Rightarrow> int) \<Rightarrow> 'a list \<Rightarrow> 'a list" where
  "toSorted cmp xs = foldr (insert_sorted cmp) xs []"

definition sortBy :: "('a, sort_key, 's) callback \<Rightarrow> 'a list \<Rightarrow> 's \<Rightarrow> 'a list completion \<times> 's" where
  "sortBy action source s =
     bindS (observations (sort_decorate action) source s) (\<lambda>keys s.
       (Ok (map (\<lambda>entry. source ! snd entry) (toSorted sort_compare (zip keys [0..<length source]))), s))"

definition array_concat :: "'a list \<Rightarrow> 'a list \<Rightarrow> 'a list" where
  "array_concat left right = left @ right"

definition toReversed :: "'a list \<Rightarrow> 'a list" where
  "toReversed source = rev source"

definition array_append :: "'a list \<Rightarrow> 'a \<Rightarrow> 'a list" where
  "array_append source item = source @ [item]"

section \<open>Worker paths\<close>





lemma leafElements_SomeD:
  "leafElements source kind = Some vs
    \<Longrightarrow> vs = ha_slots source \<and> list_all (\<lambda>v. key_typed kind (key_of v)) vs"
  by (auto simp: leafElements_def ordinaryElements_def split: option.splits if_splits)





text \<open>
  A run of a registered worker sees the captures exactly at their positions and the residual
  arguments, in order, at all others.
\<close>

lemma operands_interleave:
  assumes "sorted_wrt (<) ps" and "\<forall>p \<in> set ps. b \<le> p \<and> p < b + n"
    and "length vs = length ps" and "length rs + length ps = n"
  shows "nths (operands b n (zip ps vs) rs) {i. i + b \<in> set ps} = vs
    \<and> nths (operands b n (zip ps vs) rs) {i. i + b \<notin> set ps} = rs"
  using assms
proof (induction n arbitrary: b ps vs rs)
  case (Suc n)
  show ?case
  proof (cases "ps \<noteq> [] \<and> hd ps = b")
    case True
    then obtain qs v ws where ps: "ps = b # qs" and vs: "vs = v # ws"
      using Suc.prems(3) by (cases ps; cases vs) auto
    have "b \<notin> set qs" using Suc.prems(1) ps by auto
    moreover have "nths (operands (Suc b) n (zip qs ws) rs) {i. i + Suc b \<in> set qs} = ws
      \<and> nths (operands (Suc b) n (zip qs ws) rs) {i. i + Suc b \<notin> set qs} = rs"
      by (rule Suc.IH) (use Suc.prems ps vs in \<open>auto simp: Suc_le_eq\<close>)
    ultimately show ?thesis by (simp add: ps vs nths_Cons)
  next
    case False
    have nb: "b \<notin> set ps" using False Suc.prems(1,2) by (cases ps) force+
    then have inner: "\<forall>p \<in> set ps. Suc b \<le> p \<and> p < Suc b + n"
      using Suc.prems(2) by (metis Suc_leI add_Suc add_Suc_right le_neq_implies_less)
    then have "card (set ps) \<le> card {Suc b..<Suc b + n}" by (intro card_mono) auto
    then have "length ps \<le> n" using Suc.prems(1) by (simp add: strict_sorted_iff distinct_card)
    then obtain r us where rs: "rs = r # us" using Suc.prems(4) by (cases rs) auto
    have op: "operands b (Suc n) (zip ps vs) rs = r # operands (Suc b) n (zip ps vs) us"
      using False rs by (cases ps; cases vs) auto
    have "nths (operands (Suc b) n (zip ps vs) us) {i. i + Suc b \<in> set ps} = vs
      \<and> nths (operands (Suc b) n (zip ps vs) us) {i. i + Suc b \<notin> set ps} = us"
      by (rule Suc.IH) (use Suc.prems rs inner in auto)
    then show ?thesis using nb unfolding op by (simp add: rs nths_Cons)
  qed
qed simp


section \<open>The batch path\<close>

text \<open>
  A batch worker is registered for a callback that looks the key up in the map and replaces
  the value found or inserts a new one.
\<close>

definition batch_agrees :: "map_batch_worker \<Rightarrow> (jsval \<times> jsval, jsval, map_store) callback \<Rightarrow> bool" where
  "batch_agrees b action \<longleftrightarrow>
     (\<forall>m k s. key_typed (bw_kind b) (key_of k) \<longrightarrow>
        action (m, k) s = bindS (point_step (bw_factory b) (bw_kind b) (bw_absent b) (bw_present b)
                            (handle_of m) (key_of k) s) (\<lambda>h s. (Ok (value_of h), s)))"

text \<open>The result as a value: the content of a map returned, or the failure.\<close>

definition fold_outcome :: "jsval completion \<times> map_store \<Rightarrow> map_content option completion" where
  "fold_outcome out = bindC (fst out) (\<lambda>v. Ok (content (snd out) (handle_of v)))"

lemma handle_of_value_of [simp]: "handle_of (value_of h) = h"
  by (cases h) simp_all

lemma fold_generic_point_fold:
  assumes "batch_agrees b action" and "list_all (\<lambda>v. key_typed (bw_kind b) (key_of v)) ks"
    and "handle_of m = h"
  shows "fold_outcome (fold_generic action m ks s)
       = outcome (point_fold (bw_factory b) (bw_kind b) (bw_absent b) (bw_present b) h (map key_of ks) s)"
  using assms(2,3)
proof (induction ks arbitrary: m h s)
  case Nil
  then show ?case by (simp add: fold_outcome_def outcome_def)
next
  case (Cons k ks)
  let ?p = "point_step (bw_factory b) (bw_kind b) (bw_absent b) (bw_present b) h (key_of k) s"
  have act: "action (m, k) s = bindS ?p (\<lambda>h s. (Ok (value_of h), s))"
    using assms(1) Cons.prems by (simp add: batch_agrees_def)
  show ?case
    using Cons.IH [of "value_of (case fst ?p of Ok h' \<Rightarrow> h')"] Cons.prems
    by (cases ?p; cases "fst ?p") (simp_all add: act fold_outcome_def outcome_def)
qed

text \<open>
  C36: A fold over a map of bigints through the registered batch worker, with one private copy
  of the map, has the outcome of the generic fold that publishes a map per element: the same
  entries in the same order, or the failure of the same element.
\<close>

theorem batch_fold_equivalent:
  assumes "maps_ok (bw_factory b) (bw_kind b) st"
    and "content st (handle_of initial) = Some (map_own (bw_factory b) m)" and "all_bigint m"
    and "leafElements source (bw_kind b) = Some ks" and "batch_agrees b action" and "unobserved t"
  shows "fold_outcome (array_fold t None (Some b) leaf action source initial st)
       = fold_outcome (fold_generic action initial (ha_slots source) st)"
proof -
  have ks: "ks = ha_slots source" "list_all (\<lambda>v. key_typed (bw_kind b) (key_of v)) ks"
    using leafElements_SomeD [OF assms(4)] by auto
  have typed: "list_all (key_typed (bw_kind b)) (map key_of ks)" using ks(2) by (simp add: list_all_iff)
  let ?point = "point_fold (bw_factory b) (bw_kind b) (bw_absent b) (bw_present b) (handle_of initial) (map key_of ks) st"
  obtain r st' where run: "runBatch (bw_factory b) (handle_of initial) (map key_of ks) (bw_absent b) (bw_present b) st
      = Some (r, st')" "outcome (r, st') = outcome ?point"
    using runBatch_equivalent [OF assms(1-3) typed, of "bw_absent b" "bw_present b"] by auto
  have "fold_outcome (array_fold t None (Some b) leaf action source initial st) = outcome (r, st')"
    using run(1) assms(4,6)
    by (cases r) (simp_all add: array_fold_def fold_integer_def fold_batch_def fold_outcome_def outcome_def)
  then show ?thesis using run(2) fold_generic_point_fold [OF assms(5) ks(2) refl] ks(1) by simp
qed

definition counting_ids :: map_identities where
  "counting_ids = \<lparr>mi_map = ascii ''m'', mi_entry = ascii ''e'', mi_absent = ascii ''a'', mi_exists = ascii ''x''\<rparr>"

definition counting_batch :: map_batch_worker where
  "counting_batch = \<lparr>bw_kind = BoolKey, bw_factory = counting_ids, bw_absent = (\<lambda>_. Ok 1),
     bw_present = (\<lambda>_ n. Ok (n + 1))\<rparr>"

definition counting_action :: "(jsval \<times> jsval, jsval, map_store) callback" where
  "counting_action = (\<lambda>(m, k) s. bindS (point_step counting_ids BoolKey (\<lambda>_. Ok 1) (\<lambda>_ n. Ok (n + 1))
     (handle_of m) (key_of k) s) (\<lambda>h s. (Ok (value_of h), s)))"

theorem batch_fold_equivalent_witness:
  "\<exists>st initial. fold_outcome (array_fold \<lparr>tr_context = False, tr_owner = False\<rparr> None (Some counting_batch) None
       counting_action
       \<lparr>ha_proxy = False, ha_array = True, ha_prototype = True, ha_frozen = True, ha_symbols = 0,
        ha_own = [], ha_slots = [Bool True, Bool False, Bool True]\<rparr> initial st)
     = Ok (Some (map_own counting_ids [(KBool False, BigInt 8), (KBool True, BigInt 2)]))"
proof -
  let ?src = "\<lparr>ha_proxy = False, ha_array = True, ha_prototype = True, ha_frozen = True, ha_symbols = 0,
        ha_own = [], ha_slots = [Bool True, Bool False, Bool True]\<rparr>"
  obtain h st where h: "content st h = Some (map_own counting_ids [(KBool False, BigInt 7)])"
    "maps_ok counting_ids BoolKey st"
    using build_map_yields [OF maps_ok_empty, of "[(KBool False, BigInt 7)]" BoolKey counting_ids]
    by (force simp: yields_map_def)
  have agrees: "batch_agrees counting_batch counting_action"
    by (simp add: batch_agrees_def counting_batch_def counting_action_def)
  have "fold_outcome (fold_generic counting_action (value_of h) (ha_slots ?src) st)
      = Ok (Some (map_own counting_ids [(KBool False, BigInt 8), (KBool True, BigInt 2)]))"
    using fold_generic_point_fold [OF agrees, of "ha_slots ?src" "value_of h" h st]
      point_fold_conv [OF h(2,1), of "map key_of (ha_slots ?src)" "\<lambda>_. Ok 1" "\<lambda>_ n. Ok (n + 1)"]
    by (simp add: counting_batch_def del: point_fold.simps)
  then show ?thesis
    using batch_fold_equivalent [OF _ _ _ _ agrees, of st "value_of h" "[(KBool False, BigInt 7)]" ?src
        "ha_slots ?src" "\<lparr>tr_context = False, tr_owner = False\<rparr>" None] h
    by (fastforce simp: counting_batch_def all_bigint_def leafElements_def ordinaryElements_def unobserved_def
        simp del: fold_generic.simps)
qed

section \<open>Searching\<close>

lemma search_prefix:
  assumes "observations action ys s = (Ok vs, s1)" and "stop \<notin> set vs"
  shows "search action stop i (ys @ zs) s = search action stop (i + int (length ys)) zs s1"
  using assms
proof (induction ys arbitrary: i s vs)
  case (Cons y ys)
  obtain v s2 ws where "action y s = (Ok v, s2)" "observations action ys s2 = (Ok ws, s1)" "vs = v # ws"
    using Cons.prems(1) by (auto simp: bindS_Ok_conv)
  then show ?case
    using Cons.IH [of s2 ws "i + 1"] Cons.prems(2) by (cases stop) (simp_all add: algebra_simps)
qed simp

text \<open>
  Searches stop at the first decisive element. When the callback answers without the
  stop value on a prefix and with it, or with a failure, on the next element, some, every and
  find return that decision, the element found, or that failure, and no later element is
  visited: the state is the one that visit left. On an array without a decisive element every
  element is visited once, in order.
\<close>

lemma search_short_circuits:
  assumes "observations action ys s = (Ok vs, s1)" and "stop \<notin> set vs"
    and "action x s1 = (r, s2)" and "\<And>v. r = Ok v \<Longrightarrow> v = stop"
  shows "if stop
    then array_some action (ys @ x # zs) s = (bindC r (\<lambda>_. Ok True), s2)
       \<and> array_find action n j (ys @ x # zs) s = (bindC r (\<lambda>_. Ok (j, Some x)), s2)
       \<and> array_some action ys s = (Ok False, s1) \<and> array_find action n j ys s = (Ok (n, None), s1)
    else array_every action (ys @ x # zs) s = (bindC r (\<lambda>_. Ok False), s2)
       \<and> array_every action ys s = (Ok True, s1)"
proof -
  have "search action stop 0 (ys @ x # zs) s = (bindC r (\<lambda>_. Ok (int (length ys))), s2)"
    using assms(4) by (cases r) (simp_all add: search_prefix [OF assms(1,2)] assms(3))
  moreover have "search action stop 0 ys s = (Ok (- 1), s1)"
    using search_prefix [OF assms(1,2), of 0 "[]"] by simp
  ultimately show ?thesis
    by (cases stop; cases r) (simp_all add: array_some_def array_every_def array_find_def)
qed

lemma array_filter_conv:
  assumes "observations action xs s = (Ok vs, s')"
  shows "array_filter action xs s = (Ok (map fst (filter snd (zip xs vs))), s')"
  using assms by (simp add: array_filter_def)

section \<open>Sorting\<close>

text \<open>
  A comparison function that is total and transitive on the elements of a list sorts it,
  whatever the elements are.
\<close>

locale comparator =
  fixes cmp :: "'a \<Rightarrow> 'a \<Rightarrow> int" and carrier :: "'a set"
  assumes total: "a \<in> carrier \<Longrightarrow> b \<in> carrier \<Longrightarrow> cmp a b \<le> 0 \<or> cmp b a \<le> 0"
    and trans: "a \<in> carrier \<Longrightarrow> b \<in> carrier \<Longrightarrow> c \<in> carrier \<Longrightarrow> cmp a b \<le> 0 \<Longrightarrow> cmp b c \<le> 0 \<Longrightarrow> cmp a c \<le> 0"
begin

lemma mset_insert_sorted: "mset (insert_sorted cmp x ys) = add_mset x (mset ys)"
  by (induction ys) auto

lemma set_insert_sorted: "set (insert_sorted cmp x ys) = insert x (set ys)"
  using arg_cong [OF mset_insert_sorted, of set_mset] by simp

lemma mset_toSorted: "mset (toSorted cmp xs) = mset xs"
  by (induction xs) (auto simp: toSorted_def mset_insert_sorted)

lemma set_toSorted: "set (toSorted cmp xs) = set xs"
  using arg_cong [OF mset_toSorted, of set_mset] by simp

lemma sorted_insert_sorted:
  assumes "insert x (set ys) \<subseteq> carrier" and "sorted_wrt (\<lambda>a b. cmp a b \<le> 0) ys"
  shows "sorted_wrt (\<lambda>a b. cmp a b \<le> 0) (insert_sorted cmp x ys)"
  using assms
proof (induction ys)
  case (Cons y ys)
  show ?case
  proof (cases "cmp x y \<le> 0")
    case True
    then show ?thesis using Cons.prems trans [of x y] by auto
  next
    case False
    then have "cmp y x \<le> 0" using Cons.prems total [of x y] by auto
    then show ?thesis using False Cons by (auto simp: set_insert_sorted)
  qed
qed simp

lemma sorted_toSorted:
  "set xs \<subseteq> carrier \<Longrightarrow> sorted_wrt (\<lambda>a b. cmp a b \<le> 0) (toSorted cmp xs)"
proof (induction xs)
  case (Cons x xs)
  then show ?case
    using sorted_insert_sorted [of x "toSorted cmp xs"] set_toSorted [of xs] by (simp add: toSorted_def)
qed (simp add: toSorted_def)

end

fun key_tag :: "sort_key \<Rightarrow> nat" where
  "key_tag (SKInt _) = 0"
| "key_tag (SKNum _) = 1"
| "key_tag (SKStr _) = 2"
| "key_tag (SKBool _) = 3"

definition key_le :: "sort_key \<Rightarrow> sort_key \<Rightarrow> bool" where
  "key_le a b \<longleftrightarrow> \<not> key_less b a"

lemma key_less_asym: "key_less a b \<Longrightarrow> \<not> key_less b a"
  by (cases a; cases b) (auto dest: str_less_trans)

lemma key_le_trans:
  assumes "key_tag a = t" "key_tag b = t" "key_tag c = t" and "key_le a b" "key_le b c"
  shows "key_le a c"
proof (cases b)
  case (SKStr y)
  then obtain x z where "a = SKStr x" "c = SKStr z" using assms by (cases a; cases c) auto
  then show ?thesis
    using assms(4,5) SKStr str_less_total [of x y] str_less_total [of y z] str_less_trans
    by (auto simp: key_le_def)
qed (use assms in \<open>cases a; cases c; auto simp: key_le_def\<close>)+

lemma sort_compare_le:
  "sort_compare a b \<le> 0 \<longleftrightarrow> key_less (fst a) (fst b) \<or> key_le (fst a) (fst b) \<and> snd a \<le> snd b"
  using key_less_asym by (auto simp: sort_compare_def key_le_def)

interpretation sc: comparator sort_compare "{a. key_tag (fst a) = t}" for t
proof
  fix a b c :: "sort_key \<times> nat"
  assume tags: "a \<in> {a. key_tag (fst a) = t}" "b \<in> {a. key_tag (fst a) = t}"
  show "sort_compare a b \<le> 0 \<or> sort_compare b a \<le> 0"
    by (auto simp: sort_compare_le key_le_def)
  assume "c \<in> {a. key_tag (fst a) = t}" and le: "sort_compare a b \<le> 0" "sort_compare b c \<le> 0"
  then have tr: "key_le x y \<Longrightarrow> key_le y z \<Longrightarrow> key_le x z"
    if "{x, y, z} \<subseteq> {fst a, fst b, fst c}" for x y z
    using that tags key_le_trans [of x t y z] by auto
  have "key_le (fst a) (fst b)" "key_le (fst b) (fst c)"
    using le key_less_asym by (auto simp: sort_compare_le key_le_def)
  moreover have "\<not> key_less (fst a) (fst c) \<Longrightarrow> key_le (fst c) (fst a)" by (simp add: key_le_def)
  ultimately show "sort_compare a c \<le> 0"
    using le tr [of "fst a" "fst b" "fst c"] tr [of "fst c" "fst a" "fst b"] tr [of "fst b" "fst c" "fst a"]
    by (auto simp: sort_compare_le key_le_def)
qed

lemma observations_decorate:
  "observations action xs s = (Ok keys, s') \<Longrightarrow> \<forall>k \<in> set keys. \<not> nonfinite_key k
    \<Longrightarrow> observations (sort_decorate action) xs s = (Ok keys, s')"
proof (induction xs arbitrary: s keys)
  case (Cons x xs)
  obtain k s1 ks where "action x s = (Ok k, s1)" "observations action xs s1 = (Ok ks, s')" "keys = k # ks"
    using Cons.prems(1) by (auto simp: bindS_Ok_conv)
  then show ?case using Cons by (simp add: sort_decorate_def)
qed simp

lemma observations_length: "observations action xs s = (Ok vs, s') \<Longrightarrow> length vs = length xs"
  by (induction xs arbitrary: s vs) (auto simp: bindS_Ok_conv)

lemma sorted_snd_unique:
  fixes xs ys :: "('k \<times> nat) list"
  assumes "mset xs = mset ys" and "sorted (map snd xs)" and "sorted (map snd ys)" and "distinct (map snd ys)"
  shows "xs = ys"
proof -
  have "mset (map snd xs) = mset (map snd ys)" using assms(1) by simp
  then have "map snd xs = map snd ys" using assms(2,3) by (metis properties_for_sort)
  moreover have "set xs = set ys" using assms(1) by (rule mset_eq_setD)
  ultimately show ?thesis using assms(4) by (auto simp: distinct_map intro: map_inj_on)
qed

definition key_equiv :: "sort_key \<Rightarrow> sort_key \<Rightarrow> bool" where
  "key_equiv a b \<longleftrightarrow> key_le a b \<and> key_le b a"

lemma toSorted_stable:
  assumes tags: "\<forall>k \<in> set keys. key_tag k = t" and len: "length keys = n" and k: "k \<in> set keys"
  shows "filter (\<lambda>e. key_equiv (fst e) k) (toSorted sort_compare (zip keys [0..<n]))
       = filter (\<lambda>e. key_equiv (fst e) k) (zip keys [0..<n])"
proof (rule sorted_snd_unique)
  let ?P = "\<lambda>e :: sort_key \<times> nat. key_equiv (fst e) k" and ?D = "zip keys [0..<n]"
  have D: "map snd ?D = [0..<n]" "set (map fst ?D) = set keys" using len by (simp_all flip: set_map)
  have carrier: "set ?D \<subseteq> {a. key_tag (fst a) = t}" using tags D(2) by auto
  show "mset (filter ?P (toSorted sort_compare ?D)) = mset (filter ?P ?D)"
    by (simp add: sc.mset_toSorted)
  have "sorted_wrt (\<lambda>a b. sort_compare a b \<le> 0) (filter ?P (toSorted sort_compare ?D))"
    using sc.sorted_toSorted [OF carrier] by (rule sorted_wrt_filter)
  then have "sorted_wrt (\<lambda>a b. snd a \<le> snd b) (filter ?P (toSorted sort_compare ?D))"
  proof (rule sorted_wrt_mono_rel [rotated])
    fix a b assume ab: "a \<in> set (filter ?P (toSorted sort_compare ?D))"
      "b \<in> set (filter ?P (toSorted sort_compare ?D))" and le: "sort_compare a b \<le> 0"
    then have "key_tag (fst a) = t" "key_tag (fst b) = t" using carrier by (auto simp: sc.set_toSorted)
    then have "key_le (fst b) (fst a)"
      using ab tags k key_le_trans [of "fst b" t k "fst a"] by (auto simp: key_equiv_def)
    then show "snd a \<le> snd b" using le by (auto simp: sort_compare_le key_le_def)
  qed
  then show "sorted (map snd (filter ?P (toSorted sort_compare ?D)))" by (simp add: sorted_map)
  have "sorted (map snd ?D)" "distinct (map snd ?D)" by (simp_all add: D)
  then show "sorted (map snd (filter ?P ?D))" "distinct (map snd (filter ?P ?D))"
    by (simp_all add: sorted_map sorted_wrt_filter distinct_map_filter)
qed

text \<open>
  C38: sortBy computes every key once, in order, and returns the elements in ascending order
  of their keys; elements with equivalent keys keep their relative order.
\<close>

theorem sortBy_stable:
  assumes obs: "observations action xs s = (Ok keys, s')"
    and fin: "\<forall>k \<in> set keys. \<not> nonfinite_key k" and tags: "\<forall>k \<in> set keys. key_tag k = t"
  shows "\<exists>zs. sortBy action xs s = (Ok (map snd zs), s')
    \<and> mset zs = mset (zip keys xs) \<and> sorted_wrt (\<lambda>a b. key_le (fst a) (fst b)) zs
    \<and> (\<forall>k \<in> set keys. filter (\<lambda>z. key_equiv (fst z) k) zs = filter (\<lambda>z. key_equiv (fst z) k) (zip keys xs))"
proof -
  let ?D = "zip keys [0..<length xs]" and ?e = "\<lambda>(k, i). (k, xs ! i)"
  let ?T = "toSorted sort_compare ?D"
  let ?zs = "map ?e ?T"
  have len: "length keys = length xs" using obs by (rule observations_length)
  have carrier: "set ?D \<subseteq> {a. key_tag (fst a) = t}" using tags by (auto dest: set_zip_leftD)
  have D: "map ?e ?D = zip keys xs"
  proof -
    have "map ?e ?D = zip keys (map ((!) xs) [0..<length xs])" by (simp add: zip_map2 split_beta)
    then show ?thesis by (simp add: map_nth)
  qed
  have run: "sortBy action xs s = (Ok (map snd ?zs), s')"
    using observations_decorate [OF obs fin] by (simp add: sortBy_def split_beta comp_def)
  have perm: "mset ?zs = mset (zip keys xs)"
    using arg_cong [OF sc.mset_toSorted [of ?D], of "image_mset ?e"] D by (simp flip: mset_map)
  have "sorted_wrt (\<lambda>a b. key_le (fst a) (fst b)) ?T"
    using sc.sorted_toSorted [OF carrier]
    by (rule sorted_wrt_mono_rel [rotated]) (auto simp: sort_compare_le key_le_def dest: key_less_asym)
  then have sorted: "sorted_wrt (\<lambda>a b. key_le (fst a) (fst b)) ?zs" by (simp add: sorted_wrt_map split_beta)
  have "filter (\<lambda>z. key_equiv (fst z) k) ?zs = filter (\<lambda>z. key_equiv (fst z) k) (zip keys xs)"
    if "k \<in> set keys" for k
    using toSorted_stable [OF tags len that]
    by (simp add: filter_map comp_def split_beta flip: D)
  then show ?thesis using run perm sorted by blast
qed

theorem sortBy_stable_witness:
  "\<exists>zs. sortBy (\<lambda>x n. (Ok (SKInt (x mod 3)), n + 1)) [5, 3, 2, 6 :: int] (0 :: nat) = (Ok (map snd zs), 4)
     \<and> filter (\<lambda>z. key_equiv (fst z) (SKInt 2)) zs = [(SKInt 2, 5), (SKInt 2, 2)]"
  using sortBy_stable [of "\<lambda>x n. (Ok (SKInt (x mod 3)), n + 1)" "[5, 3, 2, 6 :: int]" "0 :: nat"
      "[SKInt 2, SKInt 0, SKInt 2, SKInt 0]" 4 0]
  by (fastforce simp: key_equiv_def key_le_def)

text \<open>A key that is not finite stops the sort after the visit that produced it.\<close>

lemma observations_append:
  "observations action (xs @ ys) s =
     bindS (observations action xs s) (\<lambda>vs s. bindS (observations action ys s) (\<lambda>ws s. (Ok (vs @ ws), s)))"
proof (induction xs arbitrary: s)
  case Nil
  show ?case by (cases "observations action ys s"; cases "fst (observations action ys s)") simp_all
qed (simp add: bindS_assoc)

lemma sortBy_nonfinite:
  assumes "observations action ys s = (Ok keys, s1)" and "\<forall>k \<in> set keys. \<not> nonfinite_key k"
    and "action x s1 = (Ok k, s2)" and "nonfinite_key k"
  shows "sortBy action (ys @ x # zs) s = (nonfiniteSortKeyFailure, s2)"
proof -
  have "sort_decorate action x s1 = (nonfiniteSortKeyFailure, s2)"
    using assms(3,4) by (simp add: sort_decorate_def)
  then show ?thesis
    using observations_decorate [OF assms(1,2)]
    by (simp add: sortBy_def observations_append nonfiniteSortKeyFailure_def)
qed

end
