(* ===== verification/CodecBudget.thy ===== *)
theory CodecBudget
  imports Numbers
begin

text \<open>
  The private limits of the codec (\<open>runtime/codec/budget.ts\<close>) and its exact integers
  (\<open>runtime/codec/numbers.ts\<close>): numeric tokens become bigints, and bigints texts, without
  ever building a number larger than the budget allows.
\<close>

section \<open>Issues and budgets\<close>

datatype reason =
    Utf8 | UnicodeScalar | ByteRange | InvalidJson | InvalidToml | InvalidYaml | InvalidJson5
  | DuplicateMember | MissingMember | ExtraMember | TypeReason | IntegerToken | Nonfinite
  | VariantTag | Cycle | DepthLimit | NodeLimit | ByteLimit | MediaType | RowLimit
  | RowValueLimit | Charset

text \<open>A thrown \<open>CodecIssue\<close> with its path and reason, or another exception.\<close>

datatype codec_exn = Issue jsstr reason | Fault js_exn

type_synonym 'a codec = "codec_exn + 'a"

definition bindK :: "'a codec \<Rightarrow> ('a \<Rightarrow> 'b codec) \<Rightarrow> 'b codec" where
  "bindK m f = (case m of Inl e \<Rightarrow> Inl e | Inr x \<Rightarrow> f x)"

lemma bindK_simps [simp]:
  "bindK (Inl e) f = Inl e"
  "bindK (Inr x) f = f x"
  by (simp_all add: bindK_def)

lemma bindK_Inr_conv: "bindK m f = Inr y \<longleftrightarrow> (\<exists>x. m = Inr x \<and> f x = Inr y)"
  by (cases m) auto

definition standaloneBytes :: int where
  "standaloneBytes = 8388608"

definition maxDepth :: int where
  "maxDepth = 64"

definition maxNodes :: int where
  "maxNodes = 1000000"

record Budget =
  bytes :: int
  remaining :: int
  nodes :: int

definition new_Budget :: "int \<Rightarrow> Budget codec" where
  "new_Budget n =
     (if \<not> safe_int n \<or> n < 1 \<or> n > 67108864 then Inl (Fault (TypeError ''invalid private codec budget''))
      else Inr \<lparr>bytes = n, remaining = n, nodes = 0\<rparr>)"

definition charge :: "int \<Rightarrow> jsstr \<Rightarrow> Budget \<Rightarrow> Budget codec" where
  "charge amount path b =
     (if \<not> safe_int amount \<or> amount < 0 then Inl (Fault (TypeError ''invalid codec charge''))
      else if amount > remaining b then Inl (Issue path ByteLimit)
      else Inr (b\<lparr>remaining := remaining b - amount\<rparr>))"

definition visit :: "int \<Rightarrow> jsstr \<Rightarrow> Budget \<Rightarrow> Budget codec" where
  "visit depth path b =
     (if depth > maxDepth then Inl (Issue path DepthLimit)
      else if nodes b + 1 > maxNodes then Inl (Issue path NodeLimit)
      else Inr (b\<lparr>nodes := nodes b + 1\<rparr>))"

text \<open>A step of a JSON pointer: the separators inside a key are escaped.\<close>

definition replace_unit :: "code_unit \<Rightarrow> jsstr \<Rightarrow> jsstr \<Rightarrow> jsstr" where
  "replace_unit u r s = concat (map (\<lambda>c. if c = u then r else [c]) s)"

definition childPath :: "jsstr \<Rightarrow> jsstr \<Rightarrow> jsstr" where
  "childPath parent key = parent @ [47] @ replace_unit 47 [126, 49] (replace_unit 126 [126, 48] key)"

section \<open>Integers\<close>

definition compareExponent :: "jsstr \<Rightarrow> int \<Rightarrow> int" where
  "compareExponent source bound =
     (let negative = (source \<noteq> [] \<and> hd source = 45);
          unsigned = (if source \<noteq> [] \<and> (hd source = 45 \<or> hd source = 43) then tl source else source);
          digits = dropWhile (\<lambda>u. u = 48) unsigned
      in if digits = [] then (if bound = 0 then 0 else if bound > 0 then - 1 else 1)
         else if negative \<noteq> (bound < 0) then (if negative then - 1 else 1)
         else (let limit = int_string \<bar>bound\<bar>;
                   magnitude =
                     (if length digits \<noteq> length limit
                      then (if length digits < length limit then - 1 else 1)
                      else if digits = limit then 0
                      else if str_less digits limit then - 1 else 1)
               in if negative then - magnitude else magnitude))"

text \<open>The components of a numeric token: sign, integer digits, fraction digits, exponent.\<close>

definition numeric_parts :: "jsstr \<Rightarrow> (bool \<times> jsstr \<times> jsstr \<times> jsstr option) option" where
  "numeric_parts token =
     (let (negative, s) = strip_sign token;
          ip = takeWhile is_digit_unit s; rest = dropWhile is_digit_unit s;
          point = (rest \<noteq> [] \<and> hd rest = 46);
          fp = (if point then takeWhile is_digit_unit (tl rest) else []);
          rest' = (if point then dropWhile is_digit_unit (tl rest) else rest)
      in if ip = [] \<or> (point \<and> fp = []) then None
         else if rest' = [] then Some (negative, ip, fp, None)
         else if exponent_suffix rest' \<noteq> None then Some (negative, ip, fp, Some (tl rest'))
         else None)"

text \<open>The part of the decoder that scales a coefficient without leading zeros.\<close>

definition scaleCoefficient ::
  "bool \<Rightarrow> jsstr \<Rightarrow> int \<Rightarrow> jsstr \<Rightarrow> jsstr \<Rightarrow> Budget \<Rightarrow> (int \<times> Budget) codec" where
  "scaleCoefficient negative coefficient fractionLength exponent path b =
     (let trailing = int (length (takeWhile (\<lambda>u. u = 48) (rev coefficient)));
          len = int (length coefficient);
          sign = (if negative then 1 else 0)
      in if compareExponent exponent (fractionLength - trailing) < 0 then Inl (Issue path IntegerToken)
         else if compareExponent exponent (remaining b - sign - len + fractionLength) > 0
         then Inl (Issue path ByteLimit)
         else
           let shift = the (exponent_part exponent) - fractionLength;
               digits = (if shift \<ge> 0 then coefficient @ replicate (nat shift) 48
                         else take (nat (len + shift)) coefficient)
           in bindK (charge (len + shift + sign) path b) (\<lambda>b.
                Inr (if negative then - units_value digits else units_value digits, b)))"

definition decodeInteger :: "jsstr \<Rightarrow> jsstr \<Rightarrow> Budget \<Rightarrow> (int \<times> Budget) codec" where
  "decodeInteger token path b =
     (if int (length token) > bytes b then Inl (Issue path ByteLimit)
      else (case numeric_parts token of
          None \<Rightarrow> Inl (Fault (TypeError ''missing native numeric token evidence''))
        | Some (negative, ip, fraction, ex) \<Rightarrow>
            let coefficient = dropWhile (\<lambda>u. u = 48) (ip @ fraction);
                exponent = (case ex of Some e \<Rightarrow> e | None \<Rightarrow> [48])
            in if coefficient = [] then bindK (charge 1 path b) (\<lambda>b. Inr (0, b))
               else scaleCoefficient negative coefficient (int (length fraction)) exponent path b))"

definition encodeInteger :: "int \<Rightarrow> jsstr \<Rightarrow> Budget \<Rightarrow> (jsstr \<times> Budget) codec" where
  "encodeInteger v path b =
     (let sign = (if v < 0 then 1 else 0); digits = remaining b - sign in
      if digits < 1 then Inl (Issue path ByteLimit)
      else if \<not> (remaining b \<ge> 20 \<and> v > - 10000000000000000000 \<and> v < 10000000000000000000)
           \<and> (v \<ge> 10 ^ nat digits \<or> v \<le> - (10 ^ nat digits))
      then Inl (Issue path ByteLimit)
      else bindK (charge (int (length (int_string v))) path b) (\<lambda>b. Inr (int_string v, b)))"

section \<open>Comparing exponents\<close>

lemma units_value_Nil [simp]: "units_value [] = 0"
  by (simp add: units_value_def)

lemma units_value_append: "units_value (s @ t) = units_value s * 10 ^ length t + units_value t"
proof (induction t rule: rev_induct)
  case (snoc u t)
  then show ?case using units_value_snoc [of "s @ t" u] units_value_snoc [of t u] by simp
qed simp

lemma units_value_zeros [simp]: "units_value (replicate n 48) = 0"
proof (induction n)
  case (Suc n)
  have "replicate (Suc n) (48 :: code_unit) = replicate n 48 @ [48]" by (simp add: replicate_append_same)
  then show ?case using Suc units_value_snoc [of "replicate n 48" 48] by simp
qed simp

lemma units_value_dropWhile [simp]: "units_value (dropWhile (\<lambda>u. u = 48) s) = units_value s"
proof -
  have "takeWhile (\<lambda>u. u = 48) s = replicate (length (takeWhile (\<lambda>u. u = 48) s)) 48"
    by (induction s) auto
  then have "units_value (takeWhile (\<lambda>u. u = 48) s) = 0" using units_value_zeros by metis
  then show ?thesis
    using units_value_append [of "takeWhile (\<lambda>u. u = 48) s" "dropWhile (\<lambda>u. u = 48) s"] by simp
qed

lemma digit_unit_48: "digit_unit 0 = 48"
  by (simp add: digit_unit_def)

lemma dropWhile_plain:
  assumes "list_all is_digit_unit s" and "dropWhile (\<lambda>u. u = 48) s \<noteq> []"
  shows "plain_integer (dropWhile (\<lambda>u. u = 48) s)"
  using assms hd_dropWhile [of "\<lambda>u. u = 48" s]
  by (auto simp: plain_integer_def digit_unit_48 list_all_iff dest: set_dropWhileD)

lemma units_value_less: "list_all is_digit_unit s \<Longrightarrow> units_value s < 10 ^ length s"
proof (induction s rule: rev_induct)
  case (snoc u s)
  then show ?case by (auto simp: units_value_snoc is_digit_unit_def in_range_def)
qed simp

lemma units_value_ge:
  assumes "list_all is_digit_unit s" and "s \<noteq> []" and "hd s \<noteq> 48"
  shows "10 ^ (length s - 1) \<le> units_value s"
proof -
  obtain u t where s: "s = u # t" using assms(2) by (cases s) auto
  have "1 \<le> units_value [u]"
    using units_value_pos [of "[u]"] assms s by (simp add: digit_unit_48)
  moreover have "0 \<le> units_value t" using units_value_nonneg assms s by simp
  moreover have "1 * 10 ^ length t \<le> units_value [u] * 10 ^ length t"
    using \<open>1 \<le> units_value [u]\<close> by (intro mult_right_mono) auto
  ultimately have "10 ^ length t \<le> units_value [u] * 10 ^ length t + units_value t" by linarith
  then show ?thesis using units_value_append [of "[u]" t] s by simp
qed

lemma str_less_units_value:
  "list_all is_digit_unit s \<Longrightarrow> list_all is_digit_unit t \<Longrightarrow> length s = length t
    \<Longrightarrow> str_less s t \<longleftrightarrow> units_value s < units_value t"
proof (induction s t rule: str_less.induct)
  case (3 x xs y ys)
  have v: "units_value (x # xs) = (uint x - 48) * 10 ^ length xs + units_value xs"
    "units_value (y # ys) = (uint y - 48) * 10 ^ length xs + units_value ys"
    using units_value_append [of "[x]" xs] units_value_append [of "[y]" ys] "3.prems"(3)
    by (simp_all add: units_value_def)
  have b: "0 \<le> units_value xs" "units_value xs < 10 ^ length xs"
    "0 \<le> units_value ys" "units_value ys < 10 ^ length xs"
    using "3.prems" units_value_nonneg units_value_less [of xs] units_value_less [of ys] by auto
  have lt: "a * P + p < c * P + q" if "a < c" "p < P" "0 \<le> q" "0 \<le> p" for a c p q P :: int
  proof -
    have "(a + 1) * P \<le> c * P" using that by (intro mult_right_mono) auto
    then show ?thesis using that by (simp add: algebra_simps)
  qed
  show ?case
  proof (cases "uint x = uint y")
    case True
    then have "x = y" by (simp add: word_uint_eq_iff)
    then show ?thesis using "3.IH" "3.prems" v by simp
  next
    case False
    then have "x \<noteq> y" by auto
    then show ?thesis
      using lt [of "uint x - 48" "uint y - 48" "units_value xs"  "10 ^ length xs" "units_value ys"]
        lt [of "uint y - 48" "uint x - 48" "units_value ys"  "10 ^ length xs" "units_value xs"] b v False
      by (cases "uint x < uint y") auto
  qed
qed auto

text \<open>Comparing plain digit strings by length and then by units compares their values.\<close>

lemma plain_integer_shorter:
  assumes "plain_integer s" and "plain_integer t" and "length s < length t" and "units_value s > 0"
  shows "units_value s < units_value t"
proof -
  have "hd t \<noteq> 48" using assms(2,3,1) by (cases t) (auto simp: plain_integer_def digit_unit_48)
  then have "10 ^ (length t - 1) \<le> units_value t"
    using assms(2) by (intro units_value_ge) (auto simp: plain_integer_def)
  moreover have "(10 :: int) ^ length s \<le> 10 ^ (length t - 1)"
    using assms(3) by (intro power_increasing) auto
  moreover have "units_value s < 10 ^ length s"
    using assms(1) by (intro units_value_less) (auto simp: plain_integer_def)
  ultimately show ?thesis by linarith
qed

definition sign3 :: "int \<Rightarrow> int \<Rightarrow> int" where
  "sign3 a b = (if a < b then - 1 else if a = b then 0 else 1)"

lemma magnitude_compare:
  assumes "plain_integer s" and "plain_integer t" and "units_value s > 0"
  shows "(if length s \<noteq> length t then (if length s < length t then - 1 else 1)
          else if s = t then 0 else if str_less s t then - 1 else 1)
       = sign3 (units_value s) (units_value t)"
proof (cases "length s = length t")
  case True
  have d: "list_all is_digit_unit s" "list_all is_digit_unit t" using assms by (auto simp: plain_integer_def)
  have "units_value s = units_value t \<longleftrightarrow> s = t"
    using int_string_units_value assms by metis
  then show ?thesis using True str_less_units_value [OF d True] by (simp add: sign3_def)
next
  case False
  show ?thesis
  proof (cases "length s < length t")
    case True
    then show ?thesis using plain_integer_shorter [OF assms(1,2)] assms(3) by (simp add: sign3_def)
  next
    case longer: False
    have "units_value t < units_value s"
    proof (cases "units_value t > 0")
      case True
      then show ?thesis using plain_integer_shorter [OF assms(2,1)] False longer by simp
    qed (use assms in simp)
    then show ?thesis using False longer by (simp add: sign3_def)
  qed
qed

lemma compareExponent_exact:
  assumes "exponent_part ex = Some e"
  shows "compareExponent ex bound = sign3 e bound"
proof -
  define unsigned where "unsigned = (if ex \<noteq> [] \<and> (hd ex = 45 \<or> hd ex = 43) then tl ex else ex)"
  define digits where "digits = dropWhile (\<lambda>u. u = 48) unsigned"
  define neg where "neg = (ex \<noteq> [] \<and> hd ex = 45)"
  have e: "list_all is_digit_unit unsigned" "e = (if neg then - units_value digits else units_value digits)"
    using assms by (cases ex; auto simp: exponent_part_def unsigned_def digits_def neg_def split: if_splits)+
  have dig: "list_all is_digit_unit digits"
    using e(1) by (auto simp: digits_def list_all_iff dest: set_dropWhileD)
  have unf: "compareExponent ex bound =
    (if digits = [] then (if bound = 0 then 0 else if bound > 0 then - 1 else 1)
     else if neg \<noteq> (bound < 0) then (if neg then - 1 else 1)
     else (if neg then - 1 else 1) *
        (if length digits \<noteq> length (int_string \<bar>bound\<bar>)
         then (if length digits < length (int_string \<bar>bound\<bar>) then - 1 else 1)
         else if digits = int_string \<bar>bound\<bar> then 0
         else if str_less digits (int_string \<bar>bound\<bar>) then - 1 else 1))"
    unfolding compareExponent_def Let_def unsigned_def [symmetric] digits_def [symmetric] neg_def [symmetric]
    by auto
  show ?thesis
  proof (cases "digits = []")
    case True
    then show ?thesis using unf e(2) by (auto simp: sign3_def)
  next
    case False
    have pl: "plain_integer digits" using dropWhile_plain [OF e(1)] False by (simp add: digits_def)
    have pos: "units_value digits > 0"
      using units_value_pos [OF dig False] hd_dropWhile [of "\<lambda>u. u = 48" unsigned] False
      by (simp add: digits_def digit_unit_48)
    show ?thesis
      using False e(2) pos
      unfolding unf magnitude_compare [OF pl plain_int_string [of "\<bar>bound\<bar>"] pos, simplified]
      by (auto simp: sign3_def units_value_int_string)
  qed
qed

section \<open>Exact integers\<close>

text \<open>The rational number a token denotes.\<close>

definition numeric_value :: "bool \<times> jsstr \<times> jsstr \<times> jsstr option \<Rightarrow> rat" where
  "numeric_value parts =
     (case parts of (negative, ip, fp, ex) \<Rightarrow>
        (if negative then - 1 else 1) * of_int (units_value (ip @ fp))
          * 10 powi (the (exponent_part (case ex of Some e \<Rightarrow> e | None \<Rightarrow> [48])) - int (length fp)))"

definition rat_integer :: "rat \<Rightarrow> int option" where
  "rat_integer v = (if of_int \<lfloor>v\<rfloor> = v then Some \<lfloor>v\<rfloor> else None)"

lemma rat_integer_of_int [simp]: "rat_integer (of_int i) = Some i"
  by (simp add: rat_integer_def)

lemma rat_integer_None: "(\<And>i. v \<noteq> of_int i) \<Longrightarrow> rat_integer v = None"
  by (auto simp: rat_integer_def)

lemma numeric_parts_SomeD:
  assumes "numeric_parts token = Some (negative, ip, fp, ex)"
  shows "ip \<noteq> []" and "list_all is_digit_unit (ip @ fp)"
    and "\<exists>e. exponent_part (case ex of Some e \<Rightarrow> e | None \<Rightarrow> [48]) = Some e"
proof -
  have tw: "list_all is_digit_unit (takeWhile is_digit_unit s)" for s
    by (auto simp: list_all_iff dest: set_takeWhileD)
  have zero: "exponent_part [48] = Some 0"
    by (simp add: exponent_part_def is_digit_unit_def in_range_def units_value_def)
  have suffix: "exponent_suffix r \<noteq> None \<Longrightarrow> \<exists>e. exponent_part (tl r) = Some e" for r
    by (cases r) (auto simp: exponent_suffix_def split: if_splits)
  from assms show "ip \<noteq> []" "list_all is_digit_unit (ip @ fp)"
    using tw by (auto simp: numeric_parts_def Let_def split_beta split: if_splits)
  from assms show "\<exists>e. exponent_part (case ex of Some e \<Rightarrow> e | None \<Rightarrow> [48]) = Some e"
    using zero suffix by (auto simp: numeric_parts_def Let_def split_beta split: if_splits)
qed

text \<open>A coefficient splits into its trailing zeros and digits not divisible by ten.\<close>

lemma trailing_zeros:
  assumes "c \<noteq> []" and "hd c \<noteq> 48" and "list_all is_digit_unit c"
    and "t = length (takeWhile (\<lambda>u. u = 48) (rev c))"
  obtains d where "c = d @ replicate t 48" "d \<noteq> []" "hd d = hd c" "\<not> 10 dvd units_value d"
proof -
  define d where "d = rev (dropWhile (\<lambda>u. u = 48) (rev c))"
  have "takeWhile (\<lambda>u. u = 48) (rev c) = replicate t 48"
    unfolding assms(4) by (rule replicate_eqI [symmetric, THEN sym]) (auto dest: set_takeWhileD)
  then have c: "c = d @ replicate t 48"
    using takeWhile_dropWhile_id [of "\<lambda>u. u = 48" "rev c"] unfolding d_def
    by (metis rev_append rev_replicate rev_rev_ident)
  have ne: "d \<noteq> []"
  proof
    assume "d = []"
    then have "c = replicate t 48" using c by simp
    then show False using assms(1,2) by (cases t) auto
  qed
  have "last d \<noteq> 48" using ne hd_dropWhile [of "\<lambda>u. u = 48" "rev c"] by (auto simp: d_def last_rev)
  moreover have "is_digit_unit (last d)" using assms(3) ne c by (auto simp: list_all_iff)
  ultimately have "uint (last d) - 48 \<in> {1..9}"
    by (force simp: is_digit_unit_def in_range_def word_uint_eq_iff)
  moreover have "units_value d = 10 * units_value (butlast d) + (uint (last d) - 48)"
    using units_value_snoc [of "butlast d" "last d"] ne by simp
  ultimately have "\<not> 10 dvd units_value d" by (auto simp: dvd_eq_mod_eq_0)
  then show thesis using that [OF c ne] ne c by simp
qed

text \<open>The digits the decoder keeps after shifting the coefficient, in all cases.\<close>

lemma shifted_digits:
  assumes "c = d @ replicate t 48" and "- int t \<le> shift"
  shows "(if shift \<ge> 0 then c @ replicate (nat shift) 48 else take (nat (int (length c) + shift)) c)
       = d @ replicate (nat (int t + shift)) 48"
proof (cases "shift \<ge> 0")
  case True
  then show ?thesis using assms by (simp add: nat_add_distrib replicate_add)
next
  case False
  then have "nat (int (length c) + shift) - length d = nat (int t + shift)" using assms by simp
  moreover have "nat (int t + shift) \<le> t" using False by simp
  ultimately show ?thesis using assms False by (simp add: min_def)
qed

lemma shifted_value:
  assumes "c = d @ replicate t 48"
  shows "of_int (units_value c) * (10 :: rat) powi shift = of_int (units_value d) * 10 powi (int t + shift)"
  using assms by (simp add: units_value_append power_int_add)

lemma not_integer:
  assumes "\<not> 10 dvd (n :: int)" and "k < 0"
  shows "of_int n * (10 :: rat) powi k \<noteq> of_int i"
proof
  assume "of_int n * (10 :: rat) powi k = of_int i"
  then have "of_int n * (1 / 10 :: rat) ^ nat (- k) = of_int i"
    using assms(2) by (simp add: power_int_def)
  then have "of_int n = of_int i * (10 :: rat) ^ nat (- k)" by (simp add: power_one_over field_simps)
  then have "(of_int n :: rat) = of_int (i * 10 ^ nat (- k))" by simp
  then have "n = i * 10 ^ nat (- k)" by (simp only: of_int_eq_iff)
  moreover have "(10 :: int) dvd 10 ^ nat (- k)" using assms(2) by (simp add: dvd_power)
  ultimately show False using assms(1) by simp
qed

definition budget_ok :: "Budget \<Rightarrow> bool" where
  "budget_ok b \<longleftrightarrow> 0 \<le> remaining b \<and> remaining b \<le> bytes b \<and> bytes b \<le> 67108864"

text \<open>The outcome of spending the text of an integer.\<close>

definition spend :: "int \<Rightarrow> jsstr \<Rightarrow> Budget \<Rightarrow> 'a \<Rightarrow> ('a \<times> Budget) codec" where
  "spend n path b x = (if n > remaining b then Inl (Issue path ByteLimit)
     else Inr (x, b\<lparr>remaining := remaining b - n\<rparr>))"

lemma charge_spend:
  assumes "budget_ok b" and "0 \<le> n" and "n \<le> remaining b"
  shows "bindK (charge n path b) (\<lambda>b. Inr (x, b)) = spend n path b x"
  using assms by (simp add: charge_def spend_def budget_ok_def safe_int_def MAX_SAFE_INTEGER_def)

lemma int_string_signed:
  "0 < v \<Longrightarrow> int_string (if negative then - v else v) = (if negative then 45 # int_string v else int_string v)"
  by (simp add: int_string_def unit_defs)

lemma scaleCoefficient_exact:
  assumes ok: "budget_ok b" and c: "c \<noteq> []" "hd c \<noteq> 48" "list_all is_digit_unit c"
    and e: "exponent_part exponent = Some e"
  shows "scaleCoefficient negative c f exponent path b =
    (case rat_integer ((if negative then - 1 else 1) * (of_int (units_value c) * 10 powi (e - f))) of
       None \<Rightarrow> Inl (Issue path IntegerToken)
     | Some i \<Rightarrow> spend (int (length (int_string i))) path b i)"
proof -
  define t where "t = length (takeWhile (\<lambda>u. u = 48) (rev c))"
  define shift where "shift = e - f"
  define sign :: int where "sign = (if negative then 1 else 0)"
  define digits where
    "digits = (if shift \<ge> 0 then c @ replicate (nat shift) 48 else take (nat (int (length c) + shift)) c)"
  define v :: rat where "v = (if negative then - 1 else 1) * (of_int (units_value c) * 10 powi shift)"
  have code: "scaleCoefficient negative c f exponent path b =
    (if shift < - int t then Inl (Issue path IntegerToken)
     else if int (length c) + shift + sign > remaining b then Inl (Issue path ByteLimit)
     else bindK (charge (int (length c) + shift + sign) path b) (\<lambda>b.
       Inr (if negative then - units_value digits else units_value digits, b)))"
    unfolding scaleCoefficient_def compareExponent_exact [OF e] Let_def e option.sel
      t_def [symmetric] shift_def [symmetric] sign_def [symmetric] digits_def [symmetric]
    by (auto simp: sign3_def shift_def)
  obtain d where d: "c = d @ replicate t 48" "d \<noteq> []" "hd d = hd c" "\<not> 10 dvd units_value d"
    using trailing_zeros [OF c t_def] by blast
  have v: "v = (if negative then - 1 else 1) * (of_int (units_value d) * 10 powi (int t + shift))"
    using shifted_value [OF d(1)] by (simp add: v_def)
  show ?thesis
  proof (cases "shift < - int t")
    case True
    then have "v \<noteq> of_int i" for i
      using not_integer [OF d(4), of "int t + shift" i] not_integer [OF d(4), of "int t + shift" "- i"] v
      by (auto simp: minus_equation_iff)
    then show ?thesis using True by (simp add: code rat_integer_None flip: shift_def v_def)
  next
    case False
    have ds: "digits = d @ replicate (nat (int t + shift)) 48"
      using shifted_digits [OF d(1)] False by (simp add: digits_def)
    have plain: "plain_integer digits"
      using d c by (auto simp: ds plain_integer_def digit_unit_48 list_all_iff is_digit_unit_def in_range_def)
    have pos: "0 < units_value digits"
      using plain d(2,3) c(2) by (intro units_value_pos) (auto simp: plain_integer_def ds digit_unit_48)
    have i: "v = of_int (if negative then - units_value digits else units_value digits)"
      using v False by (simp add: power_int_def ds units_value_append)
    have len: "int (length (int_string (if negative then - units_value digits else units_value digits)))
        = int (length c) + shift + sign"
      using d(1) False int_string_signed [OF pos] int_string_units_value [OF plain]
      by (simp add: sign_def ds)
    then have "0 \<le> int (length c) + shift + sign" by linarith
    then show ?thesis
      using False charge_spend [OF ok, of "int (length c) + shift + sign" path
          "if negative then - units_value digits else units_value digits"]
      by (cases "int (length c) + shift + sign > remaining b")
        (simp_all add: code i rat_integer_of_int len spend_def flip: shift_def v_def)
  qed
qed

lemma decodeInteger_conv:
  assumes "numeric_parts token = Some parts" and "int (length token) \<le> bytes b" and "budget_ok b"
    and "1 \<le> remaining b"
  shows "decodeInteger token path b =
    (case rat_integer (numeric_value parts) of
       None \<Rightarrow> Inl (Issue path IntegerToken)
     | Some i \<Rightarrow> spend (int (length (int_string i))) path b i)"
proof -
  obtain negative ip fp ex where parts: "parts = (negative, ip, fp, ex)" by (cases parts)
  define c where "c = dropWhile (\<lambda>u. u = 48) (ip @ fp)"
  define exponent where "exponent = (case ex of Some e \<Rightarrow> e | None \<Rightarrow> [48])"
  obtain e where e: "exponent_part exponent = Some e" and dig: "list_all is_digit_unit (ip @ fp)"
    using numeric_parts_SomeD assms(1) parts unfolding exponent_def by metis
  have val: "numeric_value parts = (if negative then - 1 else 1) * (of_int (units_value c) * 10 powi (e - int (length fp)))"
    using e by (simp add: numeric_value_def parts c_def flip: exponent_def)
  have code: "decodeInteger token path b =
    (if c = [] then bindK (charge 1 path b) (\<lambda>b. Inr (0, b))
     else scaleCoefficient negative c (int (length fp)) exponent path b)"
    using assms(1,2) unfolding decodeInteger_def Let_def parts
    by (simp flip: exponent_def c_def del: dropWhile_append dropWhile_eq_Nil_conv)
  show ?thesis
  proof (cases "c = []")
    case True
    then have "rat_integer (numeric_value parts) = Some 0" using val by (simp add: rat_integer_def)
    moreover have "length (int_string 0) = 1" by (simp add: int_string_def int_digits.simps [of 0])
    ultimately show ?thesis using True code charge_spend [OF assms(3), of 1] assms(4) by simp
  next
    case False
    have "list_all is_digit_unit c" "hd c \<noteq> 48"
      using dig hd_dropWhile [of "\<lambda>u. u = 48" "ip @ fp"] False
      by (auto simp: c_def list_all_iff dest: set_dropWhileD)
    then show ?thesis using False code scaleCoefficient_exact [OF assms(3) False _ _ e] val by simp
  qed
qed

text \<open>
  DecodeInteger is exact. For every numeric token within the byte cap it returns the
  integer the token denotes, charging the length of its decimal text, when the rational
  value of the token is an integer whose text fits the remaining budget; a value that is no
  integer is the issue integer_token and one that is too long the issue byte_limit, without
  the exponent or the digits ever being expanded.
\<close>

lemma decodeInteger_exact:
  assumes "numeric_parts token = Some parts" and "int (length token) \<le> bytes b" and "budget_ok b"
    and "1 \<le> remaining b"
  shows "decodeInteger token path b =
    (case rat_integer (numeric_value parts) of
       None \<Rightarrow> Inl (Issue path IntegerToken)
     | Some i \<Rightarrow> spend (int (length (int_string i))) path b i)"
  using assms by (rule decodeInteger_conv)

definition plain_budget :: Budget where
  "plain_budget = \<lparr>bytes = 100, remaining = 10, nodes = 0\<rparr>"

section \<open>Integer texts\<close>

lemma length_int_digits: "0 \<le> n \<Longrightarrow> 1 \<le> d \<Longrightarrow> n < 10 ^ d \<longleftrightarrow> length (int_digits n) \<le> d"
proof (induction n arbitrary: d rule: int_digits.induct)
  case (1 n)
  show ?case
  proof (cases "n < 10")
    case True
    have "(10 :: int) ^ 1 \<le> 10 ^ d" using "1.prems"(2) by (intro power_increasing) auto
    then show ?thesis using True "1.prems" by (simp add: int_digits.simps [of n])
  next
    case False
    obtain k where d: "d = Suc k" using "1.prems"(2) by (cases d) auto
    have "n < 10 * p \<longleftrightarrow> n div 10 < p" for p by presburger
    then have "n < 10 * 10 ^ k \<longleftrightarrow> n div 10 < 10 ^ k" .
    moreover have "n div 10 < 10 ^ k \<longleftrightarrow> length (int_digits (n div 10)) \<le> k"
    proof (cases "k = 0")
      case True
      then show ?thesis using False "1.prems" by simp
    next
      case k: False
      then show ?thesis using "1.IH" [OF False, of k] "1.prems" by simp
    qed
    ultimately show ?thesis using False d by (simp add: int_digits.simps [of n])
  qed
qed

lemma length_int_string:
  "length (int_string v) = (if v < 0 then 1 else 0) + length (int_digits \<bar>v\<bar>)"
  by (simp add: int_string_def ascii_def)

lemma encodeInteger_exact:
  assumes "budget_ok b"
  shows "encodeInteger v path b = spend (int (length (int_string v))) path b (int_string v)"
proof -
  define sign :: int where "sign = (if v < 0 then 1 else 0)"
  define digits where "digits = remaining b - sign"
  have len: "int (length (int_string v)) = sign + int (length (int_digits \<bar>v\<bar>))"
    by (simp add: length_int_string sign_def)
  have ge: "1 \<le> length (int_digits \<bar>v\<bar>)" by (simp add: Suc_le_eq)
  show ?thesis
  proof (cases "digits < 1")
    case True
    then show ?thesis
      using len ge by (simp add: encodeInteger_def spend_def Let_def digits_def flip: sign_def)
  next
    case False
    have fit: "length (int_digits \<bar>v\<bar>) \<le> nat digits \<longleftrightarrow> \<not> (v \<ge> 10 ^ nat digits \<or> v \<le> - (10 ^ nat digits))"
    proof -
      have "1 \<le> nat digits" using False by simp
      then have "\<bar>v\<bar> < 10 ^ nat digits \<longleftrightarrow> length (int_digits \<bar>v\<bar>) \<le> nat digits"
        using length_int_digits [of "\<bar>v\<bar>" "nat digits"] by simp
      then show ?thesis by auto
    qed
    have small: "length (int_digits \<bar>v\<bar>) \<le> nat digits"
      if "remaining b \<ge> 20" "v > - 10000000000000000000" "v < 10000000000000000000"
    proof -
      have "\<bar>v\<bar> < 10 ^ 19" using that by simp
      then have "length (int_digits \<bar>v\<bar>) \<le> 19" using length_int_digits [of "\<bar>v\<bar>" 19] by simp
      moreover have "19 \<le> nat digits" using that(1) by (simp add: digits_def sign_def le_nat_iff)
      ultimately show ?thesis by simp
    qed
    have "encodeInteger v path b =
      (if \<not> length (int_digits \<bar>v\<bar>) \<le> nat digits then Inl (Issue path ByteLimit)
       else bindK (charge (int (length (int_string v))) path b) (\<lambda>b. Inr (int_string v, b)))"
      using False small fit by (auto simp: encodeInteger_def Let_def digits_def simp flip: sign_def)
    moreover have "length (int_digits \<bar>v\<bar>) \<le> nat digits \<longleftrightarrow> int (length (int_string v)) \<le> remaining b"
      using False len by (auto simp: digits_def)
    ultimately show ?thesis
      using charge_spend [OF assms, of "int (length (int_string v))"] by (auto simp: spend_def)
  qed
qed

lemma numeric_parts_int_string:
  "numeric_parts (int_string v) = Some (v < 0, int_string \<bar>v\<bar>, [], None)"
proof -
  have tw: "0 \<le> i \<Longrightarrow> takeWhile is_digit_unit (int_string i) = int_string i"
    "0 \<le> i \<Longrightarrow> dropWhile is_digit_unit (int_string i) = []" for i
    using list_all_digit_int_string [of i] by (auto simp: list_all_iff)
  show ?thesis
  proof (cases "v < 0")
    case True
    then show ?thesis
      using list_all_digit_int_string [of "- v"]
      by (simp add: numeric_parts_def strip_sign_neg Let_def tw list_all_iff)
  next
    case False
    then show ?thesis
      using list_all_digit_int_string [of v]
      by (simp add: numeric_parts_def strip_sign_nonneg Let_def tw list_all_iff)
  qed
qed

lemma decodeInteger_int_string:
  assumes "budget_ok b" and "int (length (int_string v)) \<le> remaining b"
  shows "decodeInteger (int_string v) path b = Inr (v, b\<lparr>remaining := remaining b - int (length (int_string v))\<rparr>)"
proof -
  have zero: "exponent_part [48] = Some 0"
    by (simp add: exponent_part_def is_digit_unit_def in_range_def units_value_def)
  have val: "numeric_value (v < 0, int_string \<bar>v\<bar>, [], None) = of_int v"
    by (auto simp: numeric_value_def zero units_value_int_string)
  have "1 \<le> int (length (int_string v))" by (simp add: Suc_le_eq)
  then show ?thesis
    using decodeInteger_conv [OF numeric_parts_int_string, of v b path] assms val
    by (simp add: budget_ok_def spend_def)
qed

text \<open>
  Integers round trip through their tokens. encodeInteger returns the decimal text of
  every integer whose text fits the remaining budget and rejects exactly the others, with
  byte_limit, before formatting them; decodeInteger turns the text back into the integer and
  charges the same amount.
\<close>

lemma integer_token_roundtrip:
  assumes "budget_ok b"
  shows "if int (length (int_string v)) \<le> remaining b
    then encodeInteger v path b = Inr (int_string v, b\<lparr>remaining := remaining b - int (length (int_string v))\<rparr>)
       \<and> decodeInteger (int_string v) path b = Inr (v, b\<lparr>remaining := remaining b - int (length (int_string v))\<rparr>)
    else encodeInteger v path b = Inl (Issue path ByteLimit)"
  using encodeInteger_exact [OF assms] decodeInteger_int_string [OF assms] by (simp add: spend_def)

end
