(* ===== verification/Project.thy ===== *)
theory Project
  imports CodecBudget Unicode Arrays
begin

text \<open>
  The projection of parsed documents onto Can values (\<open>runtime/codec/project.ts\<close>): a walk
  over the parse tree guided by the schema, under the depth, node and byte limits.
\<close>

section \<open>Data\<close>

text \<open>
  A parse tree. A number carries the source token the parser saw; an object is the list of
  its own members in enumeration order; \<open>JHost\<close> is a native object that is no plain data.
\<close>

datatype jtree =
    JNull
  | JBool bool
  | JNum jsnum jsstr
  | JStr jsstr
  | JArr "jtree list"
  | JObj "(jsstr \<times> jtree) list"
  | JHost

text \<open>
  Can values; a record carries its identity and its fields. They are immutable, hence trees;
  \<open>VHost\<close> is any other native value an encoder may be handed.
\<close>

datatype cval =
    VStr jsstr
  | VBool bool
  | VInt int
  | VFloat jsnum
  | VArr "cval list"
  | VRec jsstr "(jsstr \<times> cval) list"
  | VHost

datatype node_kind = Primitive | ArrayKind | Variant | RecordKind | ErrorKind | OtherKind

record SchemaNode =
  sn_identity :: jsstr
  sn_kind :: node_kind
  sn_name :: jsstr
  sn_element :: jsstr
  sn_fields :: "(jsstr \<times> jsstr) list"
  sn_leaves :: "jsstr list"

record Schema =
  root :: jsstr
  schema_nodes :: "SchemaNode list"

type_synonym getter = "jsstr \<Rightarrow> SchemaNode codec"

definition type_fault :: "string \<Rightarrow> 'a codec" where
  "type_fault message = Inl (Fault (TypeError message))"

definition graph :: "Schema \<Rightarrow> getter codec" where
  "graph schema =
     (if \<not> distinct (map sn_identity (schema_nodes schema)) then type_fault ''duplicate codec schema node''
      else Inr (\<lambda>id. case find (\<lambda>node. sn_identity node = id) (schema_nodes schema) of
                       None \<Rightarrow> type_fault ''missing codec schema node''
                     | Some node \<Rightarrow> Inr node))"

text \<open>A text must survive the trip through UTF-8.\<close>

definition native_reencode :: "jsstr \<Rightarrow> jsstr option" where
  "native_reencode text = map_option utf16_encode (utf8_decode (utf8_encode (utf16_decode text)))"

definition scalar_text :: "jsstr \<Rightarrow> jsstr \<Rightarrow> unit codec" where
  "scalar_text text path = (if native_reencode text \<noteq> Some text then Inl (Issue path UnicodeScalar) else Inr ())"

fun object :: "jtree \<Rightarrow> jsstr \<Rightarrow> (jsstr \<times> jtree) list codec" where
  "object (JObj members) path = Inr members"
| "object _ path = Inl (Issue path TypeReason)"

definition required :: "(jsstr \<times> 'v) list \<Rightarrow> jsstr \<Rightarrow> jsstr \<Rightarrow> 'v codec" where
  "required data key path =
     (case map_of data key of None \<Rightarrow> Inl (Issue (childPath path key) MissingMember) | Some v \<Rightarrow> Inr v)"

definition str_compare :: "jsstr \<Rightarrow> jsstr \<Rightarrow> int" where
  "str_compare a b = (if str_less a b then - 1 else if a = b then 0 else 1)"

definition extras :: "(jsstr \<times> 'v) list \<Rightarrow> jsstr list \<Rightarrow> jsstr \<Rightarrow> unit codec" where
  "extras data names path =
     (let extra = toSorted str_compare (filter (\<lambda>key. key \<notin> set names) (map fst data))
      in if extra \<noteq> [] then Inl (Issue (childPath path (hd extra)) ExtraMember) else Inr ())"

text \<open>How a parsed number becomes an integer.\<close>

type_synonym int_policy = "jtree \<Rightarrow> jsstr \<Rightarrow> Budget \<Rightarrow> (int \<times> Budget) codec"

fun exactInt :: int_policy where
  "exactInt (JNum v token) path b = decodeInteger token path b"
| "exactInt _ path b = Inl (Issue path TypeReason)"

definition project_primitive ::
  "int_policy \<Rightarrow> jsstr \<Rightarrow> jtree \<Rightarrow> jsstr \<Rightarrow> Budget \<Rightarrow> (cval \<times> Budget) codec" where
  "project_primitive intOf name tree path b =
     (if name = ascii ''str'' then
        (case tree of JStr s \<Rightarrow> bindK (scalar_text s path) (\<lambda>_. Inr (VStr s, b)) | _ \<Rightarrow> Inl (Issue path TypeReason))
      else if name = ascii ''bool'' then
        (case tree of JBool v \<Rightarrow> Inr (VBool v, b) | _ \<Rightarrow> Inl (Issue path TypeReason))
      else if name = ascii ''float'' then
        (case tree of
           JNum v _ \<Rightarrow> if \<not> isFinite v then Inl (Issue path Nonfinite) else Inr (VFloat v, b)
         | _ \<Rightarrow> Inl (Issue path TypeReason))
      else if name = ascii ''int'' then bindK (intOf tree path b) (\<lambda>(i, b). Inr (VInt i, b))
      else type_fault ''unknown codec primitive'')"

text \<open>A native \<open>map\<close> whose callback may throw.\<close>

fun traverse :: "('a \<Rightarrow> 'b codec) \<Rightarrow> 'a list \<Rightarrow> 'b list codec" where
  "traverse f [] = Inr []"
| "traverse f (x # xs) = bindK (f x) (\<lambda>y. bindK (traverse f xs) (\<lambda>ys. Inr (y # ys)))"

definition find_leaf :: "getter \<Rightarrow> jsstr list \<Rightarrow> (SchemaNode \<Rightarrow> bool) \<Rightarrow> SchemaNode option codec" where
  "find_leaf get ids p =
     bindK (traverse get ids) (\<lambda>ns. Inr (find p ns))"

lemma bindK_cong [fundef_cong]:
  "m = m' \<Longrightarrow> (\<And>x. m' = Inr x \<Longrightarrow> f x = g x) \<Longrightarrow> bindK m f = bindK m' g"
  by (cases m') auto

lemma size_member: "map_of data key = Some v \<Longrightarrow> size v < size (JObj data)"
proof -
  assume "map_of data key = Some v"
  then have "(key, v) \<in> set data" by (rule map_of_SomeD)
  then show ?thesis by (induction data) auto
qed

definition members_size :: "(jsstr \<times> jtree) list \<Rightarrow> nat" where
  "members_size data = size (JObj data) - 1"

lemma object_size: "object tree path = Inr data \<Longrightarrow> tree = JObj data"
  by (cases tree) auto

lemma required_size: "required data key path = Inr v \<Longrightarrow> size v < Suc (members_size data)"
  using size_member by (fastforce simp: required_def members_size_def split: option.splits)

text \<open>
  The walk. A variant is an object with the name of a leaf under \<open>case\<close> and the leaf's record
  under \<open>value\<close>; every member is checked in the order of the schema before superfluous ones
  are reported.
\<close>

function (sequential) project ::
  "int_policy \<Rightarrow> getter \<Rightarrow> SchemaNode \<Rightarrow> jtree \<Rightarrow> jsstr \<Rightarrow> int \<Rightarrow> Budget \<Rightarrow> (cval \<times> Budget) codec"
and project_items ::
  "int_policy \<Rightarrow> getter \<Rightarrow> jsstr \<Rightarrow> jtree list \<Rightarrow> int \<Rightarrow> jsstr \<Rightarrow> int \<Rightarrow> Budget \<Rightarrow> (cval list \<times> Budget) codec"
and project_fields ::
  "int_policy \<Rightarrow> getter \<Rightarrow> (jsstr \<times> jsstr) list \<Rightarrow> (jsstr \<times> jtree) list \<Rightarrow> jsstr \<Rightarrow> int \<Rightarrow> Budget
     \<Rightarrow> ((jsstr \<times> cval) list \<times> Budget) codec" where
  "project intOf get node tree path depth b =
     bindK (visit (depth + (if sn_kind node \<noteq> Primitive then 1 else 0)) path b) (\<lambda>b.
     if sn_kind node = Primitive then project_primitive intOf (sn_name node) tree path b
     else if sn_kind node = ArrayKind then
       (case tree of
          JArr items \<Rightarrow>
            bindK (project_items intOf get (sn_element node) items 0 path depth b) (\<lambda>(vs, b). Inr (VArr vs, b))
        | _ \<Rightarrow> Inl (Issue path TypeReason))
     else bindK (object tree path) (\<lambda>data.
       if sn_kind node = Variant then
         bindK (required data (ascii ''case'') path) (\<lambda>tag.
         bindK (visit (depth + 1) (childPath path (ascii ''case'')) b) (\<lambda>b.
         case tag of
           JStr tagText \<Rightarrow>
             bindK (scalar_text tagText (childPath path (ascii ''case''))) (\<lambda>_.
             bindK (find_leaf get (sn_leaves node) (\<lambda>leaf. sn_name leaf = tagText)) (\<lambda>leaf.
             case leaf of
               None \<Rightarrow> Inl (Issue (childPath path (ascii ''case'')) VariantTag)
             | Some leaf \<Rightarrow>
                 bindK (required data (ascii ''value'') path) (\<lambda>inner.
                 bindK (project intOf get leaf inner (childPath path (ascii ''value'')) (depth + 1) b) (\<lambda>(v, b).
                 bindK (extras data [ascii ''case'', ascii ''value''] path) (\<lambda>_. Inr (v, b))))))
         | _ \<Rightarrow> Inl (Issue (childPath path (ascii ''case'')) TypeReason)))
       else if sn_kind node \<noteq> RecordKind \<and> sn_kind node \<noteq> ErrorKind then type_fault ''unsupported codec node''
       else
         bindK (project_fields intOf get (sn_fields node) data path depth b) (\<lambda>(entries, b).
         bindK (extras data (map fst (sn_fields node)) path) (\<lambda>_. Inr (VRec (sn_identity node) entries, b)))))"
| "project_items intOf get element [] i path depth b = Inr ([], b)"
| "project_items intOf get element (item # items) i path depth b =
     bindK (get element) (\<lambda>node.
     bindK (project intOf get node item (childPath path (int_string i)) (depth + 1) b) (\<lambda>(v, b).
     bindK (project_items intOf get element items (i + 1) path depth b) (\<lambda>(vs, b). Inr (v # vs, b))))"
| "project_fields intOf get [] data path depth b = Inr ([], b)"
| "project_fields intOf get (field # fs) data path depth b =
     bindK (get (snd field)) (\<lambda>node.
     bindK (required data (fst field) path) (\<lambda>member.
     bindK (project intOf get node member (childPath path (fst field)) (depth + 1) b) (\<lambda>(v, b).
     bindK (project_fields intOf get fs data path depth b) (\<lambda>(vs, b). Inr ((fst field, v) # vs, b)))))"
  by pat_completeness auto

termination
  by (relation "measures [case_sum (\<lambda>(_, _, _, t, _). size t)
        (case_sum (\<lambda>(_, _, _, ts, _). size_list size ts) (\<lambda>(_, _, _, ms, _). Suc (members_size ms) - 1)),
      case_sum (\<lambda>_. 0) (case_sum (\<lambda>_. 0) (\<lambda>(_, _, fs, _). length fs + 1))]")
    (auto dest!: object_size required_size simp: members_size_def)

definition projectValue ::
  "Schema \<Rightarrow> jtree \<Rightarrow> Budget \<Rightarrow> int_policy \<Rightarrow> (cval \<times> Budget) codec" where
  "projectValue schema parsed b intOf =
     bindK (graph schema) (\<lambda>get. bindK (get (root schema)) (\<lambda>node. project intOf get node parsed [] 0 b))"

declare project.simps [simp del]

end
