(* ===== verification/Encode.thy ===== *)
theory Encode
  imports Project JsonString Bytes
begin

text \<open>
  The encoder of \<open>runtime/codec/json.ts\<close>: a preflight walk that charges every byte of the
  output to the budget before anything is formatted, and the formatter. The decimal text of a
  double is the platform's and a parameter of the model.
\<close>

section \<open>The preflight walk\<close>

definition utf8_text :: "jsstr \<Rightarrow> int list" where
  "utf8_text s = utf8_encode (utf16_decode s)"

definition textCost :: "jsstr \<Rightarrow> jsstr \<Rightarrow> Budget \<Rightarrow> Budget codec" where
  "textCost text path b =
     (if int (length text) > remaining b then Inl (Issue path ByteLimit)
      else bindK (scalar_text text path) (\<lambda>_. charge (int (length (utf8_text (json_string text)))) path b))"

fun names_cost :: "jsstr list \<Rightarrow> jsstr \<Rightarrow> Budget \<Rightarrow> Budget codec" where
  "names_cost [] path b = Inr b"
| "names_cost (name # names) path b = bindK (textCost name path b) (names_cost names path)"

definition keys_cost :: "jsstr list \<Rightarrow> jsstr \<Rightarrow> Budget \<Rightarrow> Budget codec" where
  "keys_cost names path b =
     bindK (charge (2 + max 0 (int (length names) - 1) + int (length names)) path b) (names_cost names path)"

fun recordIdentity :: "cval \<Rightarrow> jsstr option" where
  "recordIdentity (VRec identity fs) = Some identity"
| "recordIdentity _ = None"

definition encode_leaf :: "getter \<Rightarrow> SchemaNode \<Rightarrow> cval \<Rightarrow> jsstr \<Rightarrow> SchemaNode codec" where
  "encode_leaf get node v path =
     bindK (find_leaf get (sn_leaves node) (\<lambda>leaf. Some (sn_identity leaf) = recordIdentity v)) (\<lambda>found.
       case found of None \<Rightarrow> Inl (Issue path VariantTag) | Some leaf \<Rightarrow> Inr leaf)"

definition preflight_primitive ::
  "(jsnum \<Rightarrow> jsstr) \<Rightarrow> jsstr \<Rightarrow> cval \<Rightarrow> jsstr \<Rightarrow> Budget \<Rightarrow> Budget codec" where
  "preflight_primitive num_text name v path b =
     (if name = ascii ''str'' then
        (case v of VStr s \<Rightarrow> textCost s path b | _ \<Rightarrow> Inl (Issue path TypeReason))
      else if name = ascii ''bool'' then
        (case v of VBool x \<Rightarrow> charge (if x then 4 else 5) path b | _ \<Rightarrow> Inl (Issue path TypeReason))
      else if name = ascii ''int'' then
        (case v of VInt i \<Rightarrow> bindK (encodeInteger i path b) (\<lambda>(_, b). Inr b) | _ \<Rightarrow> Inl (Issue path TypeReason))
      else if name = ascii ''float'' then
        (case v of
           VFloat x \<Rightarrow>
             if \<not> isFinite x then Inl (Issue path Nonfinite)
             else charge (if x = NegZero then 2 else int (length (num_text x))) path b
         | _ \<Rightarrow> Inl (Issue path TypeReason))
      else type_fault ''unknown codec primitive'')"

lemma size_field: "map_of fs key = Some v \<Longrightarrow> Suc (size v) < size (VRec identity fs)"
proof -
  assume "map_of fs key = Some v"
  then have "(key, v) \<in> set fs" by (rule map_of_SomeD)
  then show ?thesis by (induction fs) auto
qed

definition fields_size :: "(jsstr \<times> cval) list \<Rightarrow> nat" where
  "fields_size fs = size (VRec [] fs)"

lemma required_field_size: "required fs key path = Inr v \<Longrightarrow> Suc (size v) < fields_size fs"
  using size_field by (fastforce simp: required_def fields_size_def split: option.splits)

lemma visit_depth: "visit d path b = Inr b' \<Longrightarrow> d \<le> 64"
  by (simp add: visit_def maxDepth_def split: if_splits)

function (sequential) preflight ::
  "(jsnum \<Rightarrow> jsstr) \<Rightarrow> getter \<Rightarrow> SchemaNode \<Rightarrow> cval \<Rightarrow> jsstr \<Rightarrow> int \<Rightarrow> Budget \<Rightarrow> Budget codec"
and preflight_items ::
  "(jsnum \<Rightarrow> jsstr) \<Rightarrow> getter \<Rightarrow> jsstr \<Rightarrow> cval list \<Rightarrow> int \<Rightarrow> jsstr \<Rightarrow> int \<Rightarrow> Budget \<Rightarrow> Budget codec"
and preflight_fields ::
  "(jsnum \<Rightarrow> jsstr) \<Rightarrow> getter \<Rightarrow> (jsstr \<times> jsstr) list \<Rightarrow> (jsstr \<times> cval) list \<Rightarrow> jsstr \<Rightarrow> int \<Rightarrow> Budget
     \<Rightarrow> Budget codec" where
  "preflight nt get node v path depth b =
     bindK (visit (depth + (if sn_kind node \<noteq> Primitive then 1 else 0)) path b) (\<lambda>b.
     if sn_kind node = Primitive then preflight_primitive nt (sn_name node) v path b
     else if sn_kind node = Variant then
       bindK (encode_leaf get node v path) (\<lambda>selected.
       bindK (keys_cost [ascii ''case'', ascii ''value''] path b) (\<lambda>b.
       bindK (visit (depth + 1) (childPath path (ascii ''case'')) b) (\<lambda>b.
       bindK (textCost (sn_name selected) (childPath path (ascii ''case'')) b) (\<lambda>b.
       preflight nt get selected v (childPath path (ascii ''value'')) (depth + 1) b))))
     else (case v of
         VArr items \<Rightarrow>
           if sn_kind node = ArrayKind then
             bindK (charge (2 + max 0 (int (length items) - 1)) path b) (\<lambda>b.
             preflight_items nt get (sn_element node) items 0 path depth b)
           else if sn_kind node \<noteq> RecordKind \<and> sn_kind node \<noteq> ErrorKind then type_fault ''unsupported codec node''
           else Inl (Issue path TypeReason)
       | VRec identity fs \<Rightarrow>
           if sn_kind node = ArrayKind then Inl (Issue path TypeReason)
           else if sn_kind node \<noteq> RecordKind \<and> sn_kind node \<noteq> ErrorKind then type_fault ''unsupported codec node''
           else if identity \<noteq> sn_identity node then Inl (Issue path TypeReason)
           else
             bindK (keys_cost (map fst (sn_fields node)) path b) (\<lambda>b.
             bindK (preflight_fields nt get (sn_fields node) fs path depth b) (\<lambda>b.
             bindK (extras fs (map fst (sn_fields node)) path) (\<lambda>_. Inr b)))
       | _ \<Rightarrow> Inl (Issue path TypeReason)))"
| "preflight_items nt get element [] i path depth b = Inr b"
| "preflight_items nt get element (item # items) i path depth b =
     bindK (get element) (\<lambda>node.
     bindK (preflight nt get node item (childPath path (int_string i)) (depth + 1) b) (\<lambda>b.
     preflight_items nt get element items (i + 1) path depth b))"
| "preflight_fields nt get [] fs path depth b = Inr b"
| "preflight_fields nt get (field # rest) fs path depth b =
     bindK (get (snd field)) (\<lambda>node.
     bindK (required fs (fst field) path) (\<lambda>v.
     bindK (preflight nt get node v (childPath path (fst field)) (depth + 1) b) (\<lambda>b.
     preflight_fields nt get rest fs path depth b)))"
  by pat_completeness auto

termination
  by (relation "measures [case_sum (\<lambda>(_, _, _, v, _). size v)
        (case_sum (\<lambda>(_, _, _, vs, _). size_list size vs) (\<lambda>(_, _, _, fs, _). fields_size fs - 1)),
      case_sum (\<lambda>(_, _, _, _, _, d, _). nat (65 - d)) (case_sum (\<lambda>_. 0) (\<lambda>(_, _, rest, _). length rest + 1))]")
    (auto dest!: required_field_size visit_depth simp: fields_size_def)

declare preflight.simps [simp del]

section \<open>The formatter\<close>

text \<open>
  \<open>JSON.stringify\<close> over the access facades, which expose the members of a record in the order
  of the schema. The fuel is the number of nesting levels, which the preflight has bounded.
\<close>

fun join_texts :: "jsstr list \<Rightarrow> jsstr" where
  "join_texts [] = []"
| "join_texts [t] = t"
| "join_texts (t # u # ts) = t @ [44] @ join_texts (u # ts)"

definition format_primitive :: "(jsnum \<Rightarrow> jsstr) \<Rightarrow> cval \<Rightarrow> jsstr" where
  "format_primitive num_text v =
     (case v of
        VStr s \<Rightarrow> json_string s
      | VBool x \<Rightarrow> if x then ascii ''true'' else ascii ''false''
      | VInt i \<Rightarrow> int_string i
      | VFloat x \<Rightarrow>
          if x = NegZero then ascii ''-0'' else if \<not> isFinite x then ascii ''null'' else num_text x
      | _ \<Rightarrow> ascii ''null'')"

definition member_text :: "jsstr \<Rightarrow> jsstr \<Rightarrow> jsstr" where
  "member_text name text = json_string name @ [58] @ text"

definition format_field ::
  "(SchemaNode \<Rightarrow> cval \<Rightarrow> jsstr codec) \<Rightarrow> getter \<Rightarrow> (jsstr \<times> cval) list \<Rightarrow> jsstr \<times> jsstr \<Rightarrow> jsstr codec" where
  "format_field view get fs field =
     bindK (get (snd field)) (\<lambda>node.
     bindK (case map_of fs (fst field) of
              Some v \<Rightarrow> Inr v | None \<Rightarrow> type_fault ''expected own data property'') (\<lambda>v.
     bindK (view node v) (\<lambda>text. Inr (member_text (fst field) text))))"

primrec format :: "nat \<Rightarrow> (jsnum \<Rightarrow> jsstr) \<Rightarrow> getter \<Rightarrow> SchemaNode \<Rightarrow> cval \<Rightarrow> jsstr codec" where
  "format 0 nt get node v = type_fault ''formatter out of levels''"
| "format (Suc n) nt get node v =
     (if sn_kind node = Primitive then Inr (format_primitive nt v)
      else if sn_kind node = Variant then
        bindK (encode_leaf get node v []) (\<lambda>selected.
        bindK (format n nt get selected v) (\<lambda>text.
        Inr ([123] @ join_texts [member_text (ascii ''case'') (json_string (sn_name selected)),
               member_text (ascii ''value'') text] @ [125])))
      else if sn_kind node = ArrayKind then (case v of
          VArr items \<Rightarrow>
            bindK (traverse (\<lambda>item. bindK (get (sn_element node)) (\<lambda>node. format n nt get node item)) items) (\<lambda>texts.
            Inr ([91] @ join_texts texts @ [93]))
        | _ \<Rightarrow> type_fault ''expected non-proxy data object'')
      else (case v of
          VRec identity fs \<Rightarrow>
            bindK (traverse (format_field (format n nt get) get fs) (sn_fields node)) (\<lambda>texts.
            Inr ([123] @ join_texts texts @ [125]))
        | _ \<Rightarrow> type_fault ''expected non-proxy data object''))"

definition format_levels :: nat where
  "format_levels = 66"

definition encodeJSON :: "(jsnum \<Rightarrow> jsstr) \<Rightarrow> Schema \<Rightarrow> cval \<Rightarrow> int \<Rightarrow> octet list codec" where
  "encodeJSON num_text schema input limit =
     bindK (graph schema) (\<lambda>get.
     bindK (new_Budget limit) (\<lambda>b.
     bindK (get (root schema)) (\<lambda>node.
     bindK (preflight num_text get node input [] 0 b) (\<lambda>b.
     bindK (format format_levels num_text get node input) (\<lambda>text.
     let encoded = utf8_text text in
     if int (length encoded) \<noteq> limit - remaining b
     then type_fault ''codec preflight/formatter length mismatch''
     else Inr (map word_of_int encoded))))))"

section \<open>Lengths\<close>

text \<open>Texts that start with an ASCII unit do not combine with what precedes them.\<close>

definition ascii_start :: "jsstr \<Rightarrow> bool" where
  "ascii_start t \<longleftrightarrow> t \<noteq> [] \<and> uint (hd t) < 128"

lemma utf16_decode_append:
  "\<not> is_low_surrogate u \<Longrightarrow> utf16_decode (a @ u # b) = utf16_decode a @ utf16_decode (u # b)"
proof (induction a rule: utf16_decode.induct)
  case (2 v)
  then show ?case by (cases "is_high_surrogate v") auto
next
  case (3 v w us)
  then show ?case by (cases "is_high_surrogate v \<and> is_low_surrogate w") auto
qed simp

lemma utf8_encode_append [simp]: "utf8_encode (a @ b) = utf8_encode a @ utf8_encode b"
  by (simp add: utf8_encode_def)

lemma utf8_text_append: "ascii_start t \<Longrightarrow> utf8_text (a @ t) = utf8_text a @ utf8_text t"
proof -
  assume "ascii_start t"
  then obtain u b where "t = u # b" "\<not> is_low_surrogate u"
    by (cases t) (auto simp: ascii_start_def unit_defs)
  then show ?thesis by (simp add: utf8_text_def utf16_decode_append)
qed

lemma utf8_text_Nil [simp]: "utf8_text [] = []"
  by (simp add: utf8_text_def utf8_encode_def)

lemma utf8_text_single: "uint u < 128 \<Longrightarrow> length (utf8_text [u]) = 1"
  by (simp add: utf8_text_def utf8_encode_def utf8_of_def unit_defs)

lemma length_utf8_ascii: "list_all (\<lambda>u. uint u < 128) t \<Longrightarrow> length (utf8_text t) = length t"
proof (induction t rule: rev_induct)
  case (snoc u t)
  then show ?case using utf8_text_append [of "[u]" t] utf8_text_single [of u] by (simp add: ascii_start_def)
qed simp

lemma length_utf8_append1:
  "uint u < 128 \<Longrightarrow> length (utf8_text (a @ [u])) = Suc (length (utf8_text a))"
  using utf8_text_append [of "[u]" a] utf8_text_single [of u] by (simp add: ascii_start_def)

lemma length_utf8_Cons1:
  "uint u < 128 \<Longrightarrow> ascii_start a \<Longrightarrow> length (utf8_text (u # a)) = Suc (length (utf8_text a))"
  using utf8_text_append [of a "[u]"] utf8_text_single [of u] by simp

lemma ascii_start_append [simp]: "ascii_start a \<Longrightarrow> ascii_start (a @ b)"
  by (auto simp: ascii_start_def)

lemma ascii_start_Cons [simp]: "ascii_start (u # a) \<longleftrightarrow> uint u < 128"
  by (simp add: ascii_start_def)

lemma ascii_start_json_string [simp]: "ascii_start (json_string s)"
  by (simp add: json_string_def)

lemma ascii_start_member_text [simp]: "ascii_start (member_text name text)"
  by (simp add: member_text_def)

lemma length_member_text:
  "ascii_start text \<Longrightarrow> length (utf8_text (member_text name text))
     = length (utf8_text (json_string name)) + 1 + length (utf8_text text)"
proof -
  assume "ascii_start text"
  then have "utf8_text (member_text name text) = utf8_text (json_string name @ [58]) @ utf8_text text"
    using utf8_text_append [of "text" "json_string name @ [58]"] by (simp add: member_text_def)
  then show ?thesis using length_utf8_append1 [of 58 "json_string name"] by simp
qed

definition texts_length :: "jsstr list \<Rightarrow> nat" where
  "texts_length texts = sum_list (map (\<lambda>t. length (utf8_text t)) texts)"

lemma texts_length_simps [simp]:
  "texts_length [] = 0"
  "texts_length (t # ts) = length (utf8_text t) + texts_length ts"
  by (simp_all add: texts_length_def)

lemma join_texts_length:
  "texts \<noteq> [] \<Longrightarrow> list_all ascii_start texts
    \<Longrightarrow> ascii_start (join_texts texts)
      \<and> length (utf8_text (join_texts texts)) = texts_length texts + (length texts - 1)"
proof (induction texts rule: join_texts.induct)
  case (3 t u ts)
  then have ih: "ascii_start (join_texts (u # ts))"
    "length (utf8_text (join_texts (u # ts))) = texts_length (u # ts) + (length (u # ts) - 1)" by auto
  have "utf8_text (join_texts (t # u # ts)) = utf8_text t @ utf8_text (44 # join_texts (u # ts))"
    using utf8_text_append [of "44 # join_texts (u # ts)" t] by simp
  then show ?case using ih "3.prems" length_utf8_Cons1 [of 44 "join_texts (u # ts)"] by simp
qed auto

lemma bracket_length:
  assumes "uint l < 128" and "uint r < 128" and "list_all ascii_start texts"
  shows "int (length (utf8_text (l # join_texts texts @ [r])))
       = 2 + max 0 (int (length texts) - 1) + int (texts_length texts)"
proof (cases "texts = []")
  case True
  then show ?thesis
    using assms length_utf8_append1 [of r "[l]"] utf8_text_single [of l] by simp
next
  case False
  have j: "ascii_start (join_texts texts)"
    "length (utf8_text (join_texts texts)) = texts_length texts + (length texts - 1)"
    using join_texts_length [OF False assms(3)] by auto
  have "1 \<le> length texts" using False by (simp add: Suc_le_eq)
  moreover have "length (utf8_text (l # join_texts texts @ [r])) = Suc (Suc (length (utf8_text (join_texts texts))))"
    using length_utf8_Cons1 [of l "join_texts texts @ [r]"] length_utf8_append1 [of r "join_texts texts"] assms j
    by simp
  ultimately show ?thesis using j by simp
qed

section \<open>The preflight is exact\<close>

lemma charge_effect: "charge n path b = Inr b' \<Longrightarrow> remaining b' = remaining b - n \<and> nodes b' = nodes b \<and> bytes b' = bytes b"
  by (auto simp: charge_def split: if_splits)

lemma visit_effect: "visit d path b = Inr b' \<Longrightarrow> remaining b' = remaining b \<and> nodes b' = nodes b + 1 \<and> bytes b' = bytes b"
  by (auto simp: visit_def split: if_splits)

lemma textCost_effect:
  "textCost s path b = Inr b'
    \<Longrightarrow> remaining b' = remaining b - int (length (utf8_text (json_string s))) \<and> nodes b' = nodes b \<and> bytes b' = bytes b"
  by (auto simp: textCost_def bindK_Inr_conv dest: charge_effect split: if_splits)

lemma names_cost_effect:
  "names_cost names path b = Inr b'
    \<Longrightarrow> remaining b' = remaining b - int (texts_length (map json_string names)) \<and> nodes b' = nodes b \<and> bytes b' = bytes b"
proof (induction names arbitrary: b)
  case (Cons name names)
  then show ?case by (fastforce simp: bindK_Inr_conv dest!: textCost_effect)
qed simp

lemma keys_cost_effect:
  "keys_cost names path b = Inr b'
    \<Longrightarrow> remaining b' = remaining b - (2 + max 0 (int (length names) - 1) + int (length names)
          + int (texts_length (map json_string names))) \<and> nodes b' = nodes b \<and> bytes b' = bytes b"
  by (fastforce simp: keys_cost_def bindK_Inr_conv dest!: names_cost_effect charge_effect)

text \<open>What the encoder relies on for the text of a double: it is ASCII.\<close>

definition ascii_numbers :: "(jsnum \<Rightarrow> jsstr) \<Rightarrow> bool" where
  "ascii_numbers nt \<longleftrightarrow> (\<forall>x. isFinite x \<longrightarrow> x \<noteq> NegZero \<longrightarrow> nt x \<noteq> [] \<and> list_all (\<lambda>u. uint u < 128) (nt x))"

lemma int_string_ascii: "list_all (\<lambda>u. uint u < 128) (int_string i)"
proof -
  have "list_all (\<lambda>u. uint u < 128) (int_string \<bar>i\<bar>)"
    using list_all_digit_int_string [of "\<bar>i\<bar>"]
    by (fastforce simp: list_all_iff is_digit_unit_def in_range_def)
  then show ?thesis by (cases "i < 0") (simp_all add: int_string_def ascii_def unit_of_char_def)
qed

lemma ascii_startI: "t \<noteq> [] \<Longrightarrow> list_all (\<lambda>u. uint u < 128) t \<Longrightarrow> ascii_start t"
  by (cases t) simp_all

lemma encodeInteger_effect:
  "encodeInteger i path b = Inr (t, b')
    \<Longrightarrow> t = int_string i \<and> remaining b' = remaining b - int (length t) \<and> nodes b' = nodes b \<and> bytes b' = bytes b"
  by (auto simp: encodeInteger_def Let_def bindK_Inr_conv dest!: charge_effect split: if_splits)

lemma preflight_primitive_format:
  assumes "ascii_numbers nt" and "preflight_primitive nt name v path b = Inr b'"
  shows "ascii_start (format_primitive nt v)
    \<and> int (length (utf8_text (format_primitive nt v))) = remaining b - remaining b'"
proof (cases v)
  case (VStr s)
  then show ?thesis using assms(2)
    by (auto simp: preflight_primitive_def format_primitive_def type_fault_def dest: textCost_effect split: if_splits)
next
  case (VBool x)
  have t: "length (utf8_text (ascii ''true'')) = 4" "length (utf8_text (ascii ''false'')) = 5"
    "ascii_start (ascii ''true'')" "ascii_start (ascii ''false'')"
    by (simp_all add: length_utf8_ascii ascii_def unit_of_char_def)
  show ?thesis using assms(2) VBool
    by (auto simp: preflight_primitive_def format_primitive_def type_fault_def t
        dest!: charge_effect split: if_splits)
next
  case (VInt i)
  then show ?thesis using assms(2) int_string_ascii [of i]
    by (auto simp: preflight_primitive_def format_primitive_def type_fault_def bindK_Inr_conv ascii_startI
        length_utf8_ascii dest!: encodeInteger_effect split: if_splits)
next
  case (VFloat x)
  have "length (utf8_text (ascii ''-0'')) = 2" "ascii_start (ascii ''-0'')"
    by (simp_all add: length_utf8_ascii ascii_def unit_of_char_def)
  then show ?thesis using assms VFloat
    by (auto simp: preflight_primitive_def format_primitive_def type_fault_def ascii_numbers_def ascii_startI
        length_utf8_ascii dest!: charge_effect split: if_splits)
qed (use assms(2) in \<open>auto simp: preflight_primitive_def type_fault_def split: if_splits\<close>)

lemma encode_leaf_path: "encode_leaf get node v path = Inr leaf \<Longrightarrow> encode_leaf get node v path' = Inr leaf"
  by (auto simp: encode_leaf_def bindK_Inr_conv split: option.splits)

section \<open>Accepted values\<close>

text \<open>
  The successful runs of the preflight as a big-step relation between a value, the budget
  before and the budget after; the properties of accepted values go by rule induction.
\<close>

inductive accepts ::
  "(jsnum \<Rightarrow> jsstr) \<Rightarrow> getter \<Rightarrow> SchemaNode \<Rightarrow> cval \<Rightarrow> jsstr \<Rightarrow> int \<Rightarrow> Budget \<Rightarrow> Budget \<Rightarrow> bool"
and accepts_items ::
  "(jsnum \<Rightarrow> jsstr) \<Rightarrow> getter \<Rightarrow> jsstr \<Rightarrow> cval list \<Rightarrow> int \<Rightarrow> jsstr \<Rightarrow> int \<Rightarrow> Budget \<Rightarrow> Budget \<Rightarrow> bool"
and accepts_fields ::
  "(jsnum \<Rightarrow> jsstr) \<Rightarrow> getter \<Rightarrow> (jsstr \<times> jsstr) list \<Rightarrow> (jsstr \<times> cval) list \<Rightarrow> jsstr \<Rightarrow> int \<Rightarrow> Budget \<Rightarrow> Budget \<Rightarrow> bool"
for nt get where
  Prim: "visit depth path b = Inr b0 \<Longrightarrow> sn_kind node = Primitive
    \<Longrightarrow> preflight_primitive nt (sn_name node) v path b0 = Inr b'
    \<Longrightarrow> accepts nt get node v path depth b b'"
| Vari: "visit (depth + 1) path b = Inr b0 \<Longrightarrow> sn_kind node = Variant
    \<Longrightarrow> encode_leaf get node v path = Inr leaf
    \<Longrightarrow> keys_cost [ascii ''case'', ascii ''value''] path b0 = Inr b1
    \<Longrightarrow> visit (depth + 1) (childPath path (ascii ''case'')) b1 = Inr b2
    \<Longrightarrow> textCost (sn_name leaf) (childPath path (ascii ''case'')) b2 = Inr b3
    \<Longrightarrow> accepts nt get leaf v (childPath path (ascii ''value'')) (depth + 1) b3 b'
    \<Longrightarrow> accepts nt get node v path depth b b'"
| Array: "visit (depth + 1) path b = Inr b0 \<Longrightarrow> sn_kind node = ArrayKind
    \<Longrightarrow> charge (2 + max 0 (int (length items) - 1)) path b0 = Inr b1
    \<Longrightarrow> accepts_items nt get (sn_element node) items 0 path depth b1 b'
    \<Longrightarrow> accepts nt get node (VArr items) path depth b b'"
| Record: "visit (depth + 1) path b = Inr b0 \<Longrightarrow> sn_kind node = RecordKind \<or> sn_kind node = ErrorKind
    \<Longrightarrow> keys_cost (map fst (sn_fields node)) path b0 = Inr b1
    \<Longrightarrow> accepts_fields nt get (sn_fields node) fs path depth b1 b'
    \<Longrightarrow> extras fs (map fst (sn_fields node)) path = Inr ()
    \<Longrightarrow> accepts nt get node (VRec (sn_identity node) fs) path depth b b'"
| NoItem: "accepts_items nt get element [] i path depth b b"
| Item: "get element = Inr node
    \<Longrightarrow> accepts nt get node item (childPath path (int_string i)) (depth + 1) b b1
    \<Longrightarrow> accepts_items nt get element items (i + 1) path depth b1 b'
    \<Longrightarrow> accepts_items nt get element (item # items) i path depth b b'"
| NoField: "accepts_fields nt get [] fs path depth b b"
| Field: "get (snd field) = Inr node \<Longrightarrow> map_of fs (fst field) = Some v
    \<Longrightarrow> accepts nt get node v (childPath path (fst field)) (depth + 1) b b1
    \<Longrightarrow> accepts_fields nt get decl fs path depth b1 b'
    \<Longrightarrow> accepts_fields nt get (field # decl) fs path depth b b'"

lemma preflight_accepts:
  "preflight nt get node v path depth b = Inr b' \<Longrightarrow> accepts nt get node v path depth b b'"
  "preflight_items nt get element vs i path depth b = Inr b' \<Longrightarrow> accepts_items nt get element vs i path depth b b'"
  "preflight_fields nt get decl fs path depth b = Inr b' \<Longrightarrow> accepts_fields nt get decl fs path depth b b'"
proof (induction nt get node v path depth b and nt get element vs i path depth b and nt get decl fs path depth b
    arbitrary: b' and b' and b' rule: preflight_preflight_items_preflight_fields.induct)
  case (3 nt get element item items i path depth b)
  then obtain node b1 where "get element = Inr node"
    "preflight nt get node item (childPath path (int_string i)) (depth + 1) b = Inr b1"
    "preflight_items nt get element items (i + 1) path depth b1 = Inr b'"
    by (auto simp: bindK_Inr_conv)
  then show ?case using "3.IH" by (blast intro: Item)
next
  case (5 nt get field rest fs path depth b)
  then obtain node v b1 where "get (snd field) = Inr node" "required fs (fst field) path = Inr v"
    "preflight nt get node v (childPath path (fst field)) (depth + 1) b = Inr b1"
    "preflight_fields nt get rest fs path depth b1 = Inr b'"
    by (auto simp: bindK_Inr_conv)
  moreover from this have "map_of fs (fst field) = Some v" by (auto simp: required_def split: option.splits)
  ultimately show ?case using "5.IH" by (blast intro: Field)
next
  case (1 nt get node v path depth b)
  obtain b0 where b0: "visit (depth + (if sn_kind node \<noteq> Primitive then 1 else 0)) path b = Inr b0"
    using "1.prems" by (subst (asm) preflight.simps) (auto simp: bindK_Inr_conv)
  note unf = "1.prems" [unfolded preflight.simps [of nt get node] b0 bindK_simps]
  show ?case
  proof (cases "sn_kind node = Primitive")
    case True
    then show ?thesis using unf b0 by (auto intro: Prim)
  next
    case np: False
    show ?thesis
    proof (cases "sn_kind node = Variant")
      case True
      then show ?thesis
        using unf b0 np "1.IH"(1) [OF b0 np True]
        by (auto simp: bindK_Inr_conv intro: Vari)
    next
      case nv: False
      show ?thesis
        using unf b0 np nv "1.IH"(2) [OF b0 np nv] "1.IH"(3) [OF b0 np nv]
        by (cases v) (auto simp: bindK_Inr_conv type_fault_def intro: Array Record split: if_splits)
    qed
  qed
qed (auto intro: NoItem NoField)

lemma accepts_format:
  assumes nt: "ascii_numbers nt"
  shows "accepts nt get node v path depth b b' \<Longrightarrow> nat (65 - depth) < n
    \<Longrightarrow> \<exists>t. format n nt get node v = Inr t \<and> ascii_start t
           \<and> int (length (utf8_text t)) = remaining b - remaining b'"
  and "accepts_items nt get element vs i path depth b b' \<Longrightarrow> nat (64 - depth) < n
    \<Longrightarrow> \<exists>ts. traverse (\<lambda>item. bindK (get element) (\<lambda>node. format n nt get node item)) vs = Inr ts
           \<and> list_all ascii_start ts \<and> length ts = length vs
           \<and> int (texts_length ts) = remaining b - remaining b'"
  and "accepts_fields nt get decl fs path depth b b' \<Longrightarrow> nat (64 - depth) < n
    \<Longrightarrow> \<exists>ts. traverse (format_field (format n nt get) get fs) decl = Inr ts
           \<and> list_all ascii_start ts \<and> length ts = length decl
           \<and> int (texts_length ts) = remaining b - remaining b' + int (length decl)
               + int (texts_length (map json_string (map fst decl)))"
proof (induction arbitrary: n and n and n rule: accepts_accepts_items_accepts_fields.inducts)
  case (Prim depth path b b0 node v b')
  have st: "visit depth path b = Inr b0" "preflight_primitive nt (sn_name node) v path b0 = Inr b'"
    "sn_kind node = Primitive" by fact+
  obtain m where "n = Suc m" using Prim.prems by (cases n) auto
  then show ?case using preflight_primitive_format [OF nt st(2)] st(3) visit_effect [OF st(1)] by simp
next
  case (Vari depth path b b0 node v leaf b1 b2 b3 b')
  have st: "visit (depth + 1) path b = Inr b0" "encode_leaf get node v path = Inr leaf"
    "keys_cost [ascii ''case'', ascii ''value''] path b0 = Inr b1"
    "visit (depth + 1) (childPath path (ascii ''case'')) b1 = Inr b2"
    "textCost (sn_name leaf) (childPath path (ascii ''case'')) b2 = Inr b3" "sn_kind node = Variant" by fact+
  obtain m where n: "n = Suc m" "nat (65 - (depth + 1)) < m"
    using Vari.prems visit_depth [OF st(1)] by (cases n) auto
  then obtain t where t: "format m nt get leaf v = Inr t" "ascii_start t"
      "int (length (utf8_text t)) = remaining b3 - remaining b'"
    using Vari.IH by blast
  have "remaining b - remaining b3 = 5 + int (texts_length (map json_string [ascii ''case'', ascii ''value'']))
      + int (length (utf8_text (json_string (sn_name leaf))))"
    using keys_cost_effect [OF st(3)] visit_effect [OF st(1)] visit_effect [OF st(4)] textCost_effect [OF st(5)] by simp
  then show ?case
    using t st(6) encode_leaf_path [OF st(2), of "[]"]
      bracket_length [of 123 125 "[member_text (ascii ''case'') (json_string (sn_name leaf)), member_text (ascii ''value'') t]"]
    by (simp add: n length_member_text)
next
  case (Array depth path b b0 node items b1 b')
  have st: "visit (depth + 1) path b = Inr b0" "charge (2 + max 0 (int (length items) - 1)) path b0 = Inr b1"
    "sn_kind node = ArrayKind" by fact+
  obtain m where n: "n = Suc m" "nat (64 - depth) < m"
    using Array.prems visit_depth [OF st(1)] by (cases n) auto
  then obtain ts where "traverse (\<lambda>item. bindK (get (sn_element node)) (\<lambda>node. format m nt get node item)) items = Inr ts"
      "list_all ascii_start ts" "length ts = length items" "int (texts_length ts) = remaining b1 - remaining b'"
    using Array.IH by blast
  then show ?case
    using st(3) charge_effect [OF st(2)] visit_effect [OF st(1)] by (simp add: n bracket_length)
next
  case (Record depth path b b0 node b1 fs b')
  have st: "visit (depth + 1) path b = Inr b0" "keys_cost (map fst (sn_fields node)) path b0 = Inr b1"
    "sn_kind node = RecordKind \<or> sn_kind node = ErrorKind" by fact+
  obtain m where n: "n = Suc m" "nat (64 - depth) < m"
    using Record.prems visit_depth [OF st(1)] by (cases n) auto
  then obtain ts where "traverse (format_field (format m nt get) get fs) (sn_fields node) = Inr ts"
      "list_all ascii_start ts" "length ts = length (sn_fields node)"
      "int (texts_length ts) = remaining b1 - remaining b' + int (length (sn_fields node))
         + int (texts_length (map json_string (map fst (sn_fields node))))"
    using Record.IH by blast
  then show ?case
    using st(3) keys_cost_effect [OF st(2)] visit_effect [OF st(1)] by (auto simp: n bracket_length)
next
  case (Item element node item path i depth b b1 items b')
  have "get element = Inr node" "nat (65 - (depth + 1)) < n" using Item.prems \<open>get element = Inr node\<close> by auto
  moreover from this obtain t where "format n nt get node item = Inr t" "ascii_start t"
      "int (length (utf8_text t)) = remaining b - remaining b1"
    using Item.IH by blast
  moreover obtain ts where "traverse (\<lambda>item. bindK (get element) (\<lambda>node. format n nt get node item)) items = Inr ts"
      "list_all ascii_start ts" "length ts = length items" "int (texts_length ts) = remaining b1 - remaining b'"
    using Item.IH Item.prems by blast
  ultimately show ?case by simp
next
  case (Field field node fs v path depth b b1 decl b')
  have "get (snd field) = Inr node" "map_of fs (fst field) = Some v" by fact+
  moreover have "nat (65 - (depth + 1)) < n" using Field.prems by simp
  moreover from this obtain t where "format n nt get node v = Inr t" "ascii_start t"
      "int (length (utf8_text t)) = remaining b - remaining b1"
    using Field.IH by blast
  moreover obtain ts where "traverse (format_field (format n nt get) get fs) decl = Inr ts"
      "list_all ascii_start ts" "length ts = length decl"
      "int (texts_length ts) = remaining b1 - remaining b' + int (length decl)
         + int (texts_length (map json_string (map fst decl)))"
    using Field.IH Field.prems by blast
  ultimately show ?case by (simp add: format_field_def [of _ _ _ field] length_member_text)
qed auto

lemma charge_nonneg: "charge n path b = Inr b' \<Longrightarrow> 0 \<le> remaining b'"
  by (auto simp: charge_def split: if_splits)

lemma textCost_nonneg: "textCost s path b = Inr b' \<Longrightarrow> 0 \<le> remaining b'"
  by (auto simp: textCost_def bindK_Inr_conv intro: charge_nonneg split: if_splits)

lemma preflight_primitive_nonneg: "preflight_primitive nt name v path b = Inr b' \<Longrightarrow> 0 \<le> remaining b'"
  by (auto simp: preflight_primitive_def encodeInteger_def Let_def type_fault_def bindK_Inr_conv
      intro: charge_nonneg textCost_nonneg split: if_splits cval.splits)

lemma names_cost_nonneg: "0 \<le> remaining b \<Longrightarrow> names_cost ns path b = Inr b' \<Longrightarrow> 0 \<le> remaining b'"
  by (induction ns arbitrary: b) (auto simp: bindK_Inr_conv dest: textCost_nonneg)

lemma keys_cost_nonneg: "keys_cost ns path b = Inr b' \<Longrightarrow> 0 \<le> remaining b'"
  by (auto simp: keys_cost_def bindK_Inr_conv dest: charge_nonneg names_cost_nonneg)

lemma accepts_nonneg:
  "accepts nt get node v path depth b b' \<Longrightarrow> 0 \<le> remaining b'"
  "accepts_items nt get element vs i path depth b b' \<Longrightarrow> 0 \<le> remaining b \<Longrightarrow> 0 \<le> remaining b'"
  "accepts_fields nt get decl fs path depth b b' \<Longrightarrow> 0 \<le> remaining b \<Longrightarrow> 0 \<le> remaining b'"
  by (induction rule: accepts_accepts_items_accepts_fields.inducts)
    (auto intro: preflight_primitive_nonneg dest: charge_nonneg keys_cost_nonneg)

text \<open>
  C24: The preflight of encodeJSON is exact. When it accepts a value the formatter succeeds on
  it and the UTF-8 length of the text is exactly the amount charged to the budget, so the
  result is never longer than the limit and the length mismatch is never reported; when it
  rejects the value nothing is formatted and its issue is the outcome.
\<close>

theorem encodeJSON_preflight_exact:
  assumes "ascii_numbers nt" and "graph schema = Inr get" and "new_Budget limit = Inr b"
    and "get (root schema) = Inr node"
  shows "case preflight nt get node v [] 0 b of
      Inl e \<Rightarrow> encodeJSON nt schema v limit = Inl e
    | Inr b' \<Rightarrow> (\<exists>t. format format_levels nt get node v = Inr t
        \<and> encodeJSON nt schema v limit = Inr (map word_of_int (utf8_text t))
        \<and> int (length (utf8_text t)) = limit - remaining b' \<and> 0 \<le> remaining b')"
proof (cases "preflight nt get node v [] 0 b")
  case (Inl e)
  then show ?thesis using assms by (simp add: encodeJSON_def)
next
  case (Inr b')
  have b: "remaining b = limit" "0 \<le> limit"
    using assms(3) by (auto simp: new_Budget_def split: if_splits)
  obtain t where t: "format format_levels nt get node v = Inr t"
    "int (length (utf8_text t)) = remaining b - remaining b'"
    using accepts_format(1) [OF assms(1) preflight_accepts(1) [OF Inr], of format_levels] by (auto simp: format_levels_def)
  then show ?thesis
    using assms Inr b accepts_nonneg(1) [OF preflight_accepts(1) [OF Inr]] by (simp add: encodeJSON_def)
qed

definition text_node :: SchemaNode where
  "text_node = \<lparr>sn_identity = ascii ''t'', sn_kind = Primitive, sn_name = ascii ''str'',
     sn_element = [], sn_fields = [], sn_leaves = []\<rparr>"

definition text_get :: getter where
  "text_get ident = (if ident = ascii ''t'' then Inr text_node else type_fault ''missing codec schema node'')"

definition text_schema :: Schema where
  "text_schema = \<lparr>root = ascii ''t'', schema_nodes = [text_node]\<rparr>"

lemma text_graph: "graph text_schema = Inr text_get"
  by (simp add: graph_def text_schema_def text_get_def text_node_def fun_eq_iff ascii_def unit_of_char_def)

theorem encodeJSON_preflight_exact_witness:
  "(\<exists>t. encodeJSON (\<lambda>_. [48]) text_schema (VStr [104, 34, 233]) 9 = Inr (map word_of_int (utf8_text t))
     \<and> int (length (utf8_text t)) = 7)
   \<and> encodeJSON (\<lambda>_. [48]) text_schema (VStr [104, 34, 233]) 6 = Inl (Issue [] ByteLimit)"
proof -
  have root: "text_get (root text_schema) = Inr text_node" by (simp add: text_get_def text_schema_def)
  have nt: "ascii_numbers (\<lambda>_. [48])" by (simp add: ascii_numbers_def)
  have budgets: "new_Budget 9 = Inr \<lparr>bytes = 9, remaining = 9, nodes = 0\<rparr>"
    "new_Budget 6 = Inr \<lparr>bytes = 6, remaining = 6, nodes = 0\<rparr>" by code_simp+
  have pre: "preflight (\<lambda>_. [48]) text_get text_node (VStr [104, 34, 233]) [] 0 \<lparr>bytes = 9, remaining = 9, nodes = 0\<rparr>
      = Inr \<lparr>bytes = 9, remaining = 2, nodes = 1\<rparr>"
    "preflight (\<lambda>_. [48]) text_get text_node (VStr [104, 34, 233]) [] 0 \<lparr>bytes = 6, remaining = 6, nodes = 0\<rparr>
      = Inl (Issue [] ByteLimit)" by code_simp+
  show ?thesis
    using encodeJSON_preflight_exact [OF nt text_graph budgets(1) root, of "VStr [104, 34, 233]"]
      encodeJSON_preflight_exact [OF nt text_graph budgets(2) root, of "VStr [104, 34, 233]"] pre by auto
qed

end
