(* ===== verification/JsonParse.thy ===== *)
theory JsonParse
  imports Encode
begin

text \<open>
  The platform's JSON parser as the codec uses it: \<open>JSON.parse\<close> with a reviver that keeps the
  source token of every number. A recursive descent over the grammar of the language
  definition; the fuel bounds the number of steps down the text and is never exhausted when
  it exceeds twice the length of the text.
\<close>

section \<open>Tokens\<close>

definition whitespace :: "code_unit \<Rightarrow> bool" where
  "whitespace u \<longleftrightarrow> u = 32 \<or> u = 9 \<or> u = 13 \<or> u = 10"

definition skip_ws :: "jsstr \<Rightarrow> jsstr" where
  "skip_ws s = dropWhile whitespace s"

definition escape_unit :: "code_unit \<Rightarrow> code_unit option" where
  "escape_unit e =
     (if e = 34 then Some 34 else if e = 92 then Some 92 else if e = 47 then Some 47
      else if e = 98 then Some 8 else if e = 102 then Some 12 else if e = 110 then Some 10
      else if e = 114 then Some 13 else if e = 116 then Some 9 else None)"

definition hex4 :: "code_unit \<Rightarrow> code_unit \<Rightarrow> code_unit \<Rightarrow> code_unit \<Rightarrow> code_unit option" where
  "hex4 a b c d =
     (case (hex_value a, hex_value b, hex_value c, hex_value d) of
        (Some x, Some y, Some z, Some w) \<Rightarrow> Some (word_of_int (((x * 16 + y) * 16 + z) * 16 + w))
      | _ \<Rightarrow> None)"

text \<open>The characters of a string literal up to its closing quote.\<close>

function (sequential) parse_chars :: "jsstr \<Rightarrow> (jsstr \<times> jsstr) option" where
  "parse_chars [] = None"
| "parse_chars (u # us) =
     (if u = 34 then Some ([], us)
      else if u = 92 then
        (case us of
           [] \<Rightarrow> None
         | e # rest \<Rightarrow>
             if e = 117 then
               (case rest of
                  a # b # c # d # rest' \<Rightarrow>
                    (case hex4 a b c d of
                       Some v \<Rightarrow> map_option (\<lambda>(t, r). (v # t, r)) (parse_chars rest')
                     | None \<Rightarrow> None)
                | _ \<Rightarrow> None)
             else (case escape_unit e of
                 Some v \<Rightarrow> map_option (\<lambda>(t, r). (v # t, r)) (parse_chars rest)
               | None \<Rightarrow> None))
      else if uint u < 32 then None
      else map_option (\<lambda>(t, r). (u # t, r)) (parse_chars us))"
  by pat_completeness auto
termination
  by (relation "measure length") auto

declare parse_chars.simps [simp del]

text \<open>
  A number is the longest run of units that can occur in one; the run must be a token of the
  grammar. The double it denotes is the nearest one.
\<close>

definition number_unit :: "code_unit \<Rightarrow> bool" where
  "number_unit u \<longleftrightarrow> is_digit_unit u \<or> u = 43 \<or> u = 45 \<or> u = 46 \<or> u = 69 \<or> u = 101"

definition json_number :: "jsstr \<Rightarrow> bool" where
  "json_number token \<longleftrightarrow>
     (case numeric_parts token of Some (negative, ip, fp, ex) \<Rightarrow> plain_integer ip | None \<Rightarrow> False)"

definition token_number :: "jsstr \<Rightarrow> jsnum" where
  "token_number token =
     (case numeric_parts token of
        Some (negative, ip, fp, ex) \<Rightarrow> to_double negative \<bar>numeric_value (negative, ip, fp, ex)\<bar>
      | None \<Rightarrow> NaN)"

definition parse_number :: "jsstr \<Rightarrow> (jtree \<times> jsstr) option" where
  "parse_number s =
     (let token = takeWhile number_unit s
      in if json_number token then Some (JNum (token_number token) token, dropWhile number_unit s) else None)"

definition parse_literal :: "jsstr \<Rightarrow> (jtree \<times> jsstr) option" where
  "parse_literal s =
     (if startsWith s (ascii ''true'') then Some (JBool True, drop 4 s)
      else if startsWith s (ascii ''false'') then Some (JBool False, drop 5 s)
      else if startsWith s (ascii ''null'') then Some (JNull, drop 4 s)
      else parse_number s)"

section \<open>Values\<close>

text \<open>
  The members of an object: a repeated key keeps its place and takes the last value, and keys
  that are array indices are enumerated first, in ascending order.
\<close>

definition own_members :: "(jsstr \<times> 'v) list \<Rightarrow> (jsstr \<times> 'v) list" where
  "own_members ps =
     (let ms = foldl (\<lambda>m (k, v). nm_set k v m) [] ps
      in sort_key (\<lambda>p. units_value (fst p)) (filter (\<lambda>p. array_index (fst p)) ms)
         @ filter (\<lambda>p. \<not> array_index (fst p)) ms)"

fun parse_value :: "nat \<Rightarrow> jsstr \<Rightarrow> (jtree \<times> jsstr) option"
and parse_items :: "nat \<Rightarrow> jsstr \<Rightarrow> (jtree list \<times> jsstr) option"
and parse_members :: "nat \<Rightarrow> jsstr \<Rightarrow> ((jsstr \<times> jtree) list \<times> jsstr) option" where
  "parse_value 0 s = None"
| "parse_value (Suc n) s =
     (case skip_ws s of
        [] \<Rightarrow> None
      | u # us \<Rightarrow>
          if u = 34 then map_option (\<lambda>(t, r). (JStr t, r)) (parse_chars us)
          else if u = 91 then
            (if startsWith (skip_ws us) [93] then Some (JArr [], tl (skip_ws us))
             else map_option (\<lambda>(vs, r). (JArr vs, r)) (parse_items n us))
          else if u = 123 then
            (if startsWith (skip_ws us) [125] then Some (JObj [], tl (skip_ws us))
             else map_option (\<lambda>(ms, r). (JObj (own_members ms), r)) (parse_members n us))
          else parse_literal (u # us))"
| "parse_items 0 s = None"
| "parse_items (Suc n) s =
     (case parse_value n s of
        None \<Rightarrow> None
      | Some (v, r) \<Rightarrow>
          if startsWith (skip_ws r) [44] then map_option (\<lambda>(vs, r). (v # vs, r)) (parse_items n (tl (skip_ws r)))
          else if startsWith (skip_ws r) [93] then Some ([v], tl (skip_ws r))
          else None)"
| "parse_members 0 s = None"
| "parse_members (Suc n) s =
     (if startsWith (skip_ws s) [34] then
        (case parse_chars (tl (skip_ws s)) of
           None \<Rightarrow> None
         | Some (key, r) \<Rightarrow>
             if startsWith (skip_ws r) [58] then
               (case parse_value n (tl (skip_ws r)) of
                  None \<Rightarrow> None
                | Some (v, r) \<Rightarrow>
                    if startsWith (skip_ws r) [44]
                    then map_option (\<lambda>(ms, r). ((key, v) # ms, r)) (parse_members n (tl (skip_ws r)))
                    else if startsWith (skip_ws r) [125] then Some ([(key, v)], tl (skip_ws r))
                    else None)
             else None)
      else None)"

definition parse_json :: "jsstr \<Rightarrow> jtree option" where
  "parse_json s =
     (case parse_value (Suc (2 * length s)) s of
        Some (tree, r) \<Rightarrow> if skip_ws r = [] then Some tree else None
      | None \<Rightarrow> None)"

section \<open>The fuel is enough\<close>

lemma length_skip_ws: "length (skip_ws s) \<le> length s"
  by (simp add: skip_ws_def length_dropWhile_le)

lemma length_tl_skip_ws: "startsWith (skip_ws r) [c] \<Longrightarrow> length (tl (skip_ws r)) < length r"
  using length_skip_ws [of r] by (auto simp: startsWith_iff)

lemma parse_chars_shorter: "parse_chars s = Some (t, r) \<Longrightarrow> length r < length s"
proof (induction s arbitrary: t rule: parse_chars.induct)
  case (2 u us)
  show ?case
    using "2.prems" "2.IH"
    by (subst (asm) parse_chars.simps) (fastforce split: if_splits list.splits option.splits)
qed (simp add: parse_chars.simps)

lemma parse_literal_shorter: "parse_literal s = Some (t, r) \<Longrightarrow> length r < length s"
proof -
  have num: "length (dropWhile number_unit s) < length s" if "json_number (takeWhile number_unit s)"
  proof (cases s)
    case Nil
    then show ?thesis using that by (simp add: json_number_def numeric_parts_def strip_sign_def)
  next
    case (Cons u us)
    then have "number_unit u"
      using that by (auto simp: json_number_def numeric_parts_def strip_sign_def split: if_splits)
    then show ?thesis using Cons length_dropWhile_le [of number_unit us] by simp
  qed
  assume "parse_literal s = Some (t, r)"
  then show ?thesis
    using num by (auto simp: parse_literal_def parse_number_def Let_def startsWith_iff ascii_def split: if_splits)
qed

lemma parse_shorter:
  "parse_value n s = Some (v, r) \<Longrightarrow> length r < length s"
  "parse_items n s = Some (vs, r) \<Longrightarrow> length r < length s"
  "parse_members n s = Some (ms, r) \<Longrightarrow> length r < length s"
proof (induction n s and n s and n s arbitrary: v r and vs r and ms r
    rule: parse_value_parse_items_parse_members.induct)
  case (2 n s)
  have s: "skip_ws s = u # us \<Longrightarrow> Suc (length us) \<le> length s" for u us using length_skip_ws [of s] by simp
  show ?case
    using "2.prems" "2.IH" s length_tl_skip_ws parse_chars_shorter parse_literal_shorter
    by (fastforce split: if_splits list.splits)
next
  case (4 n s)
  obtain v r1 where v: "parse_value n s = Some (v, r1)" using "4.prems" by (auto split: option.splits)
  have l: "length r1 < length s" using "4.IH"(1) [OF v] .
  show ?case
  proof (cases "startsWith (skip_ws r1) [44]")
    case True
    then obtain ws where "parse_items n (tl (skip_ws r1)) = Some (ws, r)" using "4.prems" v by auto
    then show ?thesis using "4.IH"(2) [OF v refl True] length_tl_skip_ws [OF True] l by fastforce
  next
    case False
    then have "startsWith (skip_ws r1) [93]" "r = tl (skip_ws r1)" using "4.prems" v by (auto split: if_splits)
    then show ?thesis using length_tl_skip_ws l by fastforce
  qed
next
  case (6 n s)
  have q: "startsWith (skip_ws s) [34]" using "6.prems" by (auto split: if_splits)
  obtain key r0 where k: "parse_chars (tl (skip_ws s)) = Some (key, r0)" using "6.prems" q by (auto split: option.splits)
  have c: "startsWith (skip_ws r0) [58]" using "6.prems" q k by (auto split: if_splits)
  obtain v r1 where v: "parse_value n (tl (skip_ws r0)) = Some (v, r1)" using "6.prems" q k c by (auto split: option.splits)
  have l: "length r1 < length s"
    using "6.IH"(1) [OF q k refl c v] length_tl_skip_ws [OF c] parse_chars_shorter [OF k] length_tl_skip_ws [OF q] by simp
  show ?case
  proof (cases "startsWith (skip_ws r1) [44]")
    case True
    then obtain ws where "parse_members n (tl (skip_ws r1)) = Some (ws, r)" using "6.prems" q k c v by auto
    then show ?thesis using "6.IH"(2) [OF q k refl c v refl True] length_tl_skip_ws [OF True] l by fastforce
  next
    case False
    then have "startsWith (skip_ws r1) [125]" "r = tl (skip_ws r1)" using "6.prems" q k c v by (auto split: if_splits)
    then show ?thesis using length_tl_skip_ws l by fastforce
  qed
qed simp_all

lemmas parse_unfold = parse_value.simps parse_items.simps parse_members.simps

lemma parse_fuel_step:
  "2 * length s < n \<Longrightarrow> parse_value n s = parse_value (Suc n) s"
  "2 * length s + 1 < n \<Longrightarrow> parse_items n s = parse_items (Suc n) s"
  "2 * length s + 1 < n \<Longrightarrow> parse_members n s = parse_members (Suc n) s"
proof (induction n arbitrary: s)
  case (Suc n)
  {
    case 1
    have sub: "parse_items n us = parse_items (Suc n) us" "parse_members n us = parse_members (Suc n) us"
      if "skip_ws s = u # us" for u us
      using Suc.IH(2,3) [of us] 1 that length_skip_ws [of s] by auto
    show ?case unfolding parse_value.simps(2) [of n s] parse_value.simps(2) [of "Suc n" s]
      by (cases "skip_ws s") (auto simp: sub simp del: parse_unfold)
  next
    case 2
    have v: "parse_value n s = parse_value (Suc n) s" using Suc.IH(1) [of s] 2 by simp
    have sub: "parse_items n (tl (skip_ws r)) = parse_items (Suc n) (tl (skip_ws r))"
      if "parse_value (Suc n) s = Some (w, r)" "startsWith (skip_ws r) [44]" for w r
      using Suc.IH(2) [of "tl (skip_ws r)"] 2 parse_shorter(1) [OF that(1)] length_tl_skip_ws [OF that(2)] by simp
    show ?case unfolding parse_items.simps(2) [of n s] parse_items.simps(2) [of "Suc n" s] v
      by (cases "parse_value (Suc n) s") (auto simp: sub simp del: parse_unfold)
  next
    case 3
    have sub: "parse_value n (tl (skip_ws r)) = parse_value (Suc n) (tl (skip_ws r))"
      if "startsWith (skip_ws s) [34]" "parse_chars (tl (skip_ws s)) = Some (key, r)" "startsWith (skip_ws r) [58]" for key r
      using Suc.IH(1) [of "tl (skip_ws r)"] 3 parse_chars_shorter [OF that(2)] length_tl_skip_ws [OF that(1)]
        length_tl_skip_ws [OF that(3)] by simp
    have more: "parse_members n (tl (skip_ws r')) = parse_members (Suc n) (tl (skip_ws r'))"
      if "startsWith (skip_ws s) [34]" "parse_chars (tl (skip_ws s)) = Some (key, r)" "startsWith (skip_ws r) [58]"
        "parse_value (Suc n) (tl (skip_ws r)) = Some (w, r')" "startsWith (skip_ws r') [44]" for key r w r'
      using Suc.IH(3) [of "tl (skip_ws r')"] 3 parse_chars_shorter [OF that(2)] length_tl_skip_ws [OF that(1)]
        length_tl_skip_ws [OF that(3)] parse_shorter(1) [OF that(4)] length_tl_skip_ws [OF that(5)] by simp
    show ?case unfolding parse_members.simps(2) [of n s] parse_members.simps(2) [of "Suc n" s]
      by (auto simp: sub more simp del: parse_unfold split: option.split)
  }
qed simp_all

lemma parse_fuel: "2 * length s < n \<Longrightarrow> parse_value n s = parse_value (Suc (2 * length s)) s"
proof (induction n)
  case (Suc n)
  then show ?case
    using parse_fuel_step(1) [of s n] by (cases "2 * length s = n") auto
qed simp

section \<open>Parsing formatted texts\<close>

lemma hex_value_hex_unit: "0 \<le> d \<Longrightarrow> d < 16 \<Longrightarrow> hex_value (hex_unit d) = Some d"
  by (auto simp: hex_unit_def in_range_def)

lemma hex4_escape:
  "hex4 (hex_unit (uint u div 4096)) (hex_unit (uint u div 256 mod 16)) (hex_unit (uint u div 16 mod 16))
     (hex_unit (uint u mod 16)) = Some u" for u :: code_unit
proof -
  define n where "n = uint u"
  have n: "0 \<le> n" "n < 65536" by (simp_all add: n_def uint_bounded [of u, simplified])
  have d: "n div 256 = n div 16 div 16" "n div 4096 = n div 16 div 16 div 16"
    by (simp_all flip: zdiv_zmult2_eq)
  have sum: "((n div 4096 * 16 + n div 256 mod 16) * 16 + n div 16 mod 16) * 16 + n mod 16 = n"
    unfolding d by (simp only: div_mult_mod_eq)
  have hv: "hex_value (hex_unit (n div 4096)) = Some (n div 4096)"
    "hex_value (hex_unit (n div 256 mod 16)) = Some (n div 256 mod 16)"
    "hex_value (hex_unit (n div 16 mod 16)) = Some (n div 16 mod 16)"
    "hex_value (hex_unit (n mod 16)) = Some (n mod 16)"
    using n by (intro hex_value_hex_unit; linarith)+
  show ?thesis
    unfolding hex4_def n_def [symmetric] hv
    by (simp only: option.case prod.case sum) (simp only: n_def word_of_int_uint)
qed

lemma parse_chars_unicode_escape:
  "parse_chars (unicode_escape u @ s) = map_option (\<lambda>(t, r). (u # t, r)) (parse_chars s)"
  by (simp add: unicode_escape_def Let_def parse_chars.simps hex4_escape)

lemma parse_chars_quote_unit:
  "parse_chars (quote_unit u @ s) = map_option (\<lambda>(t, r). (u # t, r)) (parse_chars s)"
proof (cases "uint u < 32 \<and> u \<notin> {8, 9, 10, 12, 13}")
  case True
  then have "u \<noteq> 34" "u \<noteq> 92" by auto
  then show ?thesis using True parse_chars_unicode_escape by (simp add: quote_unit_def)
next
  case False
  then show ?thesis
    by (auto simp: quote_unit_def parse_chars.simps(2) escape_unit_def)
qed

lemma parse_chars_plain:
  "u \<noteq> 34 \<Longrightarrow> u \<noteq> 92 \<Longrightarrow> \<not> uint u < 32
    \<Longrightarrow> parse_chars (u # s) = map_option (\<lambda>(t, r). (u # t, r)) (parse_chars s)"
  by (simp add: parse_chars.simps(2) [of u s])

lemma surrogate_plain:
  "is_high_surrogate u \<or> is_low_surrogate u \<Longrightarrow> u \<noteq> 34 \<and> u \<noteq> 92 \<and> \<not> uint u < 32"
  by (auto simp: unit_defs)

lemma parse_chars_quote: "parse_chars (quote_units s @ 34 # rest) = Some (s, rest)"
proof (induction s rule: quote_units.induct)
  case 1
  then show ?case by (simp add: parse_chars.simps(2) [of 34 rest])
next
  case (2 u)
  then show ?case
    by (simp add: parse_chars_unicode_escape parse_chars_quote_unit parse_chars.simps(2) [of 34 rest])
next
  case (3 u v us)
  then show ?case
    using surrogate_plain [of u] surrogate_plain [of v]
    by (simp add: parse_chars_unicode_escape parse_chars_quote_unit parse_chars_plain)
qed

text \<open>Texts that start a value, and what may follow one.\<close>

definition value_start :: "jsstr \<Rightarrow> bool" where
  "value_start t \<longleftrightarrow> t \<noteq> [] \<and> \<not> whitespace (hd t) \<and> hd t \<noteq> 93 \<and> hd t \<noteq> 125"

definition delimited :: "jsstr \<Rightarrow> bool" where
  "delimited rest \<longleftrightarrow> rest = [] \<or> hd rest = 44 \<or> hd rest = 93 \<or> hd rest = 125"

definition parses :: "jsstr \<Rightarrow> jtree \<Rightarrow> bool" where
  "parses t tree \<longleftrightarrow> value_start t
     \<and> (\<forall>rest k. delimited rest \<longrightarrow> 2 * length t < k \<longrightarrow> parse_value k (t @ rest) = Some (tree, rest))"

lemma skip_ws_start: "t \<noteq> [] \<Longrightarrow> \<not> whitespace (hd t) \<Longrightarrow> skip_ws (t @ rest) = t @ rest"
  by (cases t) (simp_all add: skip_ws_def)

lemma skip_ws_unit [simp]: "\<not> whitespace u \<Longrightarrow> skip_ws (u # s) = u # s"
  by (simp add: skip_ws_def)

lemma whitespace_simps [simp]:
  "\<not> whitespace 34" "\<not> whitespace 44" "\<not> whitespace 58" "\<not> whitespace 91" "\<not> whitespace 93"
  "\<not> whitespace 123" "\<not> whitespace 125" "\<not> whitespace 45" "\<not> whitespace 116" "\<not> whitespace 102" "\<not> whitespace 110"
  by (simp_all add: whitespace_def)

lemma startsWith_unit [simp]: "startsWith (u # s) [c] \<longleftrightarrow> u = c" "\<not> startsWith [] [c]"
  by (auto simp: startsWith_iff)

lemma parses_string: "parses (json_string s) (JStr s)"
  unfolding parses_def
proof (intro conjI allI impI)
  fix rest :: jsstr and k :: nat
  assume "2 * length (json_string s) < k"
  then obtain m where "k = Suc m" by (cases k) auto
  then show "parse_value k (json_string s @ rest) = Some (JStr s, rest)"
    using parse_chars_quote [of s rest] by (simp add: json_string_def)
qed (simp add: value_start_def json_string_def)

lemma parses_literalI:
  assumes "\<And>rest. delimited rest \<Longrightarrow> parse_literal (t @ rest) = Some (tree, rest)"
    and "value_start t" and "hd t \<noteq> 34" and "hd t \<noteq> 91" and "hd t \<noteq> 123"
  shows "parses t tree"
  unfolding parses_def
proof (intro conjI allI impI)
  fix rest :: jsstr and k :: nat
  assume rest: "delimited rest" and "2 * length t < k"
  then obtain m where "k = Suc m" by (cases k) auto
  moreover obtain u us where "t = u # us" using assms(2) by (cases t) (auto simp: value_start_def)
  ultimately show "parse_value k (t @ rest) = Some (tree, rest)"
    using assms(1) [OF rest] assms(2-5) by (simp add: value_start_def)
qed fact

lemma parses_literals:
  "parses (ascii ''true'') (JBool True)" "parses (ascii ''false'') (JBool False)" "parses (ascii ''null'') JNull"
  by (rule parses_literalI;
      simp add: parse_literal_def startsWith_iff value_start_def ascii_def unit_of_char_def whitespace_def)+

lemma delimited_number: "delimited rest \<Longrightarrow> rest \<noteq> [] \<Longrightarrow> \<not> number_unit (hd rest)"
  by (auto simp: delimited_def number_unit_def is_digit_unit_def in_range_def)

lemma json_number_hd: "json_number t \<Longrightarrow> t \<noteq> [] \<and> (is_digit_unit (hd t) \<or> hd t = 45)"
  by (cases t) (auto simp: json_number_def numeric_parts_def strip_sign_def split: if_splits)

lemma parses_number:
  assumes "json_number t" and "list_all number_unit t"
  shows "parses t (JNum (token_number t) t)"
proof (rule parses_literalI)
  have h: "t \<noteq> []" "is_digit_unit (hd t) \<or> hd t = 45" using json_number_hd [OF assms(1)] by auto
  show "value_start t" "hd t \<noteq> 34" "hd t \<noteq> 91" "hd t \<noteq> 123"
    using h by (auto simp: value_start_def whitespace_def is_digit_unit_def in_range_def)
  fix rest assume "delimited rest"
  then have "takeWhile number_unit (t @ rest) = t" "dropWhile number_unit (t @ rest) = rest"
    using assms(2) delimited_number [of rest] by (cases rest; auto simp: list_all_iff takeWhile_append)+
  moreover have "\<not> startsWith (t @ rest) (ascii ''true'')" "\<not> startsWith (t @ rest) (ascii ''false'')"
    "\<not> startsWith (t @ rest) (ascii ''null'')"
    using h by (cases t; auto simp: startsWith_iff ascii_def unit_of_char_def is_digit_unit_def in_range_def)+
  ultimately show "parse_literal (t @ rest) = Some (JNum (token_number t) t, rest)"
    using assms(1) by (simp add: parse_literal_def parse_number_def)
qed

lemma value_start_append [simp]: "value_start t \<Longrightarrow> value_start (t @ r)"
  by (cases t) (simp_all add: value_start_def)

lemma value_start_skip [simp]: "value_start t \<Longrightarrow> skip_ws t = t" "value_start t \<Longrightarrow> skip_ws (t @ r) = t @ r"
  by (cases t; simp add: value_start_def skip_ws_def)+

lemma value_start_no_close: "value_start t \<Longrightarrow> \<not> startsWith t [93] \<and> \<not> startsWith t [125]"
  by (cases t) (simp_all add: value_start_def)

lemma parsesD: "parses t tree \<Longrightarrow> delimited rest \<Longrightarrow> 2 * length t < k \<Longrightarrow> parse_value k (t @ rest) = Some (tree, rest)"
  by (simp add: parses_def)

lemma delimited_simps [simp]: "delimited (44 # r)" "delimited (93 # r)" "delimited (125 # r)" "delimited []"
  by (simp_all add: delimited_def)

lemma join_texts_Cons: "join_texts (t # ts) = (if ts = [] then t else t @ 44 # join_texts ts)"
  by (cases ts) simp_all

lemma parse_items_texts:
  "list_all2 parses texts trees \<Longrightarrow> texts \<noteq> [] \<Longrightarrow> 2 * length (join_texts texts) + 1 < k
    \<Longrightarrow> parse_items k (join_texts texts @ 93 # rest) = Some (trees, rest)"
proof (induction texts trees arbitrary: k rule: list_all2_induct)
  case (Cons t texts tree trees)
  obtain m where m: "k = Suc m" using Cons.prems by (cases k) auto
  show ?case
  proof (cases "texts = []")
    case True
    then show ?thesis using Cons parsesD [OF Cons.hyps(1), of "93 # rest" m] by (simp add: m)
  next
    case False
    have "parse_value m (t @ 44 # join_texts texts @ 93 # rest) = Some (tree, 44 # join_texts texts @ 93 # rest)"
      using Cons.prems False by (intro parsesD [OF Cons.hyps(1)]) (auto simp: join_texts_Cons m)
    moreover have "parse_items m (join_texts texts @ 93 # rest) = Some (trees, rest)"
      using Cons.prems False by (intro Cons.IH) (auto simp: join_texts_Cons m)
    ultimately show ?thesis using False by (simp add: join_texts_Cons m)
  qed
qed simp

lemma parse_member_name:
  "parse_chars (tl (member_text name text @ r)) = Some (name, 58 # text @ r)"
  using parse_chars_quote [of name "58 # text @ r"] by (simp add: member_text_def json_string_def)

lemma startsWith_member [simp]:
  "startsWith (member_text name text @ r) [34]" "skip_ws (member_text name text @ r) = member_text name text @ r"
  by (simp_all add: member_text_def json_string_def)

lemma parse_members_texts:
  "list_all2 (\<lambda>(n, t) (n', tree). n = n' \<and> parses t tree) members ms \<Longrightarrow> members \<noteq> []
    \<Longrightarrow> 2 * length (join_texts (map (\<lambda>(n, t). member_text n t) members)) + 1 < k
    \<Longrightarrow> parse_members k (join_texts (map (\<lambda>(n, t). member_text n t) members) @ 125 # rest) = Some (ms, rest)"
proof (induction members ms arbitrary: k rule: list_all2_induct)
  case (Cons m members p ms)
  obtain name t tree where mp: "m = (name, t)" "p = (name, tree)" "parses t tree" using Cons.hyps(1) by auto
  obtain j where j: "k = Suc j" using Cons.prems by (cases k) auto
  let ?tail = "if members = [] then 125 # rest
    else 44 # join_texts (map (\<lambda>(n, t). member_text n t) members) @ 125 # rest"
  have body: "join_texts (map (\<lambda>(n, t). member_text n t) (m # members)) @ 125 # rest = member_text name t @ ?tail"
    by (simp add: join_texts_Cons mp)
  have "length t + 2 \<le> length (member_text name t)" by (simp add: member_text_def json_string_def)
  then have v: "parse_value j (t @ ?tail) = Some (tree, ?tail)"
    using Cons.prems(2) by (intro parsesD [OF mp(3)]) (auto simp: join_texts_Cons mp j split: if_splits)
  have start: "skip_ws (58 # t @ ?tail) = 58 # t @ ?tail" by simp
  show ?case
  proof (cases "members = []")
    case True
    then show ?thesis
      using v Cons.hyps(2) unfolding body by (simp add: j mp parse_member_name)
  next
    case False
    have "parse_members j (join_texts (map (\<lambda>(n, t). member_text n t) members) @ 125 # rest) = Some (ms, rest)"
      using Cons.prems False by (intro Cons.IH) (auto simp: join_texts_Cons mp j)
    then show ?thesis
      using v False unfolding body by (simp add: j mp parse_member_name)
  qed
qed simp

lemma foldl_nm_set:
  "distinct (map fst (acc @ ms)) \<Longrightarrow> foldl (\<lambda>m (k, v). nm_set k v m) acc ms = acc @ ms"
proof (induction ms arbitrary: acc)
  case (Cons p ms)
  then have "map_of acc (fst p) = None" by (auto simp: map_of_eq_None_iff)
  then show ?case using Cons by (simp add: split_beta nm_set_new)
qed simp

lemma own_members_distinct:
  "distinct (map fst ms) \<Longrightarrow> own_members ms
     = sort_key (\<lambda>p. units_value (fst p)) (filter (\<lambda>p. array_index (fst p)) ms) @ filter (\<lambda>p. \<not> array_index (fst p)) ms"
  using foldl_nm_set [of "[]" ms] by (simp add: own_members_def)

lemma own_members_plain:
  assumes "distinct (map fst ms)" and "list_all (\<lambda>p. \<not> array_index (fst p)) ms"
  shows "own_members ms = ms"
  using assms by (simp add: own_members_distinct list_all_iff filter_empty_conv [THEN iffD2])

lemma parses_array:
  assumes "list_all2 parses texts trees"
  shows "parses ([91] @ join_texts texts @ [93]) (JArr trees)"
  unfolding parses_def
proof (intro conjI allI impI)
  fix rest :: jsstr and k :: nat
  assume "2 * length ([91] @ join_texts texts @ [93]) < k"
  then obtain m where k: "k = Suc m" "2 * length (join_texts texts) + 1 < m" by (cases k) auto
  show "parse_value k (([91] @ join_texts texts @ [93]) @ rest) = Some (JArr trees, rest)"
  proof (cases "texts = []")
    case True
    then show ?thesis using assms k by simp
  next
    case False
    then obtain t ts where ts: "texts = t # ts" "value_start t"
      using assms by (cases texts) (auto simp: list_all2_Cons1 parses_def)
    then have vs: "value_start (join_texts texts)" by (simp add: join_texts_Cons)
    show ?thesis
      using parse_items_texts [OF assms False k(2), of rest] vs value_start_no_close [of "join_texts texts @ 93 # rest"]
      by (simp add: k(1))
  qed
qed (simp add: value_start_def)

lemma parses_object:
  assumes "list_all2 (\<lambda>(n, t) (n', tree). n = n' \<and> parses t tree) members ms" and "own_members ms = ms"
  shows "parses ([123] @ join_texts (map (\<lambda>(n, t). member_text n t) members) @ [125]) (JObj ms)"
  unfolding parses_def
proof (intro conjI allI impI)
  let ?j = "join_texts (map (\<lambda>(n, t). member_text n t) members)"
  fix rest :: jsstr and k :: nat
  assume "2 * length ([123] @ ?j @ [125]) < k"
  then obtain m where k: "k = Suc m" "2 * length ?j + 1 < m" by (cases k) auto
  show "parse_value k (([123] @ ?j @ [125]) @ rest) = Some (JObj ms, rest)"
  proof (cases "members = []")
    case True
    then show ?thesis using assms k by simp
  next
    case False
    then obtain n t where "value_start ?j"
      by (cases members) (auto simp: join_texts_Cons value_start_def member_text_def json_string_def)
    then show ?thesis
      using parse_members_texts [OF assms(1) False k(2), of rest] value_start_no_close [of "?j @ 125 # rest"] assms(2)
      by (simp add: k(1))
  qed
qed (simp add: value_start_def)

end
