(* ===== verification/CodecRoundtrip.thy ===== *)
theory CodecRoundtrip
  imports JsonParse
begin

text \<open>
  Decoding inverts encoding: the tree a formatted value stands for is projected back to the
  value, within the same limits.
\<close>

section \<open>The tree of a formatted value\<close>

text \<open>
  What is relied on for the text of a double: it is a JSON number that denotes the double.
\<close>

definition is_double :: "jsnum \<Rightarrow> bool" where
  "is_double x \<longleftrightarrow> (case x of Fin r \<Rightarrow> to_double (r < 0) \<bar>r\<bar> = Fin r | _ \<Rightarrow> True)"

definition float_text :: "(jsnum \<Rightarrow> jsstr) \<Rightarrow> jsnum \<Rightarrow> jsstr" where
  "float_text nt x = (if x = NegZero then ascii ''-0'' else nt x)"

definition number_texts :: "(jsnum \<Rightarrow> jsstr) \<Rightarrow> bool" where
  "number_texts nt \<longleftrightarrow> (\<forall>x. isFinite x \<longrightarrow> x \<noteq> NegZero \<longrightarrow>
     json_number (nt x) \<and> list_all number_unit (nt x) \<and> (is_double x \<longrightarrow> token_number (nt x) = x))"

definition tree_primitive :: "(jsnum \<Rightarrow> jsstr) \<Rightarrow> cval \<Rightarrow> jtree" where
  "tree_primitive nt v =
     (case v of
        VStr s \<Rightarrow> JStr s
      | VBool x \<Rightarrow> JBool x
      | VInt i \<Rightarrow> JNum (token_number (int_string i)) (int_string i)
      | VFloat x \<Rightarrow>
          if x \<noteq> NegZero \<and> \<not> isFinite x then JNull
          else JNum (token_number (float_text nt x)) (float_text nt x)
      | _ \<Rightarrow> JNull)"

definition tree_field ::
  "(SchemaNode \<Rightarrow> cval \<Rightarrow> jtree codec) \<Rightarrow> getter \<Rightarrow> (jsstr \<times> cval) list \<Rightarrow> jsstr \<times> jsstr
     \<Rightarrow> (jsstr \<times> jtree) codec" where
  "tree_field view get fs field =
     bindK (get (snd field)) (\<lambda>node.
     bindK (case map_of fs (fst field) of
              Some v \<Rightarrow> Inr v | None \<Rightarrow> type_fault ''expected own data property'') (\<lambda>v.
     bindK (view node v) (\<lambda>t. Inr (fst field, t))))"

primrec tree_of :: "nat \<Rightarrow> (jsnum \<Rightarrow> jsstr) \<Rightarrow> getter \<Rightarrow> SchemaNode \<Rightarrow> cval \<Rightarrow> jtree codec" where
  "tree_of 0 nt get node v = type_fault ''formatter out of levels''"
| "tree_of (Suc n) nt get node v =
     (if sn_kind node = Primitive then Inr (tree_primitive nt v)
      else if sn_kind node = Variant then
        bindK (encode_leaf get node v []) (\<lambda>selected.
        bindK (tree_of n nt get selected v) (\<lambda>t.
        Inr (JObj [(ascii ''case'', JStr (sn_name selected)), (ascii ''value'', t)])))
      else (case v of
          VArr items \<Rightarrow>
            bindK (traverse (\<lambda>item. bindK (get (sn_element node)) (\<lambda>node. tree_of n nt get node item)) items) (\<lambda>ts.
            Inr (JArr ts))
        | VRec identity fs \<Rightarrow>
            bindK (traverse (tree_field (tree_of n nt get) get fs) (sn_fields node)) (\<lambda>ms. Inr (JObj ms))
        | _ \<Rightarrow> type_fault ''expected non-proxy data object''))"

section \<open>Schemas and values\<close>

text \<open>
  A schema whose records have distinct fields, none of them an array index, and whose variants
  have leaves with distinct names; a value whose records list their fields in the declared
  order and whose numbers are doubles.
\<close>

definition schema_ok :: "getter \<Rightarrow> bool" where
  "schema_ok get \<longleftrightarrow> (\<forall>id node. get id = Inr node \<longrightarrow>
     distinct (map fst (sn_fields node)) \<and> list_all (\<lambda>field. \<not> array_index (fst field)) (sn_fields node)
     \<and> (\<forall>leaves leaf. traverse get (sn_leaves node) = Inr leaves \<longrightarrow> leaf \<in> set leaves
          \<longrightarrow> find (\<lambda>l. sn_name l = sn_name leaf) leaves = Some leaf))"

definition known :: "getter \<Rightarrow> SchemaNode \<Rightarrow> bool" where
  "known get node \<longleftrightarrow> (\<exists>id. get id = Inr node)"

primrec declared :: "nat \<Rightarrow> getter \<Rightarrow> SchemaNode \<Rightarrow> cval \<Rightarrow> bool" where
  "declared 0 get node v = False"
| "declared (Suc n) get node v =
     (if sn_kind node = Primitive then (case v of VFloat x \<Rightarrow> is_double x | _ \<Rightarrow> True)
      else if sn_kind node = Variant then
        (\<forall>leaf. encode_leaf get node v [] = Inr leaf \<longrightarrow> declared n get leaf v)
      else (case v of
          VArr items \<Rightarrow> (\<forall>item \<in> set items. \<forall>e. get (sn_element node) = Inr e \<longrightarrow> declared n get e item)
        | VRec identity fs \<Rightarrow> map fst fs = map fst (sn_fields node)
            \<and> (\<forall>field \<in> set (sn_fields node). \<forall>e x. get (snd field) = Inr e \<longrightarrow> map_of fs (fst field) = Some x
                 \<longrightarrow> declared n get e x)
        | _ \<Rightarrow> True))"

lemma traverse_mem:
  "traverse f xs = Inr ys \<Longrightarrow> y \<in> set ys \<Longrightarrow> \<exists>x \<in> set xs. f x = Inr y"
  by (induction xs arbitrary: ys) (auto simp: bindK_Inr_conv)

lemma encode_leaf_find:
  assumes "schema_ok get" and "known get node" and "encode_leaf get node v path = Inr leaf"
  shows "find_leaf get (sn_leaves node) (\<lambda>l. sn_name l = sn_name leaf) = Inr (Some leaf)" and "known get leaf"
proof -
  obtain leaves where l: "traverse get (sn_leaves node) = Inr leaves"
    "find (\<lambda>l. Some (sn_identity l) = recordIdentity v) leaves = Some leaf"
    using assms(3) by (auto simp: encode_leaf_def find_leaf_def bindK_Inr_conv split: option.splits)
  have mem: "leaf \<in> set leaves" using l(2) by (auto simp: find_Some_iff)
  then show "find_leaf get (sn_leaves node) (\<lambda>l. sn_name l = sn_name leaf) = Inr (Some leaf)"
    using assms(1,2) l(1) by (auto simp: schema_ok_def known_def find_leaf_def)
  show "known get leaf" using traverse_mem [OF l(1) mem] by (auto simp: known_def)
qed

section \<open>Projecting the tree\<close>

text \<open>The decoder's budget has seen the same nodes and spent at most what the encoder's has.\<close>

definition covers :: "Budget \<Rightarrow> Budget \<Rightarrow> bool" where
  "covers bd b \<longleftrightarrow> budget_ok bd \<and> 0 \<le> remaining b \<and> remaining b \<le> remaining bd \<and> nodes bd = nodes b"

lemma covers_visit:
  assumes "covers bd b" and "visit d path b = Inr b'"
  shows "\<exists>bd'. visit d path' bd = Inr bd' \<and> covers bd' b'"
  using assms by (auto simp: covers_def visit_def budget_ok_def split: if_splits)

lemma covers_charge: "covers bd b \<Longrightarrow> charge n path b = Inr b' \<Longrightarrow> covers bd b'"
  by (auto simp: covers_def charge_def split: if_splits)

lemma covers_textCost: "covers bd b \<Longrightarrow> textCost s path b = Inr b' \<Longrightarrow> covers bd b'"
  by (auto simp: textCost_def bindK_Inr_conv intro: covers_charge split: if_splits)

lemma covers_names_cost: "covers bd b \<Longrightarrow> names_cost ns path b = Inr b' \<Longrightarrow> covers bd b'"
  by (induction ns arbitrary: b) (auto simp: bindK_Inr_conv dest: covers_textCost)

lemma covers_keys_cost: "covers bd b \<Longrightarrow> keys_cost ns path b = Inr b' \<Longrightarrow> covers bd b'"
  by (auto simp: keys_cost_def bindK_Inr_conv dest: covers_charge covers_names_cost)

lemma textCost_scalar: "textCost s path b = Inr b' \<Longrightarrow> scalar_text s path' = Inr ()"
  by (auto simp: textCost_def bindK_Inr_conv scalar_text_def split: if_splits)

lemma extras_none: "set (map fst data) \<subseteq> set names \<Longrightarrow> extras data names path = Inr ()"
proof -
  assume "set (map fst data) \<subseteq> set names"
  then have "filter (\<lambda>key. key \<notin> set names) (map fst data) = []" by (auto simp: filter_empty_conv)
  then show ?thesis by (simp only: extras_def) (simp add: toSorted_def)
qed

lemma token_number_neg_zero: "token_number (ascii ''-0'') = NegZero"
  by code_simp

lemma preflight_primitive_project:
  assumes "number_texts nt" and "preflight_primitive nt name v path b = Inr b'" and "covers bd b"
    and "case v of VFloat x \<Rightarrow> is_double x | _ \<Rightarrow> True"
  shows "\<exists>bd'. project_primitive exactInt name (tree_primitive nt v) path bd = Inr (v, bd') \<and> covers bd' b'"
proof (cases v)
  case (VInt i)
  then obtain t where e: "encodeInteger i path b = Inr (t, b')" "name = ascii ''int''"
    using assms(2) by (auto simp: preflight_primitive_def type_fault_def bindK_Inr_conv split: if_splits)
  have eff: "remaining b' = remaining b - int (length (int_string i))" "nodes b' = nodes b"
    using encodeInteger_effect [OF e(1)] by auto
  have "0 \<le> remaining b'" using e(1) assms(3)
    by (auto simp: encodeInteger_def Let_def bindK_Inr_conv charge_def covers_def split: if_splits)
  then have "decodeInteger (int_string i) path bd = Inr (i, bd\<lparr>remaining := remaining bd - int (length (int_string i))\<rparr>)"
    using assms(3) eff by (intro decodeInteger_int_string) (auto simp: covers_def)
  then show ?thesis
    using VInt e(2) assms(3) eff \<open>0 \<le> remaining b'\<close>
    by (auto simp: project_primitive_def tree_primitive_def covers_def budget_ok_def ascii_def unit_of_char_def)
next
  case (VFloat x)
  then have x: "isFinite x" "name = ascii ''float''" "charge (if x = NegZero then 2 else int (length (nt x))) path b = Inr b'"
    using assms(2) by (auto simp: preflight_primitive_def type_fault_def split: if_splits)
  have "token_number (float_text nt x) = x"
    using assms(1,4) x(1) token_number_neg_zero VFloat by (simp add: number_texts_def float_text_def)
  then show ?thesis
    using VFloat x covers_charge [OF assms(3) x(3)]
    by (simp add: project_primitive_def tree_primitive_def ascii_def unit_of_char_def)
qed (use assms in \<open>auto simp: preflight_primitive_def project_primitive_def tree_primitive_def type_fault_def
      textCost_scalar ascii_def unit_of_char_def intro: covers_charge covers_textCost split: if_splits\<close>)

lemma fields_in_order:
  assumes "map fst fs = map fst decl" and "distinct (map fst decl)"
  shows "map (\<lambda>field. (fst field, the (map_of fs (fst field)))) decl = fs"
proof -
  have d: "distinct (map fst fs)" using assms by simp
  have "map (\<lambda>field. (fst field, the (map_of fs (fst field)))) decl
      = map (\<lambda>name. (name, the (map_of fs name))) (map fst fs)" by (simp add: assms(1))
  also have "\<dots> = map (\<lambda>p. p) fs" unfolding map_map
  proof (rule map_cong [OF refl])
    fix p assume "p \<in> set fs"
    then have "map_of fs (fst p) = Some (snd p)" using d by (simp add: map_of_is_SomeI)
    then show "((\<lambda>name. (name, the (map_of fs name))) \<circ> fst) p = p" by simp
  qed
  finally show ?thesis by simp
qed

text \<open>The value at a field of a record, in the order of the declaration.\<close>

definition field_values :: "(jsstr \<times> cval) list \<Rightarrow> (jsstr \<times> jsstr) list \<Rightarrow> (jsstr \<times> cval) list" where
  "field_values fs decl = map (\<lambda>field. (fst field, the (map_of fs (fst field)))) decl"

lemma accepts_project:
  assumes nt: "number_texts nt" and ok: "schema_ok get"
  shows "accepts nt get node v path depth b b' \<Longrightarrow> known get node \<Longrightarrow> declared n get node v \<Longrightarrow> covers bd b
    \<Longrightarrow> \<exists>t bd'. tree_of n nt get node v = Inr t \<and> project exactInt get node t path depth bd = Inr (v, bd')
           \<and> covers bd' b'"
  and "accepts_items nt get element vs i path depth b b'
    \<Longrightarrow> \<forall>item \<in> set vs. \<forall>e. get element = Inr e \<longrightarrow> declared n get e item \<Longrightarrow> covers bd b
    \<Longrightarrow> \<exists>ts bd'. traverse (\<lambda>item. bindK (get element) (\<lambda>node. tree_of n nt get node item)) vs = Inr ts
           \<and> project_items exactInt get element ts i path depth bd = Inr (vs, bd') \<and> covers bd' b'"
  and "accepts_fields nt get decl fs path depth b b'
    \<Longrightarrow> \<forall>field \<in> set decl. \<forall>e x. get (snd field) = Inr e \<longrightarrow> map_of fs (fst field) = Some x \<longrightarrow> declared n get e x
    \<Longrightarrow> covers bd b \<Longrightarrow> distinct (map fst decl)
    \<Longrightarrow> \<exists>ms bd'. traverse (tree_field (tree_of n nt get) get fs) decl = Inr ms \<and> map fst ms = map fst decl
           \<and> (\<forall>data. (\<forall>name \<in> set (map fst decl). map_of data name = map_of ms name) \<longrightarrow>
                project_fields exactInt get decl data path depth bd = Inr (field_values fs decl, bd'))
           \<and> covers bd' b'"
proof (induction arbitrary: n bd and n bd and n bd rule: accepts_accepts_items_accepts_fields.inducts)
  case (Prim depth path b b0 node v b')
  have st: "visit depth path b = Inr b0" "preflight_primitive nt (sn_name node) v path b0 = Inr b'"
    "sn_kind node = Primitive" by fact+
  obtain d0 where d0: "visit depth path bd = Inr d0" "covers d0 b0"
    using covers_visit [OF Prim.prems(3) st(1)] by blast
  obtain m where "n = Suc m" using Prim.prems(2) by (cases n) auto
  then show ?case
    using preflight_primitive_project [OF nt st(2) d0(2)] Prim.prems(2) d0(1) st(3) by (subst project.simps) simp
next
  case (Vari depth path b b0 node v leaf b1 b2 b3 b')
  have st: "visit (depth + 1) path b = Inr b0" "encode_leaf get node v path = Inr leaf"
    "keys_cost [ascii ''case'', ascii ''value''] path b0 = Inr b1"
    "visit (depth + 1) (childPath path (ascii ''case'')) b1 = Inr b2"
    "textCost (sn_name leaf) (childPath path (ascii ''case'')) b2 = Inr b3" "sn_kind node = Variant" by fact+
  obtain d0 where d0: "visit (depth + 1) path bd = Inr d0" "covers d0 b0"
    using covers_visit [OF Vari.prems(3) st(1)] by blast
  obtain d1 where d1: "visit (depth + 1) (childPath path (ascii ''case'')) d0 = Inr d1" "covers d1 b2"
    using covers_visit [OF covers_keys_cost [OF d0(2) st(3)] st(4)] by blast
  obtain m where n: "n = Suc m" using Vari.prems(2) by (cases n) auto
  have sel: "encode_leaf get node v [] = Inr leaf" using encode_leaf_path [OF st(2)] .
  have "known get leaf" "declared m get leaf v"
    using encode_leaf_find(2) [OF ok Vari.prems(1) st(2)] Vari.prems(2) n st(6) sel by auto
  then obtain t d2 where t: "tree_of m nt get leaf v = Inr t"
    "project exactInt get leaf t (childPath path (ascii ''value'')) (depth + 1) d1 = Inr (v, d2)" "covers d2 b'"
    using Vari.IH covers_textCost [OF d1(2) st(5)] by blast
  let ?o = "[(ascii ''case'', JStr (sn_name leaf)), (ascii ''value'', t)]"
  have "ascii ''case'' \<noteq> ascii ''value''" by (simp add: ascii_def unit_of_char_def)
  then have "project exactInt get node (JObj ?o) path depth bd = Inr (v, d2)"
    using st(6) d0(1) d1(1) t(2) textCost_scalar [OF st(5)] encode_leaf_find(1) [OF ok Vari.prems(1) st(2)]
    by (subst project.simps) (simp add: required_def extras_none)
  then show ?case using n st(6) sel t(1,3) by auto
next
  case (Array depth path b b0 node items b1 b')
  have st: "visit (depth + 1) path b = Inr b0" "charge (2 + max 0 (int (length items) - 1)) path b0 = Inr b1"
    "sn_kind node = ArrayKind" by fact+
  obtain d0 where d0: "visit (depth + 1) path bd = Inr d0" "covers d0 b0"
    using covers_visit [OF Array.prems(3) st(1)] by blast
  obtain m where n: "n = Suc m" using Array.prems(2) by (cases n) auto
  have "\<forall>item \<in> set items. \<forall>e. get (sn_element node) = Inr e \<longrightarrow> declared m get e item"
    using Array.prems(2) n st(3) by simp
  then obtain ts d1 where ts: "traverse (\<lambda>item. bindK (get (sn_element node)) (\<lambda>node. tree_of m nt get node item)) items = Inr ts"
    "project_items exactInt get (sn_element node) ts 0 path depth d0 = Inr (items, d1)" "covers d1 b'"
    using Array.IH covers_charge [OF d0(2) st(2)] by blast
  have "project exactInt get node (JArr ts) path depth bd = Inr (VArr items, d1)"
    using st(3) d0(1) ts(2) by (subst project.simps) simp
  then show ?case using n st(3) ts(1,3) by auto
next
  case (Record depth path b b0 node b1 fs b')
  have st: "visit (depth + 1) path b = Inr b0" "keys_cost (map fst (sn_fields node)) path b0 = Inr b1"
    "sn_kind node = RecordKind \<or> sn_kind node = ErrorKind" by fact+
  obtain d0 where d0: "visit (depth + 1) path bd = Inr d0" "covers d0 b0"
    using covers_visit [OF Record.prems(3) st(1)] by blast
  obtain m where n: "n = Suc m" using Record.prems(2) by (cases n) auto
  have dec: "\<forall>field \<in> set (sn_fields node). \<forall>e x. get (snd field) = Inr e \<longrightarrow> map_of fs (fst field) = Some x
        \<longrightarrow> declared m get e x" "map fst fs = map fst (sn_fields node)"
    using Record.prems(2) n st(3) by auto
  have dist: "distinct (map fst (sn_fields node))"
    using ok Record.prems(1) by (auto simp: schema_ok_def known_def)
  obtain ms d1 where ms: "traverse (tree_field (tree_of m nt get) get fs) (sn_fields node) = Inr ms"
    "map fst ms = map fst (sn_fields node)"
    "project_fields exactInt get (sn_fields node) ms path depth d0 = Inr (field_values fs (sn_fields node), d1)"
    "covers d1 b'"
    using Record.IH dec(1) covers_keys_cost [OF d0(2) st(2)] dist by blast
  have "field_values fs (sn_fields node) = fs"
    unfolding field_values_def using fields_in_order [OF dec(2) dist] .
  moreover have "set (map fst ms) \<subseteq> set (map fst (sn_fields node))" using ms(2) by simp
  ultimately have "project exactInt get node (JObj ms) path depth bd = Inr (VRec (sn_identity node) fs, d1)"
    using st(3) d0(1) ms(3) extras_none [of ms] by (subst project.simps) (auto simp: type_fault_def)
  then show ?case using n st(3) ms(1,4) by auto
next
  case (Item element node item path i depth b b1 items b')
  have g: "get element = Inr node" by fact
  then have "known get node" "declared n get node item" using Item.prems(1) by (auto simp: known_def)
  then obtain t bd1 where t: "tree_of n nt get node item = Inr t"
      "project exactInt get node t (childPath path (int_string i)) (depth + 1) bd = Inr (item, bd1)" "covers bd1 b1"
    using Item.IH Item.prems(2) by blast
  moreover have "\<forall>item \<in> set items. \<forall>e. get element = Inr e \<longrightarrow> declared n get e item" using Item.prems(1) by simp
  ultimately obtain ts bd' where "traverse (\<lambda>item. bindK (get element) (\<lambda>node. tree_of n nt get node item)) items = Inr ts"
      "project_items exactInt get element ts (i + 1) path depth bd1 = Inr (items, bd')" "covers bd' b'"
    using Item.IH by blast
  then show ?case using g t(1,2) by auto
next
  case (Field field node fs v path depth b b1 decl b')
  have g: "get (snd field) = Inr node" "map_of fs (fst field) = Some v" by fact+
  then have "known get node" "declared n get node v" using Field.prems(1) by (auto simp: known_def)
  then obtain t bd1 where t: "tree_of n nt get node v = Inr t"
      "project exactInt get node t (childPath path (fst field)) (depth + 1) bd = Inr (v, bd1)" "covers bd1 b1"
    using Field.IH Field.prems(2) by blast
  have rest: "\<forall>field \<in> set decl. \<forall>e x. get (snd field) = Inr e \<longrightarrow> map_of fs (fst field) = Some x \<longrightarrow> declared n get e x"
    "distinct (map fst decl)" "fst field \<notin> set (map fst decl)" using Field.prems(1,3) by auto
  obtain ms bd' where ms: "traverse (tree_field (tree_of n nt get) get fs) decl = Inr ms" "map fst ms = map fst decl"
      "\<And>data. (\<forall>name \<in> set (map fst decl). map_of data name = map_of ms name) \<Longrightarrow>
        project_fields exactInt get decl data path depth bd1 = Inr (field_values fs decl, bd')"
      "covers bd' b'"
    using Field.IH t(3) rest(1,2) by blast
  have "project_fields exactInt get (field # decl) data path depth bd = Inr (field_values fs (field # decl), bd')"
    if data: "\<forall>name \<in> set (map fst (field # decl)). map_of data name = map_of ((fst field, t) # ms) name" for data
  proof -
    have "required data (fst field) path = Inr t" using data by (simp add: required_def)
    moreover have "\<forall>name \<in> set (map fst decl). map_of data name = map_of ms name"
      using data rest(3) by (auto simp: rev_image_eqI)
    ultimately show ?thesis using g t(2) ms(3) by (simp add: field_values_def)
  qed
  moreover have "traverse (tree_field (tree_of n nt get) get fs) (field # decl) = Inr ((fst field, t) # ms)"
    using g t(1) ms(1) by (simp add: tree_field_def [of _ _ _ field])
  ultimately show ?case using ms(2,4) by (intro exI [of _ "(fst field, t) # ms"] exI [of _ bd']) auto
qed (auto simp: field_values_def)

section \<open>Parsing the text\<close>

lemma list_all2_traverse:
  assumes "traverse f xs = Inr ys" and "\<And>x y. x \<in> set xs \<Longrightarrow> f x = Inr y \<Longrightarrow> \<exists>z. g x = Inr z \<and> P y z"
  shows "\<exists>zs. traverse g xs = Inr zs \<and> list_all2 P ys zs"
  using assms
proof (induction xs arbitrary: ys)
  case (Cons x xs)
  obtain y ys' where y: "f x = Inr y" "traverse f xs = Inr ys'" "ys = y # ys'"
    using Cons.prems(1) by (auto simp: bindK_Inr_conv)
  obtain z where z: "g x = Inr z" "P y z" using Cons.prems(2) [OF _ y(1)] by auto
  obtain zs where "traverse g xs = Inr zs" "list_all2 P ys' zs" using Cons.IH [OF y(2)] Cons.prems(2) by auto
  then show ?case using y z by simp
qed simp

lemma parses_primitive:
  assumes "number_texts nt" and "case v of VFloat x \<Rightarrow> is_double x | _ \<Rightarrow> True"
  shows "parses (format_primitive nt v) (tree_primitive nt v)"
proof (cases v)
  case (VInt i)
  have "json_number (int_string i)"
    by (simp add: json_number_def numeric_parts_int_string plain_int_string)
  moreover have "list_all number_unit (int_string \<bar>i\<bar>)"
    using list_all_digit_int_string [of "\<bar>i\<bar>"] by (auto simp: list_all_iff number_unit_def)
  then have "list_all number_unit (int_string i)"
    by (cases "i < 0") (simp_all add: int_string_def ascii_def unit_of_char_def number_unit_def)
  ultimately show ?thesis using VInt parses_number by (simp add: format_primitive_def tree_primitive_def)
next
  case (VFloat x)
  have "json_number (ascii ''-0'')" "list_all number_unit (ascii ''-0'')" by code_simp+
  moreover have "parses (nt x) (JNum x (nt x))" if "isFinite x" "x \<noteq> NegZero"
  proof -
    have "json_number (nt x)" "list_all number_unit (nt x)" "token_number (nt x) = x"
      using assms VFloat that by (simp_all add: number_texts_def)
    then show ?thesis using parses_number [of "nt x"] by simp
  qed
  ultimately show ?thesis
    using VFloat parses_number [of "ascii ''-0''"] assms parses_literals(3)
    by (auto simp: format_primitive_def tree_primitive_def float_text_def number_texts_def)
qed (simp_all add: format_primitive_def tree_primitive_def parses_string parses_literals)

lemma tree_fields_names:
  "traverse (tree_field view get fs) decl = Inr ms \<Longrightarrow> map fst ms = map fst decl"
  by (induction decl arbitrary: ms) (auto simp: bindK_Inr_conv tree_field_def)

lemma parses_fields:
  assumes "list_all2 (\<lambda>text (name, tree). \<exists>t. text = member_text name t \<and> parses t tree) texts ms"
    and "distinct (map fst ms)" and "\<forall>name \<in> set (map fst ms). \<not> array_index name"
  shows "parses ([123] @ join_texts texts @ [125]) (JObj ms)"
proof -
  have "\<exists>members. texts = map (\<lambda>(n, t). member_text n t) members
      \<and> list_all2 (\<lambda>(n, t) (n', tree). n = n' \<and> parses t tree) members ms"
    using assms(1)
  proof (induction texts ms rule: list_all2_induct)
    case (Cons body texts p ms)
    then obtain t members where "body = member_text (fst p) t" "parses t (snd p)"
      "texts = map (\<lambda>(n, t). member_text n t) members"
      "list_all2 (\<lambda>(n, t) (n', tree). n = n' \<and> parses t tree) members ms"
      by (cases p) auto
    then show ?case by (intro exI [of _ "(fst p, t) # members"]) (cases p, simp)
  qed simp
  then show ?thesis using parses_object own_members_plain assms(2,3) by (fastforce simp: list_all_iff)
qed

lemma format_parses:
  assumes nt: "number_texts nt" and ok: "schema_ok get"
  shows "format n nt get node v = Inr t \<Longrightarrow> known get node \<Longrightarrow> declared n get node v
    \<Longrightarrow> \<exists>tree. tree_of n nt get node v = Inr tree \<and> parses t tree"
proof (induction n arbitrary: node v t)
  case (Suc n)
  show ?case
  proof (cases "sn_kind node = Primitive")
    case True
    then show ?thesis using Suc.prems parses_primitive [OF nt] by auto
  next
    case np: False
    show ?thesis
    proof (cases "sn_kind node = Variant")
      case True
      obtain leaf t' where l: "encode_leaf get node v [] = Inr leaf" "format n nt get leaf v = Inr t'"
        "t = [123] @ join_texts (map (\<lambda>(n, t). member_text n t)
           [(ascii ''case'', json_string (sn_name leaf)), (ascii ''value'', t')]) @ [125]"
        using Suc.prems(1) np True by (auto simp: bindK_Inr_conv)
      obtain tree where tree: "tree_of n nt get leaf v = Inr tree" "parses t' tree"
        using Suc.IH [OF l(2)] encode_leaf_find(2) [OF ok Suc.prems(2) l(1)] Suc.prems(3) np True l(1) by auto
      have "parses t (JObj [(ascii ''case'', JStr (sn_name leaf)), (ascii ''value'', tree)])"
        unfolding l(3) using tree(2) parses_string
        by (intro parses_object own_members_plain) (simp_all add: array_index_def ascii_def unit_of_char_def is_digit_unit_def in_range_def)
      then show ?thesis using np True l(1) tree(1) by simp
    next
      case nv: False
      show ?thesis
      proof (cases "sn_kind node = ArrayKind")
        case True
        obtain items texts where i: "v = VArr items"
          "traverse (\<lambda>item. bindK (get (sn_element node)) (\<lambda>node. format n nt get node item)) items = Inr texts"
          "t = [91] @ join_texts texts @ [93]"
          using Suc.prems(1) np nv True by (auto simp: bindK_Inr_conv type_fault_def split: cval.splits)
        have "\<exists>trees. traverse (\<lambda>item. bindK (get (sn_element node)) (\<lambda>node. tree_of n nt get node item)) items = Inr trees
            \<and> list_all2 parses texts trees"
          using Suc.prems(3) np nv i(1) Suc.IH
          by (intro list_all2_traverse [OF i(2)]) (fastforce simp: bindK_Inr_conv known_def)
        then show ?thesis using np nv i(1,3) parses_array by fastforce
      next
        case na: False
        obtain identity fs texts where f: "v = VRec identity fs"
          "traverse (format_field (format n nt get) get fs) (sn_fields node) = Inr texts"
          "t = [123] @ join_texts texts @ [125]"
          using Suc.prems(1) np nv na by (auto simp: bindK_Inr_conv type_fault_def split: cval.splits)
        have dec: "\<forall>field \<in> set (sn_fields node). \<forall>e x. get (snd field) = Inr e \<longrightarrow> map_of fs (fst field) = Some x
            \<longrightarrow> declared n get e x"
          using Suc.prems(3) np nv f(1) by simp
        let ?P = "\<lambda>text (name, tree). \<exists>t. text = member_text name t \<and> parses t tree"
        have "\<exists>ms. traverse (tree_field (tree_of n nt get) get fs) (sn_fields node) = Inr ms \<and> list_all2 ?P texts ms"
        proof (rule list_all2_traverse [OF f(2)])
          fix field body assume "field \<in> set (sn_fields node)" "format_field (format n nt get) get fs field = Inr body"
          then obtain e x t' where x: "get (snd field) = Inr e" "map_of fs (fst field) = Some x"
            "format n nt get e x = Inr t'" "body = member_text (fst field) t'" "declared n get e x"
            using dec by (fastforce simp: format_field_def bindK_Inr_conv type_fault_def split: option.splits)
          then show "\<exists>z. tree_field (tree_of n nt get) get fs field = Inr z \<and> ?P body z"
            using Suc.IH [OF x(3)] by (fastforce simp: tree_field_def known_def)
        qed
        then obtain ms where ms: "traverse (tree_field (tree_of n nt get) get fs) (sn_fields node) = Inr ms"
          "list_all2 ?P texts ms" by blast
        have "parses t (JObj ms)" unfolding f(3)
          using parses_fields [OF ms(2)] tree_fields_names [OF ms(1)] ok Suc.prems(2)
          by (auto simp: schema_ok_def known_def list_all_iff)
        then show ?thesis using np nv na f(1) ms(1) by simp
      qed
    qed
  qed
qed simp

end
