(* ===== verification/Document.thy ===== *)
theory Document
  imports CodecRoundtrip
begin

text \<open>
  The bounded document parser of \<open>runtime/codec/duplicates.ts\<close> and \<open>runtime/codec/document.ts\<close>,
  and the typed decoder of \<open>runtime/codec/json.ts\<close> on top of it.
\<close>

section \<open>The scanner\<close>

text \<open>
  A frame of the scanner: an object with the keys it has seen and the key that waits for its
  value, or an array with the index of the next element.
\<close>

record frame =
  fr_object :: bool
  fr_path :: jsstr
  fr_index :: int
  fr_key :: "jsstr option"
  fr_keys :: "jsstr list"

definition valuePath :: "frame list \<Rightarrow> jsstr \<times> frame list" where
  "valuePath stack =
     (case stack of
        [] \<Rightarrow> ([], [])
      | parent # below \<Rightarrow>
          if \<not> fr_object parent
          then (childPath (fr_path parent) (int_string (fr_index parent)),
                parent\<lparr>fr_index := fr_index parent + 1\<rparr> # below)
          else (case fr_key parent of
              None \<Rightarrow> (fr_path parent, parent\<lparr>fr_key := None\<rparr> # below)
            | Some key \<Rightarrow> (childPath (fr_path parent) key, parent\<lparr>fr_key := None\<rparr> # below)))"

text \<open>The rest of a string literal with its closing quote, and what follows it.\<close>

fun scan_string :: "jsstr \<Rightarrow> jsstr \<times> jsstr" where
  "scan_string [] = ([], [])"
| "scan_string [u] = ([u], [])"
| "scan_string (u # v # us) =
     (if u = 92 then (let (lit, r) = scan_string us in (u # v # lit, r))
      else if u = 34 then ([u], v # us)
      else (let (lit, r) = scan_string (v # us) in (u # lit, r)))"

definition delimiter :: "code_unit \<Rightarrow> bool" where
  "delimiter u \<longleftrightarrow> u \<in> {123, 125, 91, 93, 44, 58, 34}"

definition run_unit :: "code_unit \<Rightarrow> bool" where
  "run_unit u \<longleftrightarrow> \<not> whitespace u \<and> \<not> delimiter u"

text \<open>A key: the first one seen twice in its object is remembered.\<close>

definition scan_key :: "frame \<Rightarrow> jsstr \<Rightarrow> jsstr option \<Rightarrow> frame \<times> jsstr option" where
  "scan_key fr literal duplicate =
     (case parse_json literal of
        Some (JStr key) \<Rightarrow>
          (fr\<lparr>fr_key := Some key, fr_keys := ns_add key (fr_keys fr)\<rparr>,
           if key \<in> set (fr_keys fr) \<and> duplicate = None then Some (childPath (fr_path fr) key) else duplicate)
      | _ \<Rightarrow> (fr, duplicate))"

lemma scan_string_length: "length (snd (scan_string s)) \<le> length s"
  by (induction s rule: scan_string.induct) (auto simp: split_beta Let_def)

function (sequential) scan ::
  "jsstr \<Rightarrow> frame list \<Rightarrow> Budget \<Rightarrow> jsstr option \<Rightarrow> jsstr option codec" where
  "scan [] stack b duplicate = Inr duplicate"
| "scan (ch # s) stack b duplicate =
     (if whitespace ch \<or> ch = 58 \<or> ch = 44 then scan s stack b duplicate
      else if ch = 123 \<or> ch = 91 then
        if int (length stack) + 1 > maxDepth then Inl (Issue [] DepthLimit)
        else bindK (visit (int (length stack) + 1) [] b) (\<lambda>b.
          let (path, stack) = valuePath stack in
          scan s (\<lparr>fr_object = (ch = 123), fr_path = path, fr_index = 0, fr_key = None, fr_keys = []\<rparr> # stack)
            b duplicate)
      else if ch = 125 \<or> ch = 93 then scan s (tl stack) b duplicate
      else if ch = 34 then
        let (literal, r) = scan_string s in
        if stack \<noteq> [] \<and> fr_object (hd stack) \<and> startsWith (skip_ws r) [58]
        then let (fr, duplicate) = scan_key (hd stack) (34 # literal) duplicate
             in scan r (fr # tl stack) b duplicate
        else let stack = snd (valuePath stack) in
             bindK (visit (int (length stack)) [] b) (\<lambda>b. scan r stack b duplicate)
      else let stack = snd (valuePath stack) in
           bindK (visit (int (length stack)) [] b) (\<lambda>b. scan (dropWhile run_unit s) stack b duplicate))"
  by pat_completeness auto
termination
  using scan_string_length
  by (relation "measure (\<lambda>(s, _). length s)")
    (auto simp: le_imp_less_Suc length_dropWhile_le, (metis le_imp_less_Suc snd_conv)+)

declare scan.simps [simp del]

definition scanJSON :: "jsstr \<Rightarrow> jsstr option codec" where
  "scanJSON s = bindK (new_Budget standaloneBytes) (\<lambda>b. scan s [] b None)"

section \<open>Documents\<close>

definition decodeText :: "octet list \<Rightarrow> int \<Rightarrow> jsstr codec" where
  "decodeText input limit =
     (if int (length input) > limit then Inl (Issue [] ByteLimit)
      else (case utf8_decode (map uint input) of
          None \<Rightarrow> Inl (Issue [] Utf8)
        | Some cs \<Rightarrow> Inr (utf16_encode cs)))"

definition parseJSONText :: "jsstr \<Rightarrow> jtree codec" where
  "parseJSONText s =
     bindK (scanJSON s) (\<lambda>duplicate.
     case parse_json s of
       None \<Rightarrow> Inl (Issue [] InvalidJson)
     | Some parsed \<Rightarrow>
         (case duplicate of
            Some path \<Rightarrow> Inl (Issue path DuplicateMember)
          | None \<Rightarrow> Inr parsed))"

definition parseDocument :: "octet list \<Rightarrow> int \<Rightarrow> jtree codec" where
  "parseDocument input limit = bindK (decodeText input limit) parseJSONText"

definition decodeJSON :: "Schema \<Rightarrow> octet list \<Rightarrow> int \<Rightarrow> cval codec" where
  "decodeJSON schema input limit =
     bindK (new_Budget limit) (\<lambda>b.
     bindK (parseDocument input limit) (\<lambda>parsed.
     bindK (projectValue schema parsed b exactInt) (\<lambda>(v, _). Inr v)))"

section \<open>Scanning formatted texts\<close>

lemma scan_string_plain:
  "u \<noteq> 34 \<Longrightarrow> u \<noteq> 92 \<Longrightarrow> s \<noteq> [] \<Longrightarrow> scan_string (u # s) = (u # fst (scan_string s), snd (scan_string s))"
  by (cases s) (simp_all add: split_beta Let_def)

lemma scan_string_escape: "scan_string (92 # e # s) = (92 # e # fst (scan_string s), snd (scan_string s))"
  by (simp add: split_beta Let_def)

lemma hex_unit_plain: "0 \<le> d \<Longrightarrow> d < 16 \<Longrightarrow> hex_unit d \<noteq> 34 \<and> hex_unit d \<noteq> 92"
proof -
  assume d: "0 \<le> d" "d < 16"
  then have "uint (hex_unit d) = (if d < 10 then 48 + d else 87 + d)"
    by (simp add: hex_unit_def uint_word_of_int)
  then show ?thesis using d by (auto split: if_splits)
qed

lemma scan_string_unicode_escape:
  "s \<noteq> [] \<Longrightarrow> scan_string (unicode_escape u @ s) = (unicode_escape u @ fst (scan_string s), snd (scan_string s))"
proof -
  assume s: "s \<noteq> []"
  have n: "0 \<le> uint u" "uint u < 65536" by (simp_all add: uint_bounded [of u, simplified])
  have h: "hex_unit (uint u div 4096) \<noteq> 34 \<and> hex_unit (uint u div 4096) \<noteq> 92"
    "hex_unit (uint u div 256 mod 16) \<noteq> 34 \<and> hex_unit (uint u div 256 mod 16) \<noteq> 92"
    "hex_unit (uint u div 16 mod 16) \<noteq> 34 \<and> hex_unit (uint u div 16 mod 16) \<noteq> 92"
    "hex_unit (uint u mod 16) \<noteq> 34 \<and> hex_unit (uint u mod 16) \<noteq> 92"
    using n by (intro hex_unit_plain; linarith)+
  obtain a b c d where e: "unicode_escape u = [92, 117, a, b, c, d]" "a \<noteq> 34 \<and> a \<noteq> 92" "b \<noteq> 34 \<and> b \<noteq> 92"
    "c \<noteq> 34 \<and> c \<noteq> 92" "d \<noteq> 34 \<and> d \<noteq> 92"
    using h by (simp add: unicode_escape_def Let_def)
  show ?thesis unfolding e(1) using e(2-5) s by (simp add: scan_string_plain scan_string_escape del: scan_string.simps)
qed

lemma scan_string_quote_unit:
  "s \<noteq> [] \<Longrightarrow> scan_string (quote_unit u @ s) = (quote_unit u @ fst (scan_string s), snd (scan_string s))"
  by (simp add: quote_unit_def scan_string_unicode_escape scan_string_plain scan_string_escape
      del: scan_string.simps)

lemma scan_string_quote: "scan_string (quote_units s @ 34 # rest) = (quote_units s @ [34], rest)"
proof (induction s rule: quote_units.induct)
  case 1
  then show ?case by (cases rest) simp_all
next
  case (2 u)
  have "scan_string (34 # rest) = ([34], rest)" by (cases rest) simp_all
  then show ?case
    by (simp add: scan_string_unicode_escape scan_string_quote_unit del: scan_string.simps)
next
  case (3 u v us)
  then show ?case
    using surrogate_plain [of u] surrogate_plain [of v]
    by (simp add: scan_string_unicode_escape scan_string_quote_unit scan_string_plain del: scan_string.simps)
qed

lemma parse_json_string: "parse_json (json_string s) = Some (JStr s)"
  using parsesD [OF parses_string, of "[]" s "Suc (2 * length (json_string s))"]
  by (simp add: parse_json_def skip_ws_def)

text \<open>One value read: the element or member of the enclosing frame is consumed.\<close>

definition bump :: "frame list \<Rightarrow> frame list" where
  "bump stack = snd (valuePath stack)"

lemma length_bump [simp]: "length (bump stack) = length stack"
  by (auto simp: bump_def valuePath_def split: list.split option.split)

definition scans :: "jsstr \<Rightarrow> int \<Rightarrow> int \<Rightarrow> int \<Rightarrow> bool" where
  "scans t depth n n' \<longleftrightarrow> (\<forall>rest stack b dup. delimited rest \<longrightarrow> int (length stack) = depth \<longrightarrow> nodes b = n
     \<longrightarrow> scan (t @ rest) stack b dup = scan rest (bump stack) (b\<lparr>nodes := n'\<rparr>) dup)"

lemma visit_nodes:
  "visit d path b = Inr b' \<Longrightarrow> nodes c = nodes b \<Longrightarrow> visit d path' c = Inr (c\<lparr>nodes := nodes b'\<rparr>)"
  by (auto simp: visit_def split: if_splits)

lemma delimited_skip: "delimited rest \<Longrightarrow> \<not> startsWith (skip_ws rest) [58]"
  by (cases rest) (auto simp: delimited_def skip_ws_def)

lemma scans_string:
  assumes "visit depth path b = Inr b'"
  shows "scans (json_string s) depth (nodes b) (nodes b')"
  unfolding scans_def
proof (intro allI impI)
  fix rest :: jsstr and stack :: "frame list" and c :: Budget and dup :: "jsstr option"
  assume rest: "delimited rest" and d: "int (length stack) = depth" and c: "nodes c = nodes b"
  have "scan (json_string s @ rest) stack c dup
      = bindK (visit (int (length (bump stack))) [] c) (\<lambda>b. scan rest (bump stack) b dup)"
    using scan_string_quote [of s rest] delimited_skip [OF rest]
    by (simp add: json_string_def scan.simps(2) bump_def Let_def)
  then show "scan (json_string s @ rest) stack c dup = scan rest (bump stack) (c\<lparr>nodes := nodes b'\<rparr>) dup"
    using visit_nodes [OF assms c, of "[]"] d by simp
qed

lemma scans_run:
  assumes "visit depth path b = Inr b'" and "t \<noteq> []" and "list_all run_unit t"
  shows "scans t depth (nodes b) (nodes b')"
  unfolding scans_def
proof (intro allI impI)
  fix rest :: jsstr and stack :: "frame list" and c :: Budget and dup :: "jsstr option"
  assume rest: "delimited rest" and d: "int (length stack) = depth" and c: "nodes c = nodes b"
  obtain u us where t: "t = u # us" using assms(2) by (cases t) auto
  have "dropWhile run_unit (us @ rest) = rest"
    using assms(3) rest by (cases rest) (auto simp: t list_all_iff delimited_def run_unit_def delimiter_def)
  moreover have "run_unit u" using assms(3) t by simp
  ultimately have "scan (t @ rest) stack c dup
      = bindK (visit (int (length (bump stack))) [] c) (\<lambda>b. scan rest (bump stack) b dup)"
    by (simp add: t scan.simps(2) bump_def run_unit_def delimiter_def Let_def)
  then show "scan (t @ rest) stack c dup = scan rest (bump stack) (c\<lparr>nodes := nodes b'\<rparr>) dup"
    using visit_nodes [OF assms(1) c, of "[]"] d by simp
qed

text \<open>A sequence of values, each read where the one before stopped counting.\<close>

fun scans_all :: "jsstr list \<Rightarrow> int \<Rightarrow> int \<Rightarrow> int \<Rightarrow> bool" where
  "scans_all [] depth n n' = (n = n')"
| "scans_all (t # ts) depth n n' = (\<exists>m. scans t depth n m \<and> scans_all ts depth m n')"

lemma scansD:
  "scans t depth n n' \<Longrightarrow> delimited rest \<Longrightarrow> int (length stack) = depth \<Longrightarrow> nodes b = n
    \<Longrightarrow> scan (t @ rest) stack b dup = scan rest (bump stack) (b\<lparr>nodes := n'\<rparr>) dup"
  by (simp add: scans_def)

lemma scan_separator [simp]: "scan (44 # s) stack b dup = scan s stack b dup" "scan (58 # s) stack b dup = scan s stack b dup"
  by (simp_all add: scan.simps(2))

lemma scan_close [simp]: "scan (93 # s) stack b dup = scan s (tl stack) b dup" "scan (125 # s) stack b dup = scan s (tl stack) b dup"
  by (simp_all add: scan.simps(2))

lemma tl_bump [simp]: "tl (bump (f # stack)) = stack"
  by (simp add: bump_def valuePath_def split: option.split)

lemma nodes_same [simp]: "nodes b = n \<Longrightarrow> b\<lparr>nodes := n\<rparr> = b"
  by (cases b) simp

lemma scan_items:
  "scans_all texts depth n n' \<Longrightarrow> int (length (f # stack)) = depth \<Longrightarrow> nodes b = n
    \<Longrightarrow> scan (join_texts texts @ 93 # rest) (f # stack) b dup = scan rest stack (b\<lparr>nodes := n'\<rparr>) dup"
proof (induction texts arbitrary: n f b)
  case (Cons t ts)
  obtain m where m: "scans t depth n m" "scans_all ts depth m n'" using Cons.prems(1) by auto
  obtain f' where f': "bump (f # stack) = f' # stack"
    using length_bump [of "f # stack"] tl_bump [of f stack] by (cases "bump (f # stack)") auto
  show ?case
  proof (cases "ts = []")
    case True
    then show ?thesis
      using scansD [OF m(1) _ Cons.prems(2,3), of "93 # rest" dup] m(2) f' by simp
  next
    case False
    have "scan (t @ 44 # join_texts ts @ 93 # rest) (f # stack) b dup
        = scan (join_texts ts @ 93 # rest) (f' # stack) (b\<lparr>nodes := m\<rparr>) dup"
      using scansD [OF m(1) _ Cons.prems(2,3), of "44 # join_texts ts @ 93 # rest" dup] f' by simp
    then show ?thesis
      using False Cons.IH [OF m(2), of f' "b\<lparr>nodes := m\<rparr>"] Cons.prems(2) by (simp add: join_texts_Cons)
  qed
qed simp

lemma scan_member:
  assumes "fr_object f" and "name \<notin> set (fr_keys f)" and "scans t depth n m" and "delimited rest"
    and "int (length (f # stack)) = depth" and "nodes b = n"
  shows "scan (member_text name t @ rest) (f # stack) b dup
       = scan rest (f\<lparr>fr_key := None, fr_keys := ns_add name (fr_keys f)\<rparr> # stack) (b\<lparr>nodes := m\<rparr>) dup"
proof -
  let ?f = "f\<lparr>fr_key := Some name, fr_keys := ns_add name (fr_keys f)\<rparr>"
  have body: "member_text name t @ rest = 34 # quote_units name @ 34 # 58 # t @ rest"
    by (simp add: member_text_def json_string_def)
  have key: "scan_key f (34 # quote_units name @ [34]) dup = (?f, dup)"
    using assms(2) parse_json_string [of name] by (simp add: scan_key_def json_string_def)
  have "scan (member_text name t @ rest) (f # stack) b dup = scan (58 # t @ rest) (?f # stack) b dup"
    unfolding body scan.simps(2) [of 34 "quote_units name @ 34 # 58 # t @ rest"]
    using assms(1) by (simp add: scan_string_quote key)
  also have "\<dots> = scan rest (bump (?f # stack)) (b\<lparr>nodes := m\<rparr>) dup"
    using scansD [OF assms(3,4), of "?f # stack"] assms(5,6) by simp
  finally show ?thesis using assms(1) by (cases f) (simp add: bump_def valuePath_def)
qed

lemma scan_members:
  "scans_all (map snd members) depth n n' \<Longrightarrow> fr_object f \<Longrightarrow> distinct (map fst members)
    \<Longrightarrow> set (map fst members) \<inter> set (fr_keys f) = {} \<Longrightarrow> int (length (f # stack)) = depth \<Longrightarrow> nodes b = n
    \<Longrightarrow> scan (join_texts (map (\<lambda>(n, t). member_text n t) members) @ 125 # rest) (f # stack) b dup
      = scan rest stack (b\<lparr>nodes := n'\<rparr>) dup"
proof (induction members arbitrary: n f b)
  case (Cons p members)
  obtain name t where p: "p = (name, t)" by (cases p)
  obtain m where m: "scans t depth n m" "scans_all (map snd members) depth m n'" using Cons.prems(1) p by auto
  let ?f = "f\<lparr>fr_key := None, fr_keys := ns_add name (fr_keys f)\<rparr>"
  have name: "name \<notin> set (fr_keys f)" using Cons.prems(4) p by auto
  have step: "scan (member_text name t @ r) (f # stack) b dup = scan r (?f # stack) (b\<lparr>nodes := m\<rparr>) dup"
    if "delimited r" for r
    using scan_member [OF Cons.prems(2) name m(1) that Cons.prems(5,6)] .
  show ?case
  proof (cases "members = []")
    case True
    then show ?thesis using step [of "125 # rest"] m(2) p by simp
  next
    case False
    have "scan (join_texts (map (\<lambda>(n, t). member_text n t) members) @ 125 # rest) (?f # stack) (b\<lparr>nodes := m\<rparr>) dup
        = scan rest stack (b\<lparr>nodes := m\<rparr>\<lparr>nodes := n'\<rparr>) dup"
      using Cons.prems p by (intro Cons.IH [OF m(2)]) (auto simp: ns_add_def)
    then show ?thesis
      using False step [of "44 # join_texts (map (\<lambda>(n, t). member_text n t) members) @ 125 # rest"] p
      by (simp add: join_texts_Cons)
  qed
qed simp

text \<open>An opening bracket counts the container and pushes its frame.\<close>

lemma scan_open:
  assumes "visit (depth + 1) path b = Inr b0" and "int (length stack) = depth" and "nodes c = nodes b"
    and "ch = 123 \<or> ch = 91"
  shows "\<exists>f. fr_object f = (ch = 123) \<and> fr_keys f = []
    \<and> scan (ch # s) stack c dup = scan s (f # bump stack) (c\<lparr>nodes := nodes b0\<rparr>) dup"
proof -
  have "\<not> int (length stack) + 1 > maxDepth" using visit_depth [OF assms(1)] assms(2) by (simp add: maxDepth_def)
  then show ?thesis
    using visit_nodes [OF assms(1,3), of "[]"] assms(2,4)
    by (intro exI [of _ "\<lparr>fr_object = (ch = 123), fr_path = fst (valuePath stack), fr_index = 0, fr_key = None, fr_keys = []\<rparr>"])
      (auto simp: scan.simps(2) whitespace_def bump_def split_beta Let_def)
qed

lemma scans_array:
  assumes "visit (depth + 1) path b = Inr b0" and "scans_all texts (depth + 1) (nodes b0) n'"
  shows "scans ([91] @ join_texts texts @ [93]) depth (nodes b) n'"
  unfolding scans_def
proof (intro allI impI)
  fix rest :: jsstr and stack :: "frame list" and c :: Budget and dup :: "jsstr option"
  assume d: "int (length stack) = depth" and c: "nodes c = nodes b"
  obtain f where "scan (91 # join_texts texts @ 93 # rest) stack c dup
      = scan (join_texts texts @ 93 # rest) (f # bump stack) (c\<lparr>nodes := nodes b0\<rparr>) dup"
    using scan_open [OF assms(1) d c, of 91] by blast
  then show "scan (([91] @ join_texts texts @ [93]) @ rest) stack c dup = scan rest (bump stack) (c\<lparr>nodes := n'\<rparr>) dup"
    using scan_items [OF assms(2), of f "bump stack"] d by simp
qed

lemma scans_object:
  assumes "visit (depth + 1) path b = Inr b0" and "scans_all (map snd members) (depth + 1) (nodes b0) n'"
    and "distinct (map fst members)"
  shows "scans ([123] @ join_texts (map (\<lambda>(n, t). member_text n t) members) @ [125]) depth (nodes b) n'"
  unfolding scans_def
proof (intro allI impI)
  let ?j = "join_texts (map (\<lambda>(n, t). member_text n t) members)"
  fix rest :: jsstr and stack :: "frame list" and c :: Budget and dup :: "jsstr option"
  assume d: "int (length stack) = depth" and c: "nodes c = nodes b"
  obtain f where f: "fr_object f" "fr_keys f = []" "scan (123 # ?j @ 125 # rest) stack c dup
      = scan (?j @ 125 # rest) (f # bump stack) (c\<lparr>nodes := nodes b0\<rparr>) dup"
    using scan_open [OF assms(1) d c, of 123] by auto
  then show "scan (([123] @ ?j @ [125]) @ rest) stack c dup = scan rest (bump stack) (c\<lparr>nodes := n'\<rparr>) dup"
    using scan_members [OF assms(2) f(1) assms(3), of "bump stack"] d by simp
qed

lemma number_unit_run: "list_all number_unit t \<Longrightarrow> list_all run_unit t"
  by (auto simp: list_all_iff number_unit_def run_unit_def whitespace_def delimiter_def is_digit_unit_def in_range_def)

lemma preflight_primitive_nodes: "preflight_primitive nt name v path b = Inr b' \<Longrightarrow> nodes b' = nodes b"
  by (auto simp: preflight_primitive_def type_fault_def bindK_Inr_conv
      dest!: charge_effect textCost_effect encodeInteger_effect split: if_splits cval.splits)

lemma scans_primitive:
  assumes "number_texts nt" and "visit depth path b = Inr b0" and "preflight_primitive nt name v path b0 = Inr b'"
  shows "scans (format_primitive nt v) depth (nodes b) (nodes b')"
proof -
  have n: "nodes b' = nodes b0" using preflight_primitive_nodes [OF assms(3)] .
  have int: "list_all run_unit (int_string i)" for i
  proof -
    have "list_all run_unit (int_string \<bar>i\<bar>)"
      using list_all_digit_int_string [of "\<bar>i\<bar>"]
      by (intro number_unit_run) (auto simp: list_all_iff number_unit_def)
    then show ?thesis
      by (cases "i < 0") (simp_all add: int_string_def ascii_def unit_of_char_def run_unit_def whitespace_def delimiter_def)
  qed
  have lit: "list_all run_unit (ascii ''true'')" "list_all run_unit (ascii ''false'')" "list_all run_unit (ascii ''-0'')"
    by (simp_all add: ascii_def unit_of_char_def run_unit_def whitespace_def delimiter_def)
  have ne: "ascii ''true'' \<noteq> []" "ascii ''false'' \<noteq> []" "ascii ''-0'' \<noteq> []" by (simp_all add: ascii_def)
  have run: "t \<noteq> [] \<Longrightarrow> list_all run_unit t \<Longrightarrow> scans t depth (nodes b) (nodes b')" for t
    using scans_run [OF assms(2)] n by simp
  have float: "nt x \<noteq> [] \<and> list_all run_unit (nt x)" if "isFinite x" "x \<noteq> NegZero" for x
    using assms(1) that number_unit_run json_number_hd by (auto simp: number_texts_def)
  show ?thesis
    using assms(3) scans_string [OF assms(2)] n int lit ne run float
    by (cases v) (auto simp: format_primitive_def preflight_primitive_def type_fault_def split: if_splits)
qed

lemma accepts_scans:
  assumes nt: "number_texts nt" and ok: "schema_ok get"
  shows "accepts nt get node v path depth b b' \<Longrightarrow> known get node \<Longrightarrow> format n nt get node v = Inr t
    \<Longrightarrow> scans t depth (nodes b) (nodes b')"
  and "accepts_items nt get element vs i path depth b b'
    \<Longrightarrow> traverse (\<lambda>item. bindK (get element) (\<lambda>node. format n nt get node item)) vs = Inr ts
    \<Longrightarrow> scans_all ts (depth + 1) (nodes b) (nodes b')"
  and "accepts_fields nt get decl fs path depth b b'
    \<Longrightarrow> traverse (format_field (format n nt get) get fs) decl = Inr ts
    \<Longrightarrow> \<exists>members. ts = map (\<lambda>(n, t). member_text n t) members \<and> map fst members = map fst decl
          \<and> scans_all (map snd members) (depth + 1) (nodes b) (nodes b')"
proof (induction arbitrary: n t and n ts and n ts rule: accepts_accepts_items_accepts_fields.inducts)
  case (Prim depth path b b0 node v b')
  have st: "visit depth path b = Inr b0" "preflight_primitive nt (sn_name node) v path b0 = Inr b'"
    "sn_kind node = Primitive" by fact+
  then show ?case using scans_primitive [OF nt st(1,2)] Prim.prems(2) by (cases n) (auto simp: type_fault_def)
next
  case (Vari depth path b b0 node v leaf b1 b2 b3 b')
  have st: "visit (depth + 1) path b = Inr b0" "encode_leaf get node v path = Inr leaf"
    "keys_cost [ascii ''case'', ascii ''value''] path b0 = Inr b1"
    "visit (depth + 1) (childPath path (ascii ''case'')) b1 = Inr b2"
    "textCost (sn_name leaf) (childPath path (ascii ''case'')) b2 = Inr b3" "sn_kind node = Variant" by fact+
  let ?m = "\<lambda>t'. [(ascii ''case'', json_string (sn_name leaf)), (ascii ''value'', t')]"
  obtain m t' where t': "n = Suc m" "format m nt get leaf v = Inr t'"
    "t = [123] @ join_texts (map (\<lambda>(n, t). member_text n t) (?m t')) @ [125]"
    using Vari.prems(2) st(6) encode_leaf_path [OF st(2), of "[]"]
    by (cases n) (auto simp: bindK_Inr_conv type_fault_def)
  have "scans t' (depth + 1) (nodes b3) (nodes b')"
    using Vari.IH encode_leaf_find(2) [OF ok Vari.prems(1) st(2)] t'(2) by blast
  moreover have "nodes b1 = nodes b0" "nodes b3 = nodes b2"
    using keys_cost_effect [OF st(3)] textCost_effect [OF st(5)] by auto
  ultimately have "scans_all (map snd (?m t')) (depth + 1) (nodes b0) (nodes b')"
    using scans_string [OF st(4), of "sn_name leaf"] by auto
  then show ?case
    unfolding t'(3) by (rule scans_object [OF st(1)]) (simp add: ascii_def unit_of_char_def)
next
  case (Array depth path b b0 node items b1 b')
  have st: "visit (depth + 1) path b = Inr b0" "charge (2 + max 0 (int (length items) - 1)) path b0 = Inr b1"
    "sn_kind node = ArrayKind" by fact+
  obtain m ts where ts: "n = Suc m"
    "traverse (\<lambda>item. bindK (get (sn_element node)) (\<lambda>node. format m nt get node item)) items = Inr ts"
    "t = [91] @ join_texts ts @ [93]"
    using Array.prems(2) st(3) by (cases n) (auto simp: bindK_Inr_conv type_fault_def)
  have "scans_all ts (depth + 1) (nodes b0) (nodes b')"
    using Array.IH ts(2) charge_effect [OF st(2)] by auto
  then show ?case unfolding ts(3) by (rule scans_array [OF st(1)])
next
  case (Record depth path b b0 node b1 fs b')
  have st: "visit (depth + 1) path b = Inr b0" "keys_cost (map fst (sn_fields node)) path b0 = Inr b1"
    "sn_kind node = RecordKind \<or> sn_kind node = ErrorKind" by fact+
  obtain m ts where ts: "n = Suc m" "traverse (format_field (format m nt get) get fs) (sn_fields node) = Inr ts"
    "t = [123] @ join_texts ts @ [125]"
    using Record.prems(2) st(3) by (cases n) (auto simp: bindK_Inr_conv type_fault_def)
  obtain members where ms: "ts = map (\<lambda>(n, t). member_text n t) members"
    "map fst members = map fst (sn_fields node)" "scans_all (map snd members) (depth + 1) (nodes b1) (nodes b')"
    using Record.IH ts(2) by blast
  have "distinct (map fst members)" using ok Record.prems(1) ms(2) by (auto simp: schema_ok_def known_def)
  then show ?case
    unfolding ts(3) ms(1) using ms(3) keys_cost_effect [OF st(2)] by (intro scans_object [OF st(1)]) auto
next
  case (Item element node item path i depth b b1 items b')
  have g: "get element = Inr node" by fact
  obtain t us where t: "format n nt get node item = Inr t" "ts = t # us"
    "traverse (\<lambda>item. bindK (get element) (\<lambda>node. format n nt get node item)) items = Inr us"
    using Item.prems g by (auto simp: bindK_Inr_conv)
  have "scans t (depth + 1) (nodes b) (nodes b1)" "scans_all us (depth + 1) (nodes b1) (nodes b')"
    using Item.IH t g by (auto simp: known_def)
  then show ?case using t(2) by auto
next
  case (Field field node fs v path depth b b1 decl b')
  have g: "get (snd field) = Inr node" "map_of fs (fst field) = Some v" by fact+
  obtain t us where t: "format n nt get node v = Inr t" "ts = member_text (fst field) t # us"
    "traverse (format_field (format n nt get) get fs) decl = Inr us"
    using Field.prems g by (auto simp: bindK_Inr_conv format_field_def [of _ _ _ field])
  obtain members where ms: "us = map (\<lambda>(n, t). member_text n t) members" "map fst members = map fst decl"
    "scans_all (map snd members) (depth + 1) (nodes b1) (nodes b')"
    using Field.IH t(3) by blast
  have "scans t (depth + 1) (nodes b) (nodes b1)" using Field.IH t(1) g by (auto simp: known_def)
  then show ?case
    using t(2) ms by (intro exI [of _ "(fst field, t) # members"]) auto
qed auto

section \<open>Formatted texts are well-formed Unicode\<close>

lemma isWellFormed_append: "isWellFormed a \<Longrightarrow> isWellFormed b \<Longrightarrow> isWellFormed (a @ b)"
proof (induction a rule: isWellFormed.induct)
  case (2 u)
  then show ?case by (cases b) auto
qed auto

lemma isWellFormed_ascii: "list_all (\<lambda>u. uint u < 128) t \<Longrightarrow> isWellFormed t"
  by (induction t rule: isWellFormed.induct) (auto simp: unit_defs)

lemma unicode_escape_ascii: "isWellFormed (unicode_escape u)"
proof -
  have "uint (hex_unit d) < 128" if "0 \<le> d" "d < 16" for d
    using that by (auto simp: hex_unit_def uint_word_of_int)
  moreover have "0 \<le> uint u" "uint u < 65536" by (simp_all add: uint_bounded [of u, simplified])
  then have "uint u div 4096 < 16" "0 \<le> uint u div 4096" by linarith+
  ultimately show ?thesis
    by (intro isWellFormed_ascii) (simp add: unicode_escape_def Let_def)
qed

lemma isWellFormed_quote_unit:
  "\<not> is_high_surrogate u \<Longrightarrow> \<not> is_low_surrogate u \<Longrightarrow> isWellFormed (quote_unit u)"
  using unicode_escape_ascii by (simp add: quote_unit_def unit_defs)

lemma isWellFormed_quote_units: "isWellFormed (quote_units s)"
  by (induction s rule: quote_units.induct)
    (auto intro!: isWellFormed_append isWellFormed_quote_unit unicode_escape_ascii)

lemma isWellFormed_json_string: "isWellFormed (json_string s)"
proof -
  have "isWellFormed [34]" by (simp add: unit_defs)
  then show ?thesis
    unfolding json_string_def by (intro isWellFormed_append isWellFormed_quote_units)
qed

lemma isWellFormed_member_text: "isWellFormed t \<Longrightarrow> isWellFormed (member_text name t)"
proof -
  assume "isWellFormed t"
  moreover have "isWellFormed [58]" by (simp add: unit_defs)
  ultimately show ?thesis
    unfolding member_text_def by (intro isWellFormed_append isWellFormed_json_string)
qed

lemma isWellFormed_join_texts: "list_all isWellFormed ts \<Longrightarrow> isWellFormed (join_texts ts)"
proof (induction ts rule: join_texts.induct)
  case (3 t u ts)
  moreover have "isWellFormed [44]" by (simp add: unit_defs)
  ultimately show ?case unfolding join_texts.simps by (intro isWellFormed_append) auto
qed auto

lemma isWellFormed_brackets:
  assumes "list_all isWellFormed ts"
  shows "isWellFormed ([91] @ join_texts ts @ [93])" "isWellFormed ([123] @ join_texts ts @ [125])"
proof -
  have "isWellFormed [91]" "isWellFormed [93]" "isWellFormed [123]" "isWellFormed [125]" by (simp_all add: unit_defs)
  then show "isWellFormed ([91] @ join_texts ts @ [93])" "isWellFormed ([123] @ join_texts ts @ [125])"
    using isWellFormed_join_texts [OF assms] by (intro isWellFormed_append; simp)+
qed

lemma isWellFormed_primitive: "number_texts nt \<Longrightarrow> isWellFormed (format_primitive nt v)"
proof -
  assume nt: "number_texts nt"
  have "list_all number_unit t \<Longrightarrow> isWellFormed t" for t
    by (rule isWellFormed_ascii) (auto simp: list_all_iff number_unit_def is_digit_unit_def in_range_def)
  then show ?thesis
    using nt isWellFormed_json_string isWellFormed_ascii [OF int_string_ascii]
    by (cases v) (auto simp: format_primitive_def number_texts_def ascii_def unit_of_char_def unit_defs)
qed

lemma traverse_all: "traverse f xs = Inr ys \<Longrightarrow> (\<And>x y. f x = Inr y \<Longrightarrow> P y) \<Longrightarrow> list_all P ys"
  by (induction xs arbitrary: ys) (auto simp: bindK_Inr_conv)

lemma isWellFormed_format: "number_texts nt \<Longrightarrow> format n nt get node v = Inr t \<Longrightarrow> isWellFormed t"
proof (induction n arbitrary: node v t)
  case (Suc n)
  have items: "traverse (\<lambda>item. bindK (get e) (\<lambda>node. format n nt get node item)) vs = Inr ts
      \<Longrightarrow> list_all isWellFormed ts" for e vs ts
    using Suc.IH Suc.prems(1) by (elim traverse_all) (auto simp: bindK_Inr_conv)
  have fields: "traverse (format_field (format n nt get) get fs) decl = Inr ts \<Longrightarrow> list_all isWellFormed ts" for fs decl ts
    using Suc.IH Suc.prems(1)
    by (elim traverse_all) (auto simp: format_field_def bindK_Inr_conv intro: isWellFormed_member_text)
  have variant: "isWellFormed ([123] @ join_texts [member_text (ascii ''case'') (json_string l), member_text (ascii ''value'') t'] @ [125])"
    if "format n nt get leaf v = Inr t'" for l leaf t'
    using Suc.IH [OF Suc.prems(1) that] isWellFormed_json_string
    by (intro isWellFormed_brackets(2)) (simp add: isWellFormed_member_text)
  show ?case
    using Suc.prems(2) isWellFormed_primitive [OF Suc.prems(1)] isWellFormed_brackets items fields variant
    by (auto simp: bindK_Inr_conv type_fault_def simp del: join_texts.simps append.simps split: if_splits cval.splits)
qed (simp add: type_fault_def)

section \<open>The round trip\<close>

lemma number_unit_ascii: "number_unit u \<Longrightarrow> uint u < 128"
  by (auto simp: number_unit_def is_digit_unit_def in_range_def)

lemma ascii_numbers_texts: "number_texts nt \<Longrightarrow> ascii_numbers nt"
  using number_unit_ascii by (fastforce simp: number_texts_def ascii_numbers_def list_all_iff dest!: json_number_hd)

lemma decodeText_utf8:
  assumes "isWellFormed t" and "int (length (utf8_text t)) \<le> limit"
  shows "decodeText (map word_of_int (utf8_text t)) limit = Inr t"
proof -
  have cs: "utf16_encode (utf16_decode t) = t" "list_all scalar (utf16_decode t)"
    using utf16_encode_decode [OF assms(1)] by auto
  have "map (uint :: octet \<Rightarrow> int) (map word_of_int (utf8_text t)) = utf8_text t"
    using utf8_encode_range [OF cs(2)]
    by (auto simp: utf8_text_def list_all_iff uint_word_of_int intro!: map_idI)
  then show ?thesis
    using assms(2) cs utf8_decode_encode [OF cs(2)] by (simp add: decodeText_def utf8_text_def comp_def)
qed

lemma parses_parse_json: "parses t tree \<Longrightarrow> parse_json t = Some tree"
  using parsesD [of t tree "[]" "Suc (2 * length t)"] by (simp add: parse_json_def skip_ws_def)

lemma scans_scanJSON: "scans t 0 0 n \<Longrightarrow> scanJSON t = Inr None"
  using scansD [of t 0 0 n "[]" "[]"]
  by (simp add: scanJSON_def new_Budget_def standaloneBytes_def safe_int_def MAX_SAFE_INTEGER_def scan.simps(1))

text \<open>
  C21: Decoding inverts encoding. Whenever encodeJSON produces bytes for a value of the schema,
  decodeJSON with the same limit accepts the bytes, with all the depth, node and byte limits
  and the duplicate check in force, and returns exactly the value.
\<close>

theorem json_roundtrip:
  assumes "number_texts nt" and "graph schema = Inr get" and "schema_ok get"
    and "get (root schema) = Inr node" and "declared format_levels get node v"
    and "encodeJSON nt schema v limit = Inr bs"
  shows "decodeJSON schema bs limit = Inr v"
proof -
  obtain b b' t where enc: "new_Budget limit = Inr b" "preflight nt get node v [] 0 b = Inr b'"
    "format format_levels nt get node v = Inr t" "bs = map word_of_int (utf8_text t)"
    "int (length (utf8_text t)) = limit - remaining b'"
    using assms(2,4,6) by (auto simp: encodeJSON_def bindK_Inr_conv Let_def type_fault_def split: if_splits)
  have b: "budget_ok b" "nodes b = 0" "0 \<le> remaining b"
    using enc(1) by (auto simp: new_Budget_def budget_ok_def split: if_splits)
  have acc: "accepts nt get node v [] 0 b b'" using preflight_accepts(1) [OF enc(2)] .
  have kn: "known get node" using assms(4) by (auto simp: known_def)
  obtain tree where tree: "tree_of format_levels nt get node v = Inr tree" "parses t tree"
    using format_parses [OF assms(1,3) enc(3) kn assms(5)] by blast
  have bytes: "decodeText bs limit = Inr t"
    unfolding enc(4) using enc(5) accepts_nonneg(1) [OF acc]
    by (intro decodeText_utf8 isWellFormed_format [OF assms(1) enc(3)]) simp
  have "scanJSON t = Inr None"
    using accepts_scans(1) [OF assms(1,3) acc kn enc(3)] b(2) by (intro scans_scanJSON) simp
  then have parsed: "parseJSONText t = Inr tree"
    using parses_parse_json [OF tree(2)] by (simp add: parseJSONText_def)
  have "covers b b" using b by (simp add: covers_def)
  then obtain bd where "project exactInt get node tree [] 0 b = Inr (v, bd)"
    using accepts_project(1) [OF assms(1,3) acc kn assms(5)] tree(1) by auto
  then show ?thesis
    using enc(1) bytes parsed assms(2,4) by (simp add: decodeJSON_def parseDocument_def projectValue_def)
qed

text \<open>
  A formatter that satisfies the hypotheses: every double is a multiple of the power
  \<open>2\<^sup>-\<^sup>1\<^sup>0\<^sup>7\<^sup>4\<close> and so has an exact decimal text with 1074 places.
\<close>

definition places :: nat where
  "places = 1074"

definition exact_text :: "jsnum \<Rightarrow> jsstr" where
  "exact_text x = (case x of Fin r \<Rightarrow> int_string \<lfloor>r * 10 ^ places\<rfloor> @ ascii ''e-1074'' | _ \<Rightarrow> ascii ''0'')"

lemma powi_shift:
  assumes "- int n \<le> e"
  shows "(2 :: rat) powi e * 2 ^ n = 2 ^ nat (e + int n)"
proof -
  have "(2 :: rat) powi e * 2 powi int n = 2 powi (e + int n)" by (simp add: power_int_add)
  then show ?thesis using assms by (simp add: power_int_def)
qed

lemma to_double_dyadic:
  assumes "to_double negative x = Fin r"
  shows "\<exists>z :: int. r * 2 ^ places = of_int z"
proof (cases "x = 0")
  case True
  then have "r = 0" using assms by (simp add: to_double_def split: if_splits)
  then show ?thesis by (intro exI [of _ 0]) simp
next
  case False
  define e where "e = max (rat_log2 x - 52) (- 1074)"
  define k where "k = round_half_even (x * 2 powi (- e))"
  have e: "- int places \<le> e" by (simp add: places_def e_def)
  have r: "r = of_int k * 2 powi e \<or> r = - (of_int k * 2 powi e) \<or> r = 0"
    using assms False by (auto simp: to_double_def Let_def e_def k_def split: if_splits)
  have "of_int k * 2 powi e * 2 ^ places = (of_int (k * 2 ^ nat (e + int places)) :: rat)"
    using powi_shift [OF e] by (simp add: mult.assoc)
  then show ?thesis
    using r by (metis (no_types, lifting) minus_mult_left mult_zero_left of_int_0 of_int_minus)
qed

lemma exact_text_parts:
  "numeric_parts (int_string i @ ascii ''e-1074'') = Some (i < 0, int_string \<bar>i\<bar>, [], Some (ascii ''-1074''))"
proof -
  have s: "strip_sign (int_string i @ ascii ''e-1074'') = (i < 0, int_string \<bar>i\<bar> @ ascii ''e-1074'')"
    using int_string_not_Nil [of i] strip_sign_neg [of i] strip_sign_nonneg [of i]
    by (cases "i < 0"; cases "int_string i") (auto simp: strip_sign_def split: if_splits)
  have d: "takeWhile is_digit_unit (int_string \<bar>i\<bar> @ ascii ''e-1074'') = int_string \<bar>i\<bar>"
    "dropWhile is_digit_unit (int_string \<bar>i\<bar> @ ascii ''e-1074'') = ascii ''e-1074''"
    using list_all_digit_int_string [of "\<bar>i\<bar>"]
    by (auto simp: list_all_iff ascii_def unit_of_char_def is_digit_unit_def in_range_def takeWhile_append dropWhile_append)
  have e: "exponent_suffix (ascii ''e-1074'') = Some (- 1074)" by code_simp
  have tl: "hd (ascii ''e-1074'') \<noteq> 46" "tl (ascii ''e-1074'') = ascii ''-1074''" "ascii ''e-1074'' \<noteq> []"
    by (simp_all add: ascii_def unit_of_char_def)
  show ?thesis by (simp add: numeric_parts_def s Let_def d e tl)
qed

lemma decimal_shift:
  fixes r :: rat
  assumes "r * 2 ^ n = of_int z" and "i = \<lfloor>r * 10 ^ n\<rfloor>"
  shows "of_int i * 10 powi (- int n) = r" and "i < 0 \<longleftrightarrow> r < 0"
proof -
  have "(10 :: rat) ^ n = 2 ^ n * 5 ^ n" by (simp flip: power_mult_distrib)
  then have "r * 10 ^ n = of_int (z * 5 ^ n)" using assms(1) by (simp flip: mult.assoc)
  then have i: "of_int i = r * 10 ^ n" by (simp only: assms(2) floor_of_int)
  then show "of_int i * 10 powi (- int n) = r" by (simp add: power_int_minus mult.assoc right_inverse)
  have "i < 0 \<longleftrightarrow> (of_int i :: rat) < 0" by simp
  then show "i < 0 \<longleftrightarrow> r < 0" unfolding i by (simp add: mult_less_0_iff)
qed

lemma exact_text_value:
  assumes "is_double (Fin r)"
  shows "token_number (exact_text (Fin r)) = Fin r"
proof -
  define i where "i = \<lfloor>r * 10 ^ places\<rfloor>"
  have r: "to_double (r < 0) \<bar>r\<bar> = Fin r" using assms by (simp add: is_double_def)
  obtain z :: int where "r * 2 ^ places = of_int z" using to_double_dyadic [OF r] by blast
  note i = decimal_shift [OF this i_def]
  have ex: "exponent_part (ascii ''-1074'') = Some (- int places)" by code_simp
  have "numeric_value (i < 0, int_string \<bar>i\<bar>, [], Some (ascii ''-1074'')) = of_int i * 10 powi (- int places)"
    by (auto simp: numeric_value_def units_value_int_string ex)
  then show ?thesis
    using r i by (simp add: exact_text_def i_def [symmetric] token_number_def exact_text_parts)
qed

lemma number_texts_exact_text: "number_texts exact_text"
  unfolding number_texts_def
proof (intro allI impI)
  fix x :: jsnum assume "isFinite x" "x \<noteq> NegZero"
  then obtain r where x: "x = Fin r" by (cases x) auto
  define i where "i = \<lfloor>r * 10 ^ places\<rfloor>"
  have t: "exact_text x = int_string i @ ascii ''e-1074''" by (simp add: exact_text_def x i_def)
  have "list_all number_unit (int_string \<bar>i\<bar>)"
    using list_all_digit_int_string [of "\<bar>i\<bar>"] by (auto simp: list_all_iff number_unit_def)
  then have units: "list_all number_unit (exact_text x)"
    unfolding t by (cases "i < 0") (simp_all add: int_string_def ascii_def unit_of_char_def number_unit_def is_digit_unit_def in_range_def)
  have num: "json_number (exact_text x)"
    unfolding t by (simp add: json_number_def exact_text_parts plain_int_string)
  then show "json_number (exact_text x) \<and> list_all number_unit (exact_text x) \<and> (is_double x \<longrightarrow> token_number (exact_text x) = x)"
    using units exact_text_value x by simp
qed

text \<open>A schema with one record of an integer and a text, and a value of it.\<close>

definition sample_get :: getter where
  "sample_get ident =
     (if ident = ascii ''r'' then Inr \<lparr>sn_identity = ascii ''r'', sn_kind = RecordKind, sn_name = ascii ''R'', sn_element = [],
          sn_fields = [(ascii ''n'', ascii ''i''), (ascii ''s'', ascii ''t'')], sn_leaves = []\<rparr>
      else if ident = ascii ''i'' then Inr \<lparr>sn_identity = ascii ''i'', sn_kind = Primitive, sn_name = ascii ''int'',
          sn_element = [], sn_fields = [], sn_leaves = []\<rparr>
      else if ident = ascii ''t'' then Inr \<lparr>sn_identity = ascii ''t'', sn_kind = Primitive, sn_name = ascii ''str'',
          sn_element = [], sn_fields = [], sn_leaves = []\<rparr>
      else type_fault ''missing codec schema node'')"

definition sample_schema :: Schema where
  "sample_schema = \<lparr>root = ascii ''r'', schema_nodes =
     [projr (sample_get (ascii ''r'')), projr (sample_get (ascii ''i'')), projr (sample_get (ascii ''t''))]\<rparr>"

definition sample_value :: cval where
  "sample_value = VRec (ascii ''r'') [(ascii ''n'', VInt (- 42)), (ascii ''s'', VStr [104, 233])]"

lemma sample_graph: "graph sample_schema = Inr sample_get"
  by (simp add: graph_def sample_schema_def sample_get_def fun_eq_iff ascii_def unit_of_char_def)

lemma sample_schema_ok: "schema_ok sample_get"
  unfolding schema_ok_def
  by (auto simp: sample_get_def type_fault_def ascii_def unit_of_char_def array_index_def is_digit_unit_def in_range_def)

lemma sample_declared: "declared format_levels sample_get (projr (sample_get (ascii ''r''))) sample_value"
  by (simp add: format_levels_def numeral_eq_Suc sample_get_def sample_value_def ascii_def unit_of_char_def type_fault_def)

theorem json_roundtrip_witness:
  "decodeJSON sample_schema (map (word_of_int \<circ> uint) (ascii ''{\"n\":-42,\"s\":\"h'' @ [195, 169] @ ascii ''\"}'')) 100
     = Inr sample_value"
proof (rule json_roundtrip [OF number_texts_exact_text sample_graph sample_schema_ok _ sample_declared])
  show "sample_get (root sample_schema) = Inr (projr (sample_get (ascii ''r'')))"
    by (simp add: sample_schema_def sample_get_def)
  show "encodeJSON exact_text sample_schema sample_value 100
     = Inr (map (word_of_int \<circ> uint) (ascii ''{\"n\":-42,\"s\":\"h'' @ [195, 169] @ ascii ''\"}''))"
    by code_simp
qed

end
