(* ===== verification/Jsonl.thy ===== *)
theory Jsonl
  imports Document Completion
begin

text \<open>
  JSON lines (\<open>runtime/codec/jsonl.ts\<close>): the framer that cuts a byte stream into lines, the
  projection of one line, the decoder of a whole payload, and the streaming consumer of
  \<open>runtime/codec/json.ts\<close> that hands each record to a callback.
\<close>

section \<open>Framing\<close>







section \<open>Records\<close>







section \<open>The streaming consumer\<close>



record codec_ids =
  invalidData :: jsstr
  readFailed :: jsstr
  cancelledId :: jsstr


primrec reason_text :: "reason \<Rightarrow> jsstr" where
  "reason_text Utf8 = ascii ''utf8''"
| "reason_text UnicodeScalar = ascii ''unicode_scalar''"
| "reason_text ByteRange = ascii ''byte_range''"
| "reason_text InvalidJson = ascii ''invalid_json''"
| "reason_text InvalidToml = ascii ''invalid_toml''"
| "reason_text InvalidYaml = ascii ''invalid_yaml''"
| "reason_text InvalidJson5 = ascii ''invalid_json5''"
| "reason_text DuplicateMember = ascii ''duplicate_member''"
| "reason_text MissingMember = ascii ''missing_member''"
| "reason_text ExtraMember = ascii ''extra_member''"
| "reason_text TypeReason = ascii ''type''"
| "reason_text IntegerToken = ascii ''integer_token''"
| "reason_text Nonfinite = ascii ''nonfinite''"
| "reason_text VariantTag = ascii ''variant_tag''"
| "reason_text Cycle = ascii ''cycle''"
| "reason_text DepthLimit = ascii ''depth_limit''"
| "reason_text NodeLimit = ascii ''node_limit''"
| "reason_text ByteLimit = ascii ''byte_limit''"
| "reason_text MediaType = ascii ''media_type''"
| "reason_text RowLimit = ascii ''row_limit''"
| "reason_text RowValueLimit = ascii ''row_value_limit''"
| "reason_text Charset = ascii ''charset''"

text \<open>
  An issue becomes the declared failure with its path and reason; any other exception passes
  on and is captured as a native failure by the call boundary around the operation.
\<close>

definition codec_failure :: "codec_ids \<Rightarrow> codec_exn \<Rightarrow> 'a completion" where
  "codec_failure ids e =
     (case e of
        Issue path r \<Rightarrow> Domain (invalidData ids) [(ascii ''path'', Str path), (ascii ''reason'', Str (reason_text r))]
      | Fault (TypeError m) \<Rightarrow> Standard NativeException (ascii (''TypeError: '' @ m))
      | Fault (ErrorExn m) \<Rightarrow> Standard NativeException (ascii (''Error: '' @ m)))"

definition run :: "codec_ids \<Rightarrow> 'a codec \<Rightarrow> 'a completion" where
  "run ids result = (case result of Inr v \<Rightarrow> Ok v | Inl e \<Rightarrow> codec_failure ids e)"






section \<open>Framing is splitting\<close>











section \<open>Streaming is decoding\<close>





lemma bindC_codec_failure [simp]: "bindC (codec_failure ids e) f = codec_failure ids e"
  by (auto simp: codec_failure_def split: codec_exn.splits js_exn.splits)

lemma codec_failure_not_Ok [simp]:
  "codec_failure ids e \<noteq> Ok v"
  "(case codec_failure ids e of Ok x \<Rightarrow> f x | Domain d p \<Rightarrow> g | Standard k m \<Rightarrow> g) = g"
  by (auto simp: codec_failure_def split: codec_exn.splits js_exn.splits)








end
