(* ===== verification/JsonValue.thy ===== *)
theory JsonValue
  imports Document
begin

text \<open>
  Dynamic JSON values (\<open>runtime/codec/value.ts\<close>): every JSON document as a Can value of eight
  nominal record types, decoded without a schema and encoded back under the same limits.
  Integer spellings stay exact; a double with an integral text is written with a fraction so
  that it is read back as a double.
\<close>

section \<open>Identities\<close>

datatype value_kind = KNull | KBool | KInt | KFloat | KString | KArray | KObject | KMember

text \<open>The entries of the identity table, in their enumeration order.\<close>

type_synonym JSONValueIds = "(value_kind \<times> jsstr) list"

definition id_of :: "JSONValueIds \<Rightarrow> value_kind \<Rightarrow> jsstr" where
  "id_of ids kind = (case map_of ids kind of Some ident \<Rightarrow> ident | None \<Rightarrow> [])"

text \<open>The inverse table; of two kinds with one identity the later one is kept.\<close>

definition kinds :: "JSONValueIds \<Rightarrow> jsstr \<Rightarrow> value_kind option" where
  "kinds ids = map_of (rev (map (\<lambda>(kind, ident). (ident, kind)) ids))"

text \<open>An optional minus sign and digits only.\<close>

definition integer_token :: "jsstr \<Rightarrow> bool" where
  "integer_token t =
     (let digits = (if t \<noteq> [] \<and> hd t = 45 then tl t else t)
      in digits \<noteq> [] \<and> list_all is_digit_unit digits)"

definition single :: "JSONValueIds \<Rightarrow> value_kind \<Rightarrow> string \<Rightarrow> cval \<Rightarrow> cval" where
  "single ids kind name v = VRec (id_of ids kind) [(ascii name, v)]"

definition member_record :: "JSONValueIds \<Rightarrow> jsstr \<Rightarrow> cval \<Rightarrow> cval" where
  "member_record ids name v = VRec (id_of ids KMember) [(ascii ''name'', VStr name), (ascii ''value'', v)]"

section \<open>Decoding\<close>

text \<open>Only the containers of the document consume depth.\<close>

fun wire_container :: "jtree \<Rightarrow> bool" where
  "wire_container (JArr items) = True"
| "wire_container (JObj members) = True"
| "wire_container JHost = True"
| "wire_container _ = False"

definition decode_number :: "JSONValueIds \<Rightarrow> jsnum \<Rightarrow> jsstr \<Rightarrow> jsstr \<Rightarrow> Budget \<Rightarrow> (cval \<times> Budget) codec" where
  "decode_number ids v token path b =
     (if integer_token token \<and> token \<noteq> ascii ''-0''
      then bindK (decodeInteger token path b) (\<lambda>(i, b). Inr (single ids KInt ''value'' (VInt i), b))
      else if \<not> isFinite v then Inl (Issue path Nonfinite)
      else Inr (single ids KFloat ''value'' (VFloat v), b))"

function (sequential) decode_visit :: "JSONValueIds \<Rightarrow> jtree \<Rightarrow> jsstr \<Rightarrow> int \<Rightarrow> Budget \<Rightarrow> (cval \<times> Budget) codec"
and decode_items :: "JSONValueIds \<Rightarrow> jtree list \<Rightarrow> int \<Rightarrow> jsstr \<Rightarrow> int \<Rightarrow> Budget \<Rightarrow> (cval list \<times> Budget) codec"
and decode_members ::
  "JSONValueIds \<Rightarrow> (jsstr \<times> jtree) list \<Rightarrow> jsstr \<Rightarrow> int \<Rightarrow> Budget \<Rightarrow> (cval list \<times> Budget) codec" where
  "decode_visit ids tree path depth b =
     bindK (visit (depth + (if wire_container tree then 1 else 0)) path b) (\<lambda>b.
     case tree of
       JNull \<Rightarrow> Inr (VRec (id_of ids KNull) [], b)
     | JBool x \<Rightarrow> Inr (single ids KBool ''value'' (VBool x), b)
     | JStr s \<Rightarrow> bindK (scalar_text s path) (\<lambda>_. Inr (single ids KString ''value'' (VStr s), b))
     | JNum v token \<Rightarrow> decode_number ids v token path b
     | JArr items \<Rightarrow>
         bindK (decode_items ids items 0 path depth b) (\<lambda>(vs, b). Inr (single ids KArray ''values'' (VArr vs), b))
     | JObj members \<Rightarrow>
         bindK (decode_members ids members path depth b) (\<lambda>(vs, b). Inr (single ids KObject ''members'' (VArr vs), b))
     | JHost \<Rightarrow> Inl (Issue path TypeReason))"
| "decode_items ids [] i path depth b = Inr ([], b)"
| "decode_items ids (item # items) i path depth b =
     bindK (decode_visit ids item (childPath path (int_string i)) (depth + 1) b) (\<lambda>(v, b).
     bindK (decode_items ids items (i + 1) path depth b) (\<lambda>(vs, b). Inr (v # vs, b)))"
| "decode_members ids [] path depth b = Inr ([], b)"
| "decode_members ids ((name, tree) # members) path depth b =
     bindK (scalar_text name (childPath path name)) (\<lambda>_.
     bindK (decode_visit ids tree (childPath path name) (depth + 1) b) (\<lambda>(v, b).
     bindK (decode_members ids members path depth b) (\<lambda>(vs, b). Inr (member_record ids name v # vs, b))))"
  by pat_completeness auto

termination
  by (relation "measure (case_sum (\<lambda>(_, t, _). size t)
        (case_sum (\<lambda>(_, ts, _). size_list size ts)
          (\<lambda>(_, ms, _). size_list (size_prod (\<lambda>_. 0) size) ms)))")
    auto

declare decode_visit.simps [simp del]

definition decodeJSONValue :: "octet list \<Rightarrow> JSONValueIds \<Rightarrow> int \<Rightarrow> cval codec" where
  "decodeJSONValue input ids limit =
     bindK (new_Budget limit) (\<lambda>b.
     bindK (parseDocument input limit) (\<lambda>parsed.
     bindK (decode_visit ids parsed [] 0 b) (\<lambda>(v, _). Inr v)))"

section \<open>Encoding\<close>

text \<open>
  The named fields of a record of the given kind; superfluous fields are reported first, in the
  order of the record.
\<close>

definition value_fields :: "JSONValueIds \<Rightarrow> cval \<Rightarrow> value_kind \<Rightarrow> jsstr list \<Rightarrow> jsstr \<Rightarrow> cval list codec" where
  "value_fields ids v kind names path =
     (case v of
        VRec ident fs \<Rightarrow>
          if ident \<noteq> id_of ids kind then Inl (Issue path TypeReason)
          else (case filter (\<lambda>key. key \<notin> set names) (map fst fs) of
              extra # _ \<Rightarrow> Inl (Issue (childPath path extra) ExtraMember)
            | [] \<Rightarrow> traverse (\<lambda>name. case map_of fs name of
                  Some x \<Rightarrow> Inr x | None \<Rightarrow> Inl (Issue path TypeReason)) names)
      | _ \<Rightarrow> Inl (Issue path TypeReason))"

text \<open>
  The own \<open>length\<close> of the items: an array has it, and so does a record with a field of that
  name; it must be a safe integer that is not negative.
\<close>

definition item_length :: "cval \<Rightarrow> jsstr \<Rightarrow> int codec" where
  "item_length items path =
     (case items of
        VArr xs \<Rightarrow> Inr (int (length xs))
      | VRec ident fs \<Rightarrow>
          (case map_of fs (ascii ''length'') of
             Some (VFloat NegZero) \<Rightarrow> Inr 0
           | Some (VFloat (Fin r)) \<Rightarrow>
               (case rat_integer r of
                  Some n \<Rightarrow> if safe_int n \<and> \<not> n < 0 then Inr n else Inl (Issue path TypeReason)
                | None \<Rightarrow> Inl (Issue path TypeReason))
           | _ \<Rightarrow> Inl (Issue path TypeReason))
      | _ \<Rightarrow> Inl (Issue path TypeReason))"

text \<open>A double is never spelled like an integer.\<close>

definition float_token :: "(jsnum \<Rightarrow> jsstr) \<Rightarrow> jsnum \<Rightarrow> jsstr" where
  "float_token nt x =
     (let token = float_text nt x
      in if integer_token token \<and> token \<noteq> ascii ''-0'' then token @ ascii ''.0'' else token)"

text \<open>A number on the wire is its spelling.\<close>

definition raw_number :: "jsstr \<Rightarrow> jtree" where
  "raw_number token = JNum (token_number token) token"

definition encode_scalar ::
  "(jsnum \<Rightarrow> jsstr) \<Rightarrow> value_kind \<Rightarrow> cval \<Rightarrow> jsstr \<Rightarrow> Budget \<Rightarrow> (jtree \<times> Budget) codec" where
  "encode_scalar nt kind item path b =
     (case kind of
        KBool \<Rightarrow> (case item of
            VBool x \<Rightarrow> bindK (charge (if x then 4 else 5) path b) (\<lambda>b. Inr (JBool x, b))
          | _ \<Rightarrow> Inl (Issue path TypeReason))
      | KString \<Rightarrow> (case item of
            VStr s \<Rightarrow> bindK (textCost s path b) (\<lambda>b. Inr (JStr s, b))
          | _ \<Rightarrow> Inl (Issue path TypeReason))
      | KInt \<Rightarrow> (case item of
            VInt i \<Rightarrow> bindK (encodeInteger i path b) (\<lambda>(token, b). Inr (raw_number token, b))
          | _ \<Rightarrow> Inl (Issue path TypeReason))
      | KFloat \<Rightarrow> (case item of
            VFloat x \<Rightarrow>
              if \<not> isFinite x then Inl (Issue path Nonfinite)
              else bindK (charge (int (length (float_token nt x))) path b) (\<lambda>b. Inr (raw_number (float_token nt x), b))
          | _ \<Rightarrow> Inl (Issue path TypeReason))
      | _ \<Rightarrow> Inl (Issue path VariantTag))"

lemma value_fields_size:
  "value_fields ids v kind names path = Inr items \<Longrightarrow> x \<in> set items \<Longrightarrow> size x < size v"
proof -
  assume *: "value_fields ids v kind names path = Inr items" "x \<in> set items"
  then obtain ident fs where v: "v = VRec ident fs" by (auto simp: value_fields_def split: cval.splits)
  have tr: "traverse (\<lambda>name. case map_of fs name of Some x \<Rightarrow> Inr x | None \<Rightarrow> Inl (Issue path TypeReason)) names = Inr items"
    using * v by (auto simp: value_fields_def split: if_splits list.splits)
  obtain name where "map_of fs name = Some x"
    using traverse_mem [OF tr *(2)] by (auto split: option.splits)
  then show ?thesis using size_field [of fs name x ident] v by simp
qed

function (sequential) encode_visit ::
  "(jsnum \<Rightarrow> jsstr) \<Rightarrow> JSONValueIds \<Rightarrow> cval \<Rightarrow> jsstr \<Rightarrow> int \<Rightarrow> Budget \<Rightarrow> (jtree \<times> Budget) codec"
and encode_items ::
  "(jsnum \<Rightarrow> jsstr) \<Rightarrow> JSONValueIds \<Rightarrow> cval list \<Rightarrow> int \<Rightarrow> jsstr \<Rightarrow> int \<Rightarrow> Budget \<Rightarrow> (jtree list \<times> Budget) codec"
and encode_members ::
  "(jsnum \<Rightarrow> jsstr) \<Rightarrow> JSONValueIds \<Rightarrow> cval list \<Rightarrow> jsstr list \<Rightarrow> jsstr \<Rightarrow> int \<Rightarrow> Budget
     \<Rightarrow> ((jsstr \<times> jtree) list \<times> Budget) codec" where
  "encode_visit nt ids v path depth b =
     (case kinds ids (case recordIdentity v of Some ident \<Rightarrow> ident | None \<Rightarrow> []) of
        None \<Rightarrow> Inl (Issue path TypeReason)
      | Some kind \<Rightarrow>
          bindK (visit (depth + (if kind = KArray \<or> kind = KObject then 1 else 0)) path b) (\<lambda>b.
          if kind = KNull then
            bindK (value_fields ids v kind [] path) (\<lambda>_. bindK (charge 4 path b) (\<lambda>b. Inr (JNull, b)))
          else if \<not> (kind = KArray \<or> kind = KObject) then
            bindK (value_fields ids v kind [ascii ''value''] path) (\<lambda>fs. encode_scalar nt kind (hd fs) path b)
          else
            bindK (value_fields ids v kind [if kind = KArray then ascii ''values'' else ascii ''members''] path) (\<lambda>fs.
            case fs of
              [] \<Rightarrow> Inl (Issue path TypeReason)
            | items # _ \<Rightarrow>
                bindK (item_length items path) (\<lambda>n.
                bindK (charge (2 + max 0 (n - 1) + (if kind = KObject then n else 0)) path b) (\<lambda>b.
                case items of
                  VArr entries \<Rightarrow>
                    if kind = KArray
                    then bindK (encode_items nt ids entries 0 path depth b) (\<lambda>(ts, b). Inr (JArr ts, b))
                    else bindK (encode_members nt ids entries [] path depth b) (\<lambda>(ms, b).
                         Inr (JObj (own_members ms), b))
                | _ \<Rightarrow> Inl (Issue path TypeReason))))))"
| "encode_items nt ids [] i path depth b = Inr ([], b)"
| "encode_items nt ids (item # items) i path depth b =
     bindK (encode_visit nt ids item (childPath path (int_string i)) (depth + 1) b) (\<lambda>(t, b).
     bindK (encode_items nt ids items (i + 1) path depth b) (\<lambda>(ts, b). Inr (t # ts, b)))"
| "encode_members nt ids [] seen path depth b = Inr ([], b)"
| "encode_members nt ids (entry # entries) seen path depth b =
     bindK (value_fields ids entry KMember [ascii ''name'', ascii ''value''] path) (\<lambda>fs.
     case fs of
       [VStr name, child] \<Rightarrow>
         if name \<in> set seen then Inl (Issue (childPath path name) DuplicateMember)
         else
           bindK (textCost name (childPath path name) b) (\<lambda>b.
           bindK (encode_visit nt ids child (childPath path name) (depth + 1) b) (\<lambda>(t, b).
           bindK (encode_members nt ids entries (name # seen) path depth b) (\<lambda>(ms, b). Inr ((name, t) # ms, b))))
     | _ \<Rightarrow> Inl (Issue path TypeReason))"
  by pat_completeness auto

termination
  by (relation "measure (case_sum (\<lambda>(_, _, v, _). size v)
        (case_sum (\<lambda>(_, _, vs, _). size_list size vs) (\<lambda>(_, _, vs, _). size_list size vs)))")
    (auto dest: value_fields_size)

declare encode_visit.simps [simp del]

text \<open>\<open>JSON.stringify\<close> of the projected tree; spellings of numbers are copied verbatim.\<close>

fun stringify :: "jtree \<Rightarrow> jsstr" where
  "stringify JNull = ascii ''null''"
| "stringify (JBool x) = (if x then ascii ''true'' else ascii ''false'')"
| "stringify (JNum v token) = token"
| "stringify (JStr s) = json_string s"
| "stringify (JArr ts) = [91] @ join_texts (map stringify ts) @ [93]"
| "stringify (JObj ms) = [123] @ join_texts (map (\<lambda>(name, t). member_text name (stringify t)) ms) @ [125]"
| "stringify JHost = ascii ''null''"

definition encodeJSONValue :: "(jsnum \<Rightarrow> jsstr) \<Rightarrow> cval \<Rightarrow> JSONValueIds \<Rightarrow> int \<Rightarrow> octet list codec" where
  "encodeJSONValue nt input ids limit =
     bindK (new_Budget limit) (\<lambda>b.
     bindK (encode_visit nt ids input [] 0 b) (\<lambda>(tree, b).
     let encoded = utf8_text (stringify tree) in
     if int (length encoded) \<noteq> limit - remaining b
     then type_fault ''codec preflight/formatter length mismatch''
     else Inr (map word_of_int encoded)))"

end
