(* ===== verification/JsonValueProps.thy ===== *)
theory JsonValueProps
  imports JsonValue
begin

text \<open>
  Properties of dynamic JSON values: the encoder charges exactly the text it writes, and decoding
  the text gives the value back, with the members of every object in the order in which the
  language enumerates properties. The budgets of the two directions see the members in
  different orders, so the limits are stated of the tree.
\<close>

section \<open>Members in enumeration order\<close>

lemma mset_own_members: "distinct (map fst ms) \<Longrightarrow> mset (own_members ms) = mset ms"
  by (simp add: own_members_distinct)

lemma set_own_members: "distinct (map fst ms) \<Longrightarrow> set (own_members ms) = set ms"
  by (rule mset_eq_setD [OF mset_own_members])

lemma length_own_members: "distinct (map fst ms) \<Longrightarrow> length (own_members ms) = length ms"
  by (rule mset_eq_length [OF mset_own_members])

lemma distinct_own_members: "distinct (map fst ms) \<Longrightarrow> distinct (map fst (own_members ms))"
  by (metis mset_map mset_own_members mset_eq_imp_distinct_iff)

lemma own_members_own: "distinct (map fst ms) \<Longrightarrow> own_members (own_members ms) = own_members ms"
proof -
  assume d: "distinct (map fst ms)"
  have "filter (\<lambda>p. array_index (fst p)) (filter (\<lambda>p. \<not> array_index (fst p)) ms) = []"
    "filter (\<lambda>p. \<not> array_index (fst p)) (sort_key f (filter (\<lambda>p. array_index (fst p)) ms)) = []"
    for f :: "_ \<Rightarrow> int" by (simp_all add: filter_empty_conv)
  then show ?thesis
    unfolding own_members_distinct [OF distinct_own_members [OF d]] unfolding own_members_distinct [OF d]
    by (simp add: filter_sort comp_def sort_key_id_if_sorted)
qed

lemma sum_own_members:
  "distinct (map fst ms) \<Longrightarrow> sum_list (map f (own_members ms)) = (sum_list (map f ms) :: int)"
  by (metis mset_map mset_own_members sum_mset_sum_list)

lemma insort_key_map: "map g (insort_key (\<lambda>x. f (g x)) x xs) = insort_key f (g x) (map g xs)"
  by (induction xs) auto

lemma sort_key_map: "sort_key f (map g xs) = map g (sort_key (\<lambda>x. f (g x)) xs)"
  by (induction xs) (auto simp: insort_key_map)

lemma own_members_map:
  "distinct (map fst ms) \<Longrightarrow> own_members (map (\<lambda>p. (fst p, h p)) ms) = map (\<lambda>p. (fst p, h p)) (own_members ms)"
  by (simp add: own_members_distinct comp_def filter_map sort_key_map)

section \<open>Numbers\<close>

lemma bigint_int_string: "bigint_of_text (int_string i) = i"
  by (cases "i < 0") (simp_all add: bigint_of_text_def strip_sign_nonneg strip_sign_neg units_value_int_string)

lemma integer_token_int_string: "integer_token (int_string i)" "int_string i \<noteq> ascii ''-0''"
proof -
  have d: "list_all is_digit_unit (int_string \<bar>i\<bar>)" "int_string \<bar>i\<bar> \<noteq> []"
    using list_all_digit_int_string [of "\<bar>i\<bar>"] by auto
  show "integer_token (int_string i)"
  proof (cases "i < 0")
    case True
    then have "int_string i = 45 # int_string \<bar>i\<bar>" by (simp add: int_string_def ascii_def unit_of_char_def)
    then show ?thesis using d by (simp add: integer_token_def)
  next
    case False
    then obtain u us where u: "int_string i = u # us" "list_all is_digit_unit (u # us)"
      using d by (cases "int_string i") auto
    then have "u \<noteq> 45" by (auto simp: is_digit_unit_def in_range_def)
    then show ?thesis using u by (simp add: integer_token_def)
  qed
  show "int_string i \<noteq> ascii ''-0''"
  proof
    assume "int_string i = ascii ''-0''"
    moreover have "bigint_of_text (ascii ''-0'') = 0" by code_simp
    ultimately have "i = 0" using bigint_int_string [of i] by simp
    moreover have "int_string 0 \<noteq> ascii ''-0''" by code_simp
    ultimately show False using \<open>int_string i = ascii ''-0''\<close> by simp
  qed
qed

text \<open>A fraction of zero does not change what a token denotes.\<close>

lemma token_fraction:
  assumes "integer_token t" and "json_number t"
  shows "json_number (t @ ascii ''.0'')" "token_number (t @ ascii ''.0'') = token_number t"
    "\<not> integer_token (t @ ascii ''.0'')" "list_all number_unit (t @ ascii ''.0'')"
proof -
  define s where "s = snd (strip_sign t)"
  have s: "strip_sign t = (hd t = 45, s)" "s \<noteq> []" "list_all is_digit_unit s" "t \<noteq> []"
    using assms(1) by (auto simp: integer_token_def s_def strip_sign_def Let_def split: list.splits if_splits)
  have ss: "strip_sign (t @ ascii ''.0'') = (hd t = 45, s @ ascii ''.0'')"
    using s by (cases t) (auto simp: strip_sign_def split: if_splits)
  have parts: "numeric_parts t = Some (hd t = 45, s, [], None)"
  proof -
    have "takeWhile is_digit_unit s = s" "dropWhile is_digit_unit s = []" using s(3) by (simp_all add: list_all_iff)
    then show ?thesis using s(1,2) unfolding numeric_parts_def by (simp add: Let_def del: takeWhile_eq_all_conv)
  qed
  have "takeWhile is_digit_unit (s @ [46, 48]) = s" "dropWhile is_digit_unit (s @ [46, 48]) = [46, 48]"
    using s(3) by (auto simp: list_all_iff takeWhile_append dropWhile_append is_digit_unit_def in_range_def)
  then have parts': "numeric_parts (t @ ascii ''.0'') = Some (hd t = 45, s, [48], None)"
    using s(2) ss by (simp add: numeric_parts_def Let_def ascii_def unit_of_char_def is_digit_unit_def in_range_def)
  show "json_number (t @ ascii ''.0'')" using assms(2) parts parts' by (simp add: json_number_def)
  have "exponent_part [48] = Some 0"
    by (simp add: exponent_part_def is_digit_unit_def in_range_def units_value_def)
  moreover have "units_value [48] = 0" using units_value_zeros [of 1] by simp
  ultimately have "numeric_value (hd t = 45, s, [48], None) = numeric_value (hd t = 45, s, [], None)"
    by (simp add: numeric_value_def units_value_append power_int_minus)
  then show "token_number (t @ ascii ''.0'') = token_number t" by (simp add: token_number_def parts parts')
  show "\<not> integer_token (t @ ascii ''.0'')"
    using s(4) by (cases t) (auto simp: integer_token_def Let_def ascii_def unit_of_char_def is_digit_unit_def in_range_def)
  show "list_all number_unit (t @ ascii ''.0'')"
    using s by (cases t) (auto simp: strip_sign_def number_unit_def ascii_def unit_of_char_def list_all_iff
        is_digit_unit_def in_range_def split: if_splits)
qed

section \<open>Trees on the wire\<close>

definition spells_integer :: "jsstr \<Rightarrow> bool" where
  "spells_integer token \<longleftrightarrow> integer_token token \<and> token \<noteq> ascii ''-0''"

text \<open>
  What the encoder writes: well-formed texts, distinct names in enumeration order, integers in
  canonical spelling and finite doubles.
\<close>

definition wire_number :: "jsnum \<Rightarrow> jsstr \<Rightarrow> bool" where
  "wire_number v token \<longleftrightarrow> v = token_number token \<and> json_number token \<and> list_all number_unit token
     \<and> (if spells_integer token then token = int_string (bigint_of_text token) else isFinite v)"

fun wire :: "jtree \<Rightarrow> bool" where
  "wire (JNum v token) = wire_number v token"
| "wire (JStr s) = (scalar_text s [] = Inr ())"
| "wire (JArr ts) = list_all wire ts"
| "wire (JObj ms) = (distinct (map fst ms) \<and> own_members ms = ms
     \<and> list_all (\<lambda>(name, t). scalar_text name [] = Inr () \<and> wire t) ms)"
| "wire JHost = False"
| "wire _ = True"

fun tree_nodes :: "jtree \<Rightarrow> int" where
  "tree_nodes (JArr ts) = 1 + sum_list (map tree_nodes ts)"
| "tree_nodes (JObj ms) = 1 + sum_list (map (\<lambda>(name, t). tree_nodes t) ms)"
| "tree_nodes _ = 1"

text \<open>The tree stays within the depth limit when it stands below \<open>depth\<close> containers.\<close>

fun fits :: "int \<Rightarrow> jtree \<Rightarrow> bool" where
  "fits depth (JArr ts) = (depth + 1 \<le> maxDepth \<and> list_all (fits (depth + 1)) ts)"
| "fits depth (JObj ms) = (depth + 1 \<le> maxDepth \<and> list_all (\<lambda>(name, t). fits (depth + 1) t) ms)"
| "fits depth _ = (depth \<le> maxDepth)"

text \<open>The bytes of the integers, which the decoder charges.\<close>

fun integer_bytes :: "jtree \<Rightarrow> int" where
  "integer_bytes (JNum v token) = (if spells_integer token then int (length token) else 0)"
| "integer_bytes (JArr ts) = sum_list (map integer_bytes ts)"
| "integer_bytes (JObj ms) = sum_list (map (\<lambda>(name, t). integer_bytes t) ms)"
| "integer_bytes _ = 0"

text \<open>The value a tree stands for.\<close>

fun read_value :: "JSONValueIds \<Rightarrow> jtree \<Rightarrow> cval" where
  "read_value ids JNull = VRec (id_of ids KNull) []"
| "read_value ids (JBool x) = single ids KBool ''value'' (VBool x)"
| "read_value ids (JStr s) = single ids KString ''value'' (VStr s)"
| "read_value ids (JNum v token) =
     (if spells_integer token then single ids KInt ''value'' (VInt (bigint_of_text token))
      else single ids KFloat ''value'' (VFloat v))"
| "read_value ids (JArr ts) = single ids KArray ''values'' (VArr (map (read_value ids) ts))"
| "read_value ids (JObj ms) =
     single ids KObject ''members'' (VArr (map (\<lambda>(name, t). member_record ids name (read_value ids t)) ms))"
| "read_value ids JHost = VHost"

lemma tree_nodes_pos: "1 \<le> tree_nodes t"
proof (induction t)
  case (JArr ts)
  then have "0 \<le> sum_list (map tree_nodes ts)" by (intro sum_list_nonneg) fastforce
  then show ?case by simp
next
  case (JObj ms)
  then have "0 \<le> sum_list (map (\<lambda>(name, t). tree_nodes t) ms)" by (intro sum_list_nonneg) fastforce
  then show ?case by simp
qed simp_all

lemma sum_tree_nodes_nonneg: "0 \<le> sum_list (map tree_nodes ts)"
  using tree_nodes_pos by (intro sum_list_nonneg) (fastforce intro: order_trans [of 0 1])

lemma integer_bytes_nonneg: "0 \<le> integer_bytes t"
  by (induction t) (fastforce intro!: sum_list_nonneg)+

lemma split_members: "map (\<lambda>(name, t). f t) ms = map f (map snd ms)"
  by (simp add: case_prod_unfold)

section \<open>Reading a wire tree\<close>

lemma stringify_object:
  "stringify (JObj ms) = [123] @ join_texts (map (\<lambda>(n, t). member_text n t) (map (\<lambda>(n, t). (n, stringify t)) ms)) @ [125]"
  by (simp add: case_prod_unfold comp_def)

lemma snd_mem: "snd p \<in> Basic_BNFs.snds p"
  by (cases p) simp

lemma wire_parses: "wire t \<Longrightarrow> parses (stringify t) t"
proof (induction t)
  case (JArr ts)
  then have "list_all2 parses (map stringify ts) ts"
    by (auto simp: list_all2_conv_all_nth list_all_length)
  then show ?case using parses_array by simp
next
  case (JObj ms)
  have "list_all2 (\<lambda>(n, t) (n', tree). n = n' \<and> parses t tree) (map (\<lambda>(n, t). (n, stringify t)) ms) ms"
    using JObj.prems by (auto simp: list_all2_conv_all_nth list_all_length split_beta intro: JObj.IH [OF nth_mem snd_mem])
  then show ?case using JObj.prems unfolding stringify_object by (intro parses_object) auto
next
  case (JNum v token)
  then show ?case using parses_number [of token] by (simp add: wire_number_def)
qed (use parses_literals parses_string in auto)

lemma scans_leaf:
  assumes "depth \<le> maxDepth" and "n + 1 \<le> maxNodes"
  shows "scans (json_string s) depth n (n + 1)"
    and "t \<noteq> [] \<Longrightarrow> list_all run_unit t \<Longrightarrow> scans t depth n (n + 1)"
proof -
  let ?b = "\<lparr>bytes = 0, remaining = 0, nodes = n\<rparr>"
  have "visit depth [] ?b = Inr (?b\<lparr>nodes := n + 1\<rparr>)" using assms by (simp add: visit_def)
  from scans_string [OF this] scans_run [OF this]
  show "scans (json_string s) depth n (n + 1)"
    "t \<noteq> [] \<Longrightarrow> list_all run_unit t \<Longrightarrow> scans t depth n (n + 1)" by simp_all
qed

lemma scans_all_trees:
  assumes "\<And>t n. t \<in> set ts \<Longrightarrow> n + tree_nodes t \<le> maxNodes \<Longrightarrow> scans (stringify t) depth n (n + tree_nodes t)"
    and "n + sum_list (map tree_nodes ts) \<le> maxNodes"
  shows "scans_all (map stringify ts) depth n (n + sum_list (map tree_nodes ts))"
  using assms
proof (induction ts arbitrary: n)
  case (Cons t ts)
  have "0 \<le> sum_list (map tree_nodes ts)" by (rule sum_tree_nodes_nonneg)
  then have "scans (stringify t) depth n (n + tree_nodes t)" using Cons.prems by simp
  moreover have "scans_all (map stringify ts) depth (n + tree_nodes t) (n + tree_nodes t + sum_list (map tree_nodes ts))"
    using Cons.prems by (intro Cons.IH) (auto simp: algebra_simps)
  ultimately show ?case by (auto simp: algebra_simps)
qed simp

lemma wire_scans:
  "wire t \<Longrightarrow> fits depth t \<Longrightarrow> n + tree_nodes t \<le> maxNodes \<Longrightarrow> scans (stringify t) depth n (n + tree_nodes t)"
proof (induction t arbitrary: depth n)
  case (JArr ts)
  let ?b = "\<lparr>bytes = 0, remaining = 0, nodes = n\<rparr>"
  have nn: "0 \<le> sum_list (map tree_nodes ts)" by (rule sum_tree_nodes_nonneg)
  have v: "visit (depth + 1) [] ?b = Inr (?b\<lparr>nodes := n + 1\<rparr>)" using JArr.prems nn by (simp add: visit_def)
  have "scans_all (map stringify ts) (depth + 1) (n + 1) (n + 1 + sum_list (map tree_nodes ts))"
    using JArr.prems by (intro scans_all_trees JArr.IH) (auto simp: list_all_iff)
  then show ?case using scans_array [OF v] by (simp add: algebra_simps)
next
  case (JObj ms)
  let ?b = "\<lparr>bytes = 0, remaining = 0, nodes = n\<rparr>" and ?ts = "map snd ms"
  have nn: "0 \<le> sum_list (map tree_nodes ?ts)" by (rule sum_tree_nodes_nonneg)
  have v: "visit (depth + 1) [] ?b = Inr (?b\<lparr>nodes := n + 1\<rparr>)"
    using JObj.prems nn by (simp add: visit_def case_prod_unfold comp_def)
  have "scans_all (map stringify ?ts) (depth + 1) (n + 1) (n + 1 + sum_list (map tree_nodes ?ts))"
    using JObj.prems by (intro scans_all_trees) (auto simp: list_all_iff case_prod_unfold comp_def intro!: JObj.IH [OF _ snd_mem])
  then have "scans_all (map snd (map (\<lambda>(n, t). (n, stringify t)) ms)) (depth + 1) (n + 1) (n + tree_nodes (JObj ms))"
    by (simp add: case_prod_unfold comp_def algebra_simps)
  then have "scans (stringify (JObj ms)) depth (nodes ?b) (n + tree_nodes (JObj ms))"
    unfolding stringify_object using JObj.prems(1)
    by (intro scans_object [OF v]) (simp_all add: case_prod_unfold comp_def)
  then show ?case by simp
next
  case (JNum v token)
  then have "token \<noteq> []" "list_all run_unit token"
    using json_number_hd [of token] number_unit_run [of token] by (auto simp: wire_number_def)
  then show ?case using scans_leaf(2) [of depth n token] JNum.prems by simp
qed (use scans_leaf in \<open>auto simp: ascii_def unit_of_char_def run_unit_def whitespace_def delimiter_def\<close>)

section \<open>Decoding a wire tree\<close>

definition read_off :: "int \<Rightarrow> int \<Rightarrow> Budget \<Rightarrow> Budget" where
  "read_off spent seen b = b\<lparr>remaining := remaining b - spent, nodes := nodes b + seen\<rparr>"

lemma read_off_simps [simp]:
  "remaining (read_off x n b) = remaining b - x" "nodes (read_off x n b) = nodes b + n" "bytes (read_off x n b) = bytes b"
  "read_off y m (read_off x n b) = read_off (x + y) (n + m) b" "read_off 0 0 b = b"
  by (simp_all add: read_off_def algebra_simps)

definition room :: "int \<Rightarrow> int \<Rightarrow> Budget \<Rightarrow> bool" where
  "room spent seen b \<longleftrightarrow> budget_ok b \<and> spent \<le> remaining b \<and> nodes b + seen \<le> maxNodes"

lemma room_read_off: "room (x + y) (n + m) b \<Longrightarrow> 0 \<le> x \<Longrightarrow> 0 \<le> y \<Longrightarrow> room y m (read_off x n b)"
  by (simp add: room_def budget_ok_def)

lemma room_mono: "room x n b \<Longrightarrow> y \<le> x \<Longrightarrow> m \<le> n \<Longrightarrow> room y m b"
  by (simp add: room_def)

lemma visit_room: "room 0 1 b \<Longrightarrow> d \<le> maxDepth \<Longrightarrow> visit d path b = Inr (read_off 0 1 b)"
  by (simp add: visit_def room_def read_off_def)

lemma scalar_text_path: "scalar_text s [] = Inr () \<Longrightarrow> scalar_text s path = Inr ()"
  by (simp add: scalar_text_def split: if_splits)

lemma decode_number_wire:
  assumes "wire_number v token" and "room (integer_bytes (JNum v token)) 0 b"
  shows "decode_number ids v token path b = Inr (read_value ids (JNum v token), read_off (integer_bytes (JNum v token)) 0 b)"
proof (cases "spells_integer token")
  case True
  then have t: "token = int_string (bigint_of_text token)" using assms(1) by (simp add: wire_number_def)
  have "decodeInteger token path b = Inr (bigint_of_text token, b\<lparr>remaining := remaining b - int (length token)\<rparr>)"
    using decodeInteger_int_string [of b "bigint_of_text token" path] assms(2) True by (simp add: room_def flip: t)
  then show ?thesis using True by (simp add: decode_number_def spells_integer_def read_off_def)
next
  case False
  then show ?thesis using assms(1) by (auto simp: decode_number_def spells_integer_def wire_number_def)
qed

lemma decode_wire:
  "wire t \<Longrightarrow> fits depth t \<Longrightarrow> room (integer_bytes t) (tree_nodes t) b
    \<Longrightarrow> decode_visit ids t path depth b = Inr (read_value ids t, read_off (integer_bytes t) (tree_nodes t) b)"
  "list_all wire ts \<Longrightarrow> list_all (fits (depth + 1)) ts \<Longrightarrow> room (sum_list (map integer_bytes ts)) (sum_list (map tree_nodes ts)) b
    \<Longrightarrow> decode_items ids ts i path depth b
      = Inr (map (read_value ids) ts, read_off (sum_list (map integer_bytes ts)) (sum_list (map tree_nodes ts)) b)"
  "list_all (\<lambda>(name, t). scalar_text name [] = Inr () \<and> wire t) ms \<Longrightarrow> list_all (\<lambda>(name, t). fits (depth + 1) t) ms
    \<Longrightarrow> room (integer_bytes (JObj ms)) (tree_nodes (JObj ms) - 1) b
    \<Longrightarrow> decode_members ids ms path depth b
      = Inr (map (\<lambda>(name, t). member_record ids name (read_value ids t)) ms,
             read_off (integer_bytes (JObj ms)) (tree_nodes (JObj ms) - 1) b)"
proof (induction ids t path depth b and ids ts i path depth b and ids ms path depth b
    rule: decode_visit_decode_items_decode_members.induct)
  case (1 ids tree path depth b)
  have pos: "0 \<le> integer_bytes tree" "1 \<le> tree_nodes tree" by (rule integer_bytes_nonneg tree_nodes_pos)+
  have d: "depth + (if wire_container tree then 1 else 0) \<le> maxDepth" using "1.prems"(1,2) by (cases tree) auto
  have v: "visit (depth + (if wire_container tree then 1 else 0)) path b = Inr (read_off 0 1 b)"
    using visit_room [OF room_mono [OF "1.prems"(3)] d] pos by simp
  have r: "room (integer_bytes tree) (tree_nodes tree - 1) (read_off 0 1 b)"
    using "1.prems"(3) pos by (intro room_read_off) simp_all
  show ?case
  proof (cases tree)
    case (JNum x token)
    then show ?thesis
      using v decode_number_wire [of x token "read_off 0 1 b" ids path] r "1.prems"(1)
      by (subst decode_visit.simps) simp
  next
    case (JArr ts)
    then show ?thesis
      using v r "1.prems"(1,2) "1.IH"(1) [OF v JArr] by (subst decode_visit.simps) simp
  next
    case (JObj ms)
    then show ?thesis
      using v r "1.prems"(1,2) "1.IH"(2) [OF v JObj] by (subst decode_visit.simps) simp
  qed (use v "1.prems"(1) in \<open>(subst decode_visit.simps, simp add: scalar_text_path)+\<close>)
next
  case (3 ids t ts i path depth b)
  have pos: "0 \<le> integer_bytes t" "0 \<le> sum_list (map integer_bytes ts)" "0 \<le> sum_list (map tree_nodes ts)"
    using integer_bytes_nonneg by (auto intro!: sum_list_nonneg sum_tree_nodes_nonneg)
  have r: "room (integer_bytes t) (tree_nodes t) b"
    "room (sum_list (map integer_bytes ts)) (sum_list (map tree_nodes ts)) (read_off (integer_bytes t) (tree_nodes t) b)"
    using "3.prems"(3) pos by (auto intro: room_mono room_read_off)
  show ?case using "3.IH"(1) [OF _ _ r(1)] "3.IH"(2) [OF _ refl _ _ r(2)] "3.prems"(1,2) by simp
next
  case (5 ids name t ms path depth b)
  have pos: "0 \<le> integer_bytes t" "0 \<le> integer_bytes (JObj ms)" "1 \<le> tree_nodes (JObj ms)"
    by (rule integer_bytes_nonneg tree_nodes_pos)+
  have r: "room (integer_bytes t) (tree_nodes t) b"
    "room (integer_bytes (JObj ms)) (tree_nodes (JObj ms) - 1) (read_off (integer_bytes t) (tree_nodes t) b)"
    using "5.prems"(3) pos by (auto intro: room_mono room_read_off)
  have s: "scalar_text name (childPath path name) = Inr ()" using "5.prems"(1) scalar_text_path by simp
  show ?case using "5.IH"(1) [OF s _ _ r(1)] "5.IH"(2) [OF s _ refl _ _ r(2)] "5.prems"(1,2) s by simp
qed simp_all

section \<open>Accepted values\<close>

text \<open>The table of identities is one to one.\<close>

definition ids_ok :: "JSONValueIds \<Rightarrow> bool" where
  "ids_ok ids \<longleftrightarrow> list_all (\<lambda>kind. kinds ids (id_of ids kind) = Some kind)
     [KNull, KBool, KInt, KFloat, KString, KArray, KObject, KMember]"

lemma kinds_id_of: "ids_ok ids \<Longrightarrow> kinds ids (id_of ids kind) = Some kind"
  by (cases kind) (simp_all add: ids_ok_def)

lemma value_fields_shape:
  assumes "value_fields ids v kind names path = Inr xs"
  shows "\<exists>fs. v = VRec (id_of ids kind) fs \<and> set (map fst fs) \<subseteq> set names \<and> map (map_of fs) names = map Some xs"
proof -
  obtain fs where v: "v = VRec (id_of ids kind) fs" "filter (\<lambda>key. key \<notin> set names) (map fst fs) = []"
    "traverse (\<lambda>name. case map_of fs name of Some x \<Rightarrow> Inr x | None \<Rightarrow> Inl (Issue path TypeReason)) names = Inr xs"
    using assms by (auto simp: value_fields_def split: cval.splits if_splits list.splits)
  have "map (map_of fs) names = map Some xs"
    using v(3) by (induction names arbitrary: xs) (auto simp: bindK_Inr_conv split: option.splits)
  then show ?thesis using v(1,2) by (auto simp: filter_empty_conv)
qed

text \<open>The runs of the encoder that end with a tree.\<close>

inductive encodes :: "(jsnum \<Rightarrow> jsstr) \<Rightarrow> JSONValueIds \<Rightarrow> cval \<Rightarrow> int \<Rightarrow> Budget \<Rightarrow> jtree \<Rightarrow> Budget \<Rightarrow> bool"
and encodes_items ::
  "(jsnum \<Rightarrow> jsstr) \<Rightarrow> JSONValueIds \<Rightarrow> cval list \<Rightarrow> int \<Rightarrow> Budget \<Rightarrow> jtree list \<Rightarrow> Budget \<Rightarrow> bool"
and encodes_members ::
  "(jsnum \<Rightarrow> jsstr) \<Rightarrow> JSONValueIds \<Rightarrow> cval list \<Rightarrow> jsstr list \<Rightarrow> int \<Rightarrow> Budget \<Rightarrow> (jsstr \<times> jtree) list \<Rightarrow> Budget \<Rightarrow> bool"
for nt ids where
  EncNull: "visit depth path b = Inr b0 \<Longrightarrow> charge 4 path b0 = Inr b'
    \<Longrightarrow> encodes nt ids (VRec (id_of ids KNull) []) depth b JNull b'"
| EncScalar: "visit depth path b = Inr b0 \<Longrightarrow> map_of fs (ascii ''value'') = Some x
    \<Longrightarrow> encode_scalar nt kind x path b0 = Inr (t, b') \<Longrightarrow> encodes nt ids (VRec (id_of ids kind) fs) depth b t b'"
| EncArray: "visit (depth + 1) path b = Inr b0 \<Longrightarrow> map_of fs (ascii ''values'') = Some (VArr items)
    \<Longrightarrow> charge (2 + max 0 (int (length items) - 1)) path b0 = Inr b1
    \<Longrightarrow> encodes_items nt ids items (depth + 1) b1 ts b'
    \<Longrightarrow> encodes nt ids (VRec (id_of ids KArray) fs) depth b (JArr ts) b'"
| EncObject: "visit (depth + 1) path b = Inr b0 \<Longrightarrow> map_of fs (ascii ''members'') = Some (VArr items)
    \<Longrightarrow> charge (2 + max 0 (int (length items) - 1) + int (length items)) path b0 = Inr b1
    \<Longrightarrow> encodes_members nt ids items [] (depth + 1) b1 ms b'
    \<Longrightarrow> encodes nt ids (VRec (id_of ids KObject) fs) depth b (JObj (own_members ms)) b'"
| EncNoItem: "encodes_items nt ids [] depth b [] b"
| EncItem: "encodes nt ids v depth b t b1 \<Longrightarrow> encodes_items nt ids vs depth b1 ts b'
    \<Longrightarrow> encodes_items nt ids (v # vs) depth b (t # ts) b'"
| EncNoMember: "encodes_members nt ids [] seen depth b [] b"
| EncMember: "map_of fs (ascii ''name'') = Some (VStr name) \<Longrightarrow> map_of fs (ascii ''value'') = Some v
    \<Longrightarrow> name \<notin> set seen \<Longrightarrow> textCost name path b = Inr b0 \<Longrightarrow> encodes nt ids v depth b0 t b1
    \<Longrightarrow> encodes_members nt ids vs (name # seen) depth b1 ms b'
    \<Longrightarrow> encodes_members nt ids (VRec (id_of ids KMember) fs # vs) seen depth b ((name, t) # ms) b'"

lemma encode_encodes:
  "encode_visit nt ids v path depth b = Inr (t, b') \<Longrightarrow> encodes nt ids v depth b t b'"
  "encode_items nt ids vs i path depth b = Inr (ts, b') \<Longrightarrow> encodes_items nt ids vs (depth + 1) b ts b'"
  "encode_members nt ids vs seen path depth b = Inr (ms, b') \<Longrightarrow> encodes_members nt ids vs seen (depth + 1) b ms b'"
proof (induction nt ids v path depth b and nt ids vs i path depth b and nt ids vs seen path depth b
    arbitrary: t b' and ts b' and ms b' rule: encode_visit_encode_items_encode_members.induct)
  case (1 nt ids v path depth b)
  obtain kind where k: "kinds ids (case recordIdentity v of Some ident \<Rightarrow> ident | None \<Rightarrow> []) = Some kind"
    using "1.prems" by (subst (asm) encode_visit.simps) (auto split: option.splits)
  obtain b0 where b0: "visit (depth + (if kind = KArray \<or> kind = KObject then 1 else 0)) path b = Inr b0"
    using "1.prems" by (subst (asm) encode_visit.simps) (auto simp: k bindK_Inr_conv)
  note unf = "1.prems" [unfolded encode_visit.simps [of nt ids v] k option.case b0 bindK_simps]
  show ?case
  proof (cases "kind = KArray \<or> kind = KObject")
    case False
    show ?thesis
    proof (cases "kind = KNull")
      case True
      then show ?thesis
        using unf b0 by (auto simp: bindK_Inr_conv dest!: value_fields_shape intro: EncNull)
    next
      case nn: False
      obtain xs where "value_fields ids v kind [ascii ''value''] path = Inr xs" "encode_scalar nt kind (hd xs) path b0 = Inr (t, b')"
        using unf False nn by (auto simp: bindK_Inr_conv)
      moreover obtain fs x where "v = VRec (id_of ids kind) fs" "map_of fs (ascii ''value'') = Some x" "xs = [x]"
        using value_fields_shape [OF calculation(1)] by (cases xs) auto
      ultimately show ?thesis using b0 False by (auto intro: EncScalar)
    qed
  next
    case True
    let ?name = "if kind = KArray then ascii ''values'' else ascii ''members''"
    obtain xs where xs: "value_fields ids v kind [?name] path = Inr xs"
      using unf True by (auto simp: bindK_Inr_conv)
    obtain fs x where v: "v = VRec (id_of ids kind) fs" "map_of fs ?name = Some x" "xs = [x]"
      using value_fields_shape [OF xs] by (cases xs) auto
    obtain items b1 where x: "x = VArr items"
      "charge (2 + max 0 (int (length items) - 1) + (if kind = KObject then int (length items) else 0)) path b0 = Inr b1"
      using unf True xs v(3) by (auto simp: bindK_Inr_conv item_length_def split: cval.splits)
    show ?thesis
    proof (cases "kind = KArray")
      case True
      then obtain ts where "t = JArr ts" "encode_items nt ids items 0 path depth b1 = Inr (ts, b')"
        using unf xs v(3) x by (auto simp: bindK_Inr_conv item_length_def)
      then show ?thesis
        using EncArray [of depth path b b0 fs items] b0 True v x
          "1.IH"(1) [OF k b0 _ _ xs v(3) _ x(2)] by (simp add: item_length_def)
    next
      case False
      then obtain ms where "t = JObj (own_members ms)" "encode_members nt ids items [] path depth b1 = Inr (ms, b')"
        using unf xs v(3) x True by (auto simp: bindK_Inr_conv item_length_def)
      then show ?thesis
        using EncObject [of depth path b b0 fs items] b0 True False v x
          "1.IH"(2) [OF k b0 _ _ xs v(3) _ x(2)] by (simp add: item_length_def)
    qed
  qed
next
  case (3 nt ids item items i path depth b)
  then show ?case by (auto simp: bindK_Inr_conv intro!: EncItem)
next
  case (5 nt ids entry entries seen path depth b)
  obtain xs where xs: "value_fields ids entry KMember [ascii ''name'', ascii ''value''] path = Inr xs"
    using "5.prems" by (auto simp: bindK_Inr_conv)
  obtain fs x y where v: "entry = VRec (id_of ids KMember) fs" "map_of fs (ascii ''name'') = Some x"
    "map_of fs (ascii ''value'') = Some y" "xs = [x, y]"
    using value_fields_shape [OF xs] by auto
  obtain name where x: "x = VStr name" "name \<notin> set seen"
    using "5.prems" xs v(4) by (auto split: cval.splits if_splits)
  obtain b0 t b1 ms' where st: "textCost name (childPath path name) b = Inr b0"
    "encode_visit nt ids y (childPath path name) (depth + 1) b0 = Inr (t, b1)"
    "encode_members nt ids entries (name # seen) path depth b1 = Inr (ms', b')" "ms = (name, t) # ms'"
    using "5.prems" xs v(4) x by (auto simp: bindK_Inr_conv)
  have "encodes nt ids y (depth + 1) b0 t b1" using "5.IH"(1) xs v(4) x st(1,2) by simp
  moreover have "encodes_members nt ids entries (name # seen) (depth + 1) b1 ms' b'"
    using "5.IH"(2) xs v(4) x st(1-3) by simp
  ultimately show ?case
    unfolding v(1) st(4) by (rule EncMember [OF v(2) [unfolded x] v(3) x(2) st(1)])
qed (auto intro: EncNoItem EncNoMember)

section \<open>What the encoder writes\<close>

text \<open>Every double of the value is one.\<close>

fun doubles :: "cval \<Rightarrow> bool" where
  "doubles (VFloat x) = is_double x"
| "doubles (VArr vs) = list_all doubles vs"
| "doubles (VRec ident fs) = list_all (\<lambda>(name, v). doubles v) fs"
| "doubles _ = True"

lemma doubles_field: "list_all (\<lambda>(name, v). doubles v) fs \<Longrightarrow> map_of fs name = Some v \<Longrightarrow> doubles v"
  by (auto simp: list_all_iff dest: map_of_SomeD)

lemma float_token_wire:
  assumes "number_texts nt" and "isFinite x" and "is_double x"
  shows "wire_number x (float_token nt x)" and "\<not> spells_integer (float_token nt x)"
proof -
  let ?t = "float_text nt x"
  have t: "json_number ?t" "list_all number_unit ?t" "token_number ?t = x"
  proof -
    have "json_number (ascii ''-0'')" "list_all number_unit (ascii ''-0'')" by code_simp+
    then show "json_number ?t" "list_all number_unit ?t" "token_number ?t = x"
      using assms token_number_neg_zero by (auto simp: number_texts_def float_text_def)
  qed
  show "wire_number x (float_token nt x)" "\<not> spells_integer (float_token nt x)"
    using t token_fraction [of ?t] assms(2)
    by (auto simp: float_token_def spells_integer_def wire_number_def Let_def)
qed

lemma number_token_length: "list_all number_unit t \<Longrightarrow> length (utf8_text t) = length t"
  using number_unit_ascii by (intro length_utf8_ascii) (auto simp: list_all_iff)

lemma json_number_start: "json_number t \<Longrightarrow> ascii_start t"
  using json_number_hd [of t] by (auto simp: ascii_start_def is_digit_unit_def in_range_def)

lemma int_string_wire: "wire_number (token_number (int_string i)) (int_string i)" "spells_integer (int_string i)"
proof -
  have "list_all number_unit (int_string \<bar>i\<bar>)"
    using list_all_digit_int_string [of "\<bar>i\<bar>"] by (auto simp: list_all_iff number_unit_def)
  then have "list_all number_unit (int_string i)"
    by (cases "i < 0") (simp_all add: int_string_def ascii_def unit_of_char_def number_unit_def)
  moreover have "json_number (int_string i)" by (simp add: json_number_def numeric_parts_int_string plain_int_string)
  ultimately show "wire_number (token_number (int_string i)) (int_string i)" "spells_integer (int_string i)"
    using integer_token_int_string by (simp_all add: wire_number_def spells_integer_def bigint_int_string)
qed

text \<open>A run that writes a tree: the budget it leaves, and the limits that held.\<close>

definition leaves :: "Budget \<Rightarrow> int \<Rightarrow> int \<Rightarrow> Budget \<Rightarrow> bool" where
  "leaves b spent seen b' \<longleftrightarrow> remaining b' = remaining b - spent \<and> nodes b' = nodes b + seen
     \<and> (0 \<le> remaining b \<longrightarrow> 0 \<le> remaining b') \<and> (nodes b \<le> maxNodes \<longrightarrow> nodes b' \<le> maxNodes)"

lemma leaves_trans: "leaves b x n b1 \<Longrightarrow> leaves b1 y m b' \<Longrightarrow> leaves b (x + y) (n + m) b'"
  by (auto simp: leaves_def)

lemma leaves_charge: "charge x path b = Inr b' \<Longrightarrow> leaves b x 0 b'"
  using charge_effect [of x path b b'] charge_nonneg [of x path b b'] by (auto simp: leaves_def)

lemma leaves_textCost: "textCost s path b = Inr b' \<Longrightarrow> leaves b (int (length (utf8_text (json_string s)))) 0 b'"
  using textCost_effect [of s path b b'] textCost_nonneg [of s path b b'] by (auto simp: leaves_def)

lemma leaves_visit: "visit d path b = Inr b' \<Longrightarrow> leaves b 0 1 b' \<and> d \<le> maxDepth"
  by (auto simp: leaves_def visit_def split: if_splits)

definition text_bytes :: "jtree \<Rightarrow> int" where
  "text_bytes t = int (length (utf8_text (stringify t)))"

lemma encode_scalar_wire:
  assumes "number_texts nt" and "doubles x" and "encode_scalar nt kind x path b = Inr (t, b')"
  shows "wire t" and "leaves b (text_bytes t) 0 b'" and "read_value ids t = single ids kind ''value'' x"
    and "ascii_start (stringify t)" and "tree_nodes t = 1" and "fits depth t \<longleftrightarrow> depth \<le> maxDepth"
proof -
  have "wire t \<and> leaves b (text_bytes t) 0 b' \<and> read_value ids t = single ids kind ''value'' x
    \<and> ascii_start (stringify t) \<and> tree_nodes t = 1 \<and> (fits depth t \<longleftrightarrow> depth \<le> maxDepth)"
  proof (cases kind)
    case KBool
    have "length (utf8_text (ascii ''true'')) = 4" "length (utf8_text (ascii ''false'')) = 5"
      "ascii_start (ascii ''true'')" "ascii_start (ascii ''false'')" by code_simp+
    then show ?thesis
      using assms(3) KBool
      by (auto simp: encode_scalar_def bindK_Inr_conv text_bytes_def dest!: leaves_charge split: cval.splits if_splits)
  next
    case KString
    then show ?thesis
      using assms(3) by (auto simp: encode_scalar_def bindK_Inr_conv text_bytes_def textCost_scalar
          dest: leaves_textCost split: cval.splits)
  next
    case KInt
    then obtain i token where i: "x = VInt i" "encodeInteger i path b = Inr (token, b')" "t = raw_number token"
      using assms(3) by (auto simp: encode_scalar_def bindK_Inr_conv split: cval.splits)
    then have "token = int_string i" "charge (int (length token)) path b = Inr b'"
      by (auto simp: encodeInteger_def Let_def bindK_Inr_conv split: if_splits)
    then show ?thesis
      using i KInt int_string_wire [of i] leaves_charge bigint_int_string [of i]
      by (auto simp: raw_number_def text_bytes_def wire_number_def number_token_length json_number_start)
  next
    case KFloat
    then obtain r where r: "x = VFloat r" "isFinite r" "charge (int (length (float_token nt r))) path b = Inr b'"
      "t = raw_number (float_token nt r)"
      using assms(3) by (auto simp: encode_scalar_def bindK_Inr_conv split: cval.splits if_splits)
    then show ?thesis
      using KFloat assms(2) float_token_wire [OF assms(1) r(2)] leaves_charge [OF r(3)]
      by (auto simp: raw_number_def text_bytes_def wire_number_def number_token_length json_number_start)
  qed (use assms(3) in \<open>auto simp: encode_scalar_def\<close>)
  then show "wire t" "leaves b (text_bytes t) 0 b'" "read_value ids t = single ids kind ''value'' x"
    "ascii_start (stringify t)" "tree_nodes t = 1" "fits depth t \<longleftrightarrow> depth \<le> maxDepth" by blast+
qed

lemma text_bytes_array:
  "list_all (\<lambda>t. ascii_start (stringify t)) ts
    \<Longrightarrow> text_bytes (JArr ts) = 2 + max 0 (int (length ts) - 1) + sum_list (map text_bytes ts)"
proof -
  assume a: "list_all (\<lambda>t. ascii_start (stringify t)) ts"
  have "int (texts_length (map stringify ts)) = sum_list (map text_bytes ts)"
    by (induction ts) (simp_all add: text_bytes_def)
  then show ?thesis
    using bracket_length [of 91 93 "map stringify ts"] a by (simp add: text_bytes_def list_all_iff)
qed

definition member_bytes :: "jsstr \<times> jtree \<Rightarrow> int" where
  "member_bytes p = int (length (utf8_text (json_string (fst p)))) + text_bytes (snd p)"

lemma text_bytes_object:
  assumes "list_all (\<lambda>p. ascii_start (stringify (snd p))) ms"
  shows "text_bytes (JObj ms)
    = 2 + max 0 (int (length ms) - 1) + int (length ms) + sum_list (map member_bytes ms)"
proof -
  have "int (texts_length (map (\<lambda>p. member_text (fst p) (stringify (snd p))) ms)) = int (length ms) + sum_list (map member_bytes ms)"
    using assms by (induction ms) (simp_all add: member_bytes_def text_bytes_def length_member_text)
  then show ?thesis
    using bracket_length [of 123 125 "map (\<lambda>p. member_text (fst p) (stringify (snd p))) ms"]
    by (simp add: text_bytes_def list_all_iff case_prod_unfold)
qed

lemma wire_object:
  assumes "distinct (map fst ms)" and "list_all (\<lambda>p. scalar_text (fst p) [] = Inr () \<and> wire (snd p)) ms"
  shows "wire (JObj (own_members ms))"
  using assms(2) distinct_own_members [OF assms(1)] own_members_own [OF assms(1)] set_own_members [OF assms(1)]
  by (simp add: list_all_iff case_prod_unfold)

lemma encodes_wire:
  assumes nt: "number_texts nt"
  shows "encodes nt ids v depth b t b' \<Longrightarrow> doubles v
    \<Longrightarrow> wire t \<and> fits depth t \<and> leaves b (text_bytes t) (tree_nodes t) b' \<and> ascii_start (stringify t)"
  and "encodes_items nt ids vs depth b ts b' \<Longrightarrow> list_all doubles vs
    \<Longrightarrow> list_all wire ts \<and> list_all (fits depth) ts \<and> list_all (\<lambda>t. ascii_start (stringify t)) ts
      \<and> leaves b (sum_list (map text_bytes ts)) (sum_list (map tree_nodes ts)) b' \<and> length ts = length vs"
  and "encodes_members nt ids vs seen depth b ms b' \<Longrightarrow> list_all doubles vs
    \<Longrightarrow> distinct (map fst ms) \<and> set (map fst ms) \<inter> set seen = {}
      \<and> list_all (\<lambda>p. scalar_text (fst p) [] = Inr () \<and> wire (snd p)) ms \<and> list_all (\<lambda>p. fits depth (snd p)) ms
      \<and> list_all (\<lambda>p. ascii_start (stringify (snd p))) ms
      \<and> leaves b (sum_list (map member_bytes ms)) (sum_list (map (\<lambda>p. tree_nodes (snd p)) ms)) b'
      \<and> length ms = length vs"
proof (induction rule: encodes_encodes_items_encodes_members.inducts)
  case (EncNull depth path b b0 b')
  have "text_bytes JNull = 4" "ascii_start (stringify JNull)" by code_simp+
  then show ?case
    using leaves_trans [OF conjunct1 [OF leaves_visit [OF EncNull(1)]] leaves_charge [OF EncNull(2)]] leaves_visit [OF EncNull(1)]
    by simp
next
  case (EncScalar depth path b b0 fs x kind t b')
  have "doubles x" using EncScalar.prems EncScalar(2) by (auto intro: doubles_field)
  note t = encode_scalar_wire [OF nt this EncScalar(3)]
  then show ?case
    using leaves_trans [OF conjunct1 [OF leaves_visit [OF EncScalar(1)]] t(2)] leaves_visit [OF EncScalar(1)] by simp
next
  case (EncArray depth path b b0 fs items b1 ts b')
  have "list_all doubles items" using EncArray.prems EncArray(2) doubles_field [of fs "ascii ''values''" "VArr items"] by simp
  note IH = EncArray.IH(2) [OF this]
  have v: "leaves b 0 1 b0" "depth + 1 \<le> maxDepth" using leaves_visit [OF EncArray(1)] by auto
  have "leaves b (0 + (2 + max 0 (int (length items) - 1)) + sum_list (map text_bytes ts)) (1 + 0 + sum_list (map tree_nodes ts)) b'"
    using leaves_trans [OF leaves_trans [OF v(1) leaves_charge [OF EncArray(3)]]] IH by blast
  then show ?case using IH v(2) by (simp add: text_bytes_array)
next
  case (EncObject depth path b b0 fs items b1 ms b')
  have "list_all doubles items" using EncObject.prems EncObject(2) doubles_field [of fs "ascii ''members''" "VArr items"] by simp
  note IH = EncObject.IH(2) [OF this]
  have v: "leaves b 0 1 b0" "depth + 1 \<le> maxDepth" using leaves_visit [OF EncObject(1)] by auto
  have d: "distinct (map fst ms)" using IH by blast
  let ?spent = "0 + (2 + max 0 (int (length items) - 1) + int (length items)) + sum_list (map member_bytes ms)"
    and ?seen = "1 + 0 + sum_list (map (\<lambda>p. tree_nodes (snd p)) ms)"
  have l: "leaves b ?spent ?seen b'"
    using leaves_trans [OF leaves_trans [OF v(1) leaves_charge [OF EncObject(3)]]] IH by blast
  have "list_all (\<lambda>p. ascii_start (stringify (snd p))) (own_members ms)"
    using IH by (simp add: list_all_iff set_own_members [OF d])
  then have "text_bytes (JObj (own_members ms)) = ?spent"
    using IH by (simp only: text_bytes_object length_own_members [OF d] sum_own_members [OF d])
  moreover have "tree_nodes (JObj (own_members ms)) = ?seen"
    using sum_own_members [OF d, of "\<lambda>p. tree_nodes (snd p)"] by (simp add: case_prod_unfold)
  moreover have "fits depth (JObj (own_members ms))"
    using IH v(2) by (simp add: list_all_iff case_prod_unfold set_own_members [OF d])
  ultimately show ?case using l IH wire_object [OF d] by simp
next
  case (EncItem v depth b t b1 vs ts b')
  then show ?case by (auto intro: leaves_trans)
next
  case (EncMember fs name v seen path b b0 depth t b1 vs ms b')
  have "doubles v" "list_all doubles vs"
    using EncMember.prems EncMember(2) doubles_field [of fs "ascii ''value''" v] by auto
  note IH = EncMember.IH(2) [OF this(1)] EncMember.IH(4) [OF this(2)]
  have "leaves b (int (length (utf8_text (json_string name))) + text_bytes t + sum_list (map member_bytes ms))
      (0 + tree_nodes t + sum_list (map (\<lambda>p. tree_nodes (snd p)) ms)) b'"
    using leaves_trans [OF leaves_trans [OF leaves_textCost [OF EncMember(4)]]] IH by blast
  then show ?case
    using IH EncMember(3) textCost_scalar [OF EncMember(4)] by (auto simp: member_bytes_def [of "(name, t)"])
qed (simp_all add: leaves_def)

section \<open>The value that comes back\<close>

text \<open>
  The record of a kind with its declared fields, and the members of objects in the order in
  which the language enumerates properties.
\<close>

definition pick :: "string list \<Rightarrow> (jsstr \<times> cval) list \<Rightarrow> (jsstr \<times> cval) list" where
  "pick names fs = concat (map (\<lambda>name. case map_of fs name of Some v \<Rightarrow> [(name, v)] | None \<Rightarrow> []) (map ascii names))"

definition member_name :: "cval \<Rightarrow> jsstr" where
  "member_name m = (case m of
       VRec ident fs \<Rightarrow> (case map_of fs (ascii ''name'') of Some (VStr name) \<Rightarrow> name | _ \<Rightarrow> [])
     | _ \<Rightarrow> [])"

fun order_members :: "cval \<Rightarrow> cval" where
  "order_members (VArr ms) = VArr (map snd (own_members (map (\<lambda>m. (member_name m, m)) ms)))"
| "order_members v = v"

definition canonical :: "JSONValueIds \<Rightarrow> jsstr \<Rightarrow> (jsstr \<times> cval) list \<Rightarrow> (jsstr \<times> cval) list" where
  "canonical ids ident fs =
     (case kinds ids ident of
        None \<Rightarrow> fs
      | Some KNull \<Rightarrow> []
      | Some KArray \<Rightarrow> pick [''values''] fs
      | Some KObject \<Rightarrow> map (\<lambda>(name, v). (name, order_members v)) (pick [''members''] fs)
      | Some KMember \<Rightarrow> pick [''name'', ''value''] fs
      | Some _ \<Rightarrow> pick [''value''] fs)"

fun arranged :: "JSONValueIds \<Rightarrow> cval \<Rightarrow> cval" where
  "arranged ids (VArr vs) = VArr (map (arranged ids) vs)"
| "arranged ids (VRec ident fs) = VRec ident (canonical ids ident (map (\<lambda>(name, v). (name, arranged ids v)) fs))"
| "arranged ids v = v"

lemma map_of_arranged: "map_of (map (\<lambda>(name, v). (name, f v)) fs) name = map_option f (map_of fs name)"
  by (induction fs) auto

lemma arranged_scalar: "encode_scalar nt kind x path b = Inr r \<Longrightarrow> arranged ids x = x"
  by (cases x) (auto simp: encode_scalar_def split: value_kind.splits)

lemma arranged_members:
  assumes "distinct (map fst ms)"
    and "map (\<lambda>p. member_record ids (fst p) (read_value ids (snd p))) ms = map (arranged ids) vs"
  shows "order_members (arranged ids (VArr vs))
    = VArr (map (\<lambda>(name, t). member_record ids name (read_value ids t)) (own_members ms))"
proof -
  have "ascii ''value'' \<noteq> ascii ''name''" by (simp add: ascii_def unit_of_char_def)
  then have "member_name (member_record ids name v) = name" for name v by (simp add: member_name_def member_record_def)
  then have "map (\<lambda>m. (member_name m, m)) (map (arranged ids) vs)
      = map (\<lambda>p. (fst p, member_record ids (fst p) (read_value ids (snd p)))) ms"
    by (simp flip: assms(2))
  then show ?thesis
    using own_members_map [OF assms(1), of "\<lambda>p. member_record ids (fst p) (read_value ids (snd p))"]
    by (simp add: comp_def case_prod_unfold)
qed

lemma encodes_value:
  assumes nt: "number_texts nt" and ok: "ids_ok ids"
  shows "encodes nt ids v depth b t b' \<Longrightarrow> doubles v \<Longrightarrow> read_value ids t = arranged ids v"
  and "encodes_items nt ids vs depth b ts b' \<Longrightarrow> list_all doubles vs \<Longrightarrow> map (read_value ids) ts = map (arranged ids) vs"
  and "encodes_members nt ids vs seen depth b ms b' \<Longrightarrow> list_all doubles vs
    \<Longrightarrow> map (\<lambda>p. member_record ids (fst p) (read_value ids (snd p))) ms = map (arranged ids) vs"
proof (induction rule: encodes_encodes_items_encodes_members.inducts)
  case (EncScalar depth path b b0 fs x kind t b')
  have "doubles x" using EncScalar.prems EncScalar(2) by (auto intro: doubles_field)
  note t = encode_scalar_wire(3) [OF nt this EncScalar(3), of ids] arranged_scalar [OF EncScalar(3), of ids]
  have "kind \<noteq> KNull" "kind \<noteq> KArray" "kind \<noteq> KObject" "kind \<noteq> KMember"
    using EncScalar(3) by (auto simp: encode_scalar_def)
  then have "canonical ids (id_of ids kind) = pick [''value'']"
    by (cases kind) (simp_all add: canonical_def kinds_id_of [OF ok] fun_eq_iff)
  then show ?case using t EncScalar(2) by (simp add: single_def pick_def map_of_arranged)
next
  case (EncArray depth path b b0 fs items b1 ts b')
  have "list_all doubles items" using EncArray.prems EncArray(2) doubles_field [of fs "ascii ''values''" "VArr items"] by simp
  then show ?case
    using EncArray.IH(2) EncArray(2) by (simp add: single_def pick_def map_of_arranged canonical_def kinds_id_of [OF ok])
next
  case (EncObject depth path b b0 fs items b1 ms b')
  have d: "list_all doubles items" using EncObject.prems EncObject(2) doubles_field [of fs "ascii ''members''" "VArr items"] by simp
  have "distinct (map fst ms)" using encodes_wire(3) [OF nt EncObject(4) d] by blast
  from arranged_members [OF this EncObject.IH(2) [OF d]] show ?case
    using EncObject(2)
    by (simp add: single_def pick_def map_of_arranged canonical_def kinds_id_of [OF ok]
        del: order_members.simps arranged.simps(1))
next
  case (EncMember fs name v seen path b b0 depth t b1 vs ms b')
  have "doubles v" "list_all doubles vs"
    using EncMember.prems EncMember(2) doubles_field [of fs "ascii ''value''" v] by auto
  then show ?case
    using EncMember.IH(2,4) EncMember(1,2)
    by (simp add: member_record_def pick_def map_of_arranged canonical_def kinds_id_of [OF ok])
qed (simp_all add: canonical_def kinds_id_of [OF ok])

section \<open>Both directions\<close>

lemma text_bytes_integers:
  "wire t \<Longrightarrow> ascii_start (stringify t) \<and> integer_bytes t \<le> text_bytes t"
proof (induction t)
  case (JNum v token)
  then show ?case by (auto simp: text_bytes_def wire_number_def number_token_length json_number_start)
next
  case (JArr ts)
  then have a: "list_all (\<lambda>t. ascii_start (stringify t)) ts" by (auto simp: list_all_iff)
  have "sum_list (map integer_bytes ts) \<le> sum_list (map text_bytes ts)"
    using JArr by (intro sum_list_mono) (auto simp: list_all_iff)
  then show ?case by (simp add: text_bytes_array [OF a])
next
  case (JObj ms)
  then have a: "list_all (\<lambda>p. ascii_start (stringify (snd p))) ms"
    using JObj.IH [OF _ snd_mem] by (auto simp: list_all_iff case_prod_unfold)
  have "integer_bytes (snd p) \<le> member_bytes p" if "p \<in> set ms" for p
    using JObj.IH [OF that snd_mem] JObj.prems that by (simp add: list_all_iff case_prod_unfold member_bytes_def)
  then have "sum_list (map (\<lambda>p. integer_bytes (snd p)) ms) \<le> sum_list (map member_bytes ms)"
    by (rule sum_list_mono)
  then show ?case by (simp add: text_bytes_object [OF a] case_prod_unfold)
qed (auto simp: text_bytes_def ascii_def unit_of_char_def)

lemma wire_well_formed: "wire t \<Longrightarrow> isWellFormed (stringify t)"
proof (induction t)
  case (JNum v token)
  then show ?case
    using number_unit_ascii by (auto simp: wire_number_def list_all_iff intro!: isWellFormed_ascii)
next
  case (JArr ts)
  then have "list_all isWellFormed (map stringify ts)" by (auto simp: list_all_iff)
  from isWellFormed_brackets(1) [OF this] show ?case by simp
next
  case (JObj ms)
  then have "list_all isWellFormed (map (\<lambda>p. member_text (fst p) (stringify (snd p))) ms)"
    using JObj.IH [OF _ snd_mem] by (auto simp: list_all_iff case_prod_unfold isWellFormed_member_text)
  from isWellFormed_brackets(2) [OF this] show ?case by (simp add: case_prod_unfold)
qed (use isWellFormed_json_string in \<open>auto simp: ascii_def unit_of_char_def unit_defs\<close>)

section \<open>Decoded values\<close>

text \<open>What the parser returns: the members of every object in enumeration order, once each.\<close>

fun tidy :: "jtree \<Rightarrow> bool" where
  "tidy (JArr ts) = list_all tidy ts"
| "tidy (JObj ms) = (distinct (map fst ms) \<and> own_members ms = ms \<and> list_all (\<lambda>(name, t). tidy t) ms)"
| "tidy _ = True"

lemma same_entries:
  assumes "map fst xs = map fst ys" and "set xs = set ys" and "distinct (map fst xs)"
  shows "xs = ys"
proof (rule nth_equalityI)
  show len: "length xs = length ys" using assms(1) by (metis length_map)
  fix i assume i: "i < length xs"
  then have k: "fst (xs ! i) = fst (ys ! i)" using assms(1) len by (metis nth_map)
  have "(fst (xs ! i), snd (ys ! i)) \<in> set xs" using i k len assms(2) by (metis nth_mem prod.collapse)
  moreover have "(fst (xs ! i), snd (xs ! i)) \<in> set xs" using i by simp
  ultimately have "snd (xs ! i) = snd (ys ! i)" using assms(3) by (metis eq_key_imp_eq_value)
  then show "xs ! i = ys ! i" using k by (simp add: prod_eq_iff)
qed

lemma own_members_names:
  "distinct (map fst ms) \<Longrightarrow> map fst (own_members ms)
     = sort_key units_value (filter array_index (map fst ms)) @ filter (\<lambda>name. \<not> array_index name) (map fst ms)"
  by (simp add: own_members_distinct sort_key_map filter_map comp_def)

lemma own_members_same_names:
  assumes "distinct (map fst ms)" and "own_members ms = ms" and "map fst xs = map fst ms"
  shows "own_members xs = xs"
proof -
  have d: "distinct (map fst xs)" using assms by simp
  have "map fst (own_members xs) = map fst xs"
    using own_members_names [OF d] own_members_names [OF assms(1)] assms(2,3) by simp
  then show ?thesis
    using same_entries [of "own_members xs" xs] set_own_members [OF d] d by simp
qed

lemma own_members_foldl:
  fixes acc :: "(jsstr \<times> 'v) list"
  assumes "distinct (map fst acc)"
  shows "distinct (map fst (foldl (\<lambda>m (k, v). nm_set k v m) acc ps))"
    and "set (foldl (\<lambda>m (k, v). nm_set k v m) acc ps) \<subseteq> set acc \<union> set ps"
proof -
  have step: "distinct (map fst (nm_set k v m))" "set (nm_set k v m) \<subseteq> insert (k, v) (set m)"
    if "distinct (map fst m)" for k and v :: 'v and m :: "(jsstr \<times> 'v) list"
    using that by (simp add: keys_nm_set map_of_eq_None_iff, induction m) auto
  show "distinct (map fst (foldl (\<lambda>m (k, v). nm_set k v m) acc ps))"
    using assms by (induction ps arbitrary: acc) (auto simp: step)
  show "set (foldl (\<lambda>m (k, v). nm_set k v m) acc ps) \<subseteq> set acc \<union> set ps"
    using assms
  proof (induction ps arbitrary: acc)
    case (Cons p ps)
    then show ?case using Cons.IH [OF step(1)] step(2) [of acc "fst p" "snd p"] by (fastforce simp: split_beta)
  qed simp
qed

lemma own_members_tidy:
  "distinct (map fst (own_members ps))" "own_members (own_members ps) = own_members ps" "set (own_members ps) \<subseteq> set ps"
proof -
  let ?ms = "foldl (\<lambda>m (k, v). nm_set k v m) [] ps"
  have d: "distinct (map fst ?ms)" "set ?ms \<subseteq> set ps" using own_members_foldl [of "[]" ps] by simp_all
  have "own_members ps = own_members ?ms"
    using foldl_nm_set [of "[]" ?ms] d(1) by (simp add: own_members_def)
  then show "distinct (map fst (own_members ps))" "own_members (own_members ps) = own_members ps"
    "set (own_members ps) \<subseteq> set ps"
    using distinct_own_members [OF d(1)] own_members_own [OF d(1)] set_own_members [OF d(1)] d(2) by simp_all
qed

lemma parse_tidy:
  "parse_value n s = Some (t, r) \<Longrightarrow> tidy t"
  "parse_items n s = Some (ts, r) \<Longrightarrow> list_all tidy ts"
  "parse_members n s = Some (ms, r) \<Longrightarrow> list_all (\<lambda>(name, t). tidy t) ms"
proof (induction n s and n s and n s arbitrary: t r and ts r and ms r
    rule: parse_value_parse_items_parse_members.induct)
  case (2 n s)
  have obj: "tidy (JObj (own_members ms))" if "list_all (\<lambda>(name, t). tidy t) ms" for ms
    using that own_members_tidy [of ms] by (auto simp: list_all_iff)
  have lit: "parse_literal w = Some (t, r) \<Longrightarrow> tidy t" for w
    by (auto simp: parse_literal_def parse_number_def Let_def split: if_splits)
  obtain u us where u: "skip_ws s = u # us" using "2.prems" by (cases "skip_ws s") auto
  consider "u = 34" | "u = 91" | "u = 123" | "u \<noteq> 34" "u \<noteq> 91" "u \<noteq> 123" by blast
  then show ?case
  proof cases
    case 2
    then show ?thesis using "2.prems" u "2.IH"(1) [OF u] by (auto split: if_splits)
  next
    case 3
    then show ?thesis using "2.prems" u "2.IH"(2) [OF u] obj obj [of "[]"] by (auto simp: own_members_def split: if_splits)
  next
    case 4
    then show ?thesis using "2.prems" u lit by (simp del: parse_literal_def)
  qed (use "2.prems" u in auto)
next
  case (4 n s)
  then show ?case by (fastforce split: option.splits if_splits)
next
  case (6 n s)
  then show ?case by (fastforce split: option.splits if_splits)
qed simp_all

lemma decode_arranged:
  assumes ok: "ids_ok ids"
  shows "decode_visit ids t path depth b = Inr (v, b') \<Longrightarrow> tidy t \<Longrightarrow> arranged ids v = v"
  and "decode_items ids ts i path depth b = Inr (vs, b') \<Longrightarrow> list_all tidy ts \<Longrightarrow> map (arranged ids) vs = vs"
  and "decode_members ids ms path depth b = Inr (vs, b') \<Longrightarrow> list_all (\<lambda>(name, t). tidy t) ms
    \<Longrightarrow> map (arranged ids) vs = vs \<and> map member_name vs = map fst ms"
  using ok
proof (induction ids t path depth b and ids ts i path depth b and ids ms path depth b
    arbitrary: v b' and vs b' and vs b' rule: decode_visit_decode_items_decode_members.induct)
  case (1 ids tree path depth b)
  obtain b0 where b0: "visit (depth + (if wire_container tree then 1 else 0)) path b = Inr b0"
    using "1.prems"(1) by (subst (asm) decode_visit.simps) (auto simp: bindK_Inr_conv)
  note unf = "1.prems"(1) [unfolded decode_visit.simps [of ids tree] b0 bindK_simps]
  note simps = single_def canonical_def pick_def kinds_id_of [OF "1.prems"(3)]
  show ?case
  proof (cases tree)
    case (JArr ts)
    then show ?thesis using unf "1.IH"(1) [OF b0 JArr] "1.prems"(2,3) by (auto simp: bindK_Inr_conv simps)
  next
    case (JObj ms)
    then obtain vs where vs: "v = single ids KObject ''members'' (VArr vs)" "map (arranged ids) vs = vs"
      "map member_name vs = map fst ms"
      using unf "1.IH"(2) [OF b0 JObj] "1.prems"(2,3) by (auto simp: bindK_Inr_conv)
    have "own_members (map (\<lambda>m. (member_name m, m)) vs) = map (\<lambda>m. (member_name m, m)) vs"
    proof (rule own_members_same_names)
      show "distinct (map fst ms)" "own_members ms = ms" using "1.prems"(2) JObj by simp_all
      show "map fst (map (\<lambda>m. (member_name m, m)) vs) = map fst ms" unfolding vs(3) [symmetric] by simp
    qed
    then have "order_members (VArr vs) = VArr vs" by (simp add: comp_def)
    then have "order_members (arranged ids (VArr vs)) = VArr vs" using vs(2) by (simp only: arranged.simps)
    then show ?thesis unfolding vs(1) by (simp add: simps del: order_members.simps arranged.simps(1))
  next
    case (JNum x token)
    then show ?thesis using unf by (auto simp: decode_number_def bindK_Inr_conv simps split: if_splits)
  qed (use unf in \<open>auto simp: bindK_Inr_conv simps\<close>)
next
  case (5 ids name t ms path depth b)
  then obtain v b1 ws where "decode_visit ids t (childPath path name) (depth + 1) b = Inr (v, b1)"
    "decode_members ids ms path depth b1 = Inr (ws, b')" "vs = member_record ids name v # ws"
    by (auto simp: bindK_Inr_conv)
  moreover have "ascii ''value'' \<noteq> ascii ''name''" by (simp add: ascii_def unit_of_char_def)
  ultimately show ?case
    using "5.IH" "5.prems" by (auto simp: bindK_Inr_conv member_record_def member_name_def canonical_def pick_def kinds_id_of)
qed (auto simp: bindK_Inr_conv)

lemma decoded_arranged:
  assumes "ids_ok ids" and "decodeJSONValue bs ids limit = Inr v"
  shows "arranged ids v = v"
proof -
  obtain b t b' where d: "parseDocument bs limit = Inr t" "decode_visit ids t [] 0 b = Inr (v, b')"
    using assms(2) by (auto simp: decodeJSONValue_def bindK_Inr_conv)
  obtain s where "parse_json s = Some t"
    using d(1) by (auto simp: parseDocument_def parseJSONText_def bindK_Inr_conv split: option.splits)
  then obtain r where "parse_value (Suc (2 * length s)) s = Some (t, r)"
    by (auto simp only: parse_json_def option.inject split: option.splits if_splits prod.splits)
  then have "tidy t" by (rule parse_tidy(1))
  then show ?thesis using decode_arranged(1) [OF assms(1) d(2)] by blast
qed

section \<open>Properties\<close>

text \<open>A table of identities, an object whose second name is an array index, and its text.\<close>

definition demo_ids :: JSONValueIds where
  "demo_ids = [(KNull, ascii ''n''), (KBool, ascii ''b''), (KInt, ascii ''i''), (KFloat, ascii ''f''),
     (KString, ascii ''s''), (KArray, ascii ''a''), (KObject, ascii ''o''), (KMember, ascii ''m'')]"

definition demo_value :: cval where
  "demo_value = single demo_ids KObject ''members'' (VArr
     [member_record demo_ids (ascii ''b'') (single demo_ids KInt ''value'' (VInt 0)),
      member_record demo_ids (ascii ''1'') (single demo_ids KFloat ''value'' (VFloat NegZero))])"

definition demo_arranged :: cval where
  "demo_arranged = single demo_ids KObject ''members'' (VArr
     [member_record demo_ids (ascii ''1'') (single demo_ids KFloat ''value'' (VFloat NegZero)),
      member_record demo_ids (ascii ''b'') (single demo_ids KInt ''value'' (VInt 0))])"

definition demo_text :: jsstr where
  "demo_text = ascii ''{\"1\":-0,\"b\":0}''"

lemma demo_ok: "ids_ok demo_ids" "doubles demo_value" "arranged demo_ids demo_value = demo_arranged"
  by code_simp+

lemma demo_encode:
  "encodeJSONValue exact_text demo_value demo_ids 40 = Inr (map word_of_int (utf8_text demo_text))"
  by code_simp

lemma decode_after_encode:
  assumes "number_texts nt" and "ids_ok ids" and "doubles v" and "encodeJSONValue nt v ids limit = Inr bs"
  shows "decodeJSONValue bs ids limit = Inr (arranged ids v)"
proof -
  obtain b t b' where enc: "new_Budget limit = Inr b" "encode_visit nt ids v [] 0 b = Inr (t, b')"
    "bs = map word_of_int (utf8_text (stringify t))" "int (length (utf8_text (stringify t))) = limit - remaining b'"
    using assms(4) by (auto simp: encodeJSONValue_def bindK_Inr_conv Let_def type_fault_def split: if_splits)
  have b: "budget_ok b" "nodes b = 0" "remaining b = limit" "0 \<le> limit"
    using enc(1) by (auto simp: new_Budget_def budget_ok_def split: if_splits)
  note w = encodes_wire(1) [OF assms(1) encode_encodes(1) [OF enc(2)] assms(3)]
  have wire: "wire t" "fits 0 t" "tree_nodes t \<le> maxNodes" "text_bytes t \<le> limit"
    using w b(2-4) by (auto simp: leaves_def maxNodes_def)
  have "decodeText bs limit = Inr (stringify t)"
    unfolding enc(3) using wire by (intro decodeText_utf8 wire_well_formed) (simp_all add: text_bytes_def)
  moreover have "scanJSON (stringify t) = Inr None"
    using wire_scans [OF wire(1,2), of 0] wire(3) scans_scanJSON by simp
  ultimately have "parseDocument bs limit = Inr t"
    using parses_parse_json [OF wire_parses [OF wire(1)]] by (simp add: parseDocument_def parseJSONText_def)
  moreover have "room (integer_bytes t) (tree_nodes t) b"
    using text_bytes_integers [OF wire(1)] wire(3,4) b by (simp add: room_def)
  ultimately show ?thesis
    using decode_wire(1) [OF wire(1,2), of b ids "[]"] enc(1)
      encodes_value(1) [OF assms(1,2) encode_encodes(1) [OF enc(2)] assms(3)]
    by (simp add: decodeJSONValue_def)
qed

text \<open>
  The encoder of dynamic JSON values charges exactly what it writes. When its walk accepts a
  value the result is the UTF-8 text of the tree, its length is the amount charged and stays
  within the limit, and the length mismatch is never reported; when the walk rejects the value
  its issue is the outcome.
\<close>

lemma json_value_charge_exact:
  assumes "number_texts nt" and "doubles v" and "new_Budget limit = Inr b"
  shows "case encode_visit nt ids v [] 0 b of
      Inl e \<Rightarrow> encodeJSONValue nt v ids limit = Inl e
    | Inr (t, b') \<Rightarrow> encodeJSONValue nt v ids limit = Inr (map word_of_int (utf8_text (stringify t)))
        \<and> int (length (utf8_text (stringify t))) = limit - remaining b' \<and> 0 \<le> remaining b'"
proof (cases "encode_visit nt ids v [] 0 b")
  case (Inr r)
  obtain t b' where r: "r = (t, b')" by (cases r)
  have "leaves b (text_bytes t) (tree_nodes t) b'"
    using encodes_wire(1) [OF assms(1) encode_encodes(1) assms(2)] Inr r by blast
  moreover have "remaining b = limit" "0 \<le> limit" using assms(3) by (auto simp: new_Budget_def split: if_splits)
  ultimately show ?thesis using Inr r assms(3) by (simp add: encodeJSONValue_def leaves_def text_bytes_def Let_def)
qed (use assms in \<open>simp add: encodeJSONValue_def\<close>)

text \<open>
  C22: Dynamic JSON values round trip. Whenever encodeJSONValue produces bytes, decodeJSONValue
  with the same limit accepts them, with the depth, node and byte limits and the duplicate check
  in force, and returns the value with its integers, doubles and texts unchanged: each record
  with its declared fields in order, each object with the members whose names are array indices
  first, as the language enumerates properties.
\<close>

theorem json_value_roundtrip:
  assumes "number_texts nt" and "ids_ok ids" and "doubles v" and "encodeJSONValue nt v ids limit = Inr bs"
  shows "decodeJSONValue bs ids limit = Inr (arranged ids v)"
  by (rule decode_after_encode [OF assms])

theorem json_value_roundtrip_witness:
  "decodeJSONValue (map word_of_int (utf8_text demo_text)) demo_ids 40 = Inr demo_arranged"
  using json_value_roundtrip [OF number_texts_exact_text demo_ok(1,2) demo_encode] by (simp only: demo_ok(3))

text \<open>
  Decoded documents are stable. A value that decodeJSONValue returned, encoded under any
  limit that admits it, is decoded to the same value, with the members in the same order.
\<close>

lemma json_value_stable:
  assumes "number_texts nt" and "ids_ok ids" and "decodeJSONValue bs ids limit = Inr v" and "doubles v"
    and "encodeJSONValue nt v ids limit' = Inr bs'"
  shows "decodeJSONValue bs' ids limit' = Inr v"
  using decoded_arranged [OF assms(2,3)] decode_after_encode [OF assms(1,2,4,5)] by simp

end
