(* ===== verification/Owner.thy ===== *)
theory Owner
  imports Prelude "HOL-Library.AList"
begin

text \<open>
  The owner of asynchronous work (\<open>runtime/owner-core.ts\<close>): scopes, resources with their
  leases and close protocol, participant groups, callbacks, and the drain that ends a scope.

  A world is the state of one root. Objects are numbered in the order of their creation. Every
  definition is one uninterrupted run of the event loop, from an entry or the resumption of an
  \<open>await\<close> to the next one; \<open>OwnerInv\<close> interleaves them. A closure that releases a lease is
  the lease it releases: a pair of a resource and an owner key.
\<close>

section \<open>State\<close>

datatype life = Open | Closing | Closed

text \<open>
  How a piece of work ended; a standard failure is its occurrence number. The promise of
  \<open>beginClose\<close> waits for the leases, then runs the native close callback, then has settled.
\<close>

datatype settlement = OkOutcome | DomainOutcome | StandardOutcome nat

datatype closer = Waiting | Invoking | Settled bool

text \<open>Where a drain stands; the last component is the first cleanup failure found.\<close>

datatype drain_phase =
    Gathering
  | ClosingFrom "nat list" "nat option"
  | Awaiting nat "nat list" "nat option"
  | Reporting "nat option"
  | Drained "nat option"

type_synonym lease = "nat \<times> nat"

record scope_state =
  sc_exitReleases :: "nat list"
  sc_parent :: "nat option"
  sc_state :: life
  sc_base :: nat
  sc_drain :: "drain_phase option"

text \<open>
  The closure \<open>once\<close> of a resource created inside a task is shared by the task, the scope and
  the resource: \<open>rs_once\<close> holds the key of its lease and whether it has run.
\<close>

record resource_state =
  rs_creator :: "nat option"
  rs_initialRelease :: bool
  rs_once :: "(nat \<times> bool) option"
  rs_shutdownMs :: "int option"
  rs_timer :: bool
  rs_autoPending :: bool
  rs_cleanup :: "nat option"
  rs_scopeManaged :: bool
  rs_kind :: jsstr
  rs_scope :: nat
  rs_state :: life
  rs_leases :: "(nat \<times> nat) list"
  rs_closing :: "closer option"
  rs_idempotent :: bool

record task =
  tk_scope :: nat
  tk_dynamic :: "nat list"
  tk_completion :: "settlement option"
  tk_release :: "lease list"

record group =
  gr_scope :: nat
  gr_key :: nat
  gr_tasks :: "nat list"
  gr_sealed :: bool
  gr_selected :: "int list"
  gr_pending :: int
  gr_active :: bool

record execution =
  ex_scope :: nat
  ex_owner :: "nat option"
  ex_task :: "nat option"

datatype report_phase = Late | CleanupPhase

text \<open>
  The fields \<open>reports\<close>, \<open>reported\<close> and \<open>failed\<close> are those of the root, \<open>claimed\<close> the occurrences
  some reporter has claimed. \<open>uses\<close> are the leases of operations in flight, \<open>deadlines\<close> the
  armed close deadlines; \<open>closes\<close> and \<open>diagnostics\<close> log the native close calls and the
  deliveries.
\<close>

record world =
  scopes :: "scope_state list"
  resources :: "resource_state list"
  tasks :: "task list"
  groups :: "group list"
  callbacks :: "nat list"
  uses :: "lease list"
  deadlines :: "nat list"
  reports :: "nat list"
  reported :: "nat list"
  claimed :: "nat list"
  failed :: bool
  nextKey :: nat
  nextOccurrence :: nat
  closes :: "nat list"
  diagnostics :: "(nat \<times> report_phase) list"

datatype owner_exn = InvalidResource | OwnerTypeError string

type_synonym 'a owned = "owner_exn + 'a"

definition on_scope :: "nat \<Rightarrow> (scope_state \<Rightarrow> scope_state) \<Rightarrow> world \<Rightarrow> world" where
  "on_scope s f w = w\<lparr>scopes := (scopes w)[s := f (scopes w ! s)]\<rparr>"

definition on_resource :: "nat \<Rightarrow> (resource_state \<Rightarrow> resource_state) \<Rightarrow> world \<Rightarrow> world" where
  "on_resource r f w = w\<lparr>resources := (resources w)[r := f (resources w ! r)]\<rparr>"

definition on_task :: "nat \<Rightarrow> (task \<Rightarrow> task) \<Rightarrow> world \<Rightarrow> world" where
  "on_task t f w = w\<lparr>tasks := (tasks w)[t := f (tasks w ! t)]\<rparr>"

definition on_group :: "nat \<Rightarrow> (group \<Rightarrow> group) \<Rightarrow> world \<Rightarrow> world" where
  "on_group g f w = w\<lparr>groups := (groups w)[g := f (groups w ! g)]\<rparr>"

section \<open>Contexts and scopes\<close>

definition requireContext :: "execution \<Rightarrow> world \<Rightarrow> execution owned" where
  "requireContext ex w = (if sc_state (scopes w ! ex_scope ex) = Closed then Inl InvalidResource else Inr ex)"

text \<open>A parent is created before its children, so the walk to the root ends.\<close>

function inside :: "world \<Rightarrow> nat \<Rightarrow> nat \<Rightarrow> bool" where
  "inside w scope ancestor =
     (scope = ancestor
      \<or> (case sc_parent (scopes w ! scope) of
           Some parent \<Rightarrow> if parent < scope then inside w parent ancestor else False
         | None \<Rightarrow> False))"
  by pat_completeness auto
termination
  by (relation "measure (\<lambda>(w, scope, ancestor). scope)") auto

declare inside.simps [simp del]

section \<open>Reports\<close>

definition claimFailureReport :: "nat \<Rightarrow> world \<Rightarrow> bool \<times> world" where
  "claimFailureReport occurrence w =
     (if occurrence \<in> set (claimed w) then (False, w) else (True, w\<lparr>claimed := claimed w @ [occurrence]\<rparr>))"

definition emit :: "nat \<Rightarrow> report_phase \<Rightarrow> world \<Rightarrow> world" where
  "emit occurrence phase w =
     (if occurrence \<in> set (reported w) then w
      else (let (won, w) = claimFailureReport occurrence (w\<lparr>reported := reported w @ [occurrence]\<rparr>)
            in if \<not> won then w
               else w\<lparr>reports := reports w @ [occurrence], diagnostics := diagnostics w @ [(occurrence, phase)]\<rparr>))"

definition report_delivered :: "nat \<Rightarrow> world \<Rightarrow> world" where
  "report_delivered occurrence w = w\<lparr>reports := filter (\<lambda>o'. o' \<noteq> occurrence) (reports w)\<rparr>"

definition cleanup :: "world \<Rightarrow> nat \<times> world" where
  "cleanup w =
     (let occurrence = nextOccurrence w
      in (occurrence, emit occurrence CleanupPhase (w\<lparr>failed := True, nextOccurrence := occurrence + 1\<rparr>)))"

text \<open>The assignment \<open>state.cleanup = cleanup(root)\<close>.\<close>

definition record_cleanup :: "nat \<Rightarrow> world \<Rightarrow> world" where
  "record_cleanup r w =
     (let (occurrence, w) = cleanup w in on_resource r (\<lambda>st. st\<lparr>rs_cleanup := Some occurrence\<rparr>) w)"

section \<open>Leases\<close>

definition resource :: "nat \<Rightarrow> jsstr option \<Rightarrow> world \<Rightarrow> nat owned" where
  "resource r kind w =
     (if \<not> r < length (resources w) \<or> (case kind of Some k \<Rightarrow> rs_kind (resources w ! r) \<noteq> k | None \<Rightarrow> False) then Inl InvalidResource
      else Inr r)"

definition validateScope :: "nat \<Rightarrow> execution \<Rightarrow> world \<Rightarrow> bool" where
  "validateScope r ex w \<longleftrightarrow>
     inside w (ex_scope ex) (rs_scope (resources w ! r)) \<and> sc_state (scopes w ! rs_scope (resources w ! r)) \<noteq> Closed"

definition owner_key :: "execution \<Rightarrow> world \<Rightarrow> nat" where
  "owner_key ex w = (case ex_owner ex of Some k \<Rightarrow> k | None \<Rightarrow> sc_base (scopes w ! ex_scope ex))"

definition lease_count :: "(nat \<times> nat) list \<Rightarrow> nat \<Rightarrow> nat" where
  "lease_count leases k = (case map_of leases k of Some n \<Rightarrow> n | None \<Rightarrow> 0)"

definition acquire :: "nat \<Rightarrow> execution \<Rightarrow> world \<Rightarrow> (lease \<times> world) owned" where
  "acquire r ex w =
     (let st = resources w ! r; owner = owner_key ex w
      in if \<not> validateScope r ex w
            \<or> rs_state st = Closed
            \<or> rs_state st = Closing \<and> owner \<notin> set (map fst (rs_leases st))
            \<or> sc_state (scopes w ! rs_scope st) = Closing \<and> owner \<notin> set (map fst (rs_leases st))
         then Inl InvalidResource
         else Inr ((r, owner),
           on_resource r (\<lambda>st. st\<lparr>rs_leases := AList.update owner (lease_count (rs_leases st) owner + 1) (rs_leases st)\<rparr>) w))"

definition release :: "lease \<Rightarrow> world \<Rightarrow> world" where
  "release l w =
     on_resource (fst l) (\<lambda>st.
       let n = lease_count (rs_leases st) (snd l)
       in st\<lparr>rs_leases := (if n = 1 then AList.delete (snd l) (rs_leases st)
                           else AList.update (snd l) (n - 1) (rs_leases st))\<rparr>) w"

text \<open>The shared closure \<open>once\<close> of a resource.\<close>

definition release_once :: "nat \<Rightarrow> world \<Rightarrow> world" where
  "release_once r w =
     (case rs_once (resources w ! r) of
        Some (k, False) \<Rightarrow> release (r, k) (on_resource r (\<lambda>st. st\<lparr>rs_once := Some (k, True)\<rparr>) w)
      | _ \<Rightarrow> w)"

definition release_each :: "lease list \<Rightarrow> world \<Rightarrow> world" where
  "release_each ls w = fold release ls w"

text \<open>
  A value a participant captures: a resource token, an opaque container with its registered
  contents, a callable with its registered captures, an array or record of values, or
  anything else. Resources are found once, in the order of the walk.
\<close>

datatype captured =
    CResource nat
  | COpaque "captured list"
  | CCallable "captured list"
  | CData "captured list"
  | COther

fun visit_captured :: "world \<Rightarrow> captured \<Rightarrow> nat list \<Rightarrow> nat list" where
  "visit_captured w (CResource r) found =
     (if r < length (resources w) \<and> r \<notin> set found then found @ [r] else found)"
| "visit_captured w (COpaque vs) found = fold (visit_captured w) vs found"
| "visit_captured w (CCallable vs) found = fold (visit_captured w) vs found"
| "visit_captured w (CData vs) found = fold (visit_captured w) vs found"
| "visit_captured w COther found = found"

definition capturedResources :: "world \<Rightarrow> captured list \<Rightarrow> nat list" where
  "capturedResources w vs = fold (visit_captured w) vs []"

text \<open>Acquires each lease in order; when one is refused, the earlier ones are released, last first.\<close>

fun acquire_all :: "nat list \<Rightarrow> execution \<Rightarrow> world \<Rightarrow> lease list owned \<times> world" where
  "acquire_all [] ex w = (Inr [], w)"
| "acquire_all (r # rs) ex w =
     (case acquire r ex w of
        Inl e \<Rightarrow> (Inl e, w)
      | Inr (l, w) \<Rightarrow>
          (case acquire_all rs ex w of
             (Inr ls, w) \<Rightarrow> (Inr (l # ls), w)
           | (Inl e, w) \<Rightarrow> (Inl e, release l w)))"

definition retain :: "captured list \<Rightarrow> execution \<Rightarrow> world \<Rightarrow> lease list owned \<times> world" where
  "retain values ex w = acquire_all (capturedResources w values) ex w"

fun retain_each :: "captured list list \<Rightarrow> execution \<Rightarrow> world \<Rightarrow> lease list list owned \<times> world" where
  "retain_each [] ex w = (Inr [], w)"
| "retain_each (p # ps) ex w =
     (case retain p ex w of
        (Inl e, w) \<Rightarrow> (Inl e, w)
      | (Inr ls, w) \<Rightarrow>
          (case retain_each ps ex w of
             (Inr lss, w) \<Rightarrow> (Inr (ls # lss), w)
           | (Inl e, w) \<Rightarrow> (Inl e, release_each (rev ls) w)))"

section \<open>Resources\<close>

definition new_resource :: "jsstr \<Rightarrow> nat \<Rightarrow> bool \<Rightarrow> bool \<Rightarrow> int option \<Rightarrow> resource_state" where
  "new_resource kind scope idempotent managed shutdown =
     \<lparr>rs_creator = None, rs_initialRelease = False, rs_once = None, rs_shutdownMs = shutdown, rs_timer = False,
      rs_autoPending = False, rs_cleanup = None, rs_scopeManaged = managed, rs_kind = kind, rs_scope = scope,
      rs_state = Open, rs_leases = [], rs_closing = None, rs_idempotent = idempotent\<rparr>"

text \<open>The task that creates a resource holds its first lease, until the scope or the task ends.\<close>

definition lend_initial :: "nat \<Rightarrow> execution \<Rightarrow> nat \<Rightarrow> world \<Rightarrow> world owned" where
  "lend_initial r ex t w =
     (case acquire r ex w of
        Inl e \<Rightarrow> Inl e
      | Inr (l, w) \<Rightarrow>
          (let w = on_resource r (\<lambda>st. st\<lparr>rs_creator := Some t, rs_initialRelease := True, rs_once := Some (snd l, False)\<rparr>) w;
               w = on_task t (\<lambda>tk. tk\<lparr>tk_dynamic := tk_dynamic tk @ [r]\<rparr>) w
           in Inr (if ex_scope ex \<noteq> tk_scope (tasks w ! t)
                   then on_scope (ex_scope ex) (\<lambda>sc. sc\<lparr>sc_exitReleases := sc_exitReleases sc @ [r]\<rparr>) w
                   else w)))"

definition registerResourceCore ::
  "execution \<Rightarrow> jsstr \<Rightarrow> bool \<Rightarrow> bool \<Rightarrow> int option \<Rightarrow> world \<Rightarrow> (nat \<times> world) owned" where
  "registerResourceCore ex kind idempotent managed shutdown w =
     (if kind = [] \<or> sc_state (scopes w ! ex_scope ex) \<noteq> Open then Inl InvalidResource
      else if (case shutdown of Some n \<Rightarrow> \<not> safe_int n \<or> n < 0 | None \<Rightarrow> False)
      then Inl (OwnerTypeError ''invalid registered shutdown deadline'')
      else
        (let r = length (resources w);
             w = w\<lparr>resources := resources w @ [new_resource kind (ex_scope ex) idempotent managed shutdown]\<rparr>
         in case ex_task ex of
              None \<Rightarrow> Inr (r, w)
            | Some t \<Rightarrow> (case lend_initial r ex t w of Inl e \<Rightarrow> Inl e | Inr w \<Rightarrow> Inr (r, w))))"

definition resourceStatus :: "nat \<Rightarrow> world \<Rightarrow> (jsstr \<times> life \<times> nat) owned" where
  "resourceStatus r w =
     (case resource r None w of
        Inl e \<Rightarrow> Inl e
      | Inr r \<Rightarrow> Inr (rs_kind (resources w ! r), rs_state (resources w ! r), sum_list (map snd (rs_leases (resources w ! r)))))"

text \<open>An operation on a resource: the lease is taken before the native call and given back after it.\<close>

definition useResourceCore :: "execution \<Rightarrow> nat \<Rightarrow> jsstr \<Rightarrow> world \<Rightarrow> (lease \<times> world) owned" where
  "useResourceCore ex r kind w =
     (case resource r (Some kind) w of
        Inl e \<Rightarrow> Inl e
      | Inr r \<Rightarrow>
          (case acquire r ex w of
             Inl e \<Rightarrow> Inl e
           | Inr (l, w) \<Rightarrow> Inr (l, w\<lparr>uses := l # uses w\<rparr>)))"

definition use_end :: "lease \<Rightarrow> world \<Rightarrow> world" where
  "use_end l w = release l (w\<lparr>uses := remove1 l (uses w)\<rparr>)"

definition beginClose :: "nat \<Rightarrow> world \<Rightarrow> world" where
  "beginClose r w =
     on_resource r (\<lambda>st. st\<lparr>rs_state := Closing, rs_autoPending := False, rs_closing := Some Waiting\<rparr>) w"

text \<open>The promise of \<open>beginClose\<close>: once no lease is left it calls the native close callback.\<close>

definition close_poll :: "nat \<Rightarrow> world \<Rightarrow> world" where
  "close_poll r w =
     (if rs_leases (resources w ! r) = []
      then on_resource r (\<lambda>st. st\<lparr>rs_closing := Some Invoking\<rparr>) (w\<lparr>closes := closes w @ [r]\<rparr>)
      else w)"

definition close_finish :: "nat \<Rightarrow> settlement \<Rightarrow> world \<Rightarrow> world" where
  "close_finish r completion w =
     (let w = on_resource r (\<lambda>st. st\<lparr>rs_timer := False, rs_closing := Some (Settled (completion = OkOutcome))\<rparr>) w
      in if completion = OkOutcome
         then on_resource r (\<lambda>st. st\<lparr>rs_state := Closed, rs_creator := None, rs_initialRelease := False\<rparr>) w
         else record_cleanup r w)"

definition closeResourceCore ::
  "execution \<Rightarrow> nat \<Rightarrow> jsstr \<Rightarrow> int option \<Rightarrow> world \<Rightarrow> world owned" where
  "closeResourceCore ex r kind deadline w =
     (case resource r (Some kind) w of
        Inl e \<Rightarrow> Inl e
      | Inr r \<Rightarrow>
          if \<not> validateScope r ex w then Inl InvalidResource
          else if rs_state (resources w ! r) \<noteq> Open \<and> \<not> rs_idempotent (resources w ! r) then Inl InvalidResource
          else if (case deadline of Some n \<Rightarrow> \<not> safe_int n \<or> n < 0 | None \<Rightarrow> False)
          then Inl (OwnerTypeError ''invalid close deadline'')
          else
            (let w = (if rs_creator (resources w ! r) = ex_task ex \<and> rs_initialRelease (resources w ! r)
                      then release_once r w else w);
                 w = (case rs_closing (resources w ! r) of Some _ \<Rightarrow> w | None \<Rightarrow> beginClose r w)
             in Inr (case deadline of Some _ \<Rightarrow> w\<lparr>deadlines := r # deadlines w\<rparr> | None \<Rightarrow> w)))"

text \<open>A close deadline either passes, or its timer is cleared when the close has settled first.\<close>

definition close_deadline_passed :: "nat \<Rightarrow> world \<Rightarrow> world" where
  "close_deadline_passed r w = record_cleanup r (w\<lparr>deadlines := remove1 r (deadlines w)\<rparr>)"

definition close_deadline_cleared :: "nat \<Rightarrow> world \<Rightarrow> world" where
  "close_deadline_cleared r w = w\<lparr>deadlines := remove1 r (deadlines w)\<rparr>"

section \<open>Participant groups\<close>

definition prepareLaunch ::
  "execution \<Rightarrow> captured list list \<Rightarrow> bool \<Rightarrow> world \<Rightarrow> nat owned \<times> world" where
  "prepareLaunch ex participants native w =
     (if sc_state (scopes w ! ex_scope ex) \<noteq> Open
         \<and> \<not> (native \<and> (case ex_task ex of Some t \<Rightarrow> tk_completion (tasks w ! t) = None | None \<Rightarrow> False))
      then (Inl InvalidResource, w)
      else
        (let (key, w) = (case (native, ex_owner ex) of
                           (True, Some k) \<Rightarrow> (k, w)
                         | _ \<Rightarrow> (nextKey w, w\<lparr>nextKey := nextKey w + 1\<rparr>))
         in case retain_each participants (ex\<lparr>ex_owner := Some key\<rparr>) w of
              (Inl e, w) \<Rightarrow> (Inl e, w)
            | (Inr retained, w) \<Rightarrow>
                (Inr (length (groups w)),
                 w\<lparr>groups := groups w @ [\<lparr>gr_scope = ex_scope ex, gr_key = key,
                      gr_tasks = [length (tasks w)..<length (tasks w) + length participants], gr_sealed = False,
                      gr_selected = [], gr_pending = int (length participants), gr_active = True\<rparr>],
                   tasks := tasks w @ map (\<lambda>ls. \<lparr>tk_scope = ex_scope ex, tk_dynamic = [], tk_completion = None,
                      tk_release = ls\<rparr>) retained\<rparr>)))"

definition observeLaunched :: "nat \<Rightarrow> nat \<Rightarrow> world \<Rightarrow> world" where
  "observeLaunched g i w =
     (case tk_completion (tasks w ! (gr_tasks (groups w ! g) ! i)) of
        Some (StandardOutcome occurrence) \<Rightarrow>
          if int i \<notin> set (gr_selected (groups w ! g)) then emit occurrence Late w else w
      | _ \<Rightarrow> w)"

definition finishLaunched :: "nat \<Rightarrow> nat option \<Rightarrow> world \<Rightarrow> world" where
  "finishLaunched g i w =
     (if \<not> gr_sealed (groups w ! g) then w
      else
        (let w = (case i of
                    None \<Rightarrow> fold (observeLaunched g) [0..<length (gr_tasks (groups w ! g))] w
                  | Some i \<Rightarrow> observeLaunched g i w)
         in if gr_pending (groups w ! g) = 0 then on_group g (\<lambda>gr. gr\<lparr>gr_active := False\<rparr>) w else w))"

definition settleLaunched :: "nat \<Rightarrow> nat \<Rightarrow> settlement \<Rightarrow> world \<Rightarrow> world" where
  "settleLaunched g i completion w =
     (let t = gr_tasks (groups w ! g) ! i;
          w = on_task t (\<lambda>tk. tk\<lparr>tk_completion := Some completion\<rparr>) w;
          w = release_each (rev (tk_release (tasks w ! t))) w;
          w = fold release_once (tk_dynamic (tasks w ! t)) w;
          w = on_task t (\<lambda>tk. tk\<lparr>tk_dynamic := []\<rparr>) w;
          w = on_group g (\<lambda>gr. gr\<lparr>gr_pending := gr_pending gr - 1\<rparr>) w
      in finishLaunched g (Some i) w)"

definition publish :: "nat \<Rightarrow> int list \<Rightarrow> world \<Rightarrow> world owned" where
  "publish g selected w =
     (if gr_sealed (groups w ! g)
         \<or> list_ex (\<lambda>i. \<not> safe_int i \<or> i < 0 \<or> i \<ge> int (length (gr_tasks (groups w ! g)))) selected
      then Inl InvalidResource
      else Inr (finishLaunched g None (on_group g (\<lambda>gr. gr\<lparr>gr_selected := selected, gr_sealed := True\<rparr>) w)))"

section \<open>Callbacks\<close>

text \<open>
  A callback guarded by a scope. \<open>ambient\<close> is the execution that dispatches it, which only the
  ambient binding has; a running task inside the scope may still enter while the scope closes.
\<close>

definition callback_active :: "execution option \<Rightarrow> nat \<Rightarrow> world \<Rightarrow> bool" where
  "callback_active ambient scope w =
     (case ambient of
        None \<Rightarrow> False
      | Some ex \<Rightarrow> inside w (ex_scope ex) scope
          \<and> (case ex_task ex of Some t \<Rightarrow> tk_completion (tasks w ! t) = None | None \<Rightarrow> False))"

definition guardCallback :: "execution option \<Rightarrow> nat \<Rightarrow> world \<Rightarrow> (nat \<times> world) owned" where
  "guardCallback ambient scope w =
     (if \<not> scope < length (scopes w) then Inl InvalidResource
      else if sc_state (scopes w ! scope) = Closed
         \<or> sc_state (scopes w ! scope) = Closing \<and> \<not> callback_active ambient scope w
      then Inl InvalidResource
      else
        (let site = (if callback_active ambient scope w then ex_scope (the ambient) else scope); t = length (tasks w)
         in Inr (t, w\<lparr>tasks := tasks w @ [\<lparr>tk_scope = site, tk_dynamic = [], tk_completion = None, tk_release = []\<rparr>],
                      callbacks := callbacks w @ [t], nextKey := nextKey w + 1\<rparr>)))"

definition guardCallbackWithContext :: "nat \<Rightarrow> world \<Rightarrow> (nat \<times> world) owned" where
  "guardCallbackWithContext scope w = guardCallback None scope w"

definition settleCallbackTask :: "nat \<Rightarrow> settlement \<Rightarrow> world \<Rightarrow> world" where
  "settleCallbackTask t completion w =
     (let w = on_task t (\<lambda>tk. tk\<lparr>tk_completion := Some completion\<rparr>) w;
          w = fold release_once (tk_dynamic (tasks w ! t)) w;
          w = on_task t (\<lambda>tk. tk\<lparr>tk_dynamic := []\<rparr>) w
      in w\<lparr>callbacks := filter (\<lambda>t'. t' \<noteq> t) (callbacks w)\<rparr>)"

section \<open>Draining a scope\<close>

definition arm_timer :: "nat \<Rightarrow> nat \<Rightarrow> world \<Rightarrow> world" where
  "arm_timer scope r w =
     (let st = resources w ! r
      in if inside w (rs_scope st) scope \<and> rs_state st \<noteq> Closed \<and> rs_shutdownMs st \<noteq> None
            \<and> \<not> rs_timer st \<and> rs_cleanup st = None
         then on_resource r (\<lambda>st. st\<lparr>rs_timer := True\<rparr>) w else w)"

definition timer_fired :: "nat \<Rightarrow> world \<Rightarrow> world" where
  "timer_fired r w =
     (let w = on_resource r (\<lambda>st. st\<lparr>rs_timer := False\<rparr>) w
      in if rs_state (resources w ! r) = Closed then w
         else record_cleanup r
           (if rs_state (resources w ! r) = Open
            then on_resource r (\<lambda>st. st\<lparr>rs_state := Closing, rs_autoPending := True\<rparr>) w else w))"

definition work_inside :: "nat \<Rightarrow> world \<Rightarrow> bool" where
  "work_inside scope w \<longleftrightarrow>
     list_ex (\<lambda>gr. gr_active gr \<and> inside w (gr_scope gr) scope) (groups w)
     \<or> list_ex (\<lambda>t. inside w (tk_scope (tasks w ! t)) scope) (callbacks w)"

definition set_phase :: "nat \<Rightarrow> drain_phase \<Rightarrow> world \<Rightarrow> world" where
  "set_phase scope phase w = on_scope scope (\<lambda>sc. sc\<lparr>sc_drain := Some phase\<rparr>) w"

text \<open>One round of the first loop: arm the shutdown timers, go on when no work is left inside.\<close>

definition drain_gather :: "nat \<Rightarrow> world \<Rightarrow> world" where
  "drain_gather scope w =
     (let w = fold (arm_timer scope) [0..<length (resources w)] w
      in if work_inside scope w then w
         else set_phase scope (ClosingFrom (rev [0..<length (resources w)]) None)
           (on_scope scope (\<lambda>sc. sc\<lparr>sc_state := Closing\<rparr>) w))"

definition or_else :: "nat option \<Rightarrow> nat option \<Rightarrow> nat option" where
  "or_else first other = (case first of None \<Rightarrow> other | Some x \<Rightarrow> Some x)"

text \<open>The loop over the resources, newest first, and the wait for the reports.\<close>

definition drain_close :: "nat \<Rightarrow> nat \<Rightarrow> nat list \<Rightarrow> nat option \<Rightarrow> world \<Rightarrow> world" where
  "drain_close scope r rs first w =
     (let st = resources w ! r
      in if \<not> inside w (rs_scope st) scope then set_phase scope (ClosingFrom rs first) w
         else if rs_state st = Open \<or> rs_autoPending st then
           set_phase scope (Awaiting r rs first)
             (beginClose r (if \<not> rs_scopeManaged st \<and> rs_cleanup st = None then record_cleanup r w else w))
         else if rs_closing st \<noteq> None then set_phase scope (Awaiting r rs first) w
         else set_phase scope (ClosingFrom rs (or_else first (rs_cleanup st))) w)"

definition drain_step :: "nat \<Rightarrow> world \<Rightarrow> world" where
  "drain_step scope w =
     (case sc_drain (scopes w ! scope) of
        Some Gathering \<Rightarrow> drain_gather scope w
      | Some (ClosingFrom (r # rs) first) \<Rightarrow> drain_close scope r rs first w
      | Some (ClosingFrom [] first) \<Rightarrow> set_phase scope (Reporting first) w
      | Some (Awaiting r rs first) \<Rightarrow>
          (case rs_closing (resources w ! r) of
             Some (Settled _) \<Rightarrow> set_phase scope (ClosingFrom rs (or_else first (rs_cleanup (resources w ! r)))) w
           | _ \<Rightarrow> w)
      | Some (Reporting first) \<Rightarrow>
          if reports w = [] then set_phase scope (Drained first) (on_scope scope (\<lambda>sc. sc\<lparr>sc_state := Closed\<rparr>) w) else w
      | _ \<Rightarrow> w)"

section \<open>Scopes and roots\<close>

definition createChildScope :: "execution \<Rightarrow> world \<Rightarrow> nat \<times> world" where
  "createChildScope ex w =
     (length (scopes w),
      w\<lparr>scopes := scopes w @ [\<lparr>sc_exitReleases = [], sc_parent = Some (ex_scope ex), sc_state = Open,
            sc_base = nextKey w, sc_drain = None\<rparr>], nextKey := nextKey w + 1\<rparr>)"

definition withScope :: "execution \<Rightarrow> world \<Rightarrow> (nat \<times> world) owned" where
  "withScope ex w =
     (case requireContext ex w of
        Inl e \<Rightarrow> Inl e
      | Inr ex \<Rightarrow>
          if sc_state (scopes w ! ex_scope ex) \<noteq> Open then Inl InvalidResource else Inr (createChildScope ex w))"

text \<open>The body of a scope has ended: the exit releases run, the scope closes and the drain starts.\<close>

definition settleScopeBody :: "nat \<Rightarrow> world \<Rightarrow> world" where
  "settleScopeBody scope w =
     (let w = fold release_once (sc_exitReleases (scopes w ! scope)) w;
          w = on_scope scope (\<lambda>sc. sc\<lparr>sc_exitReleases := [], sc_state := Closing\<rparr>) w
      in drain_gather scope (set_phase scope Gathering w))"

text \<open>The completion of a scope: a cleanup failure replaces a success.\<close>

definition scope_result :: "nat option \<Rightarrow> settlement \<Rightarrow> settlement" where
  "scope_result failure completion =
     (case failure of Some occurrence \<Rightarrow> if completion = OkOutcome then StandardOutcome occurrence else completion
      | None \<Rightarrow> completion)"

definition createRoot :: world where
  "createRoot =
     \<lparr>scopes = [\<lparr>sc_exitReleases = [], sc_parent = None, sc_state = Open, sc_base = 0, sc_drain = None\<rparr>],
      resources = [], tasks = [], groups = [], callbacks = [], uses = [], deadlines = [], reports = [],
      reported = [], claimed = [], failed = False, nextKey = 1, nextOccurrence = 1, closes = [], diagnostics = []\<rparr>"

text \<open>The body of the root has ended: its scope stays open until the work inside has gone.\<close>

definition settle_root :: "world \<Rightarrow> world" where
  "settle_root w = drain_gather 0 (set_phase 0 Gathering w)"

end
