(* ===== verification/OwnerInv.thy ===== *)
theory OwnerInv
  imports Owner "HOL-Library.Multiset"
begin

text \<open>
  All interleavings of the runs of \<open>Owner\<close>, and the invariants they keep: the leases on a
  resource are exactly those somebody still holds, the close protocol runs once, a drain
  leaves no resource of its scope behind, and every failure is reported once.
\<close>

section \<open>Interleavings\<close>

definition context_ok :: "execution \<Rightarrow> world \<Rightarrow> bool" where
  "context_ok ex w \<longleftrightarrow>
     ex_scope ex < length (scopes w) \<and> (\<forall>t. ex_task ex = Some t \<longrightarrow> t < length (tasks w)) \<and> requireContext ex w = Inr ex"

definition allocated :: "settlement \<Rightarrow> world \<Rightarrow> bool" where
  "allocated c w = (case c of StandardOutcome n \<Rightarrow> n < nextOccurrence w | _ \<Rightarrow> True)"

text \<open>
  Each rule is one run of the event loop. The authored program chooses the calls and how its
  work settles, the platform when timers fire, closes end and reports are delivered; other
  parts of the runtime allocate occurrence numbers and claim occurrences they report.
\<close>

inductive owner_step :: "world \<Rightarrow> world \<Rightarrow> bool" where
  register: "context_ok ex w \<Longrightarrow> registerResourceCore ex kind idem managed shutdown w = Inr (r, w') \<Longrightarrow> owner_step w w'"
| use: "context_ok ex w \<Longrightarrow> useResourceCore ex r kind w = Inr (l, w') \<Longrightarrow> owner_step w w'"
| use_end: "l \<in> set (uses w) \<Longrightarrow> owner_step w (use_end l w)"
| close: "context_ok ex w \<Longrightarrow> closeResourceCore ex r kind deadline w = Inr w' \<Longrightarrow> owner_step w w'"
| deadline_passed: "r \<in> set (deadlines w) \<Longrightarrow> owner_step w (close_deadline_passed r w)"
| deadline_cleared: "r \<in> set (deadlines w) \<Longrightarrow> rs_closing (resources w ! r) = Some (Settled b) \<Longrightarrow>
    owner_step w (close_deadline_cleared r w)"
| close_poll: "r < length (resources w) \<Longrightarrow> rs_closing (resources w ! r) = Some Waiting \<Longrightarrow> owner_step w (close_poll r w)"
| close_finish: "r < length (resources w) \<Longrightarrow> rs_closing (resources w ! r) = Some Invoking \<Longrightarrow> allocated c w \<Longrightarrow>
    owner_step w (close_finish r c w)"
| launch: "context_ok ex w \<Longrightarrow> prepareLaunch ex participants native w = (res, w') \<Longrightarrow> owner_step w w'"
| settle: "g < length (groups w) \<Longrightarrow> i < length (gr_tasks (groups w ! g)) \<Longrightarrow>
    tk_completion (tasks w ! (gr_tasks (groups w ! g) ! i)) = None \<Longrightarrow> allocated c w \<Longrightarrow>
    owner_step w (settleLaunched g i c w)"
| publish: "g < length (groups w) \<Longrightarrow> publish g selected w = Inr w' \<Longrightarrow> owner_step w w'"
| callback: "(\<forall>ex. ambient = Some ex \<longrightarrow> context_ok ex w) \<Longrightarrow> guardCallback ambient s w = Inr (t, w') \<Longrightarrow> owner_step w w'"
| callback_settle: "t \<in> set (callbacks w) \<Longrightarrow> tk_completion (tasks w ! t) = None \<Longrightarrow> allocated c w \<Longrightarrow>
    owner_step w (settleCallbackTask t c w)"
| timer: "r < length (resources w) \<Longrightarrow> rs_timer (resources w ! r) \<Longrightarrow> owner_step w (timer_fired r w)"
| scope: "context_ok ex w \<Longrightarrow> withScope ex w = Inr (s, w') \<Longrightarrow> owner_step w w'"
| scope_end: "0 < s \<Longrightarrow> s < length (scopes w) \<Longrightarrow> sc_drain (scopes w ! s) = None \<Longrightarrow> owner_step w (settleScopeBody s w)"
| root_end: "scopes w \<noteq> [] \<Longrightarrow> sc_drain (scopes w ! 0) = None \<Longrightarrow> owner_step w (settle_root w)"
| drain: "s < length (scopes w) \<Longrightarrow> owner_step w (drain_step s w)"
| delivered: "n \<in> set (reports w) \<Longrightarrow> owner_step w (report_delivered n w)"
| allocate: "owner_step w (w\<lparr>nextOccurrence := nextOccurrence w + 1\<rparr>)"
| claim: "n < nextOccurrence w \<Longrightarrow> owner_step w (snd (claimFailureReport n w))"

definition reachable_world :: "world \<Rightarrow> bool" where
  "reachable_world w \<longleftrightarrow> owner_step\<^sup>*\<^sup>* createRoot w"

section \<open>What the runs leave alone\<close>

lemma nth_update: "xs[i := x] ! j = (if i = j \<and> j < length xs then x else xs ! j)"
  by (cases "i < length xs") (auto simp: nth_list_update list_update_beyond)

lemmas on_defs = on_scope_def on_resource_def on_task_def on_group_def

lemma emit_same [simp]:
  "scopes (emit n p w) = scopes w" "resources (emit n p w) = resources w" "tasks (emit n p w) = tasks w"
  "groups (emit n p w) = groups w" "callbacks (emit n p w) = callbacks w" "uses (emit n p w) = uses w"
  "deadlines (emit n p w) = deadlines w" "closes (emit n p w) = closes w" "failed (emit n p w) = failed w"
  "nextOccurrence (emit n p w) = nextOccurrence w" "nextKey (emit n p w) = nextKey w"
  by (auto simp: emit_def claimFailureReport_def Let_def)

text \<open>Taking and giving back leases changes the leases of resources and nothing else.\<close>

definition bare :: "resource_state \<Rightarrow> resource_state" where
  "bare st = st\<lparr>rs_leases := [], rs_once := None\<rparr>"

definition calm :: "world \<Rightarrow> world \<Rightarrow> bool" where
  "calm w w' \<longleftrightarrow> w'\<lparr>resources := []\<rparr> = w\<lparr>resources := []\<rparr> \<and> map bare (resources w') = map bare (resources w)"

lemma calm_refl [simp]: "calm w w"
  by (simp add: calm_def)

lemma calm_trans: "calm w w' \<Longrightarrow> calm w' w'' \<Longrightarrow> calm w w''"
  by (simp add: calm_def)

lemma calmD:
  assumes "calm w w'"
  shows "scopes w' = scopes w" "tasks w' = tasks w" "groups w' = groups w" "callbacks w' = callbacks w"
    "uses w' = uses w" "deadlines w' = deadlines w" "reports w' = reports w" "reported w' = reported w"
    "claimed w' = claimed w" "failed w' = failed w" "nextKey w' = nextKey w" "nextOccurrence w' = nextOccurrence w"
    "closes w' = closes w" "diagnostics w' = diagnostics w" "length (resources w') = length (resources w)"
proof -
  have "\<And>f. f (w'\<lparr>resources := []\<rparr>) = f (w\<lparr>resources := []\<rparr>)" using assms by (simp add: calm_def)
  note eq = this [of scopes] this [of tasks] this [of groups] this [of callbacks] this [of uses] this [of deadlines]
    this [of reports] this [of reported] this [of claimed] this [of failed] this [of nextKey] this [of nextOccurrence]
    this [of closes] this [of diagnostics]
  show "scopes w' = scopes w" "tasks w' = tasks w" "groups w' = groups w" "callbacks w' = callbacks w"
    "uses w' = uses w" "deadlines w' = deadlines w" "reports w' = reports w" "reported w' = reported w"
    "claimed w' = claimed w" "failed w' = failed w" "nextKey w' = nextKey w" "nextOccurrence w' = nextOccurrence w"
    "closes w' = closes w" "diagnostics w' = diagnostics w"
    using eq by simp_all
  show "length (resources w') = length (resources w)" using assms by (metis calm_def length_map)
qed

lemma calm_resource:
  assumes "calm w w'" and "r < length (resources w)"
  shows "rs_closing (resources w' ! r) = rs_closing (resources w ! r)"
    and "rs_state (resources w' ! r) = rs_state (resources w ! r)"
    and "rs_scope (resources w' ! r) = rs_scope (resources w ! r)"
    and "rs_cleanup (resources w' ! r) = rs_cleanup (resources w ! r)"
    and "rs_autoPending (resources w' ! r) = rs_autoPending (resources w ! r)"
proof -
  have "bare (resources w' ! r) = bare (resources w ! r)"
    using assms by (metis calm_def length_map nth_map)
  then have "\<And>f. f (bare (resources w' ! r)) = f (bare (resources w ! r))" by simp
  note eq = this [of rs_closing] this [of rs_state] this [of rs_scope] this [of rs_cleanup] this [of rs_autoPending]
  show "rs_closing (resources w' ! r) = rs_closing (resources w ! r)"
    and "rs_state (resources w' ! r) = rs_state (resources w ! r)"
    and "rs_scope (resources w' ! r) = rs_scope (resources w ! r)"
    and "rs_cleanup (resources w' ! r) = rs_cleanup (resources w ! r)"
    and "rs_autoPending (resources w' ! r) = rs_autoPending (resources w ! r)"
    using eq by (simp_all add: bare_def)
qed

lemma calm_on_resource: "(\<And>st. bare (f st) = bare st) \<Longrightarrow> calm w (on_resource r f w)"
  by (simp add: calm_def on_resource_def map_update list_update_same_conv)
    (metis list_update_beyond list_update_id map_update not_less nth_map)

lemma calm_acquire: "acquire r ex w = Inr (l, w') \<Longrightarrow> calm w w'"
  by (auto simp: acquire_def Let_def bare_def intro!: calm_on_resource split: if_splits)

lemma calm_release [simp]: "calm w (release l w)"
  by (auto simp: release_def Let_def bare_def intro!: calm_on_resource)

lemma calm_release_once [simp]: "calm w (release_once r w)"
  by (auto simp: release_once_def bare_def intro!: calm_on_resource calm_trans [OF _ calm_release]
      split: option.splits prod.splits bool.splits)

lemma calm_fold: "(\<And>x w. calm w (f x w)) \<Longrightarrow> calm w (fold f xs w)"
  by (induction xs arbitrary: w) (auto intro: calm_trans)

lemma calm_release_each [simp]: "calm w (release_each ls w)"
  unfolding release_each_def by (rule calm_fold) simp

lemma calm_acquire_all: "calm w (snd (acquire_all rs ex w))"
proof (induction rs arbitrary: w)
  case (Cons r rs)
  show ?case
  proof (cases "acquire r ex w")
    case (Inr p)
    obtain l w1 where p: "p = (l, w1)" by (cases p)
    have one: "calm w w1" using calm_acquire Inr p by blast
    obtain res w2 where rest: "acquire_all rs ex w1 = (res, w2)" by (cases "acquire_all rs ex w1")
    have "calm w w2" using calm_trans [OF one] Cons.IH [of w1] rest by simp
    then show ?thesis using Inr p rest by (auto intro: calm_trans split: sum.splits)
  qed simp
qed simp

lemma calm_retain_each: "calm w (snd (retain_each ps ex w))"
proof (induction ps arbitrary: w)
  case (Cons p ps)
  obtain res1 w1 where one: "retain p ex w = (res1, w1)" by (cases "retain p ex w")
  then have c1: "calm w w1" using calm_acquire_all [of w "capturedResources w p" ex] by (simp add: retain_def)
  obtain res2 w2 where rest: "retain_each ps ex w1 = (res2, w2)" by (cases "retain_each ps ex w1")
  have "calm w w2" using calm_trans [OF c1] Cons.IH [of w1] rest by simp
  then show ?case using one c1 rest by (auto intro: calm_trans split: sum.splits)
qed simp

lemma record_cleanup_resources [simp]:
  "resources (record_cleanup r w) = (resources w)[r := (resources w ! r)\<lparr>rs_cleanup := Some (nextOccurrence w)\<rparr>]"
  by (simp add: record_cleanup_def cleanup_def Let_def on_resource_def)

lemma record_cleanup_same [simp]:
  "scopes (record_cleanup r w) = scopes w" "tasks (record_cleanup r w) = tasks w" "groups (record_cleanup r w) = groups w"
  "callbacks (record_cleanup r w) = callbacks w" "uses (record_cleanup r w) = uses w" "closes (record_cleanup r w) = closes w"
  "deadlines (record_cleanup r w) = deadlines w" "failed (record_cleanup r w) = True"
  by (simp_all add: record_cleanup_def cleanup_def Let_def on_resource_def)

section \<open>Leases and the close protocol\<close>

definition protocol :: "(nat \<times> nat) list \<Rightarrow> closer option \<Rightarrow> bool \<Rightarrow> life \<Rightarrow> bool" where
  "protocol leases closing auto state \<longleftrightarrow>
     distinct (map fst leases) \<and> (\<forall>p \<in> set leases. 0 < snd p)
     \<and> (case closing of
          None \<Rightarrow> if auto then state = Closing else state = Open
        | Some Waiting \<Rightarrow> state = Closing \<and> \<not> auto
        | Some Invoking \<Rightarrow> state = Closing \<and> \<not> auto \<and> leases = []
        | Some (Settled b) \<Rightarrow> state = (if b then Closed else Closing) \<and> \<not> auto \<and> leases = [])"

definition rs_inv :: "resource_state \<Rightarrow> bool" where
  "rs_inv st \<longleftrightarrow> protocol (rs_leases st) (rs_closing st) (rs_autoPending st) (rs_state st)"

definition close_called :: "resource_state \<Rightarrow> bool" where
  "close_called st = (case rs_closing st of Some Invoking \<Rightarrow> True | Some (Settled _) \<Rightarrow> True | _ \<Rightarrow> False)"

text \<open>The leases held by tasks that have not settled, and all that is held; \<open>extra\<close> counts leases in transit.\<close>

definition task_held :: "task list \<Rightarrow> lease \<Rightarrow> nat" where
  "task_held ts l = sum_list (map (\<lambda>t. if tk_completion t = None then count_list (tk_release t) l else 0) ts)"

definition once_held :: "resource_state \<Rightarrow> nat \<Rightarrow> nat" where
  "once_held st k = (if rs_once st = Some (k, False) then 1 else 0)"

definition held :: "world \<Rightarrow> lease list \<Rightarrow> lease \<Rightarrow> nat" where
  "held w extra l = count_list (uses w) l + task_held (tasks w) l + count_list extra l"

definition core_inv :: "world \<Rightarrow> lease list \<Rightarrow> bool" where
  "core_inv w extra \<longleftrightarrow>
     (\<forall>r < length (resources w). rs_inv (resources w ! r))
     \<and> (\<forall>r < length (resources w). \<forall>k.
          lease_count (rs_leases (resources w ! r)) k = held w extra (r, k) + once_held (resources w ! r) k)
     \<and> (\<forall>l. 0 < held w extra l \<longrightarrow> fst l < length (resources w))
     \<and> (\<forall>r. count_list (closes w) r = (if r < length (resources w) \<and> close_called (resources w ! r) then 1 else 0))"

lemma rs_inv_irrelevant [simp]:
  "rs_inv (st\<lparr>rs_once := x\<rparr>) = rs_inv st" "rs_inv (st\<lparr>rs_cleanup := y\<rparr>) = rs_inv st"
  "rs_inv (st\<lparr>rs_timer := z\<rparr>) = rs_inv st" "rs_inv (st\<lparr>rs_creator := c\<rparr>) = rs_inv st"
  "rs_inv (st\<lparr>rs_initialRelease := i\<rparr>) = rs_inv st"
  by (simp_all add: rs_inv_def)

lemma close_called_irrelevant [simp]:
  "close_called (st\<lparr>rs_once := x\<rparr>) = close_called st" "close_called (st\<lparr>rs_cleanup := y\<rparr>) = close_called st"
  "close_called (st\<lparr>rs_timer := z\<rparr>) = close_called st" "close_called (st\<lparr>rs_creator := c\<rparr>) = close_called st"
  "close_called (st\<lparr>rs_initialRelease := i\<rparr>) = close_called st" "close_called (st\<lparr>rs_leases := ls\<rparr>) = close_called st"
  "close_called (st\<lparr>rs_state := s\<rparr>) = close_called st" "close_called (st\<lparr>rs_autoPending := a\<rparr>) = close_called st"
  by (simp_all add: close_called_def)

lemma core_invD:
  assumes "core_inv w extra"
  shows "r < length (resources w) \<Longrightarrow> rs_inv (resources w ! r)"
    and "r < length (resources w) \<Longrightarrow>
      lease_count (rs_leases (resources w ! r)) k = held w extra (r, k) + once_held (resources w ! r) k"
    and "0 < held w extra l \<Longrightarrow> fst l < length (resources w)"
    and "count_list (closes w) r = (if r < length (resources w) \<and> close_called (resources w ! r) then 1 else 0)"
  using assms unfolding core_inv_def by blast+

lemma core_inv_cong:
  assumes "resources w' = resources w" "tasks w' = tasks w" "uses w' = uses w" "closes w' = closes w"
  shows "core_inv w' extra = core_inv w extra"
  using assms by (simp add: core_inv_def held_def)

lemma core_inv_held:
  assumes "resources w' = resources w" "closes w' = closes w" "\<And>l. held w' extra' l = held w extra l"
  shows "core_inv w' extra' = core_inv w extra"
  using assms by (simp add: core_inv_def)

text \<open>An update of one resource.\<close>

lemma core_inv_on_resource:
  assumes "core_inv w extra" and "r < length (resources w) \<Longrightarrow> rs_inv (resources w ! r) \<Longrightarrow> rs_inv (f (resources w ! r))"
    and "\<And>st. rs_leases (f st) = rs_leases st" and "\<And>st. rs_once (f st) = rs_once st"
    and "r < length (resources w) \<Longrightarrow> close_called (f (resources w ! r)) = close_called (resources w ! r)"
  shows "core_inv (on_resource r f w) extra"
  using assms by (auto simp: core_inv_def on_resource_def held_def once_held_def nth_update)

lemma lease_count_update [simp]:
  "lease_count (AList.update k n xs) k' = (if k' = k then n else lease_count xs k')"
  by (simp add: lease_count_def update_conv')

lemma lease_count_delete [simp]:
  "lease_count (AList.delete k xs) k' = (if k' = k then 0 else lease_count xs k')"
  by (simp add: lease_count_def delete_conv')

lemma in_update: "p \<in> set (AList.update k n xs) \<Longrightarrow> p = (k, n) \<or> p \<in> set xs"
  by (induction xs) (auto split: if_splits)

lemma rs_inv_update:
  assumes "rs_inv st" and "rs_leases st \<noteq> [] \<or> \<not> close_called st" and "0 < n"
  shows "rs_inv (st\<lparr>rs_leases := AList.update k n (rs_leases st)\<rparr>)"
  using assms by (auto simp: rs_inv_def protocol_def close_called_def distinct_update dest!: in_update split: option.splits closer.splits)

lemma rs_inv_delete: "rs_inv st \<Longrightarrow> rs_inv (st\<lparr>rs_leases := AList.delete k (rs_leases st)\<rparr>)"
  by (auto simp: rs_inv_def protocol_def AList.delete_eq distinct_map inj_on_def split: option.splits closer.splits)

lemma core_inv_leases:
  assumes inv: "core_inv w extra" and r: "r < length (resources w)" and res: "resources w' = (resources w)[r := st]"
    and same: "tasks w' = tasks w" "uses w' = uses w" "closes w' = closes w"
    and st: "rs_inv st" "close_called st = close_called (resources w ! r)"
    and cnt: "\<And>k. lease_count (rs_leases st) k + count_list extra (r, k) + once_held (resources w ! r) k
        = lease_count (rs_leases (resources w ! r)) k + count_list extra' (r, k) + once_held st k"
    and other: "\<And>l. fst l \<noteq> r \<Longrightarrow> count_list extra' l = count_list extra l"
  shows "core_inv w' extra'"
proof -
  have eq: "lease_count (rs_leases (resources w ! q)) k = held w extra (q, k) + once_held (resources w ! q) k"
    if "q < length (resources w)" for q k using inv that by (simp add: core_inv_def)
  have hold: "held w' extra' (q, k) = held w extra (q, k)" if "q \<noteq> r" for q k
    using other [of "(q, k)"] that same by (simp add: held_def)
  have "lease_count (rs_leases st) k = held w' extra' (r, k) + once_held st k" for k
    using eq [OF r, of k] cnt [of k] same by (simp add: held_def)
  then have 2: "\<forall>q < length (resources w'). \<forall>k.
      lease_count (rs_leases (resources w' ! q)) k = held w' extra' (q, k) + once_held (resources w' ! q) k"
    using eq hold by (simp add: res nth_update)
  have 3: "\<forall>l. 0 < held w' extra' l \<longrightarrow> fst l < length (resources w')"
    using inv hold r by (auto simp: core_inv_def res) (metis)
  have 4: "\<forall>q. count_list (closes w') q = (if q < length (resources w') \<and> close_called (resources w' ! q) then 1 else 0)"
    using inv st(2) same(3) by (simp add: core_inv_def res nth_update)
  show ?thesis using inv st(1) 2 3 4 by (simp add: core_inv_def res nth_update)
qed

text \<open>Taking and giving back a lease moves it between the resource and its holder.\<close>

lemma acquire_core:
  assumes "core_inv w extra" and "r < length (resources w)" and "acquire r ex w = Inr (l, w')"
  shows "core_inv w' (l # extra)" and "fst l = r"
proof -
  let ?st = "resources w ! r" and ?k = "owner_key ex w"
  let ?f = "\<lambda>st. st\<lparr>rs_leases := AList.update ?k (lease_count (rs_leases st) ?k + 1) (rs_leases st)\<rparr>"
  have l: "l = (r, ?k)" and w': "w' = on_resource r ?f w" and st: "rs_state ?st \<noteq> Closed"
    "rs_state ?st = Closing \<longrightarrow> ?k \<in> set (map fst (rs_leases ?st))"
    using assms(3) by (auto simp: acquire_def Let_def split: if_splits)
  have inv: "rs_inv ?st" using assms(1,2) by (simp add: core_inv_def)
  then have "rs_leases ?st \<noteq> [] \<or> \<not> close_called ?st"
    using st by (auto simp: rs_inv_def protocol_def close_called_def split: option.splits closer.splits if_splits)
  then have "rs_inv (?f ?st)" using inv by (intro rs_inv_update) auto
  then show "core_inv w' (l # extra)"
    unfolding w' l
    by (intro core_inv_leases [OF assms(1,2), where st = "?f ?st"]) (auto simp: on_resource_def once_held_def)
  show "fst l = r" by (simp add: l)
qed

lemma release_core:
  assumes "core_inv w (l # extra)"
  shows "core_inv (release l w) extra"
proof -
  obtain r k where l: "l = (r, k)" by (cases l)
  let ?st = "resources w ! r"
  let ?f = "\<lambda>st. let n = lease_count (rs_leases st) k in st\<lparr>rs_leases :=
      (if n = 1 then AList.delete k (rs_leases st) else AList.update k (n - 1) (rs_leases st))\<rparr>"
  have "0 < held w (l # extra) l" by (simp add: held_def)
  then have r: "r < length (resources w)" using core_invD(3) [OF assms] l by fastforce
  have cnt: "0 < lease_count (rs_leases ?st) k" using core_invD(2) [OF assms r, of k] by (simp add: held_def l)
  then have "rs_leases ?st \<noteq> []" by (auto simp: lease_count_def)
  then have inv: "rs_inv (?f ?st)"
    using core_invD(1) [OF assms r] cnt by (auto simp: Let_def intro!: rs_inv_update rs_inv_delete)
  show ?thesis
    unfolding release_def l fst_conv snd_conv
    by (rule core_inv_leases [OF assms r, where st = "?f ?st"])
      (use inv cnt in \<open>auto simp: on_resource_def once_held_def Let_def l split: if_splits\<close>)
qed

lemma release_once_core:
  assumes "core_inv w extra"
  shows "core_inv (release_once r w) extra"
proof (cases "r < length (resources w) \<and> (\<exists>k. rs_once (resources w ! r) = Some (k, False))")
  case True
  then obtain k where k: "rs_once (resources w ! r) = Some (k, False)" and r: "r < length (resources w)" by blast
  have "core_inv (on_resource r (\<lambda>st. st\<lparr>rs_once := Some (k, True)\<rparr>) w) ((r, k) # extra)"
    by (rule core_inv_leases [OF assms r, where st = "(resources w ! r)\<lparr>rs_once := Some (k, True)\<rparr>"])
      (use assms r k in \<open>auto simp: on_resource_def once_held_def core_inv_def\<close>)
  then show ?thesis using k by (simp add: release_once_def release_core)
next
  case False
  then show ?thesis
    using assms
    by (auto simp: release_once_def release_def on_resource_def list_update_beyond not_less
        split: option.splits prod.splits bool.splits intro: core_inv_cong [THEN iffD2])
qed

lemma release_each_core: "core_inv w (ls @ extra) \<Longrightarrow> core_inv (release_each ls w) extra"
  by (induction ls arbitrary: w) (auto simp: release_each_def release_core)

lemma fold_core: "(\<And>x w. core_inv w extra \<Longrightarrow> core_inv (f x w) extra) \<Longrightarrow> core_inv w extra \<Longrightarrow> core_inv (fold f xs w) extra"
  by (induction xs arbitrary: w) auto

lemma core_inv_permute: "core_inv w xs \<Longrightarrow> mset xs = mset ys \<Longrightarrow> core_inv w ys"
  by (simp add: core_inv_def held_def flip: count_mset)

text \<open>Tasks.\<close>

lemma task_held_append [simp]: "task_held (ts @ us) l = task_held ts l + task_held us l"
  by (simp add: task_held_def)

lemma task_held_update:
  assumes "t < length ts"
  shows "task_held (ts[t := x]) l + (if tk_completion (ts ! t) = None then count_list (tk_release (ts ! t)) l else 0)
     = task_held ts l + (if tk_completion x = None then count_list (tk_release x) l else 0)"
proof -
  have "task_held ts l = task_held (take t ts @ ts ! t # drop (Suc t) ts) l" using assms by (simp flip: id_take_nth_drop)
  moreover have "task_held (ts[t := x]) l = task_held (take t ts @ x # drop (Suc t) ts) l"
    using assms by (simp add: upd_conv_take_nth_drop)
  ultimately show ?thesis by (simp add: task_held_def)
qed

lemma on_task_core:
  assumes "core_inv w extra" and "\<And>tk. tk_completion (f tk) = tk_completion tk" and "\<And>tk. tk_release (f tk) = tk_release tk"
  shows "core_inv (on_task t f w) extra"
proof -
  have "task_held ((tasks w)[t := f (tasks w ! t)]) l = task_held (tasks w) l" for l
    using task_held_update [of t "tasks w" "f (tasks w ! t)" l]
    by (cases "t < length (tasks w)") (auto simp: list_update_beyond assms(2,3) split: if_splits)
  then show ?thesis using assms(1) by (simp add: core_inv_def held_def on_task_def)
qed

lemma complete_task_core:
  assumes "core_inv w extra" and "t < length (tasks w)" and "tk_completion (tasks w ! t) = None"
  shows "core_inv (on_task t (\<lambda>tk. tk\<lparr>tk_completion := Some c\<rparr>) w) (tk_release (tasks w ! t) @ extra)"
proof -
  have "task_held ((tasks w)[t := (tasks w ! t)\<lparr>tk_completion := Some c\<rparr>]) l + count_list (tk_release (tasks w ! t)) l
      = task_held (tasks w) l" for l
    using task_held_update [OF assms(2), of "(tasks w ! t)\<lparr>tk_completion := Some c\<rparr>" l] assms(3) by simp
  then have "held (on_task t (\<lambda>tk. tk\<lparr>tk_completion := Some c\<rparr>) w) (tk_release (tasks w ! t) @ extra) l = held w extra l" for l
    by (simp add: held_def on_task_def add.assoc [symmetric])
  then show ?thesis using assms(1) by (simp add: core_inv_def on_task_def)
qed

lemma add_tasks_core:
  assumes "core_inv w (concat (map tk_release ts) @ extra)" and "\<And>tk. tk \<in> set ts \<Longrightarrow> tk_completion tk = None"
    and "resources w' = resources w" "uses w' = uses w" "closes w' = closes w" "tasks w' = tasks w @ ts"
  shows "core_inv w' extra"
proof -
  have "task_held ts l = count_list (concat (map tk_release ts)) l" for l
    using assms(2) by (induction ts) (auto simp: task_held_def)
  then have "held w' extra l = held w (concat (map tk_release ts) @ extra) l" for l
    using assms(4,6) by (simp add: held_def)
  then show ?thesis using assms(1,3,5) by (simp add: core_inv_def)
qed

section \<open>Every run keeps the leases\<close>

lemma add_resource_core:
  assumes "core_inv w extra" and "rs_inv st" "rs_leases st = []" "rs_once st = None" "\<not> close_called st"
  shows "core_inv (w\<lparr>resources := resources w @ [st]\<rparr>) extra"
proof -
  have "held w extra (length (resources w), k) = 0" for k using core_invD(3) [OF assms(1), of "(length (resources w), k)"] by auto
  moreover have "count_list (closes w) (length (resources w)) = 0" using core_invD(4) [OF assms(1), of "length (resources w)"] by simp
  ultimately show ?thesis
    using assms unfolding core_inv_def held_def once_held_def
    by (auto simp: nth_append lease_count_def less_Suc_eq_le le_less)
qed

lemma lend_initial_core:
  assumes "core_inv w extra" and "r < length (resources w)" and "rs_once (resources w ! r) = None"
    and "lend_initial r ex t w = Inr w'"
  shows "core_inv w' extra"
proof -
  obtain l w1 where acq: "acquire r ex w = Inr (l, w1)" using assms(4) by (auto simp: lend_initial_def split: sum.splits)
  have core1: "core_inv w1 (l # extra)" "fst l = r" using acquire_core [OF assms(1,2) acq] .
  have len1: "r < length (resources w1)" and once1: "rs_once (resources w1 ! r) = None"
    using acq assms(2,3) by (auto simp: acquire_def Let_def on_resource_def split: if_splits)
  let ?f = "\<lambda>st. st\<lparr>rs_creator := Some t, rs_initialRelease := True, rs_once := Some (snd l, False)\<rparr>"
  have "core_inv (on_resource r ?f w1) extra"
    by (rule core_inv_leases [OF core1(1) len1, where st = "?f (resources w1 ! r)"])
      (use core1 len1 once1 in \<open>auto simp: on_resource_def once_held_def core_invD(1) prod_eq_iff\<close>)
  then have "core_inv (on_task t (\<lambda>tk. tk\<lparr>tk_dynamic := tk_dynamic tk @ [r]\<rparr>) (on_resource r ?f w1)) extra"
    by (rule on_task_core) simp_all
  then show ?thesis
    using assms(4) acq by (auto simp: lend_initial_def Let_def on_scope_def core_inv_def held_def split: if_splits)
qed

lemma new_resource_inv: "rs_inv (new_resource kind s i m d)" "\<not> close_called (new_resource kind s i m d)"
  by (simp_all add: rs_inv_def protocol_def close_called_def new_resource_def)

lemma register_core:
  assumes "core_inv w extra" and "registerResourceCore ex kind i m d w = Inr (r, w')"
  shows "core_inv w' extra"
proof -
  let ?w = "w\<lparr>resources := resources w @ [new_resource kind (ex_scope ex) i m d]\<rparr>"
  have new: "core_inv ?w extra"
    using new_resource_inv by (intro add_resource_core [OF assms(1)]) (simp_all add: new_resource_def)
  have "w' = ?w \<or> (\<exists>t. lend_initial (length (resources w)) ex t ?w = Inr w')"
    using assms(2) by (auto simp: registerResourceCore_def Let_def split: if_splits option.splits sum.splits)
  moreover have "core_inv w' extra" if "lend_initial (length (resources w)) ex t ?w = Inr w'" for t
    using lend_initial_core [OF new _ _ that] by (simp add: new_resource_def)
  ultimately show ?thesis using new by blast
qed

lemma useResourceCore_core:
  assumes "core_inv w extra" and "useResourceCore ex r kind w = Inr (l, w')"
  shows "core_inv w' extra"
proof -
  have r: "r < length (resources w)" using assms(2) by (auto simp: useResourceCore_def resource_def split: if_splits sum.splits)
  obtain w1 where acq: "acquire r ex w = Inr (l, w1)" and w': "w' = w1\<lparr>uses := l # uses w1\<rparr>"
    using assms(2) by (auto simp: useResourceCore_def resource_def split: if_splits sum.splits)
  show ?thesis using acquire_core(1) [OF assms(1) r acq] unfolding w'
    by (subst core_inv_held [where w = w1 and extra = "l # extra"]) (simp_all add: held_def)
qed

lemma use_end_core:
  assumes "core_inv w extra" and "l \<in> set (uses w)"
  shows "core_inv (use_end l w) extra"
proof -
  have "held (w\<lparr>uses := remove1 l (uses w)\<rparr>) (l # extra) l' = held w extra l'" for l'
    using assms(2) count_notin [of l "uses w"] count_list_0_iff [of "uses w" l] by (auto simp: held_def)
  then have "core_inv (w\<lparr>uses := remove1 l (uses w)\<rparr>) (l # extra)" using assms(1) by (simp add: core_inv_def)
  then show ?thesis by (simp add: use_end_def release_core)
qed

lemma record_cleanup_core [intro]:
  assumes "core_inv w extra"
  shows "core_inv (record_cleanup r w) extra"
proof -
  let ?v = "on_resource r (\<lambda>st. st\<lparr>rs_cleanup := Some (nextOccurrence w)\<rparr>) w"
  have "core_inv ?v extra" by (rule core_inv_on_resource [OF assms]) simp_all
  moreover have "core_inv (record_cleanup r w) extra = core_inv ?v extra"
    by (rule core_inv_cong) (simp_all add: on_resource_def)
  ultimately show ?thesis by simp
qed

lemma beginClose_core:
  assumes "core_inv w extra" and "r < length (resources w) \<Longrightarrow> rs_closing (resources w ! r) = None"
  shows "core_inv (beginClose r w) extra"
  unfolding beginClose_def
  by (rule core_inv_on_resource [OF assms(1)]) (use assms(2) in \<open>auto simp: rs_inv_def protocol_def close_called_def\<close>)

lemma close_poll_core:
  assumes "core_inv w extra" and "r < length (resources w)" and "rs_closing (resources w ! r) = Some Waiting"
  shows "core_inv (close_poll r w) extra"
proof (cases "rs_leases (resources w ! r) = []")
  case True
  let ?st = "(resources w ! r)\<lparr>rs_closing := Some Invoking\<rparr>"
  have "rs_inv ?st" using core_invD(1) [OF assms(1,2)] assms(3) True by (auto simp: rs_inv_def protocol_def)
  moreover have "close_called ?st" "\<not> close_called (resources w ! r)" using assms(3) by (simp_all add: close_called_def)
  ultimately show ?thesis
    using assms(1,2) True
    by (auto simp: close_poll_def core_inv_def on_resource_def held_def once_held_def nth_update)
next
  case False
  then show ?thesis using assms(1) by (simp add: close_poll_def)
qed

lemma close_finish_core:
  assumes "core_inv w extra" and "rs_closing (resources w ! r) = Some Invoking"
  shows "core_inv (close_finish r c w) extra"
proof -
  let ?w = "on_resource r (\<lambda>st. st\<lparr>rs_timer := False, rs_closing := Some (Settled (c = OkOutcome))\<rparr>) w"
  let ?f = "\<lambda>st. st\<lparr>rs_timer := False, rs_closing := Some (Settled True), rs_state := Closed, rs_creator := None,
      rs_initialRelease := False\<rparr>"
  have "core_inv (on_resource r ?f w) extra"
    by (rule core_inv_on_resource [OF assms(1)]) (use assms(2) in \<open>auto simp: rs_inv_def protocol_def close_called_def\<close>)
  moreover have "core_inv ?w extra" if "c \<noteq> OkOutcome"
    by (rule core_inv_on_resource [OF assms(1)]) (use that assms(2) in \<open>auto simp: rs_inv_def protocol_def close_called_def\<close>)
  moreover have "close_finish r c w = on_resource r ?f w" if "c = OkOutcome"
    using that by (cases "r < length (resources w)") (simp_all add: close_finish_def Let_def on_resource_def list_update_beyond)
  ultimately show ?thesis by (cases "c = OkOutcome") (auto simp: close_finish_def Let_def)
qed

lemmas release_once_same [simp] = calmD [OF calm_release_once] 

lemma release_once_closing [simp]: "r < length (resources w) \<Longrightarrow>
  rs_closing (resources (release_once q w) ! r) = rs_closing (resources w ! r)"
  by (simp add: calm_resource)

text \<open>What \<open>closeResourceCore\<close> does once it has admitted the call.\<close>

lemma closeResourceCore_Inr:
  assumes "closeResourceCore ex r kind d w = Inr w'"
  obtains v u where "r < length (resources w)" "v = w \<or> v = release_once r w"
    "u = v \<and> rs_closing (resources v ! r) \<noteq> None \<or> u = beginClose r v \<and> rs_closing (resources v ! r) = None"
    "w' = u \<or> w' = u\<lparr>deadlines := r # deadlines u\<rparr>"
proof -
  define v where "v = (if rs_creator (resources w ! r) = ex_task ex \<and> rs_initialRelease (resources w ! r) then release_once r w else w)"
  define u where "u = (case rs_closing (resources v ! r) of Some _ \<Rightarrow> v | None \<Rightarrow> beginClose r v)"
  have "r < length (resources w)"
    using assms by (auto simp: closeResourceCore_def resource_def split: if_splits sum.splits)
  moreover have "w' = u \<or> w' = u\<lparr>deadlines := r # deadlines u\<rparr>"
    using assms
    by (auto simp: closeResourceCore_def resource_def Let_def v_def [symmetric] u_def [symmetric] split: if_splits sum.splits option.splits)
  moreover have "v = w \<or> v = release_once r w" by (simp add: v_def)
  moreover have "u = v \<and> rs_closing (resources v ! r) \<noteq> None \<or> u = beginClose r v \<and> rs_closing (resources v ! r) = None"
    by (simp add: u_def split: option.splits)
  ultimately show ?thesis using that by blast
qed

lemma closeResourceCore_core:
  assumes "core_inv w extra" and "closeResourceCore ex r kind d w = Inr w'"
  shows "core_inv w' extra"
proof (rule closeResourceCore_Inr [OF assms(2)])
  fix v u assume "v = w \<or> v = release_once r w"
    "u = v \<and> rs_closing (resources v ! r) \<noteq> None \<or> u = beginClose r v \<and> rs_closing (resources v ! r) = None"
    and w': "w' = u \<or> w' = u\<lparr>deadlines := r # deadlines u\<rparr>"
  then have "core_inv u extra" using assms(1) release_once_core beginClose_core by blast
  then show ?thesis using w' by (auto simp: core_inv_def held_def)
qed

text \<open>Retaining captures.\<close>

lemma visit_captured_valid:
  "set found \<subseteq> {..<length (resources w)} \<Longrightarrow> set (visit_captured w v found) \<subseteq> {..<length (resources w)}"
proof (induction v arbitrary: found)
  case (COpaque vs)
  then show ?case by (induction vs arbitrary: found) auto
next
  case (CCallable vs)
  then show ?case by (induction vs arbitrary: found) auto
next
  case (CData vs)
  then show ?case by (induction vs arbitrary: found) auto
qed auto

lemma capturedResources_valid: "set (capturedResources w vs) \<subseteq> {..<length (resources w)}"
proof -
  have "set found \<subseteq> {..<length (resources w)} \<Longrightarrow> set (fold (visit_captured w) vs found) \<subseteq> {..<length (resources w)}" for found
    by (induction vs arbitrary: found) (simp_all add: visit_captured_valid)
  then show ?thesis by (simp add: capturedResources_def)
qed

lemma acquire_length: "acquire r ex w = Inr (l, w') \<Longrightarrow> length (resources w') = length (resources w)"
  by (auto simp: acquire_def Let_def on_resource_def split: if_splits)

lemma acquire_all_core:
  assumes "core_inv w extra" and "set rs \<subseteq> {..<length (resources w)}" and "acquire_all rs ex w = (res, w')"
  shows "core_inv w' ((case res of Inl e \<Rightarrow> [] | Inr ls \<Rightarrow> ls) @ extra)"
  using assms
proof (induction rs arbitrary: w res w' extra)
  case (Cons r rs)
  show ?case
  proof (cases "acquire r ex w")
    case (Inr p)
    obtain l w1 where p: "p = (l, w1)" by (cases p)
    note acq = Inr [unfolded p]
    obtain res1 w2 where rest: "acquire_all rs ex w1 = (res1, w2)" by (cases "acquire_all rs ex w1")
    have "core_inv w2 ((case res1 of Inl e \<Rightarrow> [] | Inr ls \<Rightarrow> ls) @ l # extra)"
      using Cons.IH [OF acquire_core(1) [OF Cons.prems(1) _ acq] _ rest] Cons.prems(2) acquire_length [OF acq] by auto
    then show ?thesis
      using Cons.prems(3) acq rest by (auto simp: release_core split: sum.splits intro: core_inv_permute)
  qed (use Cons.prems in auto)
qed auto

lemma retain_each_core:
  assumes "core_inv w extra" and "retain_each ps ex w = (res, w')"
  shows "core_inv w' ((case res of Inl e \<Rightarrow> [] | Inr lss \<Rightarrow> concat lss) @ extra)"
  using assms
proof (induction ps arbitrary: w res w' extra)
  case (Cons p ps)
  obtain res1 w1 where one: "retain p ex w = (res1, w1)" by (cases "retain p ex w")
  have core1: "core_inv w1 ((case res1 of Inl e \<Rightarrow> [] | Inr ls \<Rightarrow> ls) @ extra)"
    using acquire_all_core [OF Cons.prems(1) capturedResources_valid] one by (simp add: retain_def)
  show ?case
  proof (cases res1)
    case (Inr ls)
    obtain res2 w2 where rest: "retain_each ps ex w1 = (res2, w2)" by (cases "retain_each ps ex w1")
    have "core_inv w2 ((case res2 of Inl e \<Rightarrow> [] | Inr lss \<Rightarrow> concat lss) @ ls @ extra)"
      using Cons.IH [OF _ rest] core1 Inr by auto
    moreover have "core_inv (release_each (rev ls) w2) extra" if "core_inv w2 (ls @ extra)"
      using release_each_core [of w2 "rev ls" extra] core_inv_permute [OF that, of "rev ls @ extra"] by simp
    ultimately show ?thesis
      using Cons.prems(2) one rest Inr by (auto split: sum.splits intro: core_inv_permute)
  qed (use Cons.prems one core1 in auto)
qed auto

lemma retain_each_length:
  "retain_each ps ex w = (Inr lss, w') \<Longrightarrow> length lss = length ps"
  by (induction ps arbitrary: w lss w') (auto split: prod.splits sum.splits)


lemma prepareLaunch_cases:
  assumes "prepareLaunch ex ps native w = (res, w')"
  obtains "w' = w"
  | w1 key res1 w2 where "w1 = w \<or> w1 = w\<lparr>nextKey := nextKey w + 1\<rparr>"
      "retain_each ps (ex\<lparr>ex_owner := Some key\<rparr>) w1 = (Inl res1, w2)" "w' = w2"
  | w1 key lss w2 where "w1 = w \<or> w1 = w\<lparr>nextKey := nextKey w + 1\<rparr>"
      "retain_each ps (ex\<lparr>ex_owner := Some key\<rparr>) w1 = (Inr lss, w2)"
      "w' = w2\<lparr>groups := groups w2 @ [\<lparr>gr_scope = ex_scope ex, gr_key = key,
           gr_tasks = [length (tasks w2)..<length (tasks w2) + length ps], gr_sealed = False,
           gr_selected = [], gr_pending = int (length ps), gr_active = True\<rparr>],
         tasks := tasks w2 @ map (\<lambda>ls. \<lparr>tk_scope = ex_scope ex, tk_dynamic = [], tk_completion = None,
           tk_release = ls\<rparr>) lss\<rparr>"
proof -
  define pick where "pick = (case (native, ex_owner ex) of
      (True, Some k) \<Rightarrow> (k, w) | _ \<Rightarrow> (nextKey w, w\<lparr>nextKey := nextKey w + 1\<rparr>))"
  obtain key w1 where kw: "pick = (key, w1)" by (cases pick)
  have w1: "w1 = w \<or> w1 = w\<lparr>nextKey := nextKey w + 1\<rparr>"
    using kw by (auto simp: pick_def split: bool.splits option.splits)
  obtain res2 w2 where ret: "retain_each ps (ex\<lparr>ex_owner := Some key\<rparr>) w1 = (res2, w2)"
    by (cases "retain_each ps (ex\<lparr>ex_owner := Some key\<rparr>) w1")
  have run: "w' = w \<or> prepareLaunch ex ps native w = (res, w') \<and>
      w' = (case res2 of Inl e \<Rightarrow> w2 | Inr lss \<Rightarrow>
        w2\<lparr>groups := groups w2 @ [\<lparr>gr_scope = ex_scope ex, gr_key = key,
             gr_tasks = [length (tasks w2)..<length (tasks w2) + length ps], gr_sealed = False,
             gr_selected = [], gr_pending = int (length ps), gr_active = True\<rparr>],
           tasks := tasks w2 @ map (\<lambda>ls. \<lparr>tk_scope = ex_scope ex, tk_dynamic = [], tk_completion = None,
             tk_release = ls\<rparr>) lss\<rparr>)"
    using assms unfolding prepareLaunch_def pick_def [symmetric] kw
    by (cases res2) (simp_all add: ret split: if_splits)
  show ?thesis
  proof (cases "w' = w")
    case True
    then show ?thesis by (rule that(1))
  next
    case False
    then show ?thesis using run w1 ret that(2,3) by (cases res2) auto
  qed
qed

lemma core_inv_nextKey [simp]: "core_inv (w\<lparr>nextKey := n\<rparr>) extra = core_inv w extra"
  by (rule core_inv_cong) simp_all

lemma prepareLaunch_core:
  assumes "core_inv w extra" and "prepareLaunch ex ps native w = (res, w')"
  shows "core_inv w' extra"
  using assms(2)
proof (cases rule: prepareLaunch_cases)
  case 1
  then show ?thesis using assms(1) by simp
next
  case (2 w1 key res1 w2)
  then show ?thesis using retain_each_core [of w1 extra ps _ "Inl res1" w2] assms(1) by auto
next
  case (3 w1 key lss w2)
  define ts where "ts = map (\<lambda>ls. \<lparr>tk_scope = ex_scope ex, tk_dynamic = [], tk_completion = None, tk_release = ls\<rparr>) lss"
  have "core_inv w1 extra" using 3(1) assms(1) by auto
  from retain_each_core [OF this 3(2)] have "core_inv w2 (concat (map tk_release ts) @ extra)"
    by (simp add: ts_def comp_def)
  moreover have "tk_completion tk = None" if "tk \<in> set ts" for tk using that by (auto simp: ts_def)
  ultimately show ?thesis
    by (rule add_tasks_core) (simp_all add: 3(3) ts_def)
qed

lemma observeLaunched_same [simp]:
  "resources (observeLaunched g i w) = resources w" "tasks (observeLaunched g i w) = tasks w"
  "uses (observeLaunched g i w) = uses w" "closes (observeLaunched g i w) = closes w"
  "groups (observeLaunched g i w) = groups w" "callbacks (observeLaunched g i w) = callbacks w"
  "scopes (observeLaunched g i w) = scopes w"
  by (simp_all add: observeLaunched_def split: option.splits settlement.splits)

lemma fold_observe_same [simp]:
  "resources (fold (observeLaunched g) is w) = resources w" "tasks (fold (observeLaunched g) is w) = tasks w"
  "uses (fold (observeLaunched g) is w) = uses w" "closes (fold (observeLaunched g) is w) = closes w"
  "groups (fold (observeLaunched g) is w) = groups w" "callbacks (fold (observeLaunched g) is w) = callbacks w"
  "scopes (fold (observeLaunched g) is w) = scopes w"
  by (induction "is" arbitrary: w) simp_all

lemma finishLaunched_same [simp]:
  "resources (finishLaunched g i w) = resources w" "tasks (finishLaunched g i w) = tasks w"
  "uses (finishLaunched g i w) = uses w" "closes (finishLaunched g i w) = closes w"
  "callbacks (finishLaunched g i w) = callbacks w" "scopes (finishLaunched g i w) = scopes w"
  "map gr_tasks (groups (finishLaunched g i w)) = map gr_tasks (groups w)"
  by (auto simp: finishLaunched_def Let_def on_group_def map_update split: option.splits)
    (metis list_update_beyond list_update_id map_update not_less nth_map)+

lemma settleLaunched_core:
  assumes "core_inv w extra" and "gr_tasks (groups w ! g) ! i < length (tasks w)"
    and "tk_completion (tasks w ! (gr_tasks (groups w ! g) ! i)) = None"
  shows "core_inv (settleLaunched g i c w) extra"
proof -
  define t where "t = gr_tasks (groups w ! g) ! i"
  let ?w1 = "on_task t (\<lambda>tk. tk\<lparr>tk_completion := Some c\<rparr>) w"
  have rel: "tk_release (tasks ?w1 ! t) = tk_release (tasks w ! t)" using assms(2) by (simp add: on_task_def t_def nth_update)
  let ?w2 = "release_each (rev (tk_release (tasks ?w1 ! t))) ?w1"
  let ?w3 = "fold release_once (tk_dynamic (tasks ?w2 ! t)) ?w2"
  let ?w4 = "on_task t (\<lambda>tk. tk\<lparr>tk_dynamic := []\<rparr>) ?w3"
  have "core_inv ?w1 (tk_release (tasks w ! t) @ extra)" using complete_task_core [OF assms(1)] assms(2,3) by (simp add: t_def)
  then have "core_inv ?w1 (rev (tk_release (tasks ?w1 ! t)) @ extra)" unfolding rel by (rule core_inv_permute) simp
  then have "core_inv ?w2 extra" by (rule release_each_core)
  then have "core_inv ?w3 extra" by (intro fold_core release_once_core)
  then have "core_inv ?w4 extra" by (rule on_task_core) simp_all
  then show ?thesis
    unfolding settleLaunched_def Let_def t_def [symmetric]
    by (subst core_inv_cong [where w = ?w4]) (simp_all add: on_group_def)
qed

lemma settleCallbackTask_core:
  assumes "core_inv w extra" and "t < length (tasks w)" and "tk_completion (tasks w ! t) = None" and "tk_release (tasks w ! t) = []"
  shows "core_inv (settleCallbackTask t c w) extra"
proof -
  let ?w1 = "on_task t (\<lambda>tk. tk\<lparr>tk_completion := Some c\<rparr>) w"
  let ?w2 = "fold release_once (tk_dynamic (tasks ?w1 ! t)) ?w1"
  let ?w3 = "on_task t (\<lambda>tk. tk\<lparr>tk_dynamic := []\<rparr>) ?w2"
  have "core_inv ?w1 extra" using complete_task_core [OF assms(1,2,3)] assms(4) by simp
  then have "core_inv ?w2 extra" by (intro fold_core release_once_core)
  then have "core_inv ?w3 extra" by (rule on_task_core) simp_all
  then show ?thesis
    unfolding settleCallbackTask_def Let_def by (subst core_inv_cong [where w = ?w3]) simp_all
qed

lemma timer_fired_core:
  assumes "core_inv w extra"
  shows "core_inv (timer_fired r w) extra"
proof -
  let ?w = "on_resource r (\<lambda>st. st\<lparr>rs_timer := False\<rparr>) w"
  have w: "core_inv ?w extra" by (rule core_inv_on_resource [OF assms]) simp_all
  have "core_inv (on_resource r (\<lambda>st. st\<lparr>rs_state := Closing, rs_autoPending := True\<rparr>) ?w) extra"
    if "rs_state (resources ?w ! r) = Open"
    by (rule core_inv_on_resource [OF w])
      (use that in \<open>auto simp: rs_inv_def protocol_def split: option.splits closer.splits if_splits\<close>)
  then show ?thesis using w by (auto simp: timer_fired_def Let_def)
qed

lemma core_inv_on_scope [simp]: "core_inv (on_scope s f w) extra = core_inv w extra"
  by (rule core_inv_cong) (simp_all add: on_scope_def)

lemma core_inv_set_phase [simp]: "core_inv (set_phase s p w) extra = core_inv w extra"
  by (simp add: set_phase_def)

lemma drain_gather_core:
  assumes "core_inv w extra"
  shows "core_inv (drain_gather s w) extra"
proof -
  have "core_inv (arm_timer s r w) extra" if "core_inv w extra" for r w
    using that by (auto simp: arm_timer_def Let_def intro!: core_inv_on_resource)
  then have "core_inv (fold (arm_timer s) rs w) extra" for rs using assms by (rule fold_core)
  then show ?thesis by (simp add: drain_gather_def Let_def)
qed

lemma drain_step_core:
  assumes "core_inv w extra"
  shows "core_inv (drain_step s w) extra"
proof -
  have "core_inv (drain_close s r rs first w) extra" for r rs first
  proof -
    let ?v = "if \<not> rs_scopeManaged (resources w ! r) \<and> rs_cleanup (resources w ! r) = None then record_cleanup r w else w"
    have "core_inv (beginClose r ?v) extra" if "rs_state (resources w ! r) = Open \<or> rs_autoPending (resources w ! r)"
    proof (rule beginClose_core)
      show "core_inv ?v extra" using assms by auto
      assume "r < length (resources ?v)"
      then have "r < length (resources w)" by (simp split: if_splits)
      then show "rs_closing (resources ?v ! r) = None"
        using core_invD(1) [OF assms, of r] that
        by (auto simp: rs_inv_def protocol_def split: option.splits closer.splits if_splits)
    qed
    then show ?thesis using assms by (auto simp: drain_close_def Let_def)
  qed
  then show ?thesis
    using assms drain_gather_core
    by (auto simp: drain_step_def split: option.splits drain_phase.splits list.splits closer.splits)
qed

lemma settleScopeBody_core: "core_inv w extra \<Longrightarrow> core_inv (settleScopeBody s w) extra"
  by (auto simp: settleScopeBody_def Let_def intro!: drain_gather_core fold_core release_once_core)

section \<open>Every run keeps the invariant\<close>

text \<open>Groups and callbacks name existing tasks, and a callback retains no captures.\<close>

definition index_ok :: "world \<Rightarrow> bool" where
  "index_ok w \<longleftrightarrow>
     (\<forall>gr \<in> set (groups w). \<forall>t \<in> set (gr_tasks gr). t < length (tasks w))
     \<and> (\<forall>t \<in> set (callbacks w). t < length (tasks w) \<and> tk_release (tasks w ! t) = [])"

definition owner_inv :: "world \<Rightarrow> bool" where
  "owner_inv w \<longleftrightarrow> core_inv w [] \<and> index_ok w"

lemma index_ok_keep:
  assumes "index_ok w" and "map gr_tasks (groups w') = map gr_tasks (groups w)" and "set (callbacks w') \<subseteq> set (callbacks w)"
    and "map tk_release (tasks w') = map tk_release (tasks w)"
  shows "index_ok w'"
proof -
  have len: "length (tasks w') = length (tasks w)" using assms(4) by (metis length_map)
  have g: "\<forall>ts \<in> set (map gr_tasks (groups w')). \<forall>t \<in> set ts. t < length (tasks w')"
    using assms(1) unfolding assms(2) len by (auto simp: index_ok_def)
  have "tk_release (tasks w' ! t) = tk_release (tasks w ! t)" if "t < length (tasks w)" for t
    using assms(4) len that by (metis nth_map)
  then show ?thesis using g assms(1,3) len by (auto simp: index_ok_def)
qed

lemma map_release_on_task [simp]:
  "(\<And>tk. tk_release (f tk) = tk_release tk) \<Longrightarrow> map tk_release (tasks (on_task t f w)) = map tk_release (tasks w)"
  by (simp add: on_task_def map_update) (metis list_update_beyond list_update_id map_update not_less nth_map)

lemma map_tasks_on_group [simp]:
  "(\<And>gr. gr_tasks (f gr) = gr_tasks gr) \<Longrightarrow> map gr_tasks (groups (on_group g f w)) = map gr_tasks (groups w)"
  by (simp add: on_group_def map_update) (metis list_update_beyond list_update_id map_update not_less nth_map)

text \<open>The runs that leave the tasks, groups and callbacks as they are.\<close>

definition still :: "world \<Rightarrow> world \<Rightarrow> bool" where
  "still w w' \<longleftrightarrow> map gr_tasks (groups w') = map gr_tasks (groups w) \<and> set (callbacks w') \<subseteq> set (callbacks w)
     \<and> map tk_release (tasks w') = map tk_release (tasks w)"

lemma still_refl [simp]: "still w w"
  by (simp add: still_def)

lemma still_trans: "still w w' \<Longrightarrow> still w' w'' \<Longrightarrow> still w w''"
  by (auto simp: still_def)

lemma still_same: "groups w' = groups w \<Longrightarrow> callbacks w' = callbacks w \<Longrightarrow> tasks w' = tasks w \<Longrightarrow> still w w'"
  by (simp add: still_def)

lemma calm_still: "calm w w' \<Longrightarrow> still w w'"
  by (simp add: still_def calmD)

lemma still_on [simp]:
  "still w (on_resource r f v) = still w v" "still w (on_scope s h v) = still w v"
  "still w (record_cleanup r v) = still w v" "still w (set_phase s p v) = still w v" "still w (beginClose r v) = still w v"
  by (simp_all add: still_def on_resource_def on_scope_def set_phase_def beginClose_def)

lemma still_settleLaunched: "still w (settleLaunched g i c w)"
proof -
  let ?t = "gr_tasks (groups w ! g) ! i"
  let ?w1 = "on_task ?t (\<lambda>tk. tk\<lparr>tk_completion := Some c\<rparr>) w"
  let ?w2 = "release_each (rev (tk_release (tasks ?w1 ! ?t))) ?w1"
  let ?w3 = "fold release_once (tk_dynamic (tasks ?w2 ! ?t)) ?w2"
  let ?w4 = "on_task ?t (\<lambda>tk. tk\<lparr>tk_dynamic := []\<rparr>) ?w3"
  have on: "still v (on_task ?t f v)" if "\<And>tk. tk_release (f tk) = tk_release tk" for f v
    using that by (simp add: still_def) (simp add: on_task_def)
  have "still w ?w1" "still ?w3 ?w4" by (simp_all add: on)
  moreover have "still ?w1 ?w3" by (intro calm_still calm_trans [OF calm_release_each calm_fold]) simp
  ultimately have "still w ?w4" by (blast intro: still_trans)
  moreover have "still ?w4 (settleLaunched g i c w)"
    by (simp add: settleLaunched_def Let_def still_def) (simp add: on_group_def)
  ultimately show ?thesis by (rule still_trans)
qed

lemma still_settleCallbackTask: "still w (settleCallbackTask t c w)"
proof -
  let ?w1 = "on_task t (\<lambda>tk. tk\<lparr>tk_completion := Some c\<rparr>) w"
  let ?w2 = "fold release_once (tk_dynamic (tasks ?w1 ! t)) ?w1"
  let ?w3 = "on_task t (\<lambda>tk. tk\<lparr>tk_dynamic := []\<rparr>) ?w2"
  have on: "still v (on_task t f v)" if "\<And>tk. tk_release (f tk) = tk_release tk" for f v
    using that by (simp add: still_def) (simp add: on_task_def)
  have "still w ?w1" "still ?w2 ?w3" by (simp_all add: on)
  moreover have "still ?w1 ?w2" by (intro calm_still calm_fold) simp
  ultimately have "still w ?w3" by (blast intro: still_trans)
  moreover have "still ?w3 (settleCallbackTask t c w)" by (auto simp: settleCallbackTask_def Let_def still_def)
  ultimately show ?thesis by (rule still_trans)
qed

lemma still_drain_gather: "still w (drain_gather s w)"
proof -
  have "still w (fold (arm_timer s) rs w)" for rs w
  proof (induction rs arbitrary: w)
    case (Cons r rs)
    have "still w (arm_timer s r w)" by (simp add: arm_timer_def Let_def)
    then show ?case using Cons.IH [of "arm_timer s r w"] by (simp add: still_trans)
  qed simp
  then show ?thesis by (simp add: drain_gather_def Let_def)
qed

lemma still_drain_step: "still w (drain_step s w)"
proof -
  have "still w (drain_close s r rs first w)" for r rs first
    by (simp add: drain_close_def Let_def)
  then show ?thesis
    by (simp add: drain_step_def still_drain_gather split: option.splits drain_phase.splits list.splits closer.splits)
qed

lemma still_settleScopeBody: "still w (settleScopeBody s w)"
proof -
  let ?w1 = "fold release_once (sc_exitReleases (scopes w ! s)) w"
  have "still w ?w1" by (intro calm_still calm_fold) simp
  then show ?thesis
    unfolding settleScopeBody_def Let_def by (intro still_trans [OF _ still_drain_gather]) simp
qed

text \<open>The relation that holds for every run but those that create tasks.\<close>

lemma still_index: "still w w' \<Longrightarrow> index_ok w \<Longrightarrow> index_ok w'"
  unfolding still_def by (blast intro: index_ok_keep)

lemma owner_invI: "core_inv w' [] \<Longrightarrow> still w w' \<Longrightarrow> owner_inv w \<Longrightarrow> owner_inv w'"
  by (simp add: owner_inv_def still_index)

lemma still_acquire: "acquire r ex w = Inr (l, w') \<Longrightarrow> still w w'"
  by (intro calm_still calm_acquire)

lemma still_register: "registerResourceCore ex kind i m d w = Inr (r, w') \<Longrightarrow> still w w'"
proof -
  assume run: "registerResourceCore ex kind i m d w = Inr (r, w')"
  let ?w = "w\<lparr>resources := resources w @ [new_resource kind (ex_scope ex) i m d]\<rparr>"
  have w: "still w ?w" by (simp add: still_def)
  consider "w' = ?w" | t where "lend_initial (length (resources w)) ex t ?w = Inr w'"
    using run by (auto simp: registerResourceCore_def Let_def split: if_splits option.splits sum.splits)
  then show ?thesis
  proof cases
    case 2
    then obtain l w1 where acq: "acquire (length (resources w)) ex ?w = Inr (l, w1)"
      by (auto simp: lend_initial_def split: sum.splits)
    have "still w1 w'" using 2 acq
      by (auto simp: lend_initial_def Let_def still_def on_defs map_update split: if_splits)
        (metis list_update_beyond list_update_id map_update not_less nth_map)+
    then show ?thesis using still_trans [OF still_trans [OF w still_acquire [OF acq]]] by blast
  qed (use w in simp)
qed

lemma launch_index:
  assumes "index_ok w" and "prepareLaunch ex ps native w = (res, w')"
  shows "index_ok w'"
  using assms(2)
proof (cases rule: prepareLaunch_cases)
  case (2 w1 key res1 w2)
  have "calm w1 w2" using calm_retain_each [of w1 ps] 2(2) by (metis snd_conv)
  moreover have "still w w1" using 2(1) by (auto simp: still_def)
  ultimately show ?thesis using 2(3) still_trans calm_still still_index assms(1) by blast
next
  case (3 w1 key lss w2)
  have "calm w1 w2" using calm_retain_each [of w1 ps] 3(2) by (metis snd_conv)
  then have "groups w2 = groups w" "tasks w2 = tasks w" "callbacks w2 = callbacks w" using 3(1) by (auto simp: calmD)
  moreover have "length lss = length ps" using retain_each_length [OF 3(2)] .
  ultimately show ?thesis using assms(1) unfolding 3(3) by (fastforce simp: index_ok_def nth_append)
qed (use assms(1) in simp)

theorem owner_step_inv: "owner_step w w' \<Longrightarrow> owner_inv w \<Longrightarrow> owner_inv w'"
proof (induction rule: owner_step.induct)
  case (register ex w kind idem managed shutdown r w')
  then show ?case using register_core still_register owner_invI unfolding owner_inv_def by blast
next
  case (use ex w r kind l w')
  obtain w1 where "acquire r ex w = Inr (l, w1)" "w' = w1\<lparr>uses := l # uses w1\<rparr>"
    using use(2) by (auto simp: useResourceCore_def resource_def split: if_splits sum.splits)
  then have "still w w'" using still_acquire [of r ex w l w1] by (simp add: still_def)
  then show ?case using use useResourceCore_core owner_invI unfolding owner_inv_def by blast
next
  case (use_end l w)
  have "still w (use_end l w)" by (simp add: use_end_def still_def calmD [OF calm_release])
  then show ?case using use_end use_end_core owner_invI unfolding owner_inv_def by blast
next
  case (close ex w r kind deadline w')
  have "still w w'"
  proof (rule closeResourceCore_Inr [OF close(2)])
    fix v u assume "v = w \<or> v = release_once r w"
      "u = v \<and> rs_closing (resources v ! r) \<noteq> None \<or> u = beginClose r v \<and> rs_closing (resources v ! r) = None"
      and w': "w' = u \<or> w' = u\<lparr>deadlines := r # deadlines u\<rparr>"
    then have "still w u" using calm_still [OF calm_release_once, of w r] by auto
    then show ?thesis using w' by (auto simp: still_def)
  qed
  then show ?case using close closeResourceCore_core owner_invI unfolding owner_inv_def by blast
next
  case (deadline_passed r w)
  have "core_inv (w\<lparr>deadlines := remove1 r (deadlines w)\<rparr>) []"
    using deadline_passed(2) by (simp add: owner_inv_def core_inv_def held_def)
  then have "core_inv (close_deadline_passed r w) []" unfolding close_deadline_passed_def by (rule record_cleanup_core)
  moreover have "still w (close_deadline_passed r w)" unfolding close_deadline_passed_def still_on by (simp add: still_def)
  ultimately show ?case using deadline_passed(2) by (rule owner_invI)
next
  case (deadline_cleared r w b)
  then show ?case by (simp add: owner_inv_def close_deadline_cleared_def core_inv_def held_def index_ok_def)
next
  case (close_poll r w)
  have "still w (close_poll r w)" by (simp add: close_poll_def still_def on_resource_def)
  then show ?case using close_poll close_poll_core owner_invI unfolding owner_inv_def by blast
next
  case (close_finish r w c)
  have "still w (close_finish r c w)" by (simp add: close_finish_def Let_def)
  then show ?case using close_finish close_finish_core owner_invI unfolding owner_inv_def by blast
next
  case (launch ex w participants native res w')
  then show ?case using launch_index prepareLaunch_core unfolding owner_inv_def by blast
next
  case (settle g w i c)
  have "gr_tasks (groups w ! g) ! i < length (tasks w)"
    using settle nth_mem [of g "groups w"] nth_mem [of i "gr_tasks (groups w ! g)"] unfolding owner_inv_def index_ok_def by blast
  then have "core_inv (settleLaunched g i c w) []" using settle by (intro settleLaunched_core) (simp_all add: owner_inv_def)
  then show ?case using settle still_settleLaunched owner_invI by blast
next
  case (publish g w selected w')
  have w': "w' = finishLaunched g None (on_group g (\<lambda>gr. gr\<lparr>gr_selected := selected, gr_sealed := True\<rparr>) w)"
    using publish(2) by (simp add: publish_def split: if_splits)
  have "still w w'" unfolding w' still_def by simp (simp add: on_group_def)
  moreover have "core_inv w' [] = core_inv w []" unfolding w' by (rule core_inv_cong) (simp_all add: on_group_def)
  ultimately show ?case using publish owner_invI unfolding owner_inv_def by blast
next
  case (callback ambient w s t w')
  obtain site where w': "w' = w\<lparr>tasks := tasks w @ [\<lparr>tk_scope = site, tk_dynamic = [], tk_completion = None, tk_release = []\<rparr>],
      callbacks := callbacks w @ [length (tasks w)], nextKey := nextKey w + 1\<rparr>"
    using callback(2) by (auto simp: guardCallback_def Let_def split: if_splits)
  have "core_inv w' []"
    using callback(3) unfolding w' owner_inv_def by (auto simp: core_inv_def held_def task_held_def)
  moreover have "index_ok w'" using callback(3) unfolding w' owner_inv_def by (fastforce simp: index_ok_def nth_append)
  ultimately show ?case by (simp add: owner_inv_def)
next
  case (callback_settle t w c)
  then have "core_inv (settleCallbackTask t c w) []"
    by (intro settleCallbackTask_core) (auto simp: owner_inv_def index_ok_def)
  then show ?case using callback_settle still_settleCallbackTask owner_invI by blast
next
  case (timer r w)
  have "still w (timer_fired r w)" by (simp add: timer_fired_def Let_def)
  then show ?case using timer timer_fired_core owner_invI unfolding owner_inv_def by blast
next
  case (scope ex w s w')
  then show ?case
    by (auto simp: withScope_def createChildScope_def owner_inv_def core_inv_def held_def index_ok_def split: sum.splits if_splits)
next
  case (scope_end s w)
  then show ?case using settleScopeBody_core still_settleScopeBody owner_invI unfolding owner_inv_def by blast
next
  case (root_end w)
  have "core_inv (settle_root w) []" using root_end(3) by (simp add: settle_root_def drain_gather_core owner_inv_def)
  moreover have "still w (settle_root w)" unfolding settle_root_def by (intro still_trans [OF _ still_drain_gather]) simp
  ultimately show ?case using root_end owner_invI by blast
next
  case (drain s w)
  then show ?case using drain_step_core still_drain_step owner_invI unfolding owner_inv_def by blast
qed (auto simp: owner_inv_def core_inv_def held_def index_ok_def report_delivered_def claimFailureReport_def)

lemma owner_inv_createRoot: "owner_inv createRoot"
  by (simp add: owner_inv_def core_inv_def held_def index_ok_def createRoot_def task_held_def)

lemma reachable_owner_inv: "reachable_world w \<Longrightarrow> owner_inv w"
  unfolding reachable_world_def by (induction rule: rtranclp_induct) (auto simp: owner_inv_createRoot owner_step_inv)

end
