(* ===== verification/OwnerDrain.thy ===== *)
theory OwnerDrain
  imports OwnerInv
begin

text \<open>
  The invariant of drains: while a scope is being drained, every resource registered in it
  that the drain has passed has settled its close.
\<close>

section \<open>Runs that touch no drain\<close>

definition settled :: "resource_state \<Rightarrow> bool" where
  "settled st = (case rs_closing st of Some (Settled _) \<Rightarrow> True | _ \<Rightarrow> False)"

definition rs_later :: "resource_state \<Rightarrow> resource_state \<Rightarrow> bool" where
  "rs_later st st' \<longleftrightarrow> rs_scope st' = rs_scope st \<and> (settled st \<longrightarrow> settled st')
     \<and> (rs_closing st \<noteq> None \<longrightarrow> rs_closing st' \<noteq> None)"

lemma rs_later_refl [simp]: "rs_later st st"
  by (simp add: rs_later_def)

lemma rs_later_trans: "rs_later a b \<Longrightarrow> rs_later b c \<Longrightarrow> rs_later a c"
  by (simp add: rs_later_def)

text \<open>
  Existing scopes keep their parent, state and drain; existing resources only advance, and a
  new one belongs to an open scope.
\<close>

definition steady :: "world \<Rightarrow> world \<Rightarrow> bool" where
  "steady w w' \<longleftrightarrow>
     length (scopes w) \<le> length (scopes w')
     \<and> (\<forall>s < length (scopes w). sc_parent (scopes w' ! s) = sc_parent (scopes w ! s)
          \<and> sc_state (scopes w' ! s) = sc_state (scopes w ! s) \<and> sc_drain (scopes w' ! s) = sc_drain (scopes w ! s))
     \<and> (\<forall>s < length (scopes w'). length (scopes w) \<le> s \<longrightarrow>
          sc_state (scopes w' ! s) = Open \<and> sc_drain (scopes w' ! s) = None)
     \<and> length (resources w) \<le> length (resources w')
     \<and> (\<forall>r < length (resources w). rs_later (resources w ! r) (resources w' ! r))
     \<and> (\<forall>r < length (resources w'). length (resources w) \<le> r \<longrightarrow>
          sc_state (scopes w' ! rs_scope (resources w' ! r)) = Open)"

lemma steady_refl [simp]: "steady w w"
  by (simp add: steady_def)

lemma steady_resources:
  assumes "scopes w' = scopes w" and "length (resources w') = length (resources w)"
    and "\<And>r. r < length (resources w) \<Longrightarrow> rs_later (resources w ! r) (resources w' ! r)"
  shows "steady w w'"
  using assms by (simp add: steady_def)

lemma steady_on_resource: "(\<And>st. rs_later st (f st)) \<Longrightarrow> steady w (on_resource r f w)"
  by (rule steady_resources) (simp_all add: on_resource_def nth_update)

lemma calm_steady: "calm w w' \<Longrightarrow> steady w w'"
  by (rule steady_resources) (simp_all add: calmD rs_later_def calm_resource settled_def)

text \<open>Composing runs over an unchanged list of scopes.\<close>

lemma steady_then:
  assumes "steady w w'" and "scopes w'' = scopes w'" and "length (resources w'') = length (resources w')"
    and "\<And>r. r < length (resources w') \<Longrightarrow> rs_later (resources w' ! r) (resources w'' ! r)"
  shows "steady w w''"
proof -
  note one = assms(1) [unfolded steady_def]
  have "rs_later (resources w ! r) (resources w'' ! r)" if "r < length (resources w)" for r
    using that one assms(4) rs_later_trans by (meson less_le_trans)
  moreover have "sc_state (scopes w' ! rs_scope (resources w'' ! r)) = Open"
    if "r < length (resources w')" "length (resources w) \<le> r" for r
  proof -
    have "rs_scope (resources w'' ! r) = rs_scope (resources w' ! r)" using assms(4) that by (simp add: rs_later_def)
    then show ?thesis using one that by simp
  qed
  ultimately show ?thesis using one assms(2,3) by (simp add: steady_def)
qed

lemma steady_calm: "steady w w' \<Longrightarrow> calm w' w'' \<Longrightarrow> steady w w''"
  by (erule steady_then) (simp_all add: calmD rs_later_def calm_resource settled_def)

lemma steady_update: "steady w w' \<Longrightarrow> (\<And>st. rs_later st (f st)) \<Longrightarrow> steady w (on_resource r f w')"
  by (erule steady_then) (simp_all add: on_resource_def nth_update)

lemma steady_same: "steady w w' \<Longrightarrow> scopes w'' = scopes w' \<Longrightarrow> resources w'' = resources w' \<Longrightarrow> steady w w''"
  by (erule steady_then) simp_all

lemma rs_later_cleanup [simp]: "rs_later st (st\<lparr>rs_cleanup := x\<rparr>)"
  by (simp add: rs_later_def settled_def)

lemma steady_record_cleanup: "steady w w' \<Longrightarrow> steady w (record_cleanup r w')"
  by (erule steady_then) (simp_all add: nth_update)

lemma steady_beginClose:
  assumes "steady w w'" and "r < length (resources w') \<Longrightarrow> \<not> settled (resources w' ! r)"
  shows "steady w (beginClose r w')"
  using assms(1)
  by (rule steady_then) (use assms(2) in \<open>auto simp: beginClose_def on_resource_def nth_update rs_later_def\<close>)

section \<open>The invariant\<close>

definition todo :: "drain_phase \<Rightarrow> nat list" where
  "todo p = (case p of ClosingFrom rs _ \<Rightarrow> rs | Awaiting r rs _ \<Rightarrow> r # rs | _ \<Rightarrow> [])"

definition phase_ok :: "resource_state list \<Rightarrow> nat \<Rightarrow> drain_phase \<Rightarrow> bool" where
  "phase_ok rs s p \<longleftrightarrow>
     (\<forall>r < length rs. rs_scope (rs ! r) = s \<and> r \<notin> set (todo p) \<longrightarrow> settled (rs ! r))
     \<and> set (todo p) \<subseteq> {..<length rs}
     \<and> (case p of Awaiting r _ _ \<Rightarrow> rs_closing (rs ! r) \<noteq> None | _ \<Rightarrow> True)"

definition scope_ok :: "resource_state list \<Rightarrow> nat \<Rightarrow> scope_state \<Rightarrow> bool" where
  "scope_ok rs s sc \<longleftrightarrow>
     (case sc_drain sc of
        None \<Rightarrow> sc_state sc \<noteq> Closed
      | Some Gathering \<Rightarrow> sc_state sc \<noteq> Closed
      | Some p \<Rightarrow> sc_state sc \<noteq> Open \<and> phase_ok rs s p \<and> (sc_state sc = Closed \<longleftrightarrow> (\<exists>f. p = Drained f)))"

definition drain_inv :: "world \<Rightarrow> bool" where
  "drain_inv w \<longleftrightarrow> (\<forall>s < length (scopes w). scope_ok (resources w) s (scopes w ! s))"

lemma phase_ok_later:
  assumes "phase_ok rs s p" and "length rs \<le> length rs'" and "\<And>r. r < length rs \<Longrightarrow> rs_later (rs ! r) (rs' ! r)"
    and "\<And>r. length rs \<le> r \<Longrightarrow> r < length rs' \<Longrightarrow> rs_scope (rs' ! r) \<noteq> s"
  shows "phase_ok rs' s p"
  unfolding phase_ok_def
proof (intro conjI allI impI)
  fix r assume "r < length rs'" and r: "rs_scope (rs' ! r) = s \<and> r \<notin> set (todo p)"
  then have "r < length rs" using assms(4) [of r] by fastforce
  then show "settled (rs' ! r)" using assms(1,3) r by (auto simp: phase_ok_def rs_later_def)
next
  show "set (todo p) \<subseteq> {..<length rs'}" using assms(1,2) by (auto simp: phase_ok_def)
  have "rs_closing (rs' ! r) \<noteq> None" if "p = Awaiting r qs f" for r qs f
    using assms(1,3) that by (auto simp: phase_ok_def rs_later_def todo_def)
  then show "case p of Awaiting r _ _ \<Rightarrow> rs_closing (rs' ! r) \<noteq> None | _ \<Rightarrow> True" by (auto split: drain_phase.splits)
qed

lemma drain_inv_steady:
  assumes "drain_inv w" and "steady w w'"
  shows "drain_inv w'"
  unfolding drain_inv_def
proof (intro allI impI)
  note st = assms(2) [unfolded steady_def]
  fix s assume s: "s < length (scopes w')"
  show "scope_ok (resources w') s (scopes w' ! s)"
  proof (cases "s < length (scopes w)")
    case True
    then have same: "sc_state (scopes w' ! s) = sc_state (scopes w ! s)" "sc_drain (scopes w' ! s) = sc_drain (scopes w ! s)"
      using st by auto
    have ok: "scope_ok (resources w) s (scopes w ! s)" using assms(1) True by (simp add: drain_inv_def)
    have "phase_ok (resources w') s p" if "phase_ok (resources w) s p" "sc_state (scopes w ! s) \<noteq> Open" for p
      using that(1)
    proof (rule phase_ok_later)
      fix r assume "length (resources w) \<le> r" "r < length (resources w')"
      then show "rs_scope (resources w' ! r) \<noteq> s" using st that(2) same by auto
    qed (use st in auto)
    then show ?thesis using ok unfolding scope_ok_def same by (auto split: option.splits drain_phase.splits)
  next
    case False
    then have "sc_state (scopes w' ! s) = Open" "sc_drain (scopes w' ! s) = None" using st s by auto
    then show ?thesis by (simp add: scope_ok_def)
  qed
qed

text \<open>A change of one scope.\<close>

lemma drain_inv_on_scope:
  assumes "drain_inv w" and "s < length (scopes w) \<Longrightarrow> scope_ok (resources w) s (f (scopes w ! s))"
  shows "drain_inv (on_scope s f w)"
  using assms by (simp add: drain_inv_def on_scope_def nth_update)

lemma drain_inv_set_phase:
  assumes "drain_inv w" and "s < length (scopes w) \<Longrightarrow> scope_ok (resources w) s ((scopes w ! s)\<lparr>sc_drain := Some p\<rparr>)"
  shows "drain_inv (set_phase s p w)"
  unfolding set_phase_def using assms by (rule drain_inv_on_scope)

lemma steady_drain_gather_timers: "steady w (fold (arm_timer s) rs w)"
proof (induction rs rule: rev_induct)
  case (snoc r rs)
  let ?w = "fold (arm_timer s) rs w"
  have "steady w (on_resource r (\<lambda>st. st\<lparr>rs_timer := True\<rparr>) ?w)"
    using snoc by (rule steady_update) (simp add: rs_later_def settled_def)
  then show ?case using snoc unfolding fold_append fold_simps comp_def arm_timer_def [of s r] Let_def by simp
qed simp

lemma drain_gather_inv:
  assumes "drain_inv w" and "sc_drain (scopes w ! s) = Some Gathering"
  shows "drain_inv (drain_gather s w)"
proof -
  define v where "v = fold (arm_timer s) [0..<length (resources w)] w"
  have st: "steady w v" unfolding v_def by (rule steady_drain_gather_timers)
  then have v: "drain_inv v" using drain_inv_steady [OF assms(1)] by blast
  have len: "length (resources v) = length (resources w)"
  proof -
    have "length (resources (fold (arm_timer s) rs u)) = length (resources u)" for rs u
      by (induction rs arbitrary: u) (simp_all add: arm_timer_def Let_def on_resource_def)
    then show ?thesis by (simp add: v_def)
  qed
  have same: "scopes v = scopes w"
  proof -
    have "scopes (fold (arm_timer s) rs u) = scopes u" for rs u
      by (induction rs arbitrary: u) (simp_all add: arm_timer_def Let_def on_resource_def)
    then show ?thesis by (simp add: v_def)
  qed
  have "drain_inv (on_scope s (\<lambda>sc. sc\<lparr>sc_state := Closing, sc_drain := Some (ClosingFrom (rev [0..<length (resources v)]) None)\<rparr>) v)"
    using v by (rule drain_inv_on_scope) (simp add: scope_ok_def phase_ok_def todo_def lessThan_atLeast0)
  moreover have "set_phase s (ClosingFrom (rev [0..<length (resources v)]) None) (on_scope s (\<lambda>sc. sc\<lparr>sc_state := Closing\<rparr>) v)
      = on_scope s (\<lambda>sc. sc\<lparr>sc_state := Closing, sc_drain := Some (ClosingFrom (rev [0..<length (resources v)]) None)\<rparr>) v"
    by (cases "s < length (scopes v)") (simp_all add: set_phase_def on_scope_def list_update_beyond)
  ultimately show ?thesis using v by (simp add: drain_gather_def Let_def v_def [symmetric])
qed

lemma inside_refl [simp]: "inside w s s"
  by (subst inside.simps) simp

lemma scope_ok_phase:
  "sc_drain sc = Some p \<Longrightarrow> p \<noteq> Gathering \<Longrightarrow> scope_ok rs s sc \<Longrightarrow>
     sc_state sc \<noteq> Open \<and> phase_ok rs s p \<and> (sc_state sc = Closed \<longleftrightarrow> (\<exists>f. p = Drained f))"
  by (cases p) (simp_all add: scope_ok_def)

lemma scope_okI:
  "p \<noteq> Gathering \<Longrightarrow> sc_state sc = Closing \<Longrightarrow> phase_ok rs s p \<Longrightarrow> (\<And>f. p \<noteq> Drained f) \<Longrightarrow> scope_ok rs s (sc\<lparr>sc_drain := Some p\<rparr>)"
  by (cases p) (simp_all add: scope_ok_def)

lemma closing_state: "sc_state sc \<noteq> Open \<Longrightarrow> sc_state sc \<noteq> Closed \<Longrightarrow> sc_state sc = Closing"
  by (cases "sc_state sc") simp_all

lemma drain_close_inv:
  assumes "owner_inv w" and "drain_inv w" and "s < length (scopes w)"
    and "sc_drain (scopes w ! s) = Some (ClosingFrom (r # rs) first)"
  shows "drain_inv (drain_close s r rs first w)"
proof -
  let ?st = "resources w ! r" and ?sc = "scopes w ! s"
  have ok: "sc_state ?sc \<noteq> Open" "phase_ok (resources w) s (ClosingFrom (r # rs) first)" "sc_state ?sc \<noteq> Closed"
    using scope_ok_phase [OF assms(4)] assms(2,3) by (auto simp: drain_inv_def)
  have closing: "sc_state ?sc = Closing" using ok closing_state by blast
  have r: "r < length (resources w)" using ok(2) by (simp add: phase_ok_def todo_def)
  have inv: "rs_inv ?st" using assms(1) r by (simp add: owner_inv_def core_inv_def)
  consider "\<not> inside w (rs_scope ?st) s" | "inside w (rs_scope ?st) s" "rs_state ?st = Open \<or> rs_autoPending ?st"
    | "inside w (rs_scope ?st) s" "\<not> (rs_state ?st = Open \<or> rs_autoPending ?st)" by blast
  then show ?thesis
  proof cases
    case 1
    then have "rs_scope ?st \<noteq> s" by auto
    then have "phase_ok (resources w) s (ClosingFrom rs first)" using ok(2) by (auto simp: phase_ok_def todo_def)
    then have "drain_inv (set_phase s (ClosingFrom rs first) w)"
      using closing by (intro drain_inv_set_phase [OF assms(2)] scope_okI) simp_all
    then show ?thesis using 1 by (simp add: drain_close_def Let_def)
  next
    case 2
    define v where "v = beginClose r (if \<not> rs_scopeManaged ?st \<and> rs_cleanup ?st = None then record_cleanup r w else w)"
    have "\<not> settled ?st"
      using inv 2(2) by (auto simp: rs_inv_def protocol_def settled_def split: option.splits closer.splits if_splits)
    then have st: "steady w v"
      unfolding v_def by (intro steady_beginClose) (auto simp: steady_record_cleanup settled_def nth_update)
    have same: "scopes v = scopes w" "length (resources v) = length (resources w)" "rs_closing (resources v ! r) \<noteq> None"
      using r by (simp_all add: v_def beginClose_def on_resource_def)
    have "phase_ok (resources v) s (ClosingFrom (r # rs) first)"
      using ok(2) by (rule phase_ok_later) (use st same in \<open>auto simp: steady_def\<close>)
    then have "phase_ok (resources v) s (Awaiting r rs first)" using same by (simp add: phase_ok_def todo_def)
    then have "drain_inv (set_phase s (Awaiting r rs first) v)"
      using closing same by (intro drain_inv_set_phase [OF drain_inv_steady [OF assms(2) st]] scope_okI) simp_all
    then show ?thesis using 2 by (simp add: drain_close_def Let_def v_def [symmetric])
  next
    case 3
    then have some: "rs_closing ?st \<noteq> None" using inv by (auto simp: rs_inv_def protocol_def split: option.splits)
    then have "phase_ok (resources w) s (Awaiting r rs first)" using ok(2) by (simp add: phase_ok_def todo_def)
    then have "drain_inv (set_phase s (Awaiting r rs first) w)"
      using closing by (intro drain_inv_set_phase [OF assms(2)] scope_okI) simp_all
    then show ?thesis using 3 some by (simp add: drain_close_def Let_def)
  qed
qed

lemma drain_step_inv:
  assumes "owner_inv w" and "drain_inv w" and s: "s < length (scopes w)"
  shows "drain_inv (drain_step s w)"
proof -
  let ?sc = "scopes w ! s"
  have ok: "sc_state ?sc \<noteq> Open \<and> phase_ok (resources w) s p \<and> (sc_state ?sc = Closed \<longleftrightarrow> (\<exists>f. p = Drained f))"
    if "sc_drain ?sc = Some p" "p \<noteq> Gathering" for p
    using scope_ok_phase [OF that] assms(2) s by (auto simp: drain_inv_def)
  show ?thesis
  proof (cases "sc_drain ?sc")
    case (Some p)
    show ?thesis
    proof (cases p)
      case Gathering
      then show ?thesis using Some drain_gather_inv [OF assms(2), of s] by (simp add: drain_step_def)
    next
      case (ClosingFrom qs first)
      show ?thesis
      proof (cases qs)
        case Nil
        have "phase_ok (resources w) s (Reporting first)" using ok [OF Some] ClosingFrom Nil by (simp add: phase_ok_def todo_def)
        then have "drain_inv (set_phase s (Reporting first) w)"
          using ok [OF Some] ClosingFrom closing_state by (intro drain_inv_set_phase [OF assms(2)] scope_okI) auto
        then show ?thesis using Some ClosingFrom Nil by (simp add: drain_step_def)
      next
        case (Cons r rs)
        then show ?thesis using Some ClosingFrom drain_close_inv [OF assms] by (simp add: drain_step_def)
      qed
    next
      case (Awaiting r rs first)
      have "drain_inv (set_phase s (ClosingFrom rs f) w)" if "settled (resources w ! r)" for f
      proof -
        have "phase_ok (resources w) s (ClosingFrom rs f)" using ok [OF Some] Awaiting that by (auto simp: phase_ok_def todo_def)
        then show ?thesis
          using ok [OF Some] Awaiting closing_state by (intro drain_inv_set_phase [OF assms(2)] scope_okI) auto
      qed
      then show ?thesis
        using Some Awaiting assms(2) by (auto simp: drain_step_def settled_def split: option.splits closer.splits)
    next
      case (Reporting first)
      let ?f = "\<lambda>sc. sc\<lparr>sc_state := Closed, sc_drain := Some (Drained first)\<rparr>"
      have "drain_inv (on_scope s ?f w)"
        using ok [OF Some] Reporting
        by (intro drain_inv_on_scope [OF assms(2)]) (simp add: scope_ok_def phase_ok_def todo_def)
      moreover have "set_phase s (Drained first) (on_scope s (\<lambda>sc. sc\<lparr>sc_state := Closed\<rparr>) w) = on_scope s ?f w"
        using s by (simp add: set_phase_def on_scope_def)
      ultimately show ?thesis using Some Reporting assms(2) by (simp add: drain_step_def)
    next
      case (Drained f)
      then show ?thesis using Some assms(2) by (simp add: drain_step_def)
    qed
  qed (use assms(2) in \<open>simp add: drain_step_def\<close>)
qed

lemma start_drain_inv:
  assumes "drain_inv w" and "s < length (scopes w)" and "sc_drain (scopes w ! s) = None" and "x \<noteq> Closed"
  shows "drain_inv (on_scope s (\<lambda>sc. sc\<lparr>sc_exitReleases := [], sc_state := x, sc_drain := Some Gathering\<rparr>) w)"
  by (rule drain_inv_on_scope [OF assms(1)]) (simp add: scope_ok_def assms(4))

lemma settleScopeBody_inv:
  assumes "drain_inv w" and s: "s < length (scopes w)" and "sc_drain (scopes w ! s) = None"
  shows "drain_inv (settleScopeBody s w)"
proof -
  define v where "v = fold release_once (sc_exitReleases (scopes w ! s)) w"
  have calm: "calm w v" unfolding v_def by (rule calm_fold) simp
  let ?u = "on_scope s (\<lambda>sc. sc\<lparr>sc_exitReleases := [], sc_state := Closing, sc_drain := Some Gathering\<rparr>) v"
  have u: "set_phase s Gathering (on_scope s (\<lambda>sc. sc\<lparr>sc_exitReleases := [], sc_state := Closing\<rparr>) v) = ?u"
    using s calmD(1) [OF calm] by (simp add: set_phase_def on_scope_def)
  have "drain_inv ?u"
    using s assms(3) calmD(1) [OF calm] drain_inv_steady [OF assms(1) calm_steady [OF calm]]
    by (intro start_drain_inv) simp_all
  moreover have "sc_drain (scopes ?u ! s) = Some Gathering" using s calmD(1) [OF calm] by (simp add: on_scope_def)
  ultimately show ?thesis unfolding settleScopeBody_def Let_def v_def [symmetric] u by (rule drain_gather_inv)
qed

lemma settle_root_inv:
  assumes "drain_inv w" and s: "0 < length (scopes w)" and "sc_drain (scopes w ! 0) = None"
  shows "drain_inv (settle_root w)"
proof -
  have "sc_state (scopes w ! 0) \<noteq> Closed" using assms by (auto simp: drain_inv_def scope_ok_def split: option.splits)
  then have "drain_inv (set_phase 0 Gathering w)" by (intro drain_inv_set_phase [OF assms(1)]) (simp add: scope_ok_def)
  then show ?thesis
    unfolding settle_root_def by (rule drain_gather_inv) (use s in \<open>simp add: set_phase_def on_scope_def\<close>)
qed

section \<open>Every run keeps the invariant\<close>

lemma steady_register:
  assumes "registerResourceCore ex kind i m d w = Inr (r, w')"
  shows "steady w w'"
proof -
  let ?w = "w\<lparr>resources := resources w @ [new_resource kind (ex_scope ex) i m d]\<rparr>"
  have opn: "sc_state (scopes w ! ex_scope ex) = Open"
    using assms by (auto simp: registerResourceCore_def split: if_splits)
  have w: "steady w ?w"
    using opn by (auto simp: steady_def nth_append new_resource_def less_Suc_eq)
  consider "w' = ?w" | t where "lend_initial (length (resources w)) ex t ?w = Inr w'"
    using assms by (auto simp: registerResourceCore_def Let_def split: if_splits option.splits sum.splits)
  then show ?thesis
  proof cases
    case 2
    then obtain l w1 where acq: "acquire (length (resources w)) ex ?w = Inr (l, w1)"
      by (auto simp: lend_initial_def split: sum.splits)
    let ?f = "\<lambda>st. st\<lparr>rs_creator := Some t, rs_initialRelease := True, rs_once := Some (snd l, False)\<rparr>"
    let ?w2 = "on_task t (\<lambda>tk. tk\<lparr>tk_dynamic := tk_dynamic tk @ [length (resources w)]\<rparr>) (on_resource (length (resources w)) ?f w1)"
    have "steady w (on_resource (length (resources w)) ?f w1)"
      by (intro steady_update steady_calm [OF w calm_acquire [OF acq]]) (simp add: rs_later_def settled_def)
    then have w2: "steady w ?w2" by (rule steady_same) (simp_all add: on_task_def)
    consider "w' = ?w2" | "w' = on_scope (ex_scope ex) (\<lambda>sc. sc\<lparr>sc_exitReleases := sc_exitReleases sc @ [length (resources w)]\<rparr>) ?w2"
      using 2 acq by (auto simp: lend_initial_def Let_def split: if_splits)
    then show ?thesis using w2
      by cases (auto simp: steady_def on_scope_def nth_update)
  qed (use w in simp)
qed

lemma steady_close:
  assumes "closeResourceCore ex r kind d w = Inr w'"
  shows "steady w w'"
proof (rule closeResourceCore_Inr [OF assms])
  fix v u assume v: "v = w \<or> v = release_once r w"
    and u: "u = v \<and> rs_closing (resources v ! r) \<noteq> None \<or> u = beginClose r v \<and> rs_closing (resources v ! r) = None"
    and w': "w' = u \<or> w' = u\<lparr>deadlines := r # deadlines u\<rparr>"
  have sv: "steady w v" using v calm_steady [OF calm_release_once, of w r] by auto
  have "steady w u" using u sv steady_beginClose [OF sv, of r] by (auto simp: settled_def)
  then show ?thesis by (rule steady_same) (use w' in auto)
qed

lemma steady_launch:
  assumes "prepareLaunch ex ps native w = (res, w')"
  shows "steady w w'"
  using assms
proof (cases rule: prepareLaunch_cases)
  case (2 w1 key res1 w2)
  have "calm w1 w2" using calm_retain_each [of w1 ps] 2(2) by (metis snd_conv)
  moreover have "steady w w1" using 2(1) by (auto intro: steady_same [OF steady_refl])
  ultimately show ?thesis using 2(3) steady_calm by blast
next
  case (3 w1 key lss w2)
  have "calm w1 w2" using calm_retain_each [of w1 ps] 3(2) by (metis snd_conv)
  moreover have "steady w w1" using 3(1) by (auto intro: steady_same [OF steady_refl])
  ultimately have "steady w w2" by (blast intro: steady_calm)
  then show ?thesis by (rule steady_same) (simp_all add: 3(3))
qed simp

lemma steady_settleLaunched: "steady w (settleLaunched g i c w)"
proof -
  let ?t = "gr_tasks (groups w ! g) ! i"
  let ?w1 = "on_task ?t (\<lambda>tk. tk\<lparr>tk_completion := Some c\<rparr>) w"
  let ?w2 = "release_each (rev (tk_release (tasks ?w1 ! ?t))) ?w1"
  let ?w3 = "fold release_once (tk_dynamic (tasks ?w2 ! ?t)) ?w2"
  have "steady w ?w1" by (rule steady_same [OF steady_refl]) (simp_all add: on_task_def)
  moreover have "calm ?w1 ?w3" by (intro calm_trans [OF calm_release_each calm_fold]) simp
  ultimately have "steady w ?w3" by (rule steady_calm)
  then show ?thesis by (rule steady_same) (simp_all add: settleLaunched_def Let_def on_group_def on_task_def)
qed

lemma steady_settleCallbackTask: "steady w (settleCallbackTask t c w)"
proof -
  let ?w1 = "on_task t (\<lambda>tk. tk\<lparr>tk_completion := Some c\<rparr>) w"
  let ?w2 = "fold release_once (tk_dynamic (tasks ?w1 ! t)) ?w1"
  have "steady w ?w1" by (rule steady_same [OF steady_refl]) (simp_all add: on_task_def)
  moreover have "calm ?w1 ?w2" by (intro calm_fold) simp
  ultimately have "steady w ?w2" by (rule steady_calm)
  then show ?thesis by (rule steady_same) (simp_all add: settleCallbackTask_def Let_def on_task_def)
qed

lemma steady_close_finish:
  "rs_closing (resources w ! r) = Some Invoking \<Longrightarrow> steady w (close_finish r c w)"
proof -
  assume inv: "rs_closing (resources w ! r) = Some Invoking"
  let ?v = "on_resource r (\<lambda>st. st\<lparr>rs_timer := False, rs_closing := Some (Settled (c = OkOutcome))\<rparr>) w"
  have "steady w ?v" using inv by (intro steady_resources) (auto simp: on_resource_def nth_update rs_later_def settled_def)
  then show ?thesis
    by (auto simp: close_finish_def Let_def rs_later_def settled_def intro: steady_update steady_record_cleanup)
qed

lemma steady_timer: "steady w (timer_fired r w)"
proof -
  have "steady w (on_resource r (\<lambda>st. st\<lparr>rs_timer := False\<rparr>) w)"
    by (rule steady_on_resource) (simp add: rs_later_def settled_def)
  then show ?thesis
    by (auto simp: timer_fired_def Let_def rs_later_def settled_def intro!: steady_record_cleanup intro: steady_update)
qed

lemma drain_inv_step:
  "owner_step w w' \<Longrightarrow> owner_inv w \<Longrightarrow> drain_inv w \<Longrightarrow> drain_inv w'"
proof (induction rule: owner_step.induct)
  case (register ex w kind idem managed shutdown r w')
  then show ?case using steady_register drain_inv_steady by blast
next
  case (use ex w r kind l w')
  obtain w1 where "acquire r ex w = Inr (l, w1)" "w' = w1\<lparr>uses := l # uses w1\<rparr>"
    using use(2) by (auto simp: useResourceCore_def resource_def split: if_splits sum.splits)
  then have "steady w w'" using steady_same [OF calm_steady [OF calm_acquire]] by auto
  then show ?case using use drain_inv_steady by blast
next
  case (use_end l w)
  have "steady w (use_end l w)"
    unfolding use_end_def by (rule steady_calm [OF _ calm_release]) (auto intro: steady_same [OF steady_refl])
  then show ?case using use_end drain_inv_steady by blast
next
  case (close ex w r kind deadline w')
  then show ?case using steady_close drain_inv_steady by blast
next
  case (deadline_passed r w)
  have "steady w (close_deadline_passed r w)"
    unfolding close_deadline_passed_def by (intro steady_record_cleanup) (auto intro: steady_same [OF steady_refl])
  then show ?case using deadline_passed drain_inv_steady by blast
next
  case (close_poll r w)
  have "steady w (close_poll r w)"
    using close_poll(2) by (intro steady_resources) (auto simp: close_poll_def on_resource_def nth_update rs_later_def settled_def)
  then show ?case using close_poll drain_inv_steady by blast
next
  case (close_finish r w c)
  then show ?case using steady_close_finish drain_inv_steady by blast
next
  case (launch ex w participants native res w')
  then show ?case using steady_launch drain_inv_steady by blast
next
  case (settle g w i c)
  then show ?case using steady_settleLaunched drain_inv_steady by blast
next
  case (publish g w selected w')
  have "scopes w' = scopes w" "resources w' = resources w" using publish(2) by (auto simp: publish_def on_group_def split: if_splits)
  then show ?case using publish(4) by (simp add: drain_inv_def)
next
  case (callback ambient w s t w')
  then show ?case by (auto simp: guardCallback_def Let_def drain_inv_def split: if_splits)
next
  case (callback_settle t w c)
  then show ?case using steady_settleCallbackTask drain_inv_steady by blast
next
  case (timer r w)
  then show ?case using steady_timer drain_inv_steady by blast
next
  case (scope ex w s w')
  have "steady w w'"
    using scope(2) by (auto simp: withScope_def createChildScope_def steady_def nth_append split: sum.splits if_splits)
  then show ?case using scope drain_inv_steady by blast
next
  case (scope_end s w)
  then show ?case using settleScopeBody_inv by blast
next
  case (root_end w)
  then show ?case using settle_root_inv by blast
next
  case (drain s w)
  then show ?case using drain_step_inv by blast
qed (auto simp: drain_inv_def close_deadline_cleared_def report_delivered_def claimFailureReport_def)

end
