(* ===== verification/OwnerReport.thy ===== *)
theory OwnerReport
  imports OwnerInv
begin

text \<open>
  The invariant of reports: every occurrence is delivered at most once, every cleanup failure
  is delivered and marks the root failed, and no failure of a participant whose result nobody
  selected is lost.
\<close>

section \<open>The invariant\<close>

definition report_core :: "world \<Rightarrow> bool" where
  "report_core w \<longleftrightarrow>
     distinct (map fst (diagnostics w)) \<and> fst ` set (diagnostics w) \<subseteq> set (reported w)
     \<and> set (reported w) \<subseteq> set (claimed w) \<and> (\<forall>n \<in> set (claimed w). n < nextOccurrence w)"

definition cleanup_ok :: "world \<Rightarrow> bool" where
  "cleanup_ok w \<longleftrightarrow> (\<forall>r < length (resources w).
     (\<forall>n. rs_cleanup (resources w ! r) = Some n \<longrightarrow> (n, CleanupPhase) \<in> set (diagnostics w) \<and> failed w)
     \<and> (rs_closing (resources w ! r) = Some (Settled False) \<longrightarrow> rs_cleanup (resources w ! r) \<noteq> None))"

text \<open>A task belongs to one place of one group, or is a callback.\<close>

definition late_ok :: "world \<Rightarrow> bool" where
  "late_ok w \<longleftrightarrow>
     (\<forall>gr \<in> set (groups w). gr_sealed gr \<longrightarrow> (\<forall>i < length (gr_tasks gr). \<forall>n.
        tk_completion (tasks w ! (gr_tasks gr ! i)) = Some (StandardOutcome n) \<and> int i \<notin> set (gr_selected gr)
          \<longrightarrow> n \<in> set (reported w)))
     \<and> (\<forall>tk \<in> set (tasks w). \<forall>n. tk_completion tk = Some (StandardOutcome n) \<longrightarrow> n < nextOccurrence w)
     \<and> distinct (concat (map gr_tasks (groups w)))
     \<and> set (concat (map gr_tasks (groups w))) \<inter> set (callbacks w) = {}"

definition report_inv :: "world \<Rightarrow> bool" where
  "report_inv w \<longleftrightarrow> report_core w \<and> cleanup_ok w \<and> late_ok w"

section \<open>Runs that report nothing\<close>

definition late_view :: "group \<Rightarrow> nat list \<times> bool \<times> int list" where
  "late_view gr = (gr_tasks gr, gr_sealed gr, gr_selected gr)"

definition clean_later :: "resource_state list \<Rightarrow> resource_state list \<Rightarrow> bool" where
  "clean_later rs rs' \<longleftrightarrow> length rs \<le> length rs' \<and> (\<forall>r < length rs'.
     (r < length rs \<and> rs_cleanup (rs' ! r) = rs_cleanup (rs ! r)
        \<and> (rs_closing (rs' ! r) = Some (Settled False) \<longrightarrow> rs_closing (rs ! r) = Some (Settled False)))
     \<or> (rs_cleanup (rs' ! r) = None \<and> rs_closing (rs' ! r) \<noteq> Some (Settled False)))"

definition quiet :: "world \<Rightarrow> world \<Rightarrow> bool" where
  "quiet w w' \<longleftrightarrow>
     reported w' = reported w \<and> claimed w' = claimed w \<and> diagnostics w' = diagnostics w
     \<and> nextOccurrence w' = nextOccurrence w \<and> failed w' = failed w
     \<and> map late_view (groups w') = map late_view (groups w) \<and> map tk_completion (tasks w') = map tk_completion (tasks w)
     \<and> set (callbacks w') \<subseteq> set (callbacks w) \<and> clean_later (resources w) (resources w')"

lemma clean_later_refl [simp]: "clean_later rs rs"
  by (simp add: clean_later_def)

lemma clean_later_trans: "clean_later a b \<Longrightarrow> clean_later b c \<Longrightarrow> clean_later a c"
  unfolding clean_later_def by (intro conjI allI impI) (linarith, metis)

lemma quiet_refl [simp]: "quiet w w"
  by (simp add: quiet_def)

lemma quiet_trans: "quiet w w' \<Longrightarrow> quiet w' w'' \<Longrightarrow> quiet w w''"
  by (auto simp: quiet_def intro: clean_later_trans)

lemma calm_quiet: "calm w w' \<Longrightarrow> quiet w w'"
  by (simp add: quiet_def calmD clean_later_def calm_resource)

lemma clean_later_update:
  "rs_cleanup x = rs_cleanup (rs ! r) \<Longrightarrow>
   (rs_closing x = Some (Settled False) \<longrightarrow> rs_closing (rs ! r) = Some (Settled False)) \<Longrightarrow> clean_later rs (rs[r := x])"
  by (auto simp: clean_later_def nth_update)

lemma quiet_on_resource:
  "rs_cleanup (f (resources w ! r)) = rs_cleanup (resources w ! r) \<Longrightarrow>
   (rs_closing (f (resources w ! r)) = Some (Settled False) \<longrightarrow> rs_closing (resources w ! r) = Some (Settled False)) \<Longrightarrow>
   quiet w (on_resource r f w)"
  by (simp add: quiet_def on_resource_def clean_later_update)

lemma quiet_same:
  "reported w' = reported w \<Longrightarrow> claimed w' = claimed w \<Longrightarrow> diagnostics w' = diagnostics w \<Longrightarrow> nextOccurrence w' = nextOccurrence w \<Longrightarrow>
   failed w' = failed w \<Longrightarrow> groups w' = groups w \<Longrightarrow> tasks w' = tasks w \<Longrightarrow> callbacks w' = callbacks w \<Longrightarrow>
   resources w' = resources w \<Longrightarrow> quiet w w'"
  by (simp add: quiet_def)

lemma late_ok_keep:
  assumes "late_ok w" and "map late_view (groups w') = map late_view (groups w)"
    and "map tk_completion (tasks w') = map tk_completion (tasks w)" and "set (callbacks w') \<subseteq> set (callbacks w)"
    and "set (reported w) \<subseteq> set (reported w')" and "nextOccurrence w \<le> nextOccurrence w'" and "index_ok w"
  shows "late_ok w'"
proof -
  have tasks: "map gr_tasks (groups w') = map gr_tasks (groups w)"
  proof -
    have "map fst (map late_view gs) = map gr_tasks gs" for gs by (simp add: late_view_def comp_def)
    then show ?thesis using assms(2) by metis
  qed
  have len: "length (tasks w') = length (tasks w)" using assms(3) by (metis length_map)
  have comp: "tk_completion (tasks w' ! t) = tk_completion (tasks w ! t)" if "t < length (tasks w)" for t
    using assms(3) that len by (metis nth_map)
  have "n \<in> set (reported w')"
    if gr: "gr \<in> set (groups w')" "gr_sealed gr" "i < length (gr_tasks gr)"
      "tk_completion (tasks w' ! (gr_tasks gr ! i)) = Some (StandardOutcome n)" "int i \<notin> set (gr_selected gr)" for gr i n
  proof -
    have "late_view gr \<in> set (map late_view (groups w))" using gr(1) assms(2) by (metis image_eqI set_map)
    then obtain old where old: "old \<in> set (groups w)" "late_view old = late_view gr" by auto
    have view: "gr_tasks old = gr_tasks gr" "gr_sealed old = gr_sealed gr" "gr_selected old = gr_selected gr"
      using old(2) by (simp_all add: late_view_def)
    have "gr_tasks gr ! i < length (tasks w)" using assms(7) old(1) view(1) gr(3) unfolding index_ok_def by (metis nth_mem)
    then show ?thesis using assms(1,5) old(1) view gr comp unfolding late_ok_def by (metis subsetD)
  qed
  moreover have "n < nextOccurrence w'" if tk: "tk \<in> set (tasks w')" "tk_completion tk = Some (StandardOutcome n)" for tk n
  proof -
    have "tk_completion tk \<in> set (map tk_completion (tasks w))" using tk(1) assms(3) by (metis image_eqI set_map)
    then obtain old where "old \<in> set (tasks w)" "tk_completion old = Some (StandardOutcome n)" using tk(2) by auto
    then show ?thesis using assms(1,6) unfolding late_ok_def by (metis less_le_trans)
  qed
  ultimately show ?thesis using assms(1,4) unfolding late_ok_def tasks by blast
qed

lemma cleanup_ok_keep:
  assumes "cleanup_ok w" and "clean_later (resources w) (resources w')"
    and "set (diagnostics w) \<subseteq> set (diagnostics w')" and "failed w \<longrightarrow> failed w'"
  shows "cleanup_ok w'"
  unfolding cleanup_ok_def
proof (intro allI impI)
  fix r assume r: "r < length (resources w')"
  then show "(\<forall>n. rs_cleanup (resources w' ! r) = Some n \<longrightarrow> (n, CleanupPhase) \<in> set (diagnostics w') \<and> failed w')
      \<and> (rs_closing (resources w' ! r) = Some (Settled False) \<longrightarrow> rs_cleanup (resources w' ! r) \<noteq> None)"
    using assms(2) unfolding clean_later_def
    by (elim conjE allE [of _ r]) (use assms(1,3,4) r in \<open>auto simp: cleanup_ok_def\<close>)
qed

lemma report_inv_quiet: "report_inv w \<Longrightarrow> index_ok w \<Longrightarrow> quiet w w' \<Longrightarrow> report_inv w'"
  unfolding report_inv_def
  using late_ok_keep [of w w'] cleanup_ok_keep [of w w'] by (auto simp: quiet_def report_core_def)

section \<open>Reporting\<close>

lemma emit_core:
  assumes "report_core w" and "n < nextOccurrence w"
  shows "report_core (emit n p w)"
  using assms by (auto simp: emit_def claimFailureReport_def report_core_def Let_def)

lemma emit_logs:
  "set (reported w) \<subseteq> set (reported (emit n p w))" "set (diagnostics w) \<subseteq> set (diagnostics (emit n p w))"
  "n \<in> set (reported (emit n p w))"
  by (auto simp: emit_def claimFailureReport_def Let_def)

lemma emit_report_inv:
  assumes "report_inv w" and "index_ok w" and "n < nextOccurrence w"
  shows "report_inv (emit n p w)"
  using assms emit_core emit_logs [where w = w and n = n and p = p] late_ok_keep [of w "emit n p w"] cleanup_ok_keep [of w "emit n p w"]
  by (simp add: report_inv_def)

lemma record_cleanup_report:
  assumes "report_inv w" and "index_ok w"
  shows "report_inv (record_cleanup r w)"
proof -
  let ?n = "nextOccurrence w"
  let ?v = "w\<lparr>failed := True, nextOccurrence := ?n + 1\<rparr>"
  have fresh: "?n \<notin> set (claimed w)" "?n \<notin> set (reported w)" using assms(1) by (auto simp: report_inv_def report_core_def)
  have core: "report_core (emit ?n CleanupPhase ?v)"
    by (rule emit_core) (use assms(1) in \<open>auto simp: report_inv_def report_core_def\<close>)
  have diag: "set (diagnostics (emit ?n CleanupPhase ?v)) = insert (?n, CleanupPhase) (set (diagnostics w))"
    using fresh by (simp add: emit_def claimFailureReport_def Let_def)
  have logs: "set (reported w) \<subseteq> set (reported (emit ?n CleanupPhase ?v))" using emit_logs(1) [where w = ?v] by simp
  have w': "record_cleanup r w = on_resource r (\<lambda>st. st\<lparr>rs_cleanup := Some ?n\<rparr>) (emit ?n CleanupPhase ?v)"
    by (simp add: record_cleanup_def cleanup_def Let_def)
  have "report_core (record_cleanup r w)" using core unfolding w' by (simp add: report_core_def on_resource_def)
  moreover have "late_ok (record_cleanup r w)"
    using late_ok_keep [of w "record_cleanup r w"] assms(1,2) logs unfolding w' by (simp add: report_inv_def on_resource_def)
  moreover have "cleanup_ok (record_cleanup r w)"
    using assms(1) diag unfolding w' report_inv_def cleanup_ok_def by (auto simp: on_resource_def nth_update)
  ultimately show ?thesis by (simp add: report_inv_def)
qed

text \<open>A run that only emits occurrences that are allocated.\<close>

definition louder :: "world \<Rightarrow> world \<Rightarrow> bool" where
  "louder w w' \<longleftrightarrow> report_core w' \<and> set (reported w) \<subseteq> set (reported w') \<and> set (diagnostics w) \<subseteq> set (diagnostics w')
     \<and> nextOccurrence w' = nextOccurrence w \<and> failed w' = failed w"

lemma louder_trans: "louder w w' \<Longrightarrow> louder w' w'' \<Longrightarrow> louder w w''"
  by (auto simp: louder_def)

definition tasks_allocated :: "world \<Rightarrow> bool" where
  "tasks_allocated w \<longleftrightarrow> (\<forall>tk \<in> set (tasks w). \<forall>n. tk_completion tk = Some (StandardOutcome n) \<longrightarrow> n < nextOccurrence w)"

lemma observe_louder:
  assumes "report_core w" and "tasks_allocated w" and "gr_tasks (groups w ! g) ! i < length (tasks w)"
  shows "louder w (observeLaunched g i w)"
proof -
  have "n < nextOccurrence w" if "tk_completion (tasks w ! (gr_tasks (groups w ! g) ! i)) = Some (StandardOutcome n)" for n
    using assms(2,3) that nth_mem unfolding tasks_allocated_def by blast
  then show ?thesis
    using assms(1) emit_core emit_logs by (auto simp: louder_def observeLaunched_def split: option.splits settlement.splits)
qed

lemma fold_observe_louder:
  assumes "report_core w" and "tasks_allocated w" and "\<And>i. i \<in> set is \<Longrightarrow> gr_tasks (groups w ! g) ! i < length (tasks w)"
  shows "louder w (fold (observeLaunched g) is w)"
  using assms
proof (induction "is" arbitrary: w)
  case (Cons i "is")
  have one: "louder w (observeLaunched g i w)" using Cons.prems by (intro observe_louder) simp_all
  then have "louder (observeLaunched g i w) (fold (observeLaunched g) is (observeLaunched g i w))"
    using Cons.prems by (intro Cons.IH) (simp_all add: louder_def tasks_allocated_def)
  then show ?case using louder_trans [OF one] by simp
qed (simp add: louder_def)

lemma observe_reports:
  assumes "tk_completion (tasks w ! (gr_tasks (groups w ! g) ! i)) = Some (StandardOutcome n)"
    and "int i \<notin> set (gr_selected (groups w ! g))"
  shows "n \<in> set (reported (observeLaunched g i w))"
  using assms emit_logs(3) by (simp add: observeLaunched_def)

lemma reported_observe: "set (reported w) \<subseteq> set (reported (observeLaunched g i w))"
  using emit_logs(1) by (auto simp: observeLaunched_def split: option.splits settlement.splits)

lemma reported_fold_observe: "set (reported w) \<subseteq> set (reported (fold (observeLaunched g) is w))"
  by (induction "is" arbitrary: w) (use reported_observe in fastforce)+

lemma fold_observe_reports:
  assumes "i \<in> set is" and "tk_completion (tasks w ! (gr_tasks (groups w ! g) ! i)) = Some (StandardOutcome n)"
    and "int i \<notin> set (gr_selected (groups w ! g))"
  shows "n \<in> set (reported (fold (observeLaunched g) is w))"
  using assms
proof (induction "is" arbitrary: w)
  case (Cons j "is")
  show ?case
  proof (cases "j = i")
    case True
    then have "n \<in> set (reported (observeLaunched g j w))" using Cons.prems observe_reports by blast
    then show ?thesis using reported_fold_observe by fastforce
  next
    case False
    then show ?thesis using Cons.IH [of "observeLaunched g j w"] Cons.prems by simp
  qed
qed simp

text \<open>Setting the completion of one task.\<close>

lemma late_ok_complete:
  assumes "late_ok w" and "index_ok w" and "map late_view (groups w') = map late_view (groups w)"
    and "map tk_completion (tasks w') = (map tk_completion (tasks w))[t := Some c]"
    and "set (callbacks w') \<subseteq> set (callbacks w)" and "set (reported w) \<subseteq> set (reported w')"
    and "nextOccurrence w' = nextOccurrence w" and "allocated c w"
    and new: "\<And>gr j n. gr \<in> set (groups w) \<Longrightarrow> gr_sealed gr \<Longrightarrow> j < length (gr_tasks gr) \<Longrightarrow> gr_tasks gr ! j = t \<Longrightarrow>
       int j \<notin> set (gr_selected gr) \<Longrightarrow> c = StandardOutcome n \<Longrightarrow> n \<in> set (reported w')"
  shows "late_ok w'"
proof -
  have tasks: "map gr_tasks (groups w') = map gr_tasks (groups w)"
  proof -
    have "map fst (map late_view gs) = map gr_tasks gs" for gs by (simp add: late_view_def comp_def)
    then show ?thesis using assms(3) by metis
  qed
  have len: "length (tasks w') = length (tasks w)" using assms(4) by (metis length_list_update length_map)
  have comp: "tk_completion (tasks w' ! q) = (if q = t then Some c else tk_completion (tasks w ! q))" if "q < length (tasks w)" for q
  proof -
    have "tk_completion (tasks w' ! q) = map tk_completion (tasks w') ! q" using that len by simp
    then show ?thesis using that unfolding assms(4) by (simp add: nth_update)
  qed
  have "n \<in> set (reported w')"
    if gr: "gr \<in> set (groups w')" "gr_sealed gr" "i < length (gr_tasks gr)"
      "tk_completion (tasks w' ! (gr_tasks gr ! i)) = Some (StandardOutcome n)" "int i \<notin> set (gr_selected gr)" for gr i n
  proof -
    have "late_view gr \<in> set (map late_view (groups w))" using gr(1) assms(3) by (metis image_eqI set_map)
    then obtain old where old: "old \<in> set (groups w)" "late_view old = late_view gr" by auto
    have view: "gr_tasks old = gr_tasks gr" "gr_sealed old = gr_sealed gr" "gr_selected old = gr_selected gr"
      using old(2) by (simp_all add: late_view_def)
    have q: "gr_tasks gr ! i < length (tasks w)" using assms(2) old(1) view(1) gr(3) unfolding index_ok_def by (metis nth_mem)
    show ?thesis
    proof (cases "gr_tasks gr ! i = t")
      case True
      then show ?thesis using new [OF old(1)] view gr comp [OF q] by simp
    next
      case False
      then have "n \<in> set (reported w)" using assms(1) old(1) view gr comp [OF q] unfolding late_ok_def by auto
      then show ?thesis using assms(6) by blast
    qed
  qed
  moreover have "n < nextOccurrence w'" if tk: "tk \<in> set (tasks w')" "tk_completion tk = Some (StandardOutcome n)" for tk n
  proof -
    obtain q where q: "q < length (tasks w)" "tk = tasks w' ! q" using tk(1) len by (metis in_set_conv_nth)
    show ?thesis
    proof (cases "q = t")
      case True
      then have "c = StandardOutcome n" using comp [OF q(1)] tk(2) q(2) by simp
      then show ?thesis using assms(7,8) by (simp add: allocated_def)
    next
      case False
      then have "tk_completion (tasks w ! q) = Some (StandardOutcome n)" using comp [OF q(1)] tk(2) q(2) by simp
      then show ?thesis using assms(1,7) nth_mem [OF q(1)] unfolding late_ok_def by metis
    qed
  qed
  ultimately show ?thesis using assms(1,5) unfolding late_ok_def tasks by blast
qed

lemma distinct_place:
  assumes "distinct (concat (map f gs))" and "a < length gs" and "b < length gs" and "x \<in> set (f (gs ! a))" and "x \<in> set (f (gs ! b))"
  shows "a = b"
  using assms
proof (induction gs arbitrary: a b)
  case (Cons g gs)
  have later: "x \<in> set (concat (map f gs))" if "x \<in> set (f ((g # gs) ! Suc c))" "Suc c < length (g # gs)" for c
    using that nth_mem [of c gs] by auto
  show ?case using Cons.prems later Cons.IH by (cases a; cases b) auto
qed simp

section \<open>Every run keeps the invariant\<close>

lemma group_task_index:
  assumes "index_ok w" and "g < length (groups w)" and "j < length (gr_tasks (groups w ! g))"
  shows "gr_tasks (groups w ! g) ! j < length (tasks w)"
proof -
  have "groups w ! g \<in> set (groups w)" "gr_tasks (groups w ! g) ! j \<in> set (gr_tasks (groups w ! g))" using assms(2,3) by simp_all
  then show ?thesis using assms(1) unfolding index_ok_def by blast
qed

lemma quiet_set_phase [simp]: "quiet w (set_phase s p v) = quiet w v" "quiet w (on_scope s f v) = quiet w v"
  by (simp_all add: quiet_def set_phase_def on_scope_def)

lemma map_completion_on_task [simp]:
  "(\<And>tk. tk_completion (f tk) = tk_completion tk) \<Longrightarrow> map tk_completion (tasks (on_task t f w)) = map tk_completion (tasks w)"
  by (simp add: on_task_def map_update) (metis list_update_beyond list_update_id map_update not_less nth_map)

lemma map_view_on_group [simp]:
  "(\<And>gr. late_view (f gr) = late_view gr) \<Longrightarrow> map late_view (groups (on_group g f w)) = map late_view (groups w)"
  by (simp add: on_group_def map_update) (metis list_update_beyond list_update_id map_update not_less nth_map)

lemma quiet_register:
  assumes "registerResourceCore ex kind i m d w = Inr (r, w')"
  shows "quiet w w'"
proof -
  let ?w = "w\<lparr>resources := resources w @ [new_resource kind (ex_scope ex) i m d]\<rparr>"
  have w: "quiet w ?w" by (auto simp: quiet_def clean_later_def nth_append new_resource_def)
  consider "w' = ?w" | t where "lend_initial (length (resources w)) ex t ?w = Inr w'"
    using assms by (auto simp: registerResourceCore_def Let_def split: if_splits option.splits sum.splits)
  then show ?thesis
  proof cases
    case 2
    then obtain l w1 where acq: "acquire (length (resources w)) ex ?w = Inr (l, w1)"
      by (auto simp: lend_initial_def split: sum.splits)
    let ?f = "\<lambda>st. st\<lparr>rs_creator := Some t, rs_initialRelease := True, rs_once := Some (snd l, False)\<rparr>"
    let ?w2 = "on_resource (length (resources w)) ?f w1"
    let ?w3 = "on_task t (\<lambda>tk. tk\<lparr>tk_dynamic := tk_dynamic tk @ [length (resources w)]\<rparr>) ?w2"
    have "quiet w1 ?w2" by (rule quiet_on_resource) simp_all
    moreover have "quiet ?w2 ?w3" by (simp add: quiet_def) (simp add: on_task_def)
    ultimately have "quiet w ?w3" using quiet_trans w calm_quiet [OF calm_acquire [OF acq]] by blast
    moreover have "w' = ?w3 \<or> w' = on_scope (ex_scope ex) (\<lambda>sc. sc\<lparr>sc_exitReleases := sc_exitReleases sc @ [length (resources w)]\<rparr>) ?w3"
      using 2 acq by (auto simp: lend_initial_def Let_def split: if_splits)
    ultimately show ?thesis by auto
  qed (use w in simp)
qed

lemma quiet_beginClose: "quiet w (beginClose r w)"
  unfolding beginClose_def by (rule quiet_on_resource) simp_all

lemma quiet_close:
  assumes "closeResourceCore ex r kind d w = Inr w'"
  shows "quiet w w'"
proof (rule closeResourceCore_Inr [OF assms])
  fix v u assume "v = w \<or> v = release_once r w"
    "u = v \<and> rs_closing (resources v ! r) \<noteq> None \<or> u = beginClose r v \<and> rs_closing (resources v ! r) = None"
    and w': "w' = u \<or> w' = u\<lparr>deadlines := r # deadlines u\<rparr>"
  then have "quiet w u" using calm_quiet [OF calm_release_once] quiet_beginClose quiet_trans quiet_refl by metis
  moreover have "quiet u w'" using w' by (auto intro: quiet_same)
  ultimately show ?thesis by (rule quiet_trans)
qed

lemma quiet_drain_gather: "quiet w (drain_gather s w)"
proof -
  have arm: "quiet v (arm_timer s r v)" for r v
    by (auto simp: arm_timer_def Let_def intro!: quiet_on_resource)
  have "quiet w (fold (arm_timer s) rs w)" for rs
    by (induction rs arbitrary: w) (auto intro: quiet_trans arm)
  then show ?thesis by (simp add: drain_gather_def Let_def)
qed

lemma report_inv_set_phase [simp]:
  "report_inv (set_phase s p w) = report_inv w" "report_inv (on_scope s f w) = report_inv w"
  by (simp_all add: report_inv_def report_core_def cleanup_ok_def late_ok_def set_phase_def on_scope_def)

lemma index_ok_record_cleanup [simp]: "index_ok (record_cleanup r w) = index_ok w"
  by (simp add: index_ok_def)

lemma drain_step_report:
  assumes "report_inv w" and "index_ok w"
  shows "report_inv (drain_step s w)"
proof -
  have "report_inv (drain_close s r rs first w)" for r rs first
  proof -
    let ?v = "if \<not> rs_scopeManaged (resources w ! r) \<and> rs_cleanup (resources w ! r) = None then record_cleanup r w else w"
    have "report_inv ?v" "index_ok ?v" using assms record_cleanup_report by simp_all
    then have "report_inv (beginClose r ?v)" using report_inv_quiet quiet_beginClose by blast
    then show ?thesis using assms by (simp add: drain_close_def Let_def)
  qed
  then show ?thesis
    using assms report_inv_quiet [OF assms quiet_drain_gather]
    by (simp add: drain_step_def split: option.splits drain_phase.splits list.splits closer.splits)
qed

lemma cleanup_last:
  "st\<lparr>rs_timer := a, rs_closing := b, rs_cleanup := c\<rparr> = st\<lparr>rs_cleanup := c, rs_timer := a, rs_closing := b\<rparr>"
  by (cases st) simp

lemma close_finish_report:
  assumes "report_inv w" and "index_ok w"
  shows "report_inv (close_finish r c w)"
proof (cases "c = OkOutcome")
  case True
  let ?f = "\<lambda>st. st\<lparr>rs_timer := False, rs_closing := Some (Settled True)\<rparr>"
  let ?g = "\<lambda>st. st\<lparr>rs_state := Closed, rs_creator := None, rs_initialRelease := False\<rparr>"
  have "quiet w (on_resource r ?f w)" by (rule quiet_on_resource) simp_all
  moreover have "quiet (on_resource r ?f w) (on_resource r ?g (on_resource r ?f w))" by (rule quiet_on_resource) simp_all
  ultimately have "quiet w (close_finish r c w)" using True quiet_trans by (simp add: close_finish_def Let_def)
  then show ?thesis using report_inv_quiet assms by blast
next
  case False
  let ?f = "\<lambda>st. st\<lparr>rs_timer := False, rs_closing := Some (Settled False)\<rparr>"
  let ?v = "record_cleanup r w"
  have v: "report_inv ?v" using record_cleanup_report assms by blast
  let ?n = "nextOccurrence w" and ?e = "emit (nextOccurrence w) CleanupPhase (w\<lparr>failed := True, nextOccurrence := nextOccurrence w + 1\<rparr>)"
  have parts: "record_cleanup r u = on_resource r (\<lambda>st. st\<lparr>rs_cleanup := Some (nextOccurrence u)\<rparr>)
      (emit (nextOccurrence u) CleanupPhase (u\<lparr>failed := True, nextOccurrence := nextOccurrence u + 1\<rparr>))" for u
    by (simp add: record_cleanup_def cleanup_def Let_def)
  have em: "emit n p (u\<lparr>resources := rs\<rparr>) = (emit n p u)\<lparr>resources := rs\<rparr>" for n p u rs
    by (simp add: emit_def claimFailureReport_def Let_def)
  have same: "close_finish r c w = on_resource r ?f ?v"
  proof -
    have "close_finish r c w = record_cleanup r (on_resource r ?f w)" using False by (simp add: close_finish_def Let_def)
    also have "\<dots> = on_resource r ?f ?v"
      unfolding parts on_resource_def
      by (cases "r < length (resources w)") (simp_all add: em cleanup_last list_update_beyond flip: em)
    finally show ?thesis .
  qed
  have "cleanup_ok (on_resource r ?f ?v)"
    using v by (auto simp: report_inv_def cleanup_ok_def on_resource_def nth_update)
  then show ?thesis
    using v unfolding same by (simp add: report_inv_def report_core_def late_ok_def on_resource_def)
qed

lemma finishLaunched_sealed:
  assumes "gr_sealed (groups w ! g)"
  shows "reported (finishLaunched g i w) =
      reported (case i of None \<Rightarrow> fold (observeLaunched g) [0..<length (gr_tasks (groups w ! g))] w | Some i \<Rightarrow> observeLaunched g i w)"
    and "report_core (finishLaunched g i w) =
      report_core (case i of None \<Rightarrow> fold (observeLaunched g) [0..<length (gr_tasks (groups w ! g))] w | Some i \<Rightarrow> observeLaunched g i w)"
  using assms by (auto simp: finishLaunched_def Let_def on_group_def report_core_def split: option.splits)

lemma finishLaunched_louder:
  assumes "report_core w" and "tasks_allocated w" and "index_ok w" and "g < length (groups w)"
    and "\<And>j. i = Some j \<Longrightarrow> j < length (gr_tasks (groups w ! g))"
  shows "louder w (finishLaunched g i w)"
proof (cases "gr_sealed (groups w ! g)")
  case True
  note t = group_task_index [OF assms(3,4)]
  let ?v = "case i of None \<Rightarrow> fold (observeLaunched g) [0..<length (gr_tasks (groups w ! g))] w | Some i \<Rightarrow> observeLaunched g i w"
  have "louder w ?v"
  proof (cases i)
    case None
    have "louder w (fold (observeLaunched g) [0..<length (gr_tasks (groups w ! g))] w)"
      by (rule fold_observe_louder [OF assms(1,2)]) (simp add: t)
    then show ?thesis using None by simp
  next
    case (Some j)
    then show ?thesis using observe_louder [OF assms(1,2)] t assms(5) by simp
  qed
  then show ?thesis using True by (auto simp: finishLaunched_def Let_def louder_def report_core_def on_group_def)
next
  case False
  then show ?thesis using assms(1) by (simp add: finishLaunched_def louder_def)
qed

lemma finishLaunched_views [simp]: "map late_view (groups (finishLaunched g i w)) = map late_view (groups w)"
  by (auto simp: finishLaunched_def Let_def late_view_def split: option.splits)

text \<open>The settlement of a participant: the state before its outcome is observed.\<close>

lemma settleLaunched_before:
  obtains v where "settleLaunched g i c w = finishLaunched g (Some i) v" "reported v = reported w" "claimed v = claimed w"
    "diagnostics v = diagnostics w" "nextOccurrence v = nextOccurrence w" "failed v = failed w"
    "map late_view (groups v) = map late_view (groups w)"
    "map tk_completion (tasks v) = (map tk_completion (tasks w))[gr_tasks (groups w ! g) ! i := Some c]"
    "callbacks v = callbacks w" "clean_later (resources w) (resources v)"
proof -
  define t where "t = gr_tasks (groups w ! g) ! i"
  define w1 where "w1 = on_task t (\<lambda>tk. tk\<lparr>tk_completion := Some c\<rparr>) w"
  define w2 where "w2 = release_each (rev (tk_release (tasks w1 ! t))) w1"
  define w3 where "w3 = fold release_once (tk_dynamic (tasks w2 ! t)) w2"
  define w4 where "w4 = on_task t (\<lambda>tk. tk\<lparr>tk_dynamic := []\<rparr>) w3"
  define v where "v = on_group g (\<lambda>gr. gr\<lparr>gr_pending := gr_pending gr - 1\<rparr>) w4"
  have calm: "calm w1 w3" unfolding w3_def w2_def by (intro calm_trans [OF calm_release_each calm_fold]) simp
  have q: "quiet w1 w3" using calm by (rule calm_quiet)
  have "settleLaunched g i c w = finishLaunched g (Some i) v"
    by (simp add: settleLaunched_def Let_def v_def w4_def w3_def w2_def w1_def t_def)
  moreover have "map tk_completion (tasks v) = map tk_completion (tasks w3)"
    unfolding v_def w4_def by (simp add: on_group_def) 
  moreover have "map tk_completion (tasks w3) = (map tk_completion (tasks w))[t := Some c]"
    using q by (cases "t < length (tasks w)") (simp_all add: quiet_def w1_def on_task_def map_update list_update_beyond)
  moreover have "map late_view (groups v) = map late_view (groups w4)" unfolding v_def by (simp add: late_view_def)
  moreover have "groups w4 = groups w" using calmD [OF calm] by (simp add: w4_def w1_def on_task_def)
  moreover have "clean_later (resources w) (resources v)"
    using q by (simp add: quiet_def v_def w4_def w1_def on_task_def on_group_def)
  ultimately show ?thesis
    using that [of v] calmD [OF calm] by (simp add: v_def w4_def w1_def t_def on_task_def on_group_def)
qed

lemma settleLaunched_report:
  assumes inv: "report_inv w" and idx: "index_ok w" and g: "g < length (groups w)" and i: "i < length (gr_tasks (groups w ! g))"
    and c: "allocated c w"
  shows "report_inv (settleLaunched g i c w)"
proof (rule settleLaunched_before [of g i c w])
  fix v assume run: "settleLaunched g i c w = finishLaunched g (Some i) v" and same: "reported v = reported w"
    "claimed v = claimed w" "diagnostics v = diagnostics w" "nextOccurrence v = nextOccurrence w" "failed v = failed w"
    and views: "map late_view (groups v) = map late_view (groups w)"
    and fin: "map tk_completion (tasks v) = (map tk_completion (tasks w))[gr_tasks (groups w ! g) ! i := Some c]"
    and cb: "callbacks v = callbacks w" and res: "clean_later (resources w) (resources v)"
  let ?t = "gr_tasks (groups w ! g) ! i" and ?w = "finishLaunched g (Some i) v"
  have len: "length (groups v) = length (groups w)" using views by (metis length_map)
  have view: "late_view (groups v ! g) = late_view (groups w ! g)" using views g len by (metis nth_map)
  have t: "?t < length (tasks w)" using group_task_index [OF idx g i] .
  have core: "report_core v" using inv same by (simp add: report_inv_def report_core_def)
  have alloc: "tasks_allocated v"
    unfolding tasks_allocated_def
  proof (intro ballI allI impI)
    fix tk n assume tk: "tk \<in> set (tasks v)" "tk_completion tk = Some (StandardOutcome n)"
    then have "Some (StandardOutcome n) \<in> set (map tk_completion (tasks v))" by (metis image_eqI set_map)
    then have "Some (StandardOutcome n) \<in> insert (Some c) (set (map tk_completion (tasks w)))"
      unfolding fin using set_update_subset_insert by fastforce
    then show "n < nextOccurrence v" using inv c same by (auto simp: report_inv_def late_ok_def allocated_def)
  qed
  have "still w (settleLaunched g i c w)" by (rule still_settleLaunched)
  then have "still w v" unfolding run by (simp add: still_def)
  then have idxv: "index_ok v" using idx still_index by blast
  have loud: "louder v ?w"
    using core alloc idxv len g view i by (intro finishLaunched_louder) (auto simp: late_view_def)
  have "late_ok ?w"
  proof (rule late_ok_complete [where w = w and t = ?t and c = c])
    fix gr j n assume gr: "gr \<in> set (groups w)" "gr_sealed gr" "j < length (gr_tasks gr)" "gr_tasks gr ! j = ?t"
      "int j \<notin> set (gr_selected gr)" "c = StandardOutcome n"
    obtain h where h: "h < length (groups w)" "gr = groups w ! h" using gr(1) by (metis in_set_conv_nth)
    have dist: "distinct (concat (map gr_tasks (groups w)))" using inv by (simp add: report_inv_def late_ok_def)
    have "h = g" using distinct_place [OF dist h(1) g, of ?t] gr(3,4) h(2) i nth_mem by metis
    moreover have "distinct (gr_tasks gr)" using dist gr(1) by (auto simp: distinct_concat_iff)
    ultimately have "j = i" using gr(3,4) h(2) i nth_eq_iff_index_eq by metis
    have sealed: "gr_sealed (groups v ! g)" "int i \<notin> set (gr_selected (groups v ! g))" "gr_tasks (groups v ! g) ! i = ?t"
      using gr(2,5) h(2) \<open>h = g\<close> \<open>j = i\<close> view by (auto simp: late_view_def)
    have "tk_completion (tasks v ! ?t) = Some c"
    proof -
      have "length (tasks v) = length (tasks w)" using fin by (metis length_list_update length_map)
      then have "tk_completion (tasks v ! ?t) = map tk_completion (tasks v) ! ?t" using t by simp
      then show ?thesis unfolding fin using t by simp
    qed
    then have "n \<in> set (reported (observeLaunched g i v))" using observe_reports [of v g i n] sealed gr(6) by simp
    then show "n \<in> set (reported ?w)" using finishLaunched_sealed(1) [OF sealed(1), of "Some i"] by simp
  qed (use inv idx views fin cb loud same c in \<open>auto simp: report_inv_def louder_def\<close>)
  moreover have "cleanup_ok ?w"
    by (rule cleanup_ok_keep [of w]) (use inv res loud same in \<open>auto simp: report_inv_def louder_def\<close>)
  ultimately show ?thesis using loud unfolding run by (simp add: report_inv_def louder_def)
qed

lemma settleCallbackTask_report:
  assumes inv: "report_inv w" and idx: "index_ok w" and t: "t \<in> set (callbacks w)" and c: "allocated c w"
  shows "report_inv (settleCallbackTask t c w)"
proof -
  define w1 where "w1 = on_task t (\<lambda>tk. tk\<lparr>tk_completion := Some c\<rparr>) w"
  define w2 where "w2 = fold release_once (tk_dynamic (tasks w1 ! t)) w1"
  have calm: "calm w1 w2" unfolding w2_def by (rule calm_fold) simp
  have q: "quiet w1 w2" using calm by (rule calm_quiet)
  let ?w = "settleCallbackTask t c w"
  have run: "?w = (on_task t (\<lambda>tk. tk\<lparr>tk_dynamic := []\<rparr>) w2)\<lparr>callbacks := filter (\<lambda>t'. t' \<noteq> t) (callbacks w2)\<rparr>"
    by (simp add: settleCallbackTask_def Let_def w2_def w1_def on_task_def)
  have len: "t < length (tasks w)" using idx t by (simp add: index_ok_def)
  have same: "reported ?w = reported w" "claimed ?w = claimed w" "diagnostics ?w = diagnostics w"
    "nextOccurrence ?w = nextOccurrence w" "failed ?w = failed w" "groups ?w = groups w" "set (callbacks ?w) \<subseteq> set (callbacks w)"
    "clean_later (resources w) (resources ?w)"
    using calmD [OF calm] q by (auto simp: run w1_def on_task_def quiet_def)
  have "map tk_completion (tasks ?w) = map tk_completion (tasks w2)" unfolding run by simp
  also have "\<dots> = (map tk_completion (tasks w))[t := Some c]"
    using q len by (simp add: quiet_def w1_def on_task_def map_update)
  finally have fin: "map tk_completion (tasks ?w) = (map tk_completion (tasks w))[t := Some c]" .
  have "late_ok ?w"
  proof (rule late_ok_complete [where w = w and t = t and c = c])
    fix gr j n assume gr: "gr \<in> set (groups w)" "j < length (gr_tasks gr)" "gr_tasks gr ! j = t"
    have "t \<in> set (concat (map gr_tasks (groups w)))" using gr nth_mem by fastforce
    then show "n \<in> set (reported ?w)" using inv t by (auto simp: report_inv_def late_ok_def)
  qed (use inv idx same fin c in \<open>auto simp: report_inv_def\<close>)
  moreover have "cleanup_ok ?w" by (rule cleanup_ok_keep [of w]) (use inv same in \<open>auto simp: report_inv_def\<close>)
  ultimately show ?thesis using inv same by (simp add: report_inv_def report_core_def)
qed

lemma publish_report:
  assumes inv: "report_inv w" and idx: "index_ok w" and g: "g < length (groups w)" and run: "publish g selected w = Inr w'"
  shows "report_inv w'"
proof -
  define v where "v = on_group g (\<lambda>gr. gr\<lparr>gr_selected := selected, gr_sealed := True\<rparr>) w"
  have w': "w' = finishLaunched g None v" using run by (simp add: publish_def v_def split: if_splits)
  have vs: "reported v = reported w" "claimed v = claimed w" "diagnostics v = diagnostics w" "nextOccurrence v = nextOccurrence w"
    "failed v = failed w" "tasks v = tasks w" "callbacks v = callbacks w" "resources v = resources w"
    "length (groups v) = length (groups w)"
    by (simp_all add: v_def on_group_def)
  have gv: "groups v ! h = (if h = g then (groups w ! g)\<lparr>gr_selected := selected, gr_sealed := True\<rparr> else groups w ! h)" for h
    using g by (auto simp: v_def on_group_def nth_update)
  have tasks: "map gr_tasks (groups v) = map gr_tasks (groups w)" unfolding v_def by simp
  have idxv: "index_ok v" using idx by (rule index_ok_keep) (simp_all add: tasks vs)
  have core: "report_core v" "tasks_allocated v"
    using inv vs by (auto simp: report_inv_def report_core_def late_ok_def tasks_allocated_def)
  have loud: "louder v w'" unfolding w' using core idxv g vs by (intro finishLaunched_louder) simp_all
  have sealed: "gr_sealed (groups v ! g)" by (simp add: gv)
  have views: "map late_view (groups w') = map late_view (groups v)" unfolding w' by simp
  have rep: "n \<in> set (reported w')"
    if gr: "gr \<in> set (groups v)" "gr_sealed gr" "i < length (gr_tasks gr)"
      "tk_completion (tasks v ! (gr_tasks gr ! i)) = Some (StandardOutcome n)" "int i \<notin> set (gr_selected gr)" for gr i n
  proof -
    obtain h where h: "h < length (groups w)" "gr = groups v ! h" using gr(1) vs(9) by (metis in_set_conv_nth)
    show ?thesis
    proof (cases "h = g")
      case True
      then have "n \<in> set (reported (fold (observeLaunched g) [0..<length (gr_tasks (groups v ! g))] v))"
        using gr h by (intro fold_observe_reports) auto
      then show ?thesis using finishLaunched_sealed(1) [OF sealed, of None] w' by simp
    next
      case False
      then have "n \<in> set (reported w)" using inv gr h gv vs nth_mem [OF h(1)] unfolding report_inv_def late_ok_def by auto
      then show ?thesis using loud vs by (auto simp: louder_def)
    qed
  qed
  have "late_ok w'"
  proof -
    have tw: "tasks w' = tasks v" "callbacks w' = callbacks v" unfolding w' by simp_all
    have gw: "map gr_tasks (groups w') = map gr_tasks (groups w)" unfolding w' tasks [symmetric] by simp
    have "n \<in> set (reported w')"
      if gr: "gr \<in> set (groups w')" "gr_sealed gr" "i < length (gr_tasks gr)"
        "tk_completion (tasks w' ! (gr_tasks gr ! i)) = Some (StandardOutcome n)" "int i \<notin> set (gr_selected gr)" for gr i n
    proof -
      have "late_view gr \<in> set (map late_view (groups v))" using gr(1) views by (metis image_eqI set_map)
      then obtain old where "old \<in> set (groups v)" "late_view old = late_view gr" by auto
      then show ?thesis using rep [of old i n] gr tw by (auto simp: late_view_def)
    qed
    then show ?thesis
      using inv core(2) loud vs tw unfolding late_ok_def gw report_inv_def tasks_allocated_def louder_def by auto
  qed
  moreover have "cleanup_ok w'"
    by (rule cleanup_ok_keep [of w]) (use inv loud vs w' in \<open>auto simp: report_inv_def louder_def\<close>)
  ultimately show ?thesis using loud by (simp add: report_inv_def louder_def)
qed

text \<open>New tasks are numbered past all existing ones.\<close>

lemma late_ok_add_tasks:
  assumes "late_ok w" and "index_ok w" and "tasks w' = tasks w @ ts" and "\<And>tk. tk \<in> set ts \<Longrightarrow> tk_completion tk = None"
    and "groups w' = groups w @ gs" and "\<And>gr. gr \<in> set gs \<Longrightarrow> \<not> gr_sealed gr"
    and "distinct (concat (map gr_tasks gs))" and "set (concat (map gr_tasks gs)) \<subseteq> {length (tasks w)..}"
    and "callbacks w' = callbacks w @ cs" and "set cs \<subseteq> {length (tasks w)..}" and "set (concat (map gr_tasks gs)) \<inter> set cs = {}"
    and "reported w' = reported w" and "nextOccurrence w' = nextOccurrence w"
  shows "late_ok w'"
proof -
  have low: "set (concat (map gr_tasks (groups w))) \<subseteq> {..<length (tasks w)}" "set (callbacks w) \<subseteq> {..<length (tasks w)}"
    using assms(2) by (auto simp: index_ok_def)
  have "n \<in> set (reported w')"
    if gr: "gr \<in> set (groups w')" "gr_sealed gr" "i < length (gr_tasks gr)"
      "tk_completion (tasks w' ! (gr_tasks gr ! i)) = Some (StandardOutcome n)" "int i \<notin> set (gr_selected gr)" for gr i n
  proof -
    have old: "gr \<in> set (groups w)" using gr(1,2) assms(5,6) by auto
    then have "gr_tasks gr ! i < length (tasks w)" using assms(2) gr(3) nth_mem unfolding index_ok_def by blast
    then show ?thesis using assms(1,3,12) old gr unfolding late_ok_def by (auto simp: nth_append)
  qed
  moreover have "n < nextOccurrence w'" if tk: "tk \<in> set (tasks w')" "tk_completion tk = Some (StandardOutcome n)" for tk n
    using assms(1,3,4,13) tk unfolding late_ok_def by auto
  moreover have "distinct (concat (map gr_tasks (groups w')))"
    using assms(1,5,7,8) low(1) unfolding late_ok_def by fastforce
  moreover have "set (concat (map gr_tasks (groups w'))) \<inter> set (callbacks w') = {}"
    using assms(1,5,8,9,10,11) low unfolding late_ok_def by fastforce
  ultimately show ?thesis unfolding late_ok_def by blast
qed

lemma launch_report:
  assumes inv: "report_inv w" and idx: "index_ok w" and run: "prepareLaunch ex ps native w = (res, w')"
  shows "report_inv w'"
  using run
proof (cases rule: prepareLaunch_cases)
  case (2 w1 key res1 w2)
  have "calm w1 w2" using calm_retain_each [of w1 ps] 2(2) by (metis snd_conv)
  moreover have "quiet w w1" using 2(1) by (auto intro: quiet_same)
  ultimately have "quiet w w'" using 2(3) calm_quiet quiet_trans by blast
  then show ?thesis using report_inv_quiet inv idx by blast
next
  case (3 w1 key lss w2)
  have "calm w1 w2" using calm_retain_each [of w1 ps] 3(2) by (metis snd_conv)
  moreover have "quiet w w1" using 3(1) by (auto intro: quiet_same)
  ultimately have q: "quiet w w2" using calm_quiet quiet_trans by blast
  have w2: "report_inv w2" using report_inv_quiet inv idx q by blast
  have same: "groups w2 = groups w" "tasks w2 = tasks w" "callbacks w2 = callbacks w"
    using \<open>calm w1 w2\<close> 3(1) by (auto simp: calmD)
  have idx2: "index_ok w2" using idx same by (simp add: index_ok_def)
  let ?gs = "[\<lparr>gr_scope = ex_scope ex, gr_key = key, gr_tasks = [length (tasks w2)..<length (tasks w2) + length ps], gr_sealed = False,
      gr_selected = [], gr_pending = int (length ps), gr_active = True\<rparr>]"
  let ?ts = "map (\<lambda>ls. \<lparr>tk_scope = ex_scope ex, tk_dynamic = [], tk_completion = None, tk_release = ls\<rparr>) lss"
  have "late_ok w'"
    by (rule late_ok_add_tasks [where w = w2 and ts = ?ts and gs = ?gs and cs = "[]"])
      (use w2 idx2 in \<open>auto simp: 3(3) report_inv_def\<close>)
  then show ?thesis using w2 by (simp add: 3(3) report_inv_def report_core_def cleanup_ok_def)
qed (use inv in simp)

lemma callback_report:
  assumes inv: "report_inv w" and idx: "index_ok w" and run: "guardCallback ambient s w = Inr (t, w')"
  shows "report_inv w'"
proof -
  obtain site where w': "w' = w\<lparr>tasks := tasks w @ [\<lparr>tk_scope = site, tk_dynamic = [], tk_completion = None, tk_release = []\<rparr>],
      callbacks := callbacks w @ [length (tasks w)], nextKey := nextKey w + 1\<rparr>"
    using run by (auto simp: guardCallback_def Let_def split: if_splits)
  have "late_ok w'"
    by (rule late_ok_add_tasks [where w = w and ts = "[\<lparr>tk_scope = site, tk_dynamic = [], tk_completion = None, tk_release = []\<rparr>]"
          and gs = "[]" and cs = "[length (tasks w)]"])
      (use inv idx in \<open>auto simp: w' report_inv_def\<close>)
  then show ?thesis using inv by (simp add: w' report_inv_def report_core_def cleanup_ok_def)
qed

lemma timer_report:
  assumes "report_inv w" and "index_ok w"
  shows "report_inv (timer_fired r w)"
proof -
  let ?w = "on_resource r (\<lambda>st. st\<lparr>rs_timer := False\<rparr>) w"
  let ?f = "\<lambda>st. st\<lparr>rs_state := Closing, rs_autoPending := True\<rparr>"
  have q: "quiet w ?w" by (rule quiet_on_resource) simp_all
  moreover have "quiet ?w (on_resource r ?f ?w)" by (rule quiet_on_resource) simp_all
  ultimately have "report_inv ?w" "report_inv (on_resource r ?f ?w)" using report_inv_quiet [OF assms] quiet_trans by blast+
  moreover have "index_ok ?w" "index_ok (on_resource r ?f ?w)" using assms(2) by (simp_all add: index_ok_def on_resource_def)
  ultimately show ?thesis using record_cleanup_report by (simp add: timer_fired_def Let_def)
qed

lemma report_inv_step: "owner_step w w' \<Longrightarrow> owner_inv w \<Longrightarrow> report_inv w \<Longrightarrow> report_inv w'"
proof (induction rule: owner_step.induct)
  case (register ex w kind idem managed shutdown r w')
  then show ?case using quiet_register report_inv_quiet unfolding owner_inv_def by blast
next
  case (use ex w r kind l w')
  obtain w1 where acq: "acquire r ex w = Inr (l, w1)" and w': "w' = w1\<lparr>uses := l # uses w1\<rparr>"
    using use(2) by (auto simp: useResourceCore_def resource_def split: if_splits sum.splits)
  have "quiet w1 w'" unfolding w' by (rule quiet_same) simp_all
  then have "quiet w w'" using calm_quiet [OF calm_acquire [OF acq]] quiet_trans by blast
  then show ?case using use report_inv_quiet unfolding owner_inv_def by blast
next
  case (use_end l w)
  have "quiet w (w\<lparr>uses := remove1 l (uses w)\<rparr>)" by (rule quiet_same) simp_all
  then have "quiet w (use_end l w)" unfolding use_end_def using calm_quiet [OF calm_release] quiet_trans by blast
  then show ?case using use_end report_inv_quiet unfolding owner_inv_def by blast
next
  case (close ex w r kind deadline w')
  then show ?case using quiet_close report_inv_quiet unfolding owner_inv_def by blast
next
  case (deadline_passed r w)
  let ?w = "w\<lparr>deadlines := remove1 r (deadlines w)\<rparr>"
  have "quiet w ?w" by (rule quiet_same) simp_all
  moreover have "index_ok w" "index_ok ?w" using deadline_passed(2) by (simp_all add: owner_inv_def index_ok_def)
  ultimately show ?case
    unfolding close_deadline_passed_def using deadline_passed(3) report_inv_quiet record_cleanup_report by blast
next
  case (close_poll r w)
  have "quiet w (close_poll r w)"
    by (auto simp: close_poll_def quiet_def on_resource_def clean_later_update)
  then show ?case using close_poll report_inv_quiet unfolding owner_inv_def by blast
next
  case (close_finish r w c)
  then show ?case using close_finish_report unfolding owner_inv_def by blast
next
  case (launch ex w participants native res w')
  then show ?case using launch_report unfolding owner_inv_def by blast
next
  case (settle g w i c)
  then show ?case using settleLaunched_report unfolding owner_inv_def by blast
next
  case (publish g w selected w')
  then show ?case using publish_report unfolding owner_inv_def by blast
next
  case (callback ambient w s t w')
  then show ?case using callback_report unfolding owner_inv_def by blast
next
  case (callback_settle t w c)
  then show ?case using settleCallbackTask_report unfolding owner_inv_def by blast
next
  case (timer r w)
  then show ?case using timer_report unfolding owner_inv_def by blast
next
  case (scope ex w s w')
  have "quiet w w'" using scope(2) by (auto simp: withScope_def createChildScope_def quiet_def split: sum.splits if_splits)
  then show ?case using scope report_inv_quiet unfolding owner_inv_def by blast
next
  case (scope_end s w)
  let ?v = "fold release_once (sc_exitReleases (scopes w ! s)) w"
  have "quiet w ?v" by (intro calm_quiet calm_fold) simp
  then have "quiet w (settleScopeBody s w)"
    unfolding settleScopeBody_def Let_def by (intro quiet_trans [OF _ quiet_drain_gather]) simp
  then show ?case using scope_end report_inv_quiet unfolding owner_inv_def by blast
next
  case (root_end w)
  have "quiet w (settle_root w)" unfolding settle_root_def by (intro quiet_trans [OF _ quiet_drain_gather]) simp
  then show ?case using root_end report_inv_quiet unfolding owner_inv_def by blast
next
  case (drain s w)
  then show ?case using drain_step_report unfolding owner_inv_def by blast
next
  case (allocate w)
  then show ?case by (auto simp: report_inv_def report_core_def cleanup_ok_def late_ok_def less_SucI)
next
  case (claim n w)
  then show ?case
    by (auto simp: report_inv_def report_core_def cleanup_ok_def late_ok_def claimFailureReport_def)
qed (auto simp: report_inv_def report_core_def cleanup_ok_def late_ok_def close_deadline_cleared_def report_delivered_def)

lemma report_inv_createRoot: "report_inv createRoot"
  by (simp add: report_inv_def report_core_def cleanup_ok_def late_ok_def createRoot_def)

end
