(* ===== verification/OwnerProps.thy ===== *)
theory OwnerProps
  imports OwnerDrain OwnerReport
begin

text \<open>
  What the owner guarantees in every interleaving: a native close callback runs once and never
  under a lease, a closed scope leaves no resource open, failures are reported once, and a
  drain ends when the work it waits for has ended.
\<close>

section \<open>A run to evaluate\<close>

text \<open>A root with one resource that is used, closed and found closed at the end.\<close>

definition demo_context :: execution where
  "demo_context = \<lparr>ex_scope = 0, ex_owner = None, ex_task = None\<rparr>"

definition demo_open :: world where
  "demo_open = snd (projr (registerResourceCore demo_context (ascii ''file'') False False None createRoot))"

definition demo_closing :: world where
  "demo_closing = projr (closeResourceCore demo_context 0 (ascii ''file'') None demo_open)"

definition demo_closed :: world where
  "demo_closed = close_finish 0 OkOutcome (close_poll 0 demo_closing)"

lemma context_ok_demo:
  "scopes w \<noteq> [] \<Longrightarrow> sc_state (scopes w ! 0) \<noteq> Closed \<Longrightarrow> context_ok demo_context w"
  by (simp add: context_ok_def demo_context_def requireContext_def)

lemma demo_open_reachable: "reachable_world demo_open"
proof -
  have "registerResourceCore demo_context (ascii ''file'') False False None createRoot = Inr (0, demo_open)"
    by code_simp
  moreover have "context_ok demo_context createRoot" by (rule context_ok_demo) (simp_all add: createRoot_def)
  ultimately show ?thesis unfolding reachable_world_def by (blast intro: owner_step.register r_into_rtranclp)
qed

lemma demo_closed_reachable: "reachable_world demo_closed"
proof -
  have "context_ok demo_context demo_open" by (rule context_ok_demo) code_simp+
  moreover have "closeResourceCore demo_context 0 (ascii ''file'') None demo_open = Inr demo_closing" by code_simp
  ultimately have "owner_step demo_open demo_closing" by (rule owner_step.close)
  moreover have "owner_step demo_closing (close_poll 0 demo_closing)" by (rule owner_step.close_poll) code_simp+
  moreover have "owner_step (close_poll 0 demo_closing) demo_closed"
    unfolding demo_closed_def by (rule owner_step.close_finish) code_simp+
  ultimately show ?thesis
    using demo_open_reachable unfolding reachable_world_def by (meson rtranclp.rtrancl_into_rtrancl)
qed

section \<open>Closing\<close>

lemma count_list_distinct: "(\<And>x. count_list xs x \<le> 1) \<Longrightarrow> distinct xs"
proof (induction xs)
  case (Cons a xs)
  have "count_list xs a = 0" using Cons.prems [of a] by simp
  then have "a \<notin> set xs" by (simp add: count_list_0_iff)
  moreover have "count_list xs x \<le> 1" for x using Cons.prems [of x] by (simp split: if_splits)
  ultimately show ?case using Cons.IH by simp
qed simp

lemma task_held_mem:
  assumes "tk \<in> set ts" "tk_completion tk = None" "l \<in> set (tk_release tk)"
  shows "0 < task_held ts l"
proof -
  have "0 < count_list (tk_release tk) l" using assms(3) by (metis count_list_0_iff gr0I)
  then show ?thesis using assms(1,2) by (induction ts) (auto simp: task_held_def)
qed

lemma closes_called:
  assumes "owner_inv w" and "r \<in> set (closes w)"
  shows "r < length (resources w)" and "close_called (resources w ! r)" and "rs_inv (resources w ! r)"
proof -
  have c: "core_inv w []" using assms(1) by (simp add: owner_inv_def)
  have "count_list (closes w) r \<noteq> 0" using assms(2) by (simp add: count_list_0_iff)
  then show r: "r < length (resources w)" and "close_called (resources w ! r)"
    using core_invD(4) [OF c, of r] by (auto split: if_splits)
  show "rs_inv (resources w ! r)" using core_invD(1) [OF c r] .
qed

lemma close_call_alone:
  assumes "reachable_world w" and "r \<in> set (closes w)"
  shows "count_list (closes w) r = 1"
    and "rs_leases (resources w ! r) = []"
    and "\<forall>l \<in> set (uses w). fst l \<noteq> r"
    and "\<forall>tk \<in> set (tasks w). tk_completion tk = None \<longrightarrow> (\<forall>l \<in> set (tk_release tk). fst l \<noteq> r)"
    and "acquire r ex w = Inl InvalidResource"
proof -
  have inv: "owner_inv w" using reachable_owner_inv [OF assms(1)] .
  then have c: "core_inv w []" by (simp add: owner_inv_def)
  note called = closes_called [OF inv assms(2)]
  show "count_list (closes w) r = 1" using core_invD(4) [OF c, of r] called by simp
  show leases: "rs_leases (resources w ! r) = []"
    using called(2,3) by (auto simp: rs_inv_def protocol_def close_called_def split: option.splits closer.splits)
  have none: "held w [] (r, k) = 0" for k
    using core_invD(2) [OF c called(1), of k] leases by (simp add: lease_count_def)
  show "\<forall>l \<in> set (uses w). fst l \<noteq> r"
  proof (intro ballI notI)
    fix l assume l: "l \<in> set (uses w)" "fst l = r"
    then have "count_list (uses w) l \<noteq> 0" by (simp add: count_list_0_iff)
    then show False using none [of "snd l"] l(2) by (cases l) (simp add: held_def)
  qed
  show "\<forall>tk \<in> set (tasks w). tk_completion tk = None \<longrightarrow> (\<forall>l \<in> set (tk_release tk). fst l \<noteq> r)"
  proof (intro ballI impI notI)
    fix tk l assume "tk \<in> set (tasks w)" "tk_completion tk = None" "l \<in> set (tk_release tk)" and r: "fst l = r"
    then have "0 < task_held (tasks w) l" by (intro task_held_mem)
    then show False using none [of "snd l"] r by (cases l) (simp add: held_def)
  qed
  have "rs_state (resources w ! r) = Closing \<or> rs_state (resources w ! r) = Closed"
    using called(2,3) by (auto simp: rs_inv_def protocol_def close_called_def split: option.splits closer.splits if_splits)
  then show "acquire r ex w = Inl InvalidResource" using leases by (auto simp: acquire_def Let_def)
qed

text \<open>
  C3: The native close callback of a resource is called at most once, and only after the last
  lease has gone: from the call on no operation in flight and no running participant holds a
  lease on the resource, and every attempt to acquire one is refused.
\<close>

theorem close_exclusive:
  assumes "reachable_world w" and "r \<in> set (closes w)"
  shows "count_list (closes w) r = 1 \<and> rs_leases (resources w ! r) = []
    \<and> (\<forall>l \<in> set (uses w). fst l \<noteq> r)
    \<and> (\<forall>tk \<in> set (tasks w). tk_completion tk = None \<longrightarrow> (\<forall>l \<in> set (tk_release tk). fst l \<noteq> r))
    \<and> acquire r ex w = Inl InvalidResource"
  using close_call_alone [OF assms] by blast

theorem close_exclusive_witness:
  "count_list (closes demo_closed) 0 = 1 \<and> acquire 0 demo_context demo_closed = Inl InvalidResource"
proof -
  have "0 \<in> set (closes demo_closed)" by code_simp
  then show ?thesis using close_exclusive [OF demo_closed_reachable] by blast
qed

section \<open>Closed scopes\<close>

lemma drain_inv_createRoot: "drain_inv createRoot"
  by (simp add: drain_inv_def scope_ok_def createRoot_def)

lemma reachable_invs:
  assumes "reachable_world w"
  shows "owner_inv w \<and> drain_inv w \<and> report_inv w"
  using assms unfolding reachable_world_def
proof (induction rule: rtranclp_induct)
  case base
  then show ?case by (simp add: owner_inv_createRoot drain_inv_createRoot report_inv_createRoot)
next
  case (step v w)
  then show ?case using owner_step_inv drain_inv_step report_inv_step by blast
qed


section \<open>Reports\<close>

text \<open>
  C11: Failures are reported once and not lost. No occurrence is delivered twice; every cleanup
  failure recorded on a resource has been delivered and marks the root as failed; and once the
  results of a group are published, the standard failure of every settled participant whose
  result was not selected has been claimed by a reporter.
\<close>

theorem failures_reported_once:
  assumes "reachable_world w"
  shows "distinct (map fst (diagnostics w))
    \<and> (\<forall>st \<in> set (resources w). \<forall>n. rs_cleanup st = Some n \<longrightarrow> (n, CleanupPhase) \<in> set (diagnostics w) \<and> failed w)
    \<and> (\<forall>gr \<in> set (groups w). \<forall>i < length (gr_tasks gr). \<forall>n. gr_sealed gr \<longrightarrow> int i \<notin> set (gr_selected gr) \<longrightarrow>
         tk_completion (tasks w ! (gr_tasks gr ! i)) = Some (StandardOutcome n) \<longrightarrow> n \<in> set (claimed w))"
proof -
  have inv: "report_core w" "cleanup_ok w" "late_ok w" using reachable_invs [OF assms] by (simp_all add: report_inv_def)
  have "(n, CleanupPhase) \<in> set (diagnostics w) \<and> failed w" if "st \<in> set (resources w)" "rs_cleanup st = Some n" for st n
    using inv(2) that unfolding cleanup_ok_def by (metis in_set_conv_nth)
  then show ?thesis using inv(1,3) unfolding report_core_def late_ok_def by blast
qed

section \<open>Drains end\<close>

text \<open>
  One turn of the platform while a scope is drained: the close callback the drain waits for
  goes on, with the outcome \<open>c\<close> gives it, a pending report is delivered, or the drain goes on.
\<close>

definition drain_turn :: "(nat \<Rightarrow> settlement) \<Rightarrow> nat \<Rightarrow> world \<Rightarrow> world" where
  "drain_turn c s w =
     (case sc_drain (scopes w ! s) of
        Some (Awaiting r rs first) \<Rightarrow>
          (case rs_closing (resources w ! r) of
             Some Waiting \<Rightarrow> close_poll r w
           | Some Invoking \<Rightarrow> close_finish r (c r) w
           | _ \<Rightarrow> drain_step s w)
      | Some (Reporting first) \<Rightarrow> (case reports w of [] \<Rightarrow> drain_step s w | n # _ \<Rightarrow> report_delivered n w)
      | _ \<Rightarrow> drain_step s w)"

fun drain_turns :: "(nat \<Rightarrow> settlement) \<Rightarrow> nat \<Rightarrow> nat \<Rightarrow> world \<Rightarrow> world" where
  "drain_turns c s 0 w = w"
| "drain_turns c s (Suc k) w = drain_turns c s k (drain_turn c s w)"

definition drained :: "nat \<Rightarrow> world \<Rightarrow> bool" where
  "drained s w = (case sc_drain (scopes w ! s) of Some (Drained _) \<Rightarrow> True | _ \<Rightarrow> False)"

text \<open>No lease is held on a resource the drain has to close.\<close>

definition unleased :: "nat \<Rightarrow> world \<Rightarrow> bool" where
  "unleased s w \<longleftrightarrow> (\<forall>r < length (resources w).
     inside w (rs_scope (resources w ! r)) s \<or> (case sc_drain (scopes w ! s) of Some (Awaiting q _ _) \<Rightarrow> q = r | _ \<Rightarrow> False)
     \<longrightarrow> rs_leases (resources w ! r) = [])"

definition drain_left :: "nat \<Rightarrow> world \<Rightarrow> nat" where
  "drain_left s w =
     (case sc_drain (scopes w ! s) of
        Some Gathering \<Rightarrow> 8 * length (resources w) + 3
      | Some (ClosingFrom rs _) \<Rightarrow> 8 * length rs + 2
      | Some (Awaiting r rs _) \<Rightarrow> 8 * length rs + 2 +
          (case rs_closing (resources w ! r) of Some (Settled _) \<Rightarrow> 1 | Some Invoking \<Rightarrow> 4 | _ \<Rightarrow> 5)
      | Some (Reporting _) \<Rightarrow> 1
      | _ \<Rightarrow> 0) + length (reports w)"

definition draining :: "(nat \<Rightarrow> settlement) \<Rightarrow> nat \<Rightarrow> world \<Rightarrow> bool" where
  "draining c s w \<longleftrightarrow> owner_inv w \<and> drain_inv w \<and> s < length (scopes w) \<and> sc_drain (scopes w ! s) \<noteq> None
     \<and> \<not> work_inside s w \<and> unleased s w \<and> (\<forall>r. allocated (c r) w)"

text \<open>What no turn changes.\<close>

definition framed_by :: "world \<Rightarrow> world \<Rightarrow> bool" where
  "framed_by w w' \<longleftrightarrow> (\<forall>x. sc_parent (scopes w' ! x) = sc_parent (scopes w ! x)) \<and> length (scopes w') = length (scopes w)
     \<and> length (resources w') = length (resources w)
     \<and> (\<forall>r. rs_leases (resources w' ! r) = rs_leases (resources w ! r) \<and> rs_scope (resources w' ! r) = rs_scope (resources w ! r))
     \<and> groups w' = groups w \<and> callbacks w' = callbacks w \<and> tasks w' = tasks w \<and> nextOccurrence w \<le> nextOccurrence w'"

lemma inside_parents:
  assumes "\<And>x. sc_parent (scopes w' ! x) = sc_parent (scopes w ! x)"
  shows "inside w' a b = inside w a b"
proof (induction a rule: less_induct)
  case (less a)
  then show ?case by (subst (1 2) inside.simps) (auto simp: assms split: option.splits)
qed

lemma framed_refl [simp]: "framed_by w w"
  by (simp add: framed_by_def)

lemma framed_trans: "framed_by w w' \<Longrightarrow> framed_by w' w'' \<Longrightarrow> framed_by w w''"
  by (simp add: framed_by_def)

lemma framed_on_resource:
  "(\<And>st. rs_leases (f st) = rs_leases st \<and> rs_scope (f st) = rs_scope st) \<Longrightarrow> framed_by w (on_resource r f w)"
  by (simp add: framed_by_def on_resource_def nth_update)

lemma framed_on_scope: "(\<And>sc. sc_parent (f sc) = sc_parent sc) \<Longrightarrow> framed_by w (on_scope s f w)"
  by (simp add: framed_by_def on_scope_def nth_update)

lemma framed_set_phase [simp]: "framed_by w (set_phase s p w)"
  unfolding set_phase_def by (rule framed_on_scope) simp

lemma framed_record_cleanup [simp]: "framed_by w (record_cleanup r w)"
  by (simp add: framed_by_def nth_update) (simp add: record_cleanup_def cleanup_def Let_def on_resource_def)

lemma framed_beginClose [simp]: "framed_by w (beginClose r w)"
  unfolding beginClose_def by (rule framed_on_resource) simp

lemma framed_arm_timers: "framed_by w (fold (arm_timer s) rs w)"
proof (induction rs rule: rev_induct)
  case (snoc r rs)
  have "framed_by v (arm_timer s r v)" for v by (simp add: arm_timer_def Let_def framed_on_resource)
  then show ?case using snoc framed_trans by simp
qed simp

lemma framed_drain_gather: "framed_by w (drain_gather s w)"
proof -
  have "framed_by v (set_phase s p (on_scope s (\<lambda>sc. sc\<lparr>sc_state := Closing\<rparr>) v))" for v p
    by (rule framed_trans [OF framed_on_scope framed_set_phase]) simp
  then have "framed_by w (set_phase s p (on_scope s (\<lambda>sc. sc\<lparr>sc_state := Closing\<rparr>) (fold (arm_timer s) rs w)))" for p rs
    using framed_trans framed_arm_timers by blast
  then show ?thesis using framed_arm_timers by (simp add: drain_gather_def Let_def)
qed

lemma framed_drain_step: "framed_by w (drain_step s w)"
proof -
  have "framed_by w (set_phase s p (beginClose r (record_cleanup r w)))" "framed_by w (set_phase s p (beginClose r w))" for p r
    using framed_trans framed_record_cleanup framed_beginClose framed_set_phase by blast+
  then have "framed_by w (drain_close s r rs first w)" for r rs first by (simp add: drain_close_def Let_def)
  moreover have "framed_by w (set_phase s p (on_scope s (\<lambda>sc. sc\<lparr>sc_state := Closed\<rparr>) w))" for p
    by (rule framed_trans [OF framed_on_scope framed_set_phase]) simp
  ultimately show ?thesis
    by (simp add: drain_step_def framed_drain_gather split: option.splits drain_phase.splits list.splits closer.splits)
qed

lemma framed_turn: "framed_by w (drain_turn c s w)"
proof -
  have "framed_by w (close_poll r w)" for r by (simp add: close_poll_def framed_by_def on_resource_def nth_update)
  moreover have "framed_by w (close_finish r d w)" for r d
  proof -
    let ?v = "on_resource r (\<lambda>st. st\<lparr>rs_timer := False, rs_closing := Some (Settled (d = OkOutcome))\<rparr>) w"
    have "framed_by w ?v" "framed_by ?v (on_resource r (\<lambda>st. st\<lparr>rs_state := Closed, rs_creator := None, rs_initialRelease := False\<rparr>) ?v)"
      by (rule framed_on_resource, simp)+
    then have "framed_by w (on_resource r (\<lambda>st. st\<lparr>rs_state := Closed, rs_creator := None, rs_initialRelease := False\<rparr>) ?v)"
      "framed_by w (record_cleanup r ?v)" using framed_trans framed_record_cleanup by blast+
    then show ?thesis unfolding close_finish_def Let_def by (cases "d = OkOutcome") simp_all
  qed
  moreover have "framed_by w (report_delivered n w)" for n by (simp add: framed_by_def report_delivered_def)
  ultimately show ?thesis
    by (simp add: drain_turn_def framed_drain_step split: option.splits drain_phase.splits closer.splits list.splits)
qed

text \<open>Every turn is a run of the owner.\<close>

lemma turn_step:
  assumes "draining c s w"
  shows "owner_step w (drain_turn c s w)"
proof -
  have s: "s < length (scopes w)" and alloc: "allocated (c r) w" for r using assms by (simp_all add: draining_def)
  have r: "r < length (resources w)" if "sc_drain (scopes w ! s) = Some (Awaiting r rs f)" for r rs f
    using assms that s unfolding draining_def drain_inv_def by (fastforce simp: scope_ok_def phase_ok_def todo_def)
  have d: "owner_step w (drain_step s w)" using s by (rule owner_step.drain)
  show ?thesis
    using d r alloc owner_step.close_poll owner_step.close_finish owner_step.delivered
    by (auto simp: drain_turn_def split: option.splits drain_phase.splits closer.splits list.splits)
qed

lemma drain_close_left:
  assumes w: "sc_drain (scopes w ! s) = Some (ClosingFrom (r # rs) first)" and s: "s < length (scopes w)"
    and r: "r < length (resources w)" and inv: "rs_inv (resources w ! r)"
  shows "drain_left s (drain_close s r rs first w) < drain_left s w"
    and "sc_drain (scopes (drain_close s r rs first w) ! s) \<noteq> None"
proof -
  have rep: "length (reports (record_cleanup q v)) \<le> Suc (length (reports v))" for q v
    by (simp add: record_cleanup_def cleanup_def Let_def on_resource_def emit_def claimFailureReport_def)
  let ?v = "if \<not> rs_scopeManaged (resources w ! r) \<and> rs_cleanup (resources w ! r) = None then record_cleanup r w else w"
  have v: "length (reports ?v) \<le> Suc (length (reports w))" "scopes ?v = scopes w" "length (resources ?v) = length (resources w)"
    using rep by auto
  have "rs_closing (resources w ! r) \<noteq> None" if "\<not> (rs_state (resources w ! r) = Open \<or> rs_autoPending (resources w ! r))"
    using inv that by (auto simp: rs_inv_def protocol_def split: option.splits)
  then show "drain_left s (drain_close s r rs first w) < drain_left s w"
    using v w s r
    by (auto simp: drain_close_def Let_def drain_left_def set_phase_def on_scope_def beginClose_def on_resource_def
        split: option.splits closer.splits)
  show "sc_drain (scopes (drain_close s r rs first w) ! s) \<noteq> None"
    using v s by (simp add: drain_close_def Let_def set_phase_def on_scope_def beginClose_def on_resource_def)
qed

text \<open>Every turn of a drain that has not ended brings it closer to its end.\<close>

lemma arm_timers_same [simp]:
  "scopes (fold (arm_timer s) rs w) = scopes w" "reports (fold (arm_timer s) rs w) = reports w"
  by (induction rs arbitrary: w) (simp_all add: arm_timer_def Let_def on_resource_def)

lemma drain_gather_left:
  assumes "sc_drain (scopes w ! s) = Some Gathering" and "s < length (scopes w)" and "\<not> work_inside s w"
  shows "drain_left s (drain_gather s w) < drain_left s w" and "sc_drain (scopes (drain_gather s w) ! s) \<noteq> None"
proof -
  define v where "v = fold (arm_timer s) [0..<length (resources w)] w"
  have fr: "framed_by w v" unfolding v_def by (rule framed_arm_timers)
  have same: "scopes v = scopes w" "reports v = reports w" by (simp_all add: v_def)
  have "inside v = inside w" using fr inside_parents [of v w] by (auto simp: framed_by_def fun_eq_iff)
  then have "\<not> work_inside s v" using fr assms(3) by (simp add: work_inside_def framed_by_def)
  then have run: "drain_gather s w = set_phase s (ClosingFrom (rev [0..<length (resources v)]) None)
      (on_scope s (\<lambda>sc. sc\<lparr>sc_state := Closing\<rparr>) v)"
    by (simp add: drain_gather_def Let_def v_def)
  show "drain_left s (drain_gather s w) < drain_left s w"
    unfolding run using assms(1,2) same fr by (simp add: drain_left_def set_phase_def on_scope_def framed_by_def)
  show "sc_drain (scopes (drain_gather s w) ! s) \<noteq> None"
    unfolding run using assms(2) same by (simp add: set_phase_def on_scope_def)
qed

lemma turn_left:
  assumes "draining c s w" and "\<not> drained s w"
  shows "drain_left s (drain_turn c s w) < drain_left s w \<and> sc_drain (scopes (drain_turn c s w) ! s) \<noteq> None"
proof -
  have s: "s < length (scopes w)" and work: "\<not> work_inside s w" and free: "unleased s w" and inv: "owner_inv w"
    and di: "drain_inv w"
    using assms(1) by (simp_all add: draining_def)
  obtain p where p: "sc_drain (scopes w ! s) = Some p" using assms(1) by (auto simp: draining_def)
  have ok: "phase_ok (resources w) s p" if "p \<noteq> Gathering" using scope_ok_phase [OF p that] di s by (auto simp: drain_inv_def)
  show ?thesis
  proof (cases p)
    case Gathering
    then show ?thesis using drain_gather_left [of w s] p s work by (simp add: drain_turn_def drain_step_def)
  next
    case (ClosingFrom qs first)
    show ?thesis
    proof (cases qs)
      case Nil
      then show ?thesis
        using p ClosingFrom s by (simp add: drain_turn_def drain_step_def drain_left_def set_phase_def on_scope_def)
    next
      case (Cons r rs)
      have r: "r < length (resources w)" using ok ClosingFrom Cons by (simp add: phase_ok_def todo_def)
      have "rs_inv (resources w ! r)" using inv r core_invD(1) unfolding owner_inv_def by blast
      then show ?thesis
        using drain_close_left [of w s r rs first] p ClosingFrom Cons s r by (simp add: drain_turn_def drain_step_def)
    qed
  next
    case (Awaiting r rs first)
    have r: "r < length (resources w)" and cl: "rs_closing (resources w ! r) \<noteq> None"
      using ok Awaiting by (simp_all add: phase_ok_def todo_def)
    have leases: "rs_leases (resources w ! r) = []" using free r p Awaiting by (simp add: unleased_def)
    have rep: "length (reports (record_cleanup q v)) \<le> Suc (length (reports v))" for q v
      by (simp add: record_cleanup_def cleanup_def Let_def on_resource_def emit_def claimFailureReport_def)
    consider "rs_closing (resources w ! r) = Some Waiting" | "rs_closing (resources w ! r) = Some Invoking"
      | b where "rs_closing (resources w ! r) = Some (Settled b)" using cl by (metis closer.exhaust option.exhaust)
    then show ?thesis
    proof cases
      case 1
      then show ?thesis
        using p Awaiting s r leases
        by (simp add: drain_turn_def close_poll_def drain_left_def on_resource_def)
    next
      case 2
      let ?v = "on_resource r (\<lambda>st. st\<lparr>rs_timer := False, rs_closing := Some (Settled False)\<rparr>) w"
      have "length (reports (record_cleanup r ?v)) \<le> Suc (length (reports w))" using rep [of r ?v] by (simp add: on_resource_def)
      then show ?thesis
        using 2 p Awaiting s r
        by (cases "c r = OkOutcome") (simp_all add: drain_turn_def close_finish_def Let_def drain_left_def on_resource_def)
    next
      case 3
      then show ?thesis
        using p Awaiting s by (simp add: drain_turn_def drain_step_def drain_left_def set_phase_def on_scope_def)
    qed
  next
    case (Reporting first)
    show ?thesis
    proof (cases "reports w")
      case Nil
      then show ?thesis
        using p Reporting s by (simp add: drain_turn_def drain_step_def drain_left_def set_phase_def on_scope_def)
    next
      case (Cons n ns)
      then show ?thesis
        using p Reporting
        by (simp add: drain_turn_def report_delivered_def drain_left_def le_imp_less_Suc)
    qed
  next
    case (Drained f)
    then show ?thesis using assms(2) p by (simp add: drained_def)
  qed
qed

lemma turn_unleased:
  assumes "draining c s w" and "\<not> drained s w"
  shows "unleased s (drain_turn c s w)"
proof -
  let ?w = "drain_turn c s w"
  have fr: "framed_by w ?w" by (rule framed_turn)
  have ins: "inside ?w = inside w" using fr inside_parents [of ?w w] by (auto simp: framed_by_def fun_eq_iff)
  have s: "s < length (scopes w)" and free: "unleased s w" using assms(1) by (simp_all add: draining_def)
  have "inside w (rs_scope (resources w ! r)) s \<or> (case sc_drain (scopes w ! s) of Some (Awaiting q _ _) \<Rightarrow> q = r | _ \<Rightarrow> False)"
    if "sc_drain (scopes ?w ! s) = Some (Awaiting r rs f)" for r rs f
    using that s
    by (auto simp: drain_turn_def drain_step_def drain_gather_def drain_close_def close_poll_def close_finish_def report_delivered_def
        beginClose_def Let_def set_phase_def on_scope_def on_resource_def
        split: option.splits drain_phase.splits closer.splits list.splits if_splits)
  then have "inside w (rs_scope (resources w ! r)) s \<or> (case sc_drain (scopes w ! s) of Some (Awaiting q _ _) \<Rightarrow> q = r | _ \<Rightarrow> False)"
    if "inside ?w (rs_scope (resources ?w ! r)) s \<or> (case sc_drain (scopes ?w ! s) of Some (Awaiting q _ _) \<Rightarrow> q = r | _ \<Rightarrow> False)" for r
    using that fr by (auto simp: ins framed_by_def split: option.splits drain_phase.splits)
  then show ?thesis using free fr unfolding unleased_def framed_by_def by metis
qed

lemma turn_draining:
  assumes "draining c s w" and "\<not> drained s w"
  shows "draining c s (drain_turn c s w)"
proof -
  let ?w = "drain_turn c s w"
  have fr: "framed_by w ?w" by (rule framed_turn)
  have ins: "inside ?w = inside w" using fr inside_parents [of ?w w] by (auto simp: framed_by_def fun_eq_iff)
  have "owner_inv ?w" "drain_inv ?w"
    using turn_step [OF assms(1)] owner_step_inv drain_inv_step assms(1) unfolding draining_def by blast+
  moreover have "work_inside s ?w = work_inside s w" using fr by (simp add: work_inside_def ins framed_by_def)
  moreover have "allocated (c r) ?w" for r
  proof -
    have "allocated (c r) w" "nextOccurrence w \<le> nextOccurrence ?w" using assms(1) fr by (simp_all add: draining_def framed_by_def)
    then show ?thesis by (cases "c r") (simp_all add: allocated_def)
  qed
  ultimately show ?thesis
    using turn_unleased [OF assms] turn_left [OF assms] assms(1) fr by (simp add: draining_def framed_by_def)
qed

lemma drain_ends:
  assumes "draining c s w"
  shows "\<exists>k \<le> drain_left s w. drained s (drain_turns c s k w) \<and> owner_step\<^sup>*\<^sup>* w (drain_turns c s k w)"
  using assms
proof (induction "drain_left s w" arbitrary: w rule: less_induct)
  case less
  show ?case
  proof (cases "drained s w")
    case True
    then show ?thesis by (intro exI [of _ 0]) simp
  next
    case False
    let ?w = "drain_turn c s w"
    have left: "drain_left s ?w < drain_left s w" using turn_left less.prems False by blast
    obtain k where k: "k \<le> drain_left s ?w" "drained s (drain_turns c s k ?w)" "owner_step\<^sup>*\<^sup>* ?w (drain_turns c s k ?w)"
      using less.hyps [OF left turn_draining [OF less.prems False]] by blast
    have "owner_step w ?w" using turn_step less.prems by blast
    then have "owner_step\<^sup>*\<^sup>* w (drain_turns c s (Suc k) w)"
      using k(3) by (simp add: converse_rtranclp_into_rtranclp)
    then show ?thesis using k left by (intro exI [of _ "Suc k"]) simp
  qed
qed

text \<open>
  C12: A drain ends. Take any reachable state in which a scope is being drained, no participant
  group or callback is left inside the scope and no lease is held on its resources. Whatever
  the close callbacks return, the drain ends after at most eight turns per resource, three
  more and one per pending report, and every turn is a run the event loop can take.
\<close>

theorem drain_terminates:
  assumes "reachable_world w" and "s < length (scopes w)" and "sc_drain (scopes w ! s) \<noteq> None"
    and "\<not> work_inside s w" and "unleased s w" and "\<And>r. allocated (c r) w"
  shows "\<exists>k \<le> drain_left s w. drained s (drain_turns c s k w) \<and> reachable_world (drain_turns c s k w)"
proof -
  have "draining c s w" using assms reachable_invs [OF assms(1)] by (simp add: draining_def)
  then obtain k where "k \<le> drain_left s w" "drained s (drain_turns c s k w)" "owner_step\<^sup>*\<^sup>* w (drain_turns c s k w)"
    using drain_ends by blast
  then show ?thesis using assms(1) unfolding reachable_world_def by (meson rtranclp_trans)
qed

section \<open>The run evaluated\<close>

text \<open>The root ends while the resource is open: the drain reports it and closes it.\<close>

definition demo_draining :: world where
  "demo_draining = settle_root demo_open"

lemma demo_draining_reachable: "reachable_world demo_draining"
proof -
  have "owner_step demo_open demo_draining" unfolding demo_draining_def by (rule owner_step.root_end) code_simp+
  then show ?thesis using demo_open_reachable unfolding reachable_world_def by (meson rtranclp.rtrancl_into_rtrancl)
qed

lemma demo_draining_draining: "draining (\<lambda>_. DomainOutcome) 0 demo_draining"
proof -
  have "unleased 0 demo_draining" "\<not> work_inside 0 demo_draining" "0 < length (scopes demo_draining)"
    "sc_drain (scopes demo_draining ! 0) \<noteq> None" unfolding unleased_def by code_simp+
  then show ?thesis using reachable_invs [OF demo_draining_reachable] by (simp add: draining_def allocated_def)
qed

theorem drain_terminates_witness:
  "\<exists>k \<le> 10. drained 0 (drain_turns (\<lambda>_. DomainOutcome) 0 k demo_draining)"
proof -
  have "drain_left 0 demo_draining = 10" by code_simp
  then show ?thesis
    using drain_terminates [OF demo_draining_reachable, of 0 "\<lambda>_. DomainOutcome"] demo_draining_draining
    by (auto simp: draining_def)
qed

lemma turns_reachable:
  assumes "draining c s w" and "reachable_world w" and "list_all (\<lambda>i. \<not> drained s (drain_turns c s i w)) [0..<k]"
  shows "reachable_world (drain_turns c s k w)"
  using assms
proof (induction k arbitrary: w)
  case (Suc k)
  have live: "\<not> drained s (drain_turns c s i w)" if "i < Suc k" for i
    using Suc.prems(3) that unfolding list_all_iff set_upt by simp
  have "\<not> drained s w" using live [of 0] by simp
  moreover have "list_all (\<lambda>i. \<not> drained s (drain_turns c s i (drain_turn c s w))) [0..<k]"
    using live [of "Suc i" for i] by (simp add: list_all_iff)
  moreover have "reachable_world (drain_turn c s w)"
    using Suc.prems(2) turn_step [OF Suc.prems(1)] unfolding reachable_world_def by (rule rtranclp.rtrancl_into_rtrancl)
  ultimately show ?case using Suc.IH [OF turn_draining [OF Suc.prems(1)]] by simp
qed simp

definition demo_drained :: world where
  "demo_drained = drain_turns (\<lambda>_. DomainOutcome) 0 8 demo_draining"

lemma demo_drained_reachable: "reachable_world demo_drained"
  unfolding demo_drained_def
proof (rule turns_reachable [OF demo_draining_draining demo_draining_reachable])
  let ?t = "\<lambda>i. drain_turns (\<lambda>_. DomainOutcome) 0 i demo_draining"
  have "\<not> drained 0 (?t 0)" "\<not> drained 0 (?t 1)" "\<not> drained 0 (?t 2)" "\<not> drained 0 (?t 3)" by code_simp+
  moreover have "\<not> drained 0 (?t 4)" "\<not> drained 0 (?t 5)" "\<not> drained 0 (?t 6)" "\<not> drained 0 (?t 7)" by code_simp+
  moreover have "[0..<8] = [0, 1, 2, 3, 4, 5, 6, 7]" by code_simp
  ultimately show "list_all (\<lambda>i. \<not> drained 0 (?t i)) [0..<8]" by simp
qed


theorem failures_reported_once_witness:
  "diagnostics demo_drained \<noteq> [] \<and> distinct (map fst (diagnostics demo_drained))"
proof -
  have "diagnostics demo_drained \<noteq> []" by code_simp
  then show ?thesis using failures_reported_once [OF demo_drained_reachable] by blast
qed

end
