(* ===== verification/Guard.thy ===== *)
theory Guard
  imports LedgerProps Document
begin

text \<open>
  The tenant token-budget guard of \<open>runtime/ai/budget.ts\<close>: the registry of qualified
  profiles, the usage decoded from a provider response, and the guarded dispatch over the
  ledger. A dispatch is cut at its awaits: \<open>dispatch_begin\<close> runs up to the first ledger call
  and \<open>dispatch_step\<close> from one await to the next, so that concurrent dispatches interleave
  as the event loop lets them. The origin and the operation name a failure carries are not
  part of a completion in this model.
\<close>

section \<open>Qualified profiles\<close>

record qualified_profile = metering_profile +
  qp_upperBound :: int

type_synonym profile_registry = "qualified_profile dict"

definition createProfileRegistry :: profile_registry where
  "createProfileRegistry = []"

definition keyOf :: "metering_profile \<Rightarrow> jsstr" where
  "keyOf p = json_string_array [mp_provider p, mp_model p, mp_version p]"

definition qualify :: "profile_init \<Rightarrow> jsval \<Rightarrow> profile_registry \<Rightarrow> qualified_profile res \<times> profile_registry" where
  "qualify profile upperBound bounds =
     (case meteringProfile profile of
        Inl e \<Rightarrow> (Inl e, bounds)
      | Inr pinned \<Rightarrow>
          (case upperBound of
             Num n \<Rightarrow>
               (case safe_integer n of
                  None \<Rightarrow> (Inl (TypeError ''invalid profile upper bound''), bounds)
                | Some u \<Rightarrow>
                    if u < 1 then (Inl (TypeError ''invalid profile upper bound''), bounds)
                    else (case map_of bounds (keyOf pinned) of
                        Some existing \<Rightarrow>
                          if qp_upperBound existing \<noteq> u
                          then (Inl (TypeError ''conflicting profile qualification''), bounds)
                          else (Inr existing, bounds)
                      | None \<Rightarrow>
                          let qualified = \<lparr>mp_provider = mp_provider pinned, mp_model = mp_model pinned,
                            mp_version = mp_version pinned, qp_upperBound = u\<rparr>
                          in (Inr qualified, js_set (keyOf pinned) qualified bounds)))
           | _ \<Rightarrow> (Inl (TypeError ''invalid profile upper bound''), bounds)))"

definition boundFor :: "profile_init \<Rightarrow> profile_registry \<Rightarrow> int option" where
  "boundFor profile bounds =
     (case meteringProfile profile of
        Inl _ \<Rightarrow> None
      | Inr pinned \<Rightarrow> map_option qp_upperBound (map_of bounds (keyOf pinned)))"

definition profiles :: "profile_registry \<Rightarrow> qualified_profile list" where
  "profiles bounds = map snd bounds"

section \<open>Provider usage\<close>

text \<open>The value \<open>JSON.parse\<close> gives a tree.\<close>

fun tree_value :: "jtree \<Rightarrow> jsval" where
  "tree_value JNull = Null"
| "tree_value (JBool b) = Bool b"
| "tree_value (JNum n _) = Num n"
| "tree_value (JStr s) = Str s"
| "tree_value (JArr ts) = Arr (map tree_value ts)"
| "tree_value (JObj ms) = Obj (map (\<lambda>(k, t). (k, tree_value t)) ms)"
| "tree_value JHost = Opaque 0"

definition decodeProviderUsage :: "octet list option \<Rightarrow> int \<Rightarrow> usage option" where
  "decodeProviderUsage input limit =
     (case input of
        None \<Rightarrow> None
      | Some body \<Rightarrow>
          (case parseDocument body limit of
             Inr (JObj parsed) \<Rightarrow>
               (case obj_field (map (\<lambda>(k, t). (k, tree_value t)) parsed) ''usage'' of
                  Obj shaped \<Rightarrow> meteringUsage (obj_field shaped ''input_tokens'') (obj_field shaped ''output_tokens'')
                | _ \<Rightarrow> None)
           | _ \<Rightarrow> None))"

section \<open>Reports and failures\<close>

datatype accounting_outcome = ReportSettled | ReportUnresolved | ReportBreach | ReportReleased

text \<open>
  A field of a report is \<open>Undefined\<close> when the ledger entry has no such field: the entry
  \<open>fence\<close> writes over an inherited member, and an inherited member itself.
\<close>

record accounting_report =
  ar_tenant :: jsval
  ar_pool :: jsval
  ar_correlation :: jsval
  ar_invocation :: jsval
  ar_profile :: jsval
  ar_upperBound :: jsval
  ar_epochStart :: jsval
  ar_epochEnd :: jsval
  ar_outcome :: accounting_outcome
  ar_actual :: "int option"
  ar_released :: "int option"
  ar_duplicate :: "bool option"

definition entry_field :: "(invocation_record \<Rightarrow> jsval) \<Rightarrow> inv_entry \<Rightarrow> jsval" where
  "entry_field f e = (case e of Rec r \<Rightarrow> f r | Bare \<Rightarrow> Undefined)"

definition report_of ::
  "inv_entry \<Rightarrow> accounting_outcome \<Rightarrow> int option \<Rightarrow> int option \<Rightarrow> bool option \<Rightarrow> accounting_report" where
  "report_of e kind actual released duplicate =
     \<lparr>ar_tenant = entry_field (\<lambda>r. Str (inv_tenant r)) e, ar_pool = entry_field (\<lambda>r. Str (inv_pool r)) e,
      ar_correlation = entry_field (\<lambda>r. Str (inv_correlation r)) e,
      ar_invocation = entry_field (\<lambda>r. Str (inv_id r)) e,
      ar_profile = entry_field (\<lambda>r. Str (inv_profileIdentity r)) e,
      ar_upperBound = entry_field (\<lambda>r. Num (num (inv_upperBound r))) e,
      ar_epochStart = entry_field (\<lambda>r. Num (num (inv_epochStart r))) e,
      ar_epochEnd = entry_field (\<lambda>r. Num (num (inv_epochEnd r))) e,
      ar_outcome = kind, ar_actual = actual, ar_released = released, ar_duplicate = duplicate\<rparr>"

record budget_types =
  bt_exceeded :: jsstr
  bt_unavailable :: jsstr

fun reason_text :: "unavailable_reason \<Rightarrow> string" where
  "reason_text MissingContext = ''missing-context''"
| "reason_text InvalidPolicy = ''invalid-policy''"
| "reason_text StorageUnavailable = ''storage-unavailable''"
| "reason_text AmbiguousCommit = ''ambiguous-commit''"
| "reason_text InvalidUsage = ''invalid-usage''"
| "reason_text ConflictingSettlement = ''conflicting-settlement''"
| "reason_text MissingQualification = ''missing-qualification''"
| "reason_text BreachedProfile = ''breached-profile''"
| "reason_text UnknownInvocation = ''unknown-invocation''"

definition exceeded :: "budget_types \<Rightarrow> jsstr \<Rightarrow> int \<Rightarrow> int \<Rightarrow> int \<Rightarrow> 'a completion" where
  "exceeded types pool needed left epochResetMs =
     Domain (bt_exceeded types)
       [(ascii ''pool'', Str pool), (ascii ''required'', BigInt needed), (ascii ''remaining'', BigInt left),
        (ascii ''epoch_reset_ms'', BigInt epochResetMs)]"

definition unavailable :: "budget_types \<Rightarrow> unavailable_reason \<Rightarrow> jsstr \<Rightarrow> jsstr \<Rightarrow> 'a completion" where
  "unavailable types reason correlation invocation =
     Domain (bt_unavailable types)
       [(ascii ''reason'', Str (ascii (reason_text reason))), (ascii ''correlation'', Str correlation),
        (ascii ''invocation'', Str invocation)]"

text \<open>What a thrown cause is to \<open>caught\<close>: a failure occurrence or another native value, with its description.\<close>

datatype thrown = ThrownDomain jsstr "jsval dict" | ThrownStandard standard_kind jsstr | ThrownNative jsstr

fun caught :: "thrown \<Rightarrow> 'a completion" where
  "caught (ThrownDomain i p) = Domain i p"
| "caught (ThrownStandard k m) = Standard k m"
| "caught (ThrownNative m) = Standard NativeException m"

text \<open>
  The answer of the provider call: it threw, or it returned a response whose completion is
  authentic or not, with or without a body.
\<close>

datatype 'a send_result = SendThrew thrown | Sent "'a completion option" "octet list option"

definition checked_send :: "'a send_result \<Rightarrow> 'a completion + 'a completion \<times> octet list option" where
  "checked_send answer =
     (case answer of
        SendThrew cause \<Rightarrow> Inl (caught cause)
      | Sent None _ \<Rightarrow> Inl (caught (ThrownNative (ascii ''TypeError: invalid completion carrier'')))
      | Sent (Some c) body \<Rightarrow> Inr (c, body))"

section \<open>Dispatch\<close>

record guard =
  inflight :: "jsstr list"
  reports :: "accounting_report list"

record guarded_connection =
  gc_permittedPool :: jsval
  gc_profile :: profile_init

record guarded_attempt =
  at_context :: jsval
  at_maxBodyBytes :: jsnum
  at_invocationId :: jsval

text \<open>What the guard reads from its surroundings: minted identifiers, \<open>Date.now()\<close> and \<open>deps.nowMs\<close>.\<close>

record guard_env = ledger_env +
  env_nowMs :: "jsval option"

definition clock :: "guard_env \<Rightarrow> jsval" where
  "clock env = (case env_nowMs env of Some v \<Rightarrow> v | None \<Rightarrow> env_dateNow env)"

text \<open>
  The awaits of a dispatch. The provider call starts when \<open>Sending\<close> is entered; a dispatch
  that has ended returned a completion or threw.
\<close>

datatype 'a phase =
    Reserving reserve_input
  | Fencing invocation_record
  | Releasing invocation_record unavailable_reason
  | Sending invocation_record
  | Settling invocation_record usage "'a completion"
  | Ended "'a completion res"

record 'a dispatch =
  ds_id :: jsstr
  ds_maxBodyBytes :: int
  ds_phase :: "'a phase"

text \<open>The checks before the ledger is called; they end with the registration of the identifier.\<close>

definition dispatch_begin ::
  "budget_types \<Rightarrow> profile_registry \<Rightarrow> guard_env \<Rightarrow> guarded_connection \<Rightarrow> guarded_attempt \<Rightarrow> guard
   \<Rightarrow> ('a completion + 'a dispatch) \<times> guard" where
  "dispatch_begin types registry env connection attempt g =
     (let context = at_context attempt;
          field = (\<lambda>name. case context of Obj ps \<Rightarrow> obj_field ps name | _ \<Rightarrow> Undefined);
          str = (\<lambda>v. case v of Str s \<Rightarrow> s | _ \<Rightarrow> []);
          correlation = str (field ''correlation'');
          refuse = (\<lambda>reason correlation invocation. (Inl (unavailable types reason correlation invocation), g))
      in if context = Undefined then refuse MissingContext (env_correlation env) (env_invocation env)
         else if \<not> isInvocationContext context then refuse InvalidPolicy (env_correlation env) (env_invocation env)
         else (case safe_integer (at_maxBodyBytes attempt) of
             None \<Rightarrow> refuse InvalidPolicy correlation (env_invocation env)
           | Some maxBody \<Rightarrow>
               if maxBody < 1 then refuse InvalidPolicy correlation (env_invocation env)
               else (case poolId (gc_permittedPool connection) of
                   Inl _ \<Rightarrow> refuse InvalidPolicy correlation (env_invocation env)
                 | Inr permitted \<Rightarrow>
                     if str (field ''pool'') \<noteq> permitted then refuse InvalidPolicy correlation (env_invocation env)
                     else (case meteringProfile (gc_profile connection) of
                         Inl _ \<Rightarrow> refuse InvalidPolicy correlation (env_invocation env)
                       | Inr profile \<Rightarrow>
                           let pinned = \<lparr>pi_provider = Str (mp_provider profile), pi_model = Str (mp_model profile),
                             pi_version = Str (mp_version profile)\<rparr>
                           in (case boundFor pinned registry of
                               None \<Rightarrow> refuse MissingQualification correlation (env_invocation env)
                             | Some upperBound \<Rightarrow>
                                 (case if at_invocationId attempt = Undefined then Inr (env_invocation env)
                                       else invocationId (at_invocationId attempt) of
                                    Inl _ \<Rightarrow> refuse InvalidPolicy correlation (env_invocation env)
                                  | Inr key \<Rightarrow>
                                      if key \<in> set (inflight g) then refuse ConflictingSettlement correlation key
                                      else
                                        (Inr \<lparr>ds_id = key, ds_maxBodyBytes = maxBody,
                                           ds_phase = Reserving
                                             \<lparr>ri_tenant = field ''tenant'', ri_pool = field ''pool'',
                                              ri_correlation = field ''correlation'', ri_profile = pinned,
                                              ri_qualified = Bool True, ri_upperBound = Num (num upperBound),
                                              ri_invocationId = Str key, ri_nowMs = clock env\<rparr>\<rparr>,
                                         g\<lparr>inflight := inflight g @ [key]\<rparr>)))))))"

definition add_report ::
  "inv_entry \<Rightarrow> accounting_outcome \<Rightarrow> int option \<Rightarrow> int option \<Rightarrow> bool option \<Rightarrow> guard \<Rightarrow> guard" where
  "add_report e kind actual released duplicate g =
     g\<lparr>reports := reports g @ [report_of e kind actual released duplicate]\<rparr>"

text \<open>The result, and the \<open>finally\<close> block.\<close>

definition end_dispatch :: "'a completion res \<Rightarrow> 'a dispatch \<Rightarrow> 'w \<Rightarrow> guard \<Rightarrow> 'a dispatch \<times> 'w \<times> guard" where
  "end_dispatch result d w g =
     (d\<lparr>ds_phase := Ended result\<rparr>, w, g\<lparr>inflight := removeAll (ds_id d) (inflight g)\<rparr>)"

definition after_reserve ::
  "budget_types \<Rightarrow> reserve_outcome res \<Rightarrow> 'a dispatch \<Rightarrow> 'w \<Rightarrow> guard \<Rightarrow> 'a dispatch \<times> 'w \<times> guard" where
  "after_reserve types reserved d w g =
     (case reserved of
        Inl e \<Rightarrow> end_dispatch (Inl e) d w g
      | Inr (Exceeded pool needed left reset) \<Rightarrow> end_dispatch (Inr (exceeded types pool needed left reset)) d w g
      | Inr (ReserveUnavailable reason correlation key) \<Rightarrow>
          end_dispatch (Inr (unavailable types reason correlation key)) d w g
      | Inr (Admitted r _ _ _) \<Rightarrow> (d\<lparr>ds_phase := Fencing r\<rparr>, w, g))"

definition after_fence ::
  "budget_types \<Rightarrow> invocation_record \<Rightarrow> fence_outcome res \<Rightarrow> 'a dispatch \<Rightarrow> 'w \<Rightarrow> guard
   \<Rightarrow> 'a dispatch \<times> 'w \<times> guard" where
  "after_fence types admitted fenced d w g =
     (case fenced of
        Inl e \<Rightarrow> end_dispatch (Inl e) d w g
      | Inr (FenceFenced _ _) \<Rightarrow> (d\<lparr>ds_phase := Sending admitted\<rparr>, w, g)
      | Inr (FenceUnavailable reason) \<Rightarrow>
          if reason = AmbiguousCommit then
            end_dispatch (Inr (unavailable types AmbiguousCommit (inv_correlation admitted) (ds_id d))) d w
              (add_report (Rec admitted) ReportUnresolved None None None g)
          else if reason = ConflictingSettlement then
            end_dispatch (Inr (unavailable types reason (inv_correlation admitted) (ds_id d))) d w g
          else (d\<lparr>ds_phase := Releasing admitted reason\<rparr>, w, g))"

definition after_release ::
  "budget_types \<Rightarrow> invocation_record \<Rightarrow> unavailable_reason \<Rightarrow> release_outcome res \<Rightarrow> 'a dispatch \<Rightarrow> 'w \<Rightarrow> guard
   \<Rightarrow> 'a dispatch \<times> 'w \<times> guard" where
  "after_release types admitted reason released d w g =
     (let result = Inr (unavailable types reason (inv_correlation admitted) (ds_id d))
      in case released of
           Inl e \<Rightarrow> end_dispatch (Inl e) d w g
         | Inr (ReleaseReleased r _) \<Rightarrow> end_dispatch result d w (add_report (Rec r) ReportReleased None None None g)
         | Inr _ \<Rightarrow> end_dispatch result d w (add_report (Rec admitted) ReportUnresolved None None None g))"

definition after_send ::
  "invocation_record \<Rightarrow> 'a send_result \<Rightarrow> 'a dispatch \<Rightarrow> 'w \<Rightarrow> guard \<Rightarrow> 'a dispatch \<times> 'w \<times> guard" where
  "after_send admitted answer d w g =
     (let unresolved = add_report (Rec admitted) ReportUnresolved None None None g
      in case checked_send answer of
           Inl failed \<Rightarrow> end_dispatch (Inr failed) d w unresolved
         | Inr (completion, body) \<Rightarrow>
             (case decodeProviderUsage body (ds_maxBodyBytes d) of
                None \<Rightarrow> end_dispatch (Inr completion) d w unresolved
              | Some used \<Rightarrow> (d\<lparr>ds_phase := Settling admitted used completion\<rparr>, w, g)))"

definition settled_report :: "inv_entry \<Rightarrow> int \<Rightarrow> int \<Rightarrow> bool \<Rightarrow> guard \<Rightarrow> guard" where
  "settled_report e actual released duplicate g =
     (if duplicate then add_report e ReportSettled (Some actual) (Some 0) (Some True) g
      else add_report e ReportSettled (Some actual) (Some released) None g)"

definition after_settle ::
  "budget_types \<Rightarrow> invocation_record \<Rightarrow> 'a completion \<Rightarrow> settle_outcome res \<Rightarrow> 'a dispatch \<Rightarrow> 'w \<Rightarrow> guard
   \<Rightarrow> 'a dispatch \<times> 'w \<times> guard" where
  "after_settle types admitted completion settled d w g =
     (case settled of
        Inl e \<Rightarrow> end_dispatch (Inl e) d w g
      | Inr (SettleSettled _ actual _ _ (Some _)) \<Rightarrow>
          end_dispatch (Inr (unavailable types BreachedProfile (inv_correlation admitted) (ds_id d))) d w
            (add_report (Rec admitted) ReportBreach (Some actual) None None g)
      | Inr (SettleSettled _ actual released duplicate None) \<Rightarrow>
          end_dispatch (Inr completion) d w (settled_report (Rec admitted) actual released duplicate g)
      | Inr (SettleUnavailable reason) \<Rightarrow>
          if reason = ConflictingSettlement then
            end_dispatch (Inr (unavailable types reason (inv_correlation admitted) (ds_id d))) d w g
          else end_dispatch (Inr completion) d w (add_report (Rec admitted) ReportUnresolved None None None g))"

text \<open>
  From one await to the next. The \<open>answer\<close> is the one the provider call has settled with
  when the dispatch waits for it.
\<close>

definition dispatch_step ::
  "(jsstr \<Rightarrow> jsstr) \<Rightarrow> budget_types \<Rightarrow> 'w ledger_store \<Rightarrow> guard_env \<Rightarrow> 'a send_result
   \<Rightarrow> 'a dispatch \<Rightarrow> 'w \<Rightarrow> guard \<Rightarrow> 'a dispatch \<times> 'w \<times> guard" where
  "dispatch_step sha types store env answer d w g =
     (case ds_phase d of
        Reserving i \<Rightarrow>
          (case reserve sha (ledger_env.truncate env) store i w of (r, w) \<Rightarrow> after_reserve types r d w g)
      | Fencing admitted \<Rightarrow>
          (case fence store (Str (ds_id d)) w of (r, w) \<Rightarrow> after_fence types admitted r d w g)
      | Releasing admitted reason \<Rightarrow>
          (case releaseUndispatched store (Str (ds_id d)) w of (r, w) \<Rightarrow> after_release types admitted reason r d w g)
      | Sending admitted \<Rightarrow> after_send admitted answer d w g
      | Settling admitted used completion \<Rightarrow>
          (case settle sha store (Str (ds_id d)) (Num (num (inputTokens used))) (Num (num (outputTokens used))) w of
             (r, w) \<Rightarrow> after_settle types admitted completion r d w g)
      | Ended _ \<Rightarrow> (d, w, g))"

text \<open>A dispatch alone: at most four awaits.\<close>

fun dispatch_steps ::
  "nat \<Rightarrow> (jsstr \<Rightarrow> jsstr) \<Rightarrow> budget_types \<Rightarrow> 'w ledger_store \<Rightarrow> guard_env \<Rightarrow> 'a send_result
   \<Rightarrow> 'a dispatch \<Rightarrow> 'w \<Rightarrow> guard \<Rightarrow> 'a dispatch \<times> 'w \<times> guard" where
  "dispatch_steps 0 sha types store env answer d w g = (d, w, g)"
| "dispatch_steps (Suc n) sha types store env answer d w g =
     (case dispatch_step sha types store env answer d w g of
        (d, w, g) \<Rightarrow> dispatch_steps n sha types store env answer d w g)"

definition dispatch ::
  "(jsstr \<Rightarrow> jsstr) \<Rightarrow> budget_types \<Rightarrow> 'w ledger_store \<Rightarrow> profile_registry \<Rightarrow> guard_env \<Rightarrow> 'a send_result
   \<Rightarrow> guarded_connection \<Rightarrow> guarded_attempt \<Rightarrow> 'w \<Rightarrow> guard \<Rightarrow> 'a phase \<times> 'w \<times> guard" where
  "dispatch sha types store registry env answer connection attempt w g =
     (case dispatch_begin types registry env connection attempt g of
        (Inl refused, g) \<Rightarrow> (Ended (Inr refused), w, g)
      | (Inr d, g) \<Rightarrow> (case dispatch_steps 4 sha types store env answer d w g of (d, w, g) \<Rightarrow> (ds_phase d, w, g)))"

section \<open>Settlement, release and scopes\<close>

datatype settle_usage_outcome =
    UsageSettled int int bool "breach_report option"
  | UsageUnavailable unavailable_reason

definition found_entry :: "inv_entry property \<Rightarrow> inv_entry option" where
  "found_entry p = (case p of Own e \<Rightarrow> Some e | Inherited _ \<Rightarrow> Some Bare | Missing \<Rightarrow> None)"

definition unreconciled_report :: "inv_entry \<Rightarrow> guard \<Rightarrow> guard" where
  "unreconciled_report e g =
     (case e of
        Rec r \<Rightarrow>
          (case inv_usage r of
             Some used \<Rightarrow>
               if inv_state r = Settled
               then add_report e ReportSettled (Some (usageTotal used)) (Some 0) (Some True) g
               else add_report e ReportUnresolved None None None g
           | None \<Rightarrow> add_report e ReportUnresolved None None None g)
      | Bare \<Rightarrow> add_report e ReportUnresolved None None None g)"

definition settleUsage ::
  "(jsstr \<Rightarrow> jsstr) \<Rightarrow> 'w ledger_store \<Rightarrow> jsval \<Rightarrow> jsval \<Rightarrow> jsval \<Rightarrow> 'w \<Rightarrow> guard
   \<Rightarrow> settle_usage_outcome res \<times> 'w \<times> guard" where
  "settleUsage sha store invId inputs outputs w g =
     (case settle sha store invId inputs outputs w of
        (Inl e, w) \<Rightarrow> (Inl e, w, g)
      | (Inr (SettleSettled r actual released duplicate (Some breach)), w) \<Rightarrow>
          (Inr (UsageSettled actual released duplicate (Some breach)), w,
           add_report (Rec r) ReportBreach (Some actual) None None g)
      | (Inr (SettleSettled r actual released duplicate None), w) \<Rightarrow>
          (Inr (UsageSettled actual released duplicate None), w, settled_report (Rec r) actual released duplicate g)
      | (Inr (SettleUnavailable reason), w) \<Rightarrow>
          if reason = InvalidUsage \<or> reason = StorageUnavailable \<or> reason = AmbiguousCommit then
            (case reconcile store invId w of
               (Inl e, w) \<Rightarrow> (Inl e, w, g)
             | (Inr (ReadOk p), w) \<Rightarrow>
                 (Inr (UsageUnavailable reason), w,
                  (case found_entry p of Some e \<Rightarrow> unreconciled_report e g | None \<Rightarrow> g))
             | (Inr ReadUnavailable, w) \<Rightarrow> (Inr (UsageUnavailable reason), w, g))
          else (Inr (UsageUnavailable reason), w, g))"

definition releaseReservation ::
  "'w ledger_store \<Rightarrow> jsval \<Rightarrow> 'w \<Rightarrow> guard \<Rightarrow> release_outcome res \<times> 'w \<times> guard" where
  "releaseReservation store invId w g =
     (case releaseUndispatched store invId w of
        (Inr (ReleaseReleased r duplicate), w) \<Rightarrow>
          (Inr (ReleaseReleased r duplicate), w, add_report (Rec r) ReportReleased None None None g)
      | (Inr (ReleaseHeld e), w) \<Rightarrow> (Inr (ReleaseHeld e), w, add_report e ReportUnresolved None None None g)
      | (out, w) \<Rightarrow> (out, w, g))"

text \<open>The scope a callback runs in, or the refusal.\<close>

definition scope_context ::
  "budget_types \<Rightarrow> guard_env \<Rightarrow> jsval \<Rightarrow> jsval \<Rightarrow> jsval \<Rightarrow> 'a completion + invocation_context" where
  "scope_context types env tenant pool active =
     (case invocationContext (env_correlation env) tenant pool Undefined of
        Inl _ \<Rightarrow> Inl (unavailable types InvalidPolicy (env_correlation env) (env_invocation env))
      | Inr next \<Rightarrow>
          (case active of
             Undefined \<Rightarrow> Inr next
           | Obj ps \<Rightarrow>
               if \<not> isInvocationContext active
               then Inl (unavailable types InvalidPolicy (ctx_correlation next) (env_invocation env))
               else
                 let str = (\<lambda>name. case obj_field ps name of Str s \<Rightarrow> s | _ \<Rightarrow> []);
                     current = \<lparr>ctx_tenant = str ''tenant'', ctx_pool = str ''pool'', ctx_correlation = str ''correlation''\<rparr>
                 in (case nestContext current next of
                       Inl _ \<Rightarrow> Inl (unavailable types InvalidPolicy (ctx_correlation current) (env_invocation env))
                     | Inr context \<Rightarrow> Inr context)
           | _ \<Rightarrow> Inl (unavailable types InvalidPolicy (ctx_correlation next) (env_invocation env))))"

definition within_scope ::
  "budget_types \<Rightarrow> guard_env \<Rightarrow> jsval \<Rightarrow> jsval \<Rightarrow> (invocation_context \<Rightarrow> 's \<Rightarrow> 'a completion \<times> 's) \<Rightarrow> jsval \<Rightarrow> 's
   \<Rightarrow> 'a completion \<times> 's" where
  "within_scope types env tenant pool operation active s =
     (case scope_context types env tenant pool active of
        Inl refused \<Rightarrow> (refused, s)
      | Inr context \<Rightarrow> operation context s)"

end
