(* ===== verification/GuardProps.thy ===== *)
theory GuardProps
  imports Guard
begin

text \<open>
  What the guard guarantees over a ledger that other clients change at the same time: every
  provider call is covered by a reservation that can no longer be given back, an invocation
  identifier is in flight at most once, and no provider result is delivered unaccounted.
\<close>

section \<open>Concurrent dispatches\<close>

text \<open>
  One guard with its dispatches, over a world that shows a ledger state. \<open>sends\<close> is the log
  of the provider calls started, each with the reservation it was started on.
\<close>

record ('a, 'w) guard_system =
  gs_world :: 'w
  gs_guard :: guard
  gs_runs :: "'a dispatch list"
  gs_sends :: "(jsstr \<times> invocation_record) list"

definition sends_of :: "'a dispatch \<Rightarrow> (jsstr \<times> invocation_record) list" where
  "sends_of d = (case ds_phase d of Sending r \<Rightarrow> [(ds_id d, r)] | _ \<Rightarrow> [])"

text \<open>
  A run of the event loop starts a dispatch, takes one to its next await, settles or releases
  late, or lets other clients of the ledger run.
\<close>

inductive guard_step ::
  "(jsstr \<Rightarrow> jsstr) \<Rightarrow> budget_types \<Rightarrow> 'w ledger_store \<Rightarrow> profile_registry \<Rightarrow> ('w \<Rightarrow> 'w \<Rightarrow> bool)
   \<Rightarrow> ('a, 'w) guard_system \<Rightarrow> ('a, 'w) guard_system \<Rightarrow> bool" for sha types store registry other where
  start: "dispatch_begin types registry env connection attempt (gs_guard y) = (Inr d, g) \<Longrightarrow>
    guard_step sha types store registry other y (y\<lparr>gs_guard := g, gs_runs := gs_runs y @ [d]\<rparr>)"
| advance: "i < length (gs_runs y) \<Longrightarrow>
    dispatch_step sha types store env answer (gs_runs y ! i) (gs_world y) (gs_guard y) = (d, w, g) \<Longrightarrow>
    guard_step sha types store registry other y
      \<lparr>gs_world = w, gs_guard = g, gs_runs = (gs_runs y)[i := d], gs_sends = gs_sends y @ sends_of d\<rparr>"
| settle_late: "settleUsage sha store invId inputs outputs (gs_world y) (gs_guard y) = (out, w, g) \<Longrightarrow>
    guard_step sha types store registry other y (y\<lparr>gs_world := w, gs_guard := g\<rparr>)"
| release_late: "releaseReservation store invId (gs_world y) (gs_guard y) = (res, w, g) \<Longrightarrow>
    guard_step sha types store registry other y (y\<lparr>gs_world := w, gs_guard := g\<rparr>)"
| others: "other (gs_world y) w \<Longrightarrow> guard_step sha types store registry other y (y\<lparr>gs_world := w\<rparr>)"

definition guard_start :: "'w \<Rightarrow> ('a, 'w) guard_system" where
  "guard_start w = \<lparr>gs_world = w, gs_guard = \<lparr>inflight = [], reports = []\<rparr>, gs_runs = [], gs_sends = []\<rparr>"

section \<open>What a dispatch knows of the ledger\<close>

definition tracked :: "ledger_state \<Rightarrow> jsstr \<Rightarrow> invocation_record \<Rightarrow> bool" where
  "tracked s k r \<longleftrightarrow> (\<exists>r'. map_of (lst_invocations s) k = Some (Rec r') \<and> record_core r' = record_core r)"

definition fenced_at :: "ledger_state \<Rightarrow> jsstr \<Rightarrow> invocation_record \<Rightarrow> bool" where
  "fenced_at s k r \<longleftrightarrow> (\<exists>r'. map_of (lst_invocations s) k = Some (Rec r') \<and> record_core r' = record_core r
     \<and> (inv_state r' = Fenced \<or> inv_state r' = Settled))"

definition evolves :: "(jsstr \<Rightarrow> jsstr) \<Rightarrow> ledger_state \<Rightarrow> ledger_state \<Rightarrow> bool" where
  "evolves sha s t \<longleftrightarrow> ledger_inv sha t \<and> invocations_advance s t"

lemma invocations_advance_trans:
  "invocations_advance s t \<Longrightarrow> invocations_advance t u \<Longrightarrow> invocations_advance s u"
  unfolding invocations_advance_def by (blast intro: entry_advances_trans)

lemma evolves_refl: "ledger_inv sha s \<Longrightarrow> evolves sha s s"
  by (simp add: evolves_def invocations_advance_same)

lemma evolves_trans: "evolves sha s t \<Longrightarrow> evolves sha t u \<Longrightarrow> evolves sha s u"
  unfolding evolves_def by (blast intro: invocations_advance_trans)

lemma evolves_steps: "ledger_inv sha s \<Longrightarrow> ledger_steps sha s t \<Longrightarrow> evolves sha s t"
  by (simp add: evolves_def ledger_steps_inv ledger_steps_advance)

lemma evolves_record:
  assumes "evolves sha s t" and "map_of (lst_invocations s) k = Some (Rec r)"
  obtains r' where "map_of (lst_invocations t) k = Some (Rec r')" "record_core r' = record_core r"
    "state_advances (inv_state r) (inv_state r')"
proof -
  obtain e where "map_of (lst_invocations t) k = Some e" "entry_advances (Rec r) e"
    using assms unfolding evolves_def invocations_advance_def by blast
  then show thesis using that by (auto elim: entry_advances_RecE)
qed

lemma tracked_evolves: "tracked s k r \<Longrightarrow> evolves sha s t \<Longrightarrow> tracked t k r"
  unfolding tracked_def by (metis evolves_record)

lemma fenced_evolves:
  assumes "fenced_at s k r" and "evolves sha s t"
  shows "fenced_at t k r"
proof -
  obtain r' where r': "map_of (lst_invocations s) k = Some (Rec r')" "record_core r' = record_core r"
    "inv_state r' = Fenced \<or> inv_state r' = Settled" using assms(1) by (auto simp: fenced_at_def)
  obtain r'' where "map_of (lst_invocations t) k = Some (Rec r'')" "record_core r'' = record_core r'"
    "state_advances (inv_state r') (inv_state r'')" using evolves_record [OF assms(2) r'(1)] .
  then show ?thesis using r' unfolding fenced_at_def by fastforce
qed

lemma fenced_no_release: "fenced_at s k r \<Longrightarrow> ledger_inv sha s \<Longrightarrow> release_apply k s \<noteq> Inr (Write t v)"
  by (auto simp: fenced_at_def release_apply_def js_get_def record_ok_def dest!: ledger_invD(4))

lemma reserve_apply_admitted:
  assumes "reserve_apply sha a s = Inr (NoWrite (Admitted r left reset duplicate))"
  shows "map_of (lst_invocations s) (ra_id a) = Some (Rec r)"
  using assms
proof (cases rule: reserve_apply_InrE)
  case (Epoch schedule e)
  then show ?thesis
    by (cases "js_get (lst_invocations s) (ra_id a)")
       (auto simp: reserve_in_epoch_def reserve_existing_def reserve_admit_def js_get_Own_iff Let_def
         split: inv_entry.splits if_splits)
qed simp_all

lemma record_core_fence: "record_core (r\<lparr>inv_state := a, inv_fenced := b\<rparr>) = record_core r"
  by (simp add: record_core_def)

lemma fence_apply_fenced:
  assumes "fence_apply k s = Inr (Write t (FenceFenced e duplicate)) \<or> fence_apply k s = Inr (NoWrite (FenceFenced e duplicate)) \<and> t = s"
    and "map_of (lst_invocations s) k = Some (Rec r)" and "ledger_inv sha s"
  shows "\<exists>r'. map_of (lst_invocations t) k = Some (Rec r') \<and> record_core r' = record_core r \<and> inv_state r' = Fenced"
proof -
  have "record_ok sha (lst_quarantined s) k r" using assms(3,2) by (rule ledger_invD(4))
  then have fenced: "inv_fenced r \<Longrightarrow> inv_state r = Fenced \<or> inv_state r = Settled"
    by (simp add: record_ok_def split: invocation_state.splits)
  have k: "js_get (lst_invocations s) k = Own (Rec r)" using assms(2) by (simp add: js_get_Own_iff)
  have open_r: "inv_state r \<noteq> Settled" "inv_state r \<noteq> Released" using assms(1) k by (auto simp: fence_apply_def)
  show ?thesis
  proof (cases "inv_fenced r")
    case True
    then have "t = s" using assms(1) k open_r by (simp add: fence_apply_def)
    then show ?thesis using assms(2) fenced True open_r by simp
  next
    case False
    then have "t = set_invocation k (Rec (r\<lparr>inv_state := Fenced, inv_fenced := True\<rparr>)) s"
      using assms(1) k open_r by (auto simp: fence_apply_def Let_def)
    then show ?thesis by (simp add: set_invocation_def record_core_fence)
  qed
qed

lemma settle_write_settled:
  assumes "settle_write sha k u r0 row s = Write t (SettleSettled r actual released duplicate breach)"
  shows "actual = usageTotal u \<and> map_of (lst_invocations t) k = Some (Rec r) \<and> inv_state r = Settled \<and> inv_usage r = Some u"
  using assms by (simp add: settle_write_def Let_def split: if_splits) auto

lemma settle_write_writes: "settle_write sha k u r0 row s \<noteq> NoWrite (SettleSettled r actual released duplicate breach)"
  by (simp add: settle_write_def Let_def)

lemma settle_apply_settled:
  assumes "settle_apply sha k u s = Inr (NoWrite (SettleSettled r actual released duplicate breach)) \<and> t = s
     \<or> settle_apply sha k u s = Inr (Write t (SettleSettled r actual released duplicate breach))"
  shows "actual = usageTotal u \<and> map_of (lst_invocations t) k = Some (Rec r) \<and> inv_state r = Settled \<and> inv_usage r = Some u"
proof (cases "js_get (lst_invocations s) k")
  case (Own e)
  then have k: "map_of (lst_invocations s) k = Some e" by (simp add: js_get_Own_iff)
  show ?thesis
  proof (cases e)
    case (Rec r0)
    show ?thesis
    proof (cases "inv_state r0 = Settled")
      case True
      then show ?thesis
        using assms Own Rec k by (auto simp: settle_apply_def split: option.splits if_splits)
    next
      case False
      then show ?thesis
        using assms Own Rec settle_write_settled [of sha k u r0 _ s t r actual released duplicate breach]
        by (cases "map_of (lst_epochs s) (inv_row_key r0)")
           (auto simp: settle_apply_def settle_write_writes split: if_splits)
    qed
  qed (use assms Own in \<open>simp add: settle_apply_def\<close>)
qed (use assms in \<open>simp_all add: settle_apply_def\<close>)

section \<open>The identifiers in flight\<close>

definition live :: "'a dispatch \<Rightarrow> bool" where
  "live d = (case ds_phase d of Ended _ \<Rightarrow> False | _ \<Rightarrow> True)"

definition exclusive :: "guard \<Rightarrow> 'a dispatch list \<Rightarrow> bool" where
  "exclusive g runs \<longleftrightarrow>
     (\<forall>k. k \<in> set (inflight g) \<longleftrightarrow> (\<exists>i < length runs. live (runs ! i) \<and> ds_id (runs ! i) = k))
     \<and> (\<forall>i < length runs. \<forall>j < length runs. live (runs ! i) \<longrightarrow> live (runs ! j) \<longrightarrow> ds_id (runs ! i) = ds_id (runs ! j) \<longrightarrow> i = j)"

definition stepped :: "'a dispatch \<Rightarrow> guard \<Rightarrow> 'a dispatch \<times> 'w \<times> guard \<Rightarrow> bool" where
  "stepped d g r \<longleftrightarrow> (case r of (d', _, g') \<Rightarrow> ds_id d' = ds_id d
     \<and> inflight g' = (if live d' then inflight g else removeAll (ds_id d) (inflight g)))"

lemma inflight_reports [simp]:
  "inflight (add_report e kind actual released duplicate g) = inflight g"
  "inflight (settled_report e n m repeated g) = inflight g"
  "inflight (unreconciled_report e g) = inflight g"
  by (simp_all add: add_report_def settled_report_def unreconciled_report_def split: inv_entry.splits option.splits)

lemma stepped_end [simp]: "inflight g' = inflight g \<Longrightarrow> stepped d g (end_dispatch res d w g')"
  by (simp add: stepped_def end_dispatch_def live_def)

lemma stepped_on [simp]: "stepped d g (d\<lparr>ds_phase := p\<rparr>, w, g) \<longleftrightarrow> (\<forall>res. p = Ended res \<longrightarrow> removeAll (ds_id d) (inflight g) = inflight g)"
  by (cases p) (auto simp: stepped_def live_def)

lemma stepped_dispatch:
  assumes "live d"
  shows "stepped d g (dispatch_step sha types store env answer d w g)"
proof -
  have "stepped d g (after_reserve types res1 d w' g)" "stepped d g (after_fence types r res2 d w' g)"
    "stepped d g (after_release types r reason res3 d w' g)" "stepped d g (after_send r answer d w' g)"
    "stepped d g (after_settle types r c res5 d w' g)" for res1 res2 res3 res5 r reason c w'
    by (simp_all add: after_reserve_def after_fence_def after_release_def after_send_def after_settle_def Let_def
        split: sum.splits reserve_outcome.splits fence_outcome.splits release_outcome.splits settle_outcome.splits
          prod.splits option.splits)
  then show ?thesis using assms by (auto simp: dispatch_step_def live_def split: phase.splits prod.splits)
qed

lemma exclusive_step:
  assumes "exclusive g runs" and "i < length runs"
    and "dispatch_step sha types store env answer (runs ! i) w g = (d, w', g')"
  shows "exclusive g' (runs[i := d])"
proof (cases "live (runs ! i)")
  case False
  then have "d = runs ! i" "g' = g"
    using assms(3) by (simp_all add: dispatch_step_def live_def split: phase.splits)
  then show ?thesis using assms(1) by simp
next
  case True
  have s: "ds_id d = ds_id (runs ! i)"
    "inflight g' = (if live d then inflight g else removeAll (ds_id (runs ! i)) (inflight g))"
    using stepped_dispatch [OF True, of g sha types store env answer w] assms(3) by (simp_all add: stepped_def)
  have e: "\<forall>k. k \<in> set (inflight g) \<longleftrightarrow> (\<exists>j < length runs. live (runs ! j) \<and> ds_id (runs ! j) = k)"
    and u: "\<And>j. j < length runs \<Longrightarrow> live (runs ! j) \<Longrightarrow> ds_id (runs ! j) = ds_id (runs ! i) \<Longrightarrow> j = i"
    and uu: "\<And>j k. j < length runs \<Longrightarrow> k < length runs \<Longrightarrow> live (runs ! j) \<Longrightarrow> live (runs ! k) \<Longrightarrow> ds_id (runs ! j) = ds_id (runs ! k) \<Longrightarrow> j = k"
    using assms(1,2) True unfolding exclusive_def by blast+
  have "k \<in> set (inflight g') \<longleftrightarrow> (\<exists>j < length runs. live (runs[i := d] ! j) \<and> ds_id (runs[i := d] ! j) = k)" for k
    using e u s True assms(2) by (auto simp: nth_list_update split: if_splits) metis
  moreover have "j = k" if "j < length runs" "k < length runs" "live (runs[i := d] ! j)" "live (runs[i := d] ! k)"
    "ds_id (runs[i := d] ! j) = ds_id (runs[i := d] ! k)" for j k
  proof -
    have "live (runs ! m) \<and> ds_id (runs[i := d] ! m) = ds_id (runs ! m)" if "live (runs[i := d] ! m)" "m < length runs" for m
      using that s(1) True by (cases "m = i") simp_all
    then show ?thesis using that uu by metis
  qed
  ultimately show ?thesis unfolding exclusive_def by simp
qed

lemma dispatch_begin_Inr:
  assumes "dispatch_begin types registry env connection attempt g = (Inr d, g')"
  shows "ds_id d \<notin> set (inflight g)" and "g' = g\<lparr>inflight := inflight g @ [ds_id d]\<rparr>"
    and "\<exists>i. ds_phase d = Reserving i \<and> ri_invocationId i = Str (ds_id d)"
  using assms
  by (auto simp: dispatch_begin_def Let_def split: if_splits option.splits sum.splits)

lemma exclusive_start:
  assumes "exclusive g runs" and "dispatch_begin types registry env connection attempt g = (Inr d, g')"
  shows "exclusive g' (runs @ [d])"
  using assms(1) dispatch_begin_Inr [OF assms(2)]
  by (auto simp: exclusive_def nth_append live_def less_Suc_eq)

text \<open>What a dispatch knows at each await.\<close>

definition informed :: "ledger_state \<Rightarrow> 'a dispatch \<Rightarrow> bool" where
  "informed s d =
     (case ds_phase d of
        Reserving i \<Rightarrow> ri_invocationId i = Str (ds_id d)
      | Fencing r \<Rightarrow> tracked s (ds_id d) r
      | Releasing r _ \<Rightarrow> tracked s (ds_id d) r
      | Sending r \<Rightarrow> fenced_at s (ds_id d) r
      | Settling r _ _ \<Rightarrow> fenced_at s (ds_id d) r
      | Ended _ \<Rightarrow> True)"

lemma informed_evolves: "informed s d \<Longrightarrow> evolves sha s t \<Longrightarrow> informed t d"
  by (auto simp: informed_def intro: tracked_evolves fenced_evolves split: phase.splits)

lemma reserve_checked_given:
  "reserve_checked env i = Inr a \<Longrightarrow> ri_invocationId i = Str k \<Longrightarrow> args_ok a"
  by (auto simp: reserve_checked_def res_simps args_ok_def checkUpperBound_def
      dest: safe_integer_SomeD split: if_splits jsval.splits option.splits)

definition guard_inv :: "(jsstr \<Rightarrow> jsstr) \<Rightarrow> ('w \<Rightarrow> ledger_state) \<Rightarrow> ('a, 'w) guard_system \<Rightarrow> bool" where
  "guard_inv sha view y \<longleftrightarrow>
     ledger_inv sha (view (gs_world y)) \<and> exclusive (gs_guard y) (gs_runs y)
     \<and> list_all (informed (view (gs_world y))) (gs_runs y)
     \<and> (\<forall>(k, r) \<in> set (gs_sends y). fenced_at (view (gs_world y)) k r)"

section \<open>The operations over a backend\<close>

locale ledger_clients = ledger_backend store view "ledger_steps sha"
  for store :: "'w ledger_store" and view :: "'w \<Rightarrow> ledger_state" and sha
begin

lemma finish_evolves:
  assumes "finish un (runTransaction store ap w) = (res, w')" and "ledger_inv sha (view w)"
    and "\<And>s t v. ap s = Inr (Write t v) \<Longrightarrow> ledger_inv sha s \<Longrightarrow> ledger_inv sha t \<and> invocations_advance s t"
  shows "evolves sha (view w) (view w')"
proof -
  obtain r where r: "runTransaction store ap w = (r, w')"
    using assms(1) by (cases "runTransaction store ap w") (auto simp: finish_def split: tx_result.splits)
  show ?thesis
  proof (rule runTransaction_keeps [OF r])
    show "evolves sha (view w) (view w)" using assms(2) by (rule evolves_refl)
    show "evolves sha (view w) t" if "ledger_steps sha s t" "evolves sha (view w) s" for s t
      using that evolves_steps evolves_trans unfolding evolves_def by blast
    show "evolves sha (view w) t" if "ap s = Inr (Write t v)" "evolves sha (view w) s" for s t v
      using assms(3) that evolves_trans unfolding evolves_def by blast
  qed
qed

lemma finish_effect:
  assumes "finish un (runTransaction store ap w) = (Inr out, w')" and "\<And>reason. out \<noteq> un reason"
  obtains s where "ledger_steps sha (view w) s" "ap s = Inr (NoWrite out) \<and> view w' = s \<or> ap s = Inr (Write (view w') out)"
proof -
  obtain r w1 where r: "runTransaction store ap w = (r, w1)" by (cases "runTransaction store ap w")
  have "r = TxOk out" "w1 = w'" using assms r by (auto simp: finish_def split: tx_result.splits)
  then show thesis using runTransaction_effect [OF r] that by (auto simp: tx_effect_def)
qed

lemma fence_evolves: "fence store invId w = (res, w') \<Longrightarrow> ledger_inv sha (view w) \<Longrightarrow> evolves sha (view w) (view w')"
  by (auto simp: fence_def with_checked_def evolves_refl split: sum.splits
      intro: finish_evolves fence_apply_inv fence_apply_advance)

lemma release_evolves:
  "releaseUndispatched store invId w = (res, w') \<Longrightarrow> ledger_inv sha (view w) \<Longrightarrow> evolves sha (view w) (view w')"
  by (auto simp: releaseUndispatched_def with_checked_def evolves_refl split: sum.splits
      intro: finish_evolves release_apply_inv release_apply_advance)

lemma settle_evolves:
  "settle sha store invId inputs outputs w = (res, w') \<Longrightarrow> ledger_inv sha (view w) \<Longrightarrow> evolves sha (view w) (view w')"
  by (auto simp: settle_def with_checked_def evolves_refl split: sum.splits option.splits
      intro: finish_evolves settle_apply_inv settle_apply_advance dest: meteringUsage_ok)

lemma reserve_evolves:
  "reserve sha env store i w = (res, w') \<Longrightarrow> ledger_inv sha (view w)
   \<Longrightarrow> (\<And>a. reserve_checked env i = Inr a \<Longrightarrow> args_ok a) \<Longrightarrow> evolves sha (view w) (view w')"
  by (auto simp: reserve_def with_checked_def evolves_refl split: sum.splits if_splits
      intro: finish_evolves reserve_apply_inv reserve_apply_advance)

lemma reconcile_evolves:
  "reconcile store invId w = (res, w') \<Longrightarrow> ledger_inv sha (view w) \<Longrightarrow> evolves sha (view w) (view w')"
  using load_None [of w] load_Some [of w]
  by (auto simp: reconcile_def with_checked_def read_state_def evolves_refl intro: evolves_steps
      split: sum.splits option.splits prod.splits)

lemma reserve_admitted:
  assumes "reserve sha env store i w = (Inr (Admitted r left reset duplicate), w')" and "ri_invocationId i = Str k"
  shows "map_of (lst_invocations (view w')) k = Some (Rec r)"
proof -
  obtain a where a: "reserve_checked env i = Inr a"
    and f: "finish (\<lambda>reason. ReserveUnavailable reason (ra_correlation a) (ra_id a))
      (runTransaction store (reserve_apply sha a) w) = (Inr (Admitted r left reset duplicate), w')"
    using assms(1) by (auto simp: reserve_def with_checked_def split: sum.splits if_splits)
  have k: "ra_id a = k" using a assms(2) by (auto simp: reserve_checked_def bindR_Inr_conv res_simps)
  obtain s where s: "reserve_apply sha a s = Inr (NoWrite (Admitted r left reset duplicate)) \<and> view w' = s
      \<or> reserve_apply sha a s = Inr (Write (view w') (Admitted r left reset duplicate))"
    using finish_effect [OF f] by blast
  from s show ?thesis
  proof
    assume "reserve_apply sha a s = Inr (NoWrite (Admitted r left reset duplicate)) \<and> view w' = s"
    then show ?thesis using reserve_apply_admitted k by blast
  next
    assume "reserve_apply sha a s = Inr (Write (view w') (Admitted r left reset duplicate))"
    then show ?thesis by (rule reserve_apply_fields) (simp add: k)
  qed
qed

lemma fence_fenced:
  assumes "fence store (Str k) w = (Inr (FenceFenced e duplicate), w')" and "ledger_inv sha (view w)" and "tracked (view w) k r"
  shows "fenced_at (view w') k r"
proof -
  have "finish FenceUnavailable (runTransaction store (fence_apply k) w) = (Inr (FenceFenced e duplicate), w')"
    using assms(1) by (auto simp: fence_def with_checked_def res_simps split: sum.splits)
  then obtain s where s: "ledger_steps sha (view w) s"
    "fence_apply k s = Inr (NoWrite (FenceFenced e duplicate)) \<and> view w' = s
     \<or> fence_apply k s = Inr (Write (view w') (FenceFenced e duplicate))" by (rule finish_effect) simp
  have inv: "ledger_inv sha s" using ledger_steps_inv s(1) assms(2) .
  obtain r' where r': "map_of (lst_invocations s) k = Some (Rec r')" "record_core r' = record_core r"
    using assms(3) s(1) record_later assms(2) unfolding tracked_def by metis
  show ?thesis using fence_apply_fenced [OF _ r'(1) inv] s(2) r'(2) unfolding fenced_at_def by metis
qed

lemma step_informed:
  assumes "dispatch_step sha types store env answer d w g = (d', w', g')" and "ledger_inv sha (view w)" and "informed (view w) d"
  shows "evolves sha (view w) (view w') \<and> informed (view w') d'"
proof (cases "ds_phase d")
  case (Reserving i)
  then obtain r where r: "reserve sha (ledger_env.truncate env) store i w = (r, w')" "after_reserve types r d w' g = (d', w', g')"
    using assms(1) by (auto simp: dispatch_step_def after_reserve_def end_dispatch_def
        split: prod.splits sum.splits reserve_outcome.splits)
  have id: "ri_invocationId i = Str (ds_id d)" using assms(3) Reserving by (simp add: informed_def)
  have ev: "evolves sha (view w) (view w')"
    using r(1) assms(2) by (rule reserve_evolves) (use id in \<open>blast intro: reserve_checked_given\<close>)
  moreover have "informed (view w') d'"
    using r(2) reserve_admitted [OF _ id] r(1)
    by (auto simp: after_reserve_def end_dispatch_def informed_def tracked_def split: sum.splits reserve_outcome.splits)
  ultimately show ?thesis ..
next
  case (Fencing r)
  then obtain res where res: "fence store (Str (ds_id d)) w = (res, w')" "after_fence types r res d w' g = (d', w', g')"
    using assms(1) by (auto simp: dispatch_step_def after_fence_def end_dispatch_def
        split: prod.splits sum.splits fence_outcome.splits if_splits)
  have ev: "evolves sha (view w) (view w')" using fence_evolves res(1) assms(2) .
  have tr: "tracked (view w) (ds_id d) r" using assms(3) Fencing by (simp add: informed_def)
  have "informed (view w') d'"
    using res(2) fence_fenced [OF _ assms(2) tr] res(1) tracked_evolves [OF tr ev]
    by (auto simp: after_fence_def end_dispatch_def informed_def split: sum.splits fence_outcome.splits if_splits)
  then show ?thesis using ev by blast
next
  case (Releasing r reason)
  then obtain res where "releaseUndispatched store (Str (ds_id d)) w = (res, w')" "after_release types r reason res d w' g = (d', w', g')"
    using assms(1) by (auto simp: dispatch_step_def after_release_def end_dispatch_def Let_def
        split: prod.splits sum.splits release_outcome.splits)
  then show ?thesis
    using release_evolves assms(2)
    by (auto simp: after_release_def end_dispatch_def informed_def Let_def split: sum.splits release_outcome.splits)
next
  case (Sending r)
  then show ?thesis
    using assms evolves_refl
    by (auto simp: dispatch_step_def after_send_def end_dispatch_def informed_def Let_def
        split: sum.splits prod.splits option.splits)
next
  case (Settling r used c)
  then obtain res where "settle sha store (Str (ds_id d)) (Num (num (inputTokens used))) (Num (num (outputTokens used))) w = (res, w')"
    "after_settle types r c res d w' g = (d', w', g')"
    using assms(1) by (auto simp: dispatch_step_def after_settle_def end_dispatch_def
        split: prod.splits sum.splits settle_outcome.splits option.splits if_splits)
  then show ?thesis
    using settle_evolves assms(2)
    by (auto simp: after_settle_def end_dispatch_def informed_def split: sum.splits settle_outcome.splits option.splits if_splits)
next
  case (Ended res)
  then show ?thesis using assms evolves_refl by (auto simp: dispatch_step_def informed_def)
qed

lemma settle_settled:
  assumes "settle sha store (Str k) inputs outputs w = (Inr (SettleSettled r actual released duplicate breach), w')"
  shows "\<exists>u. meteringUsage inputs outputs = Some u \<and> actual = usageTotal u \<and> map_of (lst_invocations (view w')) k = Some (Rec r)
    \<and> inv_state r = Settled \<and> inv_usage r = Some u"
proof -
  obtain u where u: "meteringUsage inputs outputs = Some u"
    and f: "finish SettleUnavailable (runTransaction store (settle_apply sha k u) w) = (Inr (SettleSettled r actual released duplicate breach), w')"
    using assms by (auto simp: settle_def with_checked_def res_simps split: sum.splits option.splits)
  obtain s where "settle_apply sha k u s = Inr (NoWrite (SettleSettled r actual released duplicate breach)) \<and> view w' = s
     \<or> settle_apply sha k u s = Inr (Write (view w') (SettleSettled r actual released duplicate breach))"
    using finish_effect [OF f] by blast
  then show ?thesis using settle_apply_settled u by metis
qed

lemma settleUsage_evolves:
  "settleUsage sha store invId inputs outputs w g = (out, w', g') \<Longrightarrow> ledger_inv sha (view w) \<Longrightarrow>
   evolves sha (view w) (view w') \<and> inflight g' = inflight g"
proof -
  assume run: "settleUsage sha store invId inputs outputs w g = (out, w', g')" and inv: "ledger_inv sha (view w)"
  obtain r w1 where s: "settle sha store invId inputs outputs w = (r, w1)" by (cases "settle sha store invId inputs outputs w")
  have ev: "evolves sha (view w) (view w1)" using settle_evolves s inv .
  obtain q w2 where q: "reconcile store invId w1 = (q, w2)" by (cases "reconcile store invId w1")
  have ev2: "evolves sha (view w) (view w2)"
    using reconcile_evolves [OF q] ev evolves_trans by (auto simp: evolves_def)
  consider "w' = w1" "inflight g' = inflight g" | "w' = w2" "inflight g' = inflight g"
    using run s q by (cases r) (auto simp: settleUsage_def split: settle_outcome.splits option.splits sum.splits read_outcome.splits if_splits)
  then show ?thesis using ev ev2 by cases simp_all
qed

lemma releaseReservation_evolves:
  "releaseReservation store invId w g = (out, w', g') \<Longrightarrow> ledger_inv sha (view w) \<Longrightarrow>
   evolves sha (view w) (view w') \<and> inflight g' = inflight g"
  using release_evolves [of invId w]
  by (auto simp: releaseReservation_def split: prod.splits sum.splits release_outcome.splits)

lemma guard_inv_world:
  assumes "guard_inv sha view y" and "evolves sha (view (gs_world y)) (view w)" and "inflight g = inflight (gs_guard y)"
  shows "guard_inv sha view (y\<lparr>gs_world := w, gs_guard := g\<rparr>)"
proof -
  have "list_all (informed (view w)) (gs_runs y)"
    using assms(1) informed_evolves [OF _ assms(2)] unfolding guard_inv_def list_all_iff by blast
  then show ?thesis
    using assms fenced_evolves [OF _ assms(2)] by (auto simp: guard_inv_def evolves_def exclusive_def)
qed

lemma guard_step_inv:
  assumes "guard_step sha types store registry other y y'" and "guard_inv sha view y"
    and "\<And>w w'. other w w' \<Longrightarrow> ledger_steps sha (view w) (view w')"
  shows "guard_inv sha view y'"
  using assms(1)
proof cases
  case (start env connection attempt d g)
  have "informed (view (gs_world y)) d" using dispatch_begin_Inr(3) [OF start(2)] by (auto simp: informed_def)
  then show ?thesis using assms(2) exclusive_start [OF _ start(2)] unfolding start(1) by (simp add: guard_inv_def)
next
  case (advance i env answer d w g)
  have inv: "ledger_inv sha (view (gs_world y))" "informed (view (gs_world y)) (gs_runs y ! i)"
    "exclusive (gs_guard y) (gs_runs y)" using assms(2) advance(2) by (simp_all add: guard_inv_def list_all_length)
  have ev: "evolves sha (view (gs_world y)) (view w)" and d: "informed (view w) d"
    using step_informed [OF advance(3) inv(1,2)] by simp_all
  have "informed (view w) e" if "e \<in> set ((gs_runs y)[i := d])" for e
    using that set_update_subset_insert [of "gs_runs y" i d] assms(2) d informed_evolves [OF _ ev]
    by (auto simp: guard_inv_def list_all_iff)
  moreover have "fenced_at (view w) k r" if "(k, r) \<in> set (gs_sends y @ sends_of d)" for k r
    using that assms(2) d fenced_evolves [OF _ ev]
    by (auto simp: guard_inv_def sends_of_def informed_def split: phase.splits)
  ultimately show ?thesis
    using ev exclusive_step [OF inv(3) advance(2,3)] unfolding advance(1) by (auto simp: guard_inv_def evolves_def list_all_iff)
next
  case (settle_late invId inputs outputs out w g)
  then show ?thesis using guard_inv_world settleUsage_evolves assms(2) unfolding guard_inv_def by metis
next
  case (release_late invId res w g)
  then show ?thesis using guard_inv_world releaseReservation_evolves assms(2) unfolding guard_inv_def by metis
next
  case (others w)
  have "evolves sha (view (gs_world y)) (view w)"
    using evolves_steps assms(2,3) others(2) by (auto simp: guard_inv_def)
  then show ?thesis using guard_inv_world [OF assms(2), of w "gs_guard y"] unfolding others(1) by simp
qed

lemma guard_reachable_inv:
  assumes "(guard_step sha types store registry other)\<^sup>*\<^sup>* (guard_start w) y" and "ledger_inv sha (view w)"
    and "\<And>w w'. other w w' \<Longrightarrow> ledger_steps sha (view w) (view w')"
  shows "guard_inv sha view y"
  using assms(1)
proof (induction rule: rtranclp_induct)
  case base
  show ?case using assms(2) by (simp add: guard_inv_def guard_start_def exclusive_def)
next
  case (step y z)
  then show ?case using guard_step_inv assms(3) by blast
qed

end

text \<open>The shared memory backend, whose other clients may run any calls before each access.\<close>

interpretation clients: ledger_clients "sharedMemoryStore sha" fst sha for sha
  by unfold_locales

definition more_calls :: "shared_memory \<Rightarrow> shared_memory \<Rightarrow> bool" where
  "more_calls w w' \<longleftrightarrow> fst w' = fst w"

abbreviation guard_steps where
  "guard_steps sha types registry \<equiv> (guard_step sha types (sharedMemoryStore sha) registry more_calls)\<^sup>*\<^sup>*"

lemma guard_steps_inv:
  assumes "ledger_steps sha emptyLedgerState s" and "guard_steps sha types registry (guard_start (s, css)) y"
  shows "guard_inv sha fst y"
  using assms(2)
proof (rule clients.guard_reachable_inv)
  show "ledger_inv sha (fst (s, css))" using reachable_inv [OF assms(1)] by simp
qed (simp add: more_calls_def)

text \<open>
  C2: No provider call without a durable reservation. In every interleaving of the dispatches
  of a guard with late settlements, releases and other clients of the ledger, every provider
  call was started on a reservation that the ledger still holds under the same identity and
  bound: it is fenced or settled, and no release can give its tokens back.
\<close>

theorem sends_are_covered:
  assumes "ledger_steps sha emptyLedgerState s" and "guard_steps sha types registry (guard_start (s, css)) y"
    and "(k, r) \<in> set (gs_sends y)"
  shows "\<exists>r'. map_of (lst_invocations (fst (gs_world y))) k = Some (Rec r') \<and> record_core r' = record_core r
    \<and> (inv_state r' = Fenced \<or> inv_state r' = Settled) \<and> inv_upperBound r' = inv_upperBound r
    \<and> (\<nexists>t v. release_apply k (fst (gs_world y)) = Inr (Write t v))"
proof -
  have inv: "ledger_inv sha (fst (gs_world y))" "fenced_at (fst (gs_world y)) k r"
    using guard_steps_inv [OF assms(1,2)] assms(3) by (auto simp: guard_inv_def)
  then show ?thesis using fenced_no_release record_coreD(9) unfolding fenced_at_def by blast
qed

text \<open>
  C8: An invocation identifier is in flight at most once. Two unfinished dispatches of a guard
  never have the same identifier, and a dispatch that names the identifier of an unfinished
  one is not started.
\<close>

theorem inflight_exclusive:
  assumes "ledger_steps sha emptyLedgerState s" and "guard_steps sha types registry (guard_start (s, css)) y"
    and "i < length (gs_runs y)" and "live (gs_runs y ! i)"
  shows "(\<forall>j < length (gs_runs y). live (gs_runs y ! j) \<longrightarrow> ds_id (gs_runs y ! j) = ds_id (gs_runs y ! i) \<longrightarrow> j = i)
    \<and> (\<forall>env connection attempt d g. dispatch_begin types registry env connection attempt (gs_guard y) = (Inr d, g) \<longrightarrow>
         ds_id d \<noteq> ds_id (gs_runs y ! i))"
proof -
  have ex: "exclusive (gs_guard y) (gs_runs y)" using guard_steps_inv [OF assms(1,2)] by (simp add: guard_inv_def)
  then have "ds_id (gs_runs y ! i) \<in> set (inflight (gs_guard y))" using assms(3,4) unfolding exclusive_def by blast
  then show ?thesis using ex assms(3,4) dispatch_begin_Inr(1) unfolding exclusive_def by metis
qed

section \<open>One dispatch\<close>

fun awaits_left :: "'a phase \<Rightarrow> nat" where
  "awaits_left (Reserving _) = 4"
| "awaits_left (Fencing _) = 3"
| "awaits_left (Sending _) = 2"
| "awaits_left (Releasing _ _) = 1"
| "awaits_left (Settling _ _ _) = 1"
| "awaits_left (Ended _) = 0"

lemma awaits_left_0: "awaits_left p = 0 \<longleftrightarrow> (\<exists>res. p = Ended res)"
  by (cases p) simp_all

lemma live_awaits: "live d \<longleftrightarrow> awaits_left (ds_phase d) \<noteq> 0"
  by (simp add: live_def split: phase.splits)

lemma awaits_step:
  assumes "dispatch_step sha types store env answer d w g = (d', w', g')" and "live d"
  shows "awaits_left (ds_phase d') < awaits_left (ds_phase d)"
  using assms
  by (auto simp: dispatch_step_def live_def after_reserve_def after_fence_def after_release_def after_send_def after_settle_def
      end_dispatch_def Let_def
      split: phase.splits prod.splits sum.splits reserve_outcome.splits fence_outcome.splits release_outcome.splits
        settle_outcome.splits option.splits if_splits)

lemma steps_end:
  assumes "dispatch_steps n sha types store env answer d w g = (d', w', g')" and "awaits_left (ds_phase d) \<le> n" and "live d"
  shows "awaits_left (ds_phase d') = 0 \<and> inflight g' = removeAll (ds_id d) (inflight g)"
  using assms
proof (induction n arbitrary: d w g)
  case 0
  then show ?case by (simp add: live_awaits)
next
  case (Suc n)
  obtain d1 w1 g1 where s: "dispatch_step sha types store env answer d w g = (d1, w1, g1)"
    by (cases "dispatch_step sha types store env answer d w g")
  have st: "ds_id d1 = ds_id d" "inflight g1 = (if live d1 then inflight g else removeAll (ds_id d) (inflight g))"
    using stepped_dispatch [OF Suc.prems(3), of g sha types store env answer w] s by (simp_all add: stepped_def)
  have rest: "dispatch_steps n sha types store env answer d1 w1 g1 = (d', w', g')" using Suc.prems(1) s by simp
  have le: "awaits_left (ds_phase d1) \<le> n" using awaits_step [OF s Suc.prems(3)] Suc.prems(2) by simp
  show ?case
  proof (cases "live d1")
    case True
    then show ?thesis using Suc.IH [OF rest le] st by simp
  next
    case False
    have "dispatch_steps m sha types store env answer d1 w1 g1 = (d1, w1, g1)" for m
      using False by (induction m) (simp_all add: dispatch_step_def live_def split: phase.splits)
    then show ?thesis using rest False st by (simp add: live_awaits)
  qed
qed

text \<open>
  C9: Every dispatch ends. Over any ledger store, whatever its answers and those of the
  provider, a dispatch returns or throws after at most four awaits, and the identifiers in
  flight are then the ones from before it started.
\<close>

theorem dispatch_ends:
  fixes answer :: "'a send_result"
  shows "\<exists>res w' g'. dispatch sha types store registry env answer connection attempt w g = (Ended res, w', g')
     \<and> inflight g' = inflight g"
proof (cases "dispatch_begin types registry env connection attempt g :: ('a completion + 'a dispatch) \<times> guard")
  case (Pair r g0)
  show ?thesis
  proof (cases r)
    case (Inl refused)
    have "g0 = g" using Pair Inl by (auto simp: dispatch_begin_def Let_def split: if_splits option.splits sum.splits)
    then show ?thesis using Pair Inl by (simp add: dispatch_def)
  next
    case (Inr d)
    have b: "ds_id d \<notin> set (inflight g)" "g0 = g\<lparr>inflight := inflight g @ [ds_id d]\<rparr>" "awaits_left (ds_phase d) = 4"
      using dispatch_begin_Inr [of types registry env connection attempt g d g0] Pair Inr by auto
    obtain d' w' g' where s: "dispatch_steps 4 sha types store env answer d w g0 = (d', w', g')"
      by (cases "dispatch_steps 4 sha types store env answer d w g0")
    have "awaits_left (ds_phase d') = 0" "inflight g' = inflight g"
      using steps_end [OF s] b by (simp_all add: live_awaits)
    then show ?thesis using Pair Inr s by (auto simp: dispatch_def awaits_left_0)
  qed
qed









section \<open>A guard evaluated\<close>

definition demo_types :: budget_types where
  "demo_types = \<lparr>bt_exceeded = ascii ''exceeded'', bt_unavailable = ascii ''unavailable''\<rparr>"

definition demo_pinned :: profile_init where
  "demo_pinned = \<lparr>pi_provider = Str (ascii ''p''), pi_model = Str (ascii ''m''), pi_version = Str (ascii ''1'')\<rparr>"

definition demo_registry :: profile_registry where
  "demo_registry = snd (qualify demo_pinned (Num (num 60)) createProfileRegistry)"

definition demo_genv :: guard_env where
  "demo_genv = \<lparr>env_correlation = ascii ''c'', env_invocation = ascii ''i1'', env_dateNow = Num (num 1500), env_nowMs = None\<rparr>"

definition demo_connection :: guarded_connection where
  "demo_connection = \<lparr>gc_permittedPool = Str (ascii ''pool''), gc_profile = demo_pinned\<rparr>"

definition demo_attempt :: guarded_attempt where
  "demo_attempt = \<lparr>at_context = Obj [(ascii ''tenant'', Str (ascii ''acme'')), (ascii ''pool'', Str (ascii ''pool'')),
     (ascii ''correlation'', Str (ascii ''c''))], at_maxBodyBytes = num 1000, at_invocationId = Undefined\<rparr>"

definition demo_guard :: guard where
  "demo_guard = \<lparr>inflight = [], reports = []\<rparr>"

definition demo_answer :: "int send_result" where
  "demo_answer = Sent (Some (Ok 7)) None"

definition demo_dispatch :: "int dispatch" where
  "demo_dispatch = projr (fst (dispatch_begin demo_types demo_registry demo_genv demo_connection demo_attempt demo_guard))"

definition demo_reserved :: "int dispatch \<times> shared_memory \<times> guard" where
  "demo_reserved = dispatch_step id demo_types (sharedMemoryStore id) demo_genv demo_answer demo_dispatch (demo_configured, [])
     \<lparr>inflight = [ascii ''i1''], reports = []\<rparr>"

definition demo_fenced :: "int dispatch \<times> shared_memory \<times> guard" where
  "demo_fenced = (case demo_reserved of (d, w, g) \<Rightarrow>
     dispatch_step id demo_types (sharedMemoryStore id) demo_genv demo_answer d w g)"

definition demo_system :: "(int, shared_memory) guard_system" where
  "demo_system = (case demo_fenced of (d, w, g) \<Rightarrow> \<lparr>gs_world = w, gs_guard = g, gs_runs = [d], gs_sends = sends_of d\<rparr>)"

lemma demo_run:
  "(case demo_reserved of (d, w, g) \<Rightarrow> (sends_of d,
      case dispatch_step id demo_types (sharedMemoryStore id) demo_genv demo_answer d w g of (d', w', g') \<Rightarrow>
        (map (\<lambda>(k, r). (k, inv_upperBound r)) (sends_of d'), live d'))) = ([], [(ascii ''i1'', 60)], True)"
  by code_simp

lemma demo_system_sends:
  "map (\<lambda>(k, r). (k, inv_upperBound r)) (gs_sends demo_system) = [(ascii ''i1'', 60)]"
  "length (gs_runs demo_system) = 1" "live (gs_runs demo_system ! 0)"
proof -
  obtain d w g where r: "demo_reserved = (d, w, g)" by (cases demo_reserved)
  show "map (\<lambda>(k, r). (k, inv_upperBound r)) (gs_sends demo_system) = [(ascii ''i1'', 60)]"
    "length (gs_runs demo_system) = 1" "live (gs_runs demo_system ! 0)"
    using demo_run unfolding r demo_system_def demo_fenced_def by (auto split: prod.splits)
qed

lemma demo_system_reachable:
  "guard_steps id demo_types demo_registry (guard_start (demo_configured, [])) demo_system"
proof -
  let ?step = "guard_step id demo_types (sharedMemoryStore id) demo_registry more_calls"
  obtain d w g where r: "demo_reserved = (d, w, g)" by (cases demo_reserved)
  obtain d' w' g' where f: "demo_fenced = (d', w', g')" by (cases demo_fenced)
  have b: "dispatch_begin demo_types demo_registry demo_genv demo_connection demo_attempt demo_guard
      = (Inr demo_dispatch, \<lparr>inflight = [ascii ''i1''], reports = []\<rparr>)" by code_simp
  let ?y1 = "\<lparr>gs_world = (demo_configured, []), gs_guard = \<lparr>inflight = [ascii ''i1''], reports = []\<rparr>,
    gs_runs = [demo_dispatch], gs_sends = []\<rparr>"
  have "?step (guard_start (demo_configured, [])) ?y1"
    using guard_step.start [of demo_types demo_registry demo_genv demo_connection demo_attempt "guard_start (demo_configured, [])"
        demo_dispatch _ id "sharedMemoryStore id" more_calls] b by (simp add: guard_start_def demo_guard_def)
  moreover have "?step ?y1 \<lparr>gs_world = w, gs_guard = g, gs_runs = [d], gs_sends = sends_of d\<rparr>"
    using guard_step.advance [of 0 ?y1 id demo_types "sharedMemoryStore id" demo_genv demo_answer d w g] r
    by (simp add: demo_reserved_def)
  moreover have "sends_of d = []" using demo_run unfolding r by simp
  moreover have "dispatch_step id demo_types (sharedMemoryStore id) demo_genv demo_answer d w g = (d', w', g')"
    using f unfolding demo_fenced_def r by simp
  moreover from this have "?step \<lparr>gs_world = w, gs_guard = g, gs_runs = [d], gs_sends = []\<rparr> demo_system"
    using guard_step.advance [of 0 "\<lparr>gs_world = w, gs_guard = g, gs_runs = [d], gs_sends = []\<rparr>" id demo_types
        "sharedMemoryStore id" demo_genv demo_answer d' w' g']
    unfolding demo_system_def f by simp
  ultimately show ?thesis unfolding r by (simp add: converse_rtranclp_into_rtranclp)
qed

theorem sends_are_covered_witness:
  "\<exists>r r'. gs_sends demo_system = [(ascii ''i1'', r)] \<and> inv_upperBound r = 60
     \<and> map_of (lst_invocations (fst (gs_world demo_system))) (ascii ''i1'') = Some (Rec r') \<and> inv_upperBound r' = 60"
proof -
  obtain r where r: "gs_sends demo_system = [(ascii ''i1'', r)]" "inv_upperBound r = 60"
    using demo_system_sends(1) by auto
  then show ?thesis using sends_are_covered [OF demo_reachable(1) demo_system_reachable, of "ascii ''i1''" r] by auto
qed

theorem inflight_exclusive_witness:
  "live (gs_runs demo_system ! 0) \<and> (\<nexists>env connection attempt d g.
     dispatch_begin demo_types demo_registry env connection attempt (gs_guard demo_system) = (Inr d, g) \<and>
     ds_id (d :: int dispatch) = ds_id (gs_runs demo_system ! 0))"
  using inflight_exclusive [OF demo_reachable(1) demo_system_reachable, of 0] demo_system_sends(2,3) by simp blast



text \<open>
  A dispatch that reuses the identifier of an earlier one whose outcome is unknown calls the
  provider again on the same reservation: two calls, one hold of 60 tokens.
\<close>

definition demo_unknown :: "int phase \<times> shared_memory \<times> guard" where
  "demo_unknown = dispatch id demo_types (sharedMemoryStore id) demo_registry demo_genv (SendThrew (ThrownNative (ascii ''reset'')))
     demo_connection demo_attempt (demo_configured, []) demo_guard"

lemma retry_reuses_reservation:
  "(case demo_unknown of (first, w, g) \<Rightarrow>
      case dispatch id demo_types (sharedMemoryStore id) demo_registry demo_genv demo_answer demo_connection demo_attempt w g of
        (second, (s, _), _) \<Rightarrow> (first, second, map (row_held \<circ> snd) (lst_epochs s), length (lst_invocations s)))
   = (Ended (Inr (Standard NativeException (ascii ''reset''))), Ended (Inr (Ok 7)), [60], 1)"
  by code_simp

end
