(* ===== verification/Boundary.thy ===== *)
theory Boundary
  imports Identity JsNumber
begin

text \<open>
  The operation boundary of \<open>runtime/transport\<close>: request budgets and the unknown-write marker
  (\<open>request-budget.ts\<close>), the race of an operation against its bound with escalation and late
  observation (\<open>operation-budget.ts\<close>), and request scopes (\<open>request-scope.ts\<close>). The handlers
  of timers, abort signals and promise reactions are separate definitions, which the event
  loop runs in any order the platform allows. Clock readings are finite doubles.
\<close>

section \<open>Request budgets\<close>

record request_budget =
  rb_total :: int
  rb_start :: rat

definition MAX_MILLISECONDS :: int where
  "MAX_MILLISECONDS = 2147483647"

definition checkBound :: "string \<Rightarrow> jsnum \<Rightarrow> int res" where
  "checkBound name v =
     (case safe_integer v of
        Some i \<Rightarrow> if i < 1 \<or> i > MAX_MILLISECONDS then Inl (TypeError (''invalid request '' @ name)) else Inr i
      | None \<Rightarrow> Inl (TypeError (''invalid request '' @ name)))"

definition createRequestBudget :: "jsnum \<Rightarrow> rat \<Rightarrow> request_budget res" where
  "createRequestBudget totalMilliseconds now =
     bindR (checkBound ''budget'' totalMilliseconds) (\<lambda>total. Inr \<lparr>rb_total = total, rb_start = now\<rparr>)"

definition remainingMilliseconds :: "request_budget \<Rightarrow> rat \<Rightarrow> rat" where
  "remainingMilliseconds b now = max 0 (fl (of_int (rb_total b) - fl (now - rb_start b)))"

definition effectiveMilliseconds :: "request_budget \<Rightarrow> jsnum \<Rightarrow> rat \<Rightarrow> rat res" where
  "effectiveMilliseconds b operationBound now =
     bindR (checkBound ''operation bound'' operationBound) (\<lambda>i.
       Inr (max 0 (min (of_int i) (remainingMilliseconds b now))))"

definition budget_expired :: "request_budget \<Rightarrow> rat \<Rightarrow> bool" where
  "budget_expired b now \<longleftrightarrow> remainingMilliseconds b now \<le> 0"

section \<open>The unknown-write marker\<close>

definition write_sources :: "jsstr list" where
  "write_sources = [ascii ''sql'', ascii ''s3'', ascii ''action'', ascii ''worker'', ascii ''fetch'']"

definition unknownWrite :: "jsval \<Rightarrow> jsval res" where
  "unknownWrite source =
     (case source of
        Str s \<Rightarrow>
          if s \<notin> set write_sources then Inl (TypeError ''invalid unknown-write source'')
          else Inr (Obj [(ascii ''kind'', Str (ascii ''unknown-write'')), (ascii ''source'', Str s),
            (ascii ''commit'', Str (ascii ''unknown'')), (ascii ''owned'', Bool True),
            (ascii ''escalation'', Str (ascii ''supervisor''))])
      | _ \<Rightarrow> Inl (TypeError ''invalid unknown-write source''))"

definition isUnknownWrite :: "jsval \<Rightarrow> bool" where
  "isUnknownWrite v =
     (case v of
        Obj ps \<Rightarrow>
          obj_field ps ''kind'' = Str (ascii ''unknown-write'')
          \<and> (case obj_field ps ''source'' of Str s \<Rightarrow> s \<in> set write_sources | _ \<Rightarrow> False)
          \<and> obj_field ps ''commit'' = Str (ascii ''unknown'')
          \<and> obj_field ps ''owned'' = Bool True
          \<and> obj_field ps ''escalation'' = Str (ascii ''supervisor'')
      | _ \<Rightarrow> False)"

section \<open>Records and sinks\<close>

datatype escalation_cause = CauseBudget | CauseDisconnect | CauseShutdown | CauseCancel

text \<open>A missing bound is \<open>Infinity\<close>.\<close>

record escalation =
  es_seq :: nat
  es_marker :: jsval
  es_cause :: escalation_cause
  es_boundMs :: "jsnum option"
  es_effectiveMs :: "rat option"
  es_atMs :: rat

record late_record =
  lt_seq :: nat
  lt_resolved :: bool
  lt_atMs :: rat

datatype sink = RingSink | CollectorSink nat

definition checkOperationBound :: "jsnum \<Rightarrow> int res" where
  "checkOperationBound v =
     (case safe_integer v of
        Some i \<Rightarrow> if i < 1 \<or> i > MAX_MILLISECONDS then Inl (TypeError ''invalid operation bound'') else Inr i
      | None \<Rightarrow> Inl (TypeError ''invalid operation bound''))"

definition effectiveBoundMs :: "jsnum option \<Rightarrow> request_budget option \<Rightarrow> rat \<Rightarrow> rat option res" where
  "effectiveBoundMs boundMs budget now =
     bindR (case boundMs of None \<Rightarrow> Inr None | Some v \<Rightarrow> bindR (checkOperationBound v) (\<lambda>i. Inr (Some (of_int i)))) (\<lambda>bound.
       Inr (case (bound, map_option (\<lambda>b. remainingMilliseconds b now) budget) of
              (None, None) \<Rightarrow> None
            | (Some b, None) \<Rightarrow> Some (max 0 b)
            | (None, Some r) \<Rightarrow> Some (max 0 r)
            | (Some b, Some r) \<Rightarrow> Some (max 0 (min b r))))"

text \<open>
  A race as it is called, with the abort signals it listens to, and the state of its promise:
  \<open>rc_operation\<close> is what the owned operation has settled with, \<open>rc_main\<close> whether the
  reaction that finishes the race has run, \<open>rc_observer\<close> the late observer an expiry attaches
  and \<open>rc_observed\<close> whether it has run.
\<close>

record boundary_race =
  br_source :: jsstr
  br_boundMs :: "jsnum option"
  br_budget :: "request_budget option"
  br_scopeSignal :: "nat option"
  br_signal :: "nat option"
  br_sink :: "sink option"

datatype 'a op_result = Resolved 'a | Rejected jsval

datatype 'a boundary_outcome = BSettled 'a | BUnknown jsval escalation | BRejected jsval

record 'a race =
  rc_input :: boundary_race
  rc_effective :: "rat option"
  rc_started :: nat
  rc_done :: bool
  rc_outcome :: "'a boundary_outcome option"
  rc_timer :: bool
  rc_operation :: "'a op_result option"
  rc_main :: bool
  rc_observer :: "nat option"
  rc_observed :: bool

record request_scope =
  rs_budget :: "request_budget option"
  rs_signal :: nat
  rs_expired :: bool
  rs_sink :: nat

text \<open>
  The module state: sequence counter, ring and its drop counter, the collectors and abort
  signals (with their reason once aborted) of the scopes, the races. \<open>filed\<close> and \<open>seen\<close>
  log every record handed to a sink.
\<close>

record 'a boundary =
  nextSequence :: nat
  ringEscalations :: "escalation list"
  ringLates :: "late_record list"
  ringDropped :: nat
  collectors :: "(escalation list \<times> late_record list) list"
  signals :: "jsval option list"
  scopes :: "request_scope list"
  races :: "'a race list"
  filed :: "escalation list"
  seen :: "late_record list"

definition RING_CAP :: nat where
  "RING_CAP = 256"

definition ringPush :: "'r \<Rightarrow> 'r list \<Rightarrow> 'r list \<times> nat" where
  "ringPush r ring = (let ring = ring @ [r] in if length ring > RING_CAP then (tl ring, 1) else (ring, 0))"

definition escalate :: "sink \<Rightarrow> escalation \<Rightarrow> 'a boundary \<Rightarrow> 'a boundary" where
  "escalate s r w =
     (let w = w\<lparr>filed := filed w @ [r]\<rparr>
      in case s of
           RingSink \<Rightarrow> (case ringPush r (ringEscalations w) of (ring, n) \<Rightarrow>
             w\<lparr>ringEscalations := ring, ringDropped := ringDropped w + n\<rparr>)
         | CollectorSink c \<Rightarrow>
             w\<lparr>collectors := (collectors w)[c := (fst (collectors w ! c) @ [r], snd (collectors w ! c))]\<rparr>)"

definition observe_late :: "sink \<Rightarrow> late_record \<Rightarrow> 'a boundary \<Rightarrow> 'a boundary" where
  "observe_late s r w =
     (let w = w\<lparr>seen := seen w @ [r]\<rparr>
      in case s of
           RingSink \<Rightarrow> (case ringPush r (ringLates w) of (ring, n) \<Rightarrow>
             w\<lparr>ringLates := ring, ringDropped := ringDropped w + n\<rparr>)
         | CollectorSink c \<Rightarrow>
             w\<lparr>collectors := (collectors w)[c := (fst (collectors w ! c), snd (collectors w ! c) @ [r])]\<rparr>)"

definition drainBudgetEscalations :: "'a boundary \<Rightarrow> (escalation list \<times> late_record list \<times> nat) \<times> 'a boundary" where
  "drainBudgetEscalations w =
     ((ringEscalations w, ringLates w, ringDropped w), w\<lparr>ringEscalations := [], ringLates := [], ringDropped := 0\<rparr>)"

definition createCollectorSink :: "'a boundary \<Rightarrow> nat \<times> 'a boundary" where
  "createCollectorSink w = (length (collectors w), w\<lparr>collectors := collectors w @ [([], [])]\<rparr>)"

section \<open>The race\<close>

definition scopeCause :: "jsval \<Rightarrow> escalation_cause" where
  "scopeCause reason =
     (if reason = Str (ascii ''disconnect'') then CauseDisconnect
      else if reason = Str (ascii ''shutdown'') then CauseShutdown else CauseBudget)"

definition race_sink :: "boundary_race \<Rightarrow> sink" where
  "race_sink race = (case br_sink race of Some s \<Rightarrow> s | None \<Rightarrow> RingSink)"

text \<open>The record of an expiry, with the next sequence number.\<close>

definition new_escalation ::
  "boundary_race \<Rightarrow> jsval \<Rightarrow> escalation_cause \<Rightarrow> rat option \<Rightarrow> rat \<Rightarrow> 'a boundary \<Rightarrow> escalation" where
  "new_escalation race marker why effective now w =
     \<lparr>es_seq = nextSequence w + 1, es_marker = marker, es_cause = why, es_boundMs = br_boundMs race,
      es_effectiveMs = effective, es_atMs = now\<rparr>"

definition add_race :: "'a race \<Rightarrow> 'a boundary \<Rightarrow> 'a boundary" where
  "add_race r w = w\<lparr>races := races w @ [r]\<rparr>"

definition idle_race :: "boundary_race \<Rightarrow> rat option \<Rightarrow> 'a race" where
  "idle_race race effective =
     \<lparr>rc_input = race, rc_effective = effective, rc_started = 0, rc_done = False, rc_outcome = None, rc_timer = False,
      rc_operation = None, rc_main = False, rc_observer = None, rc_observed = False\<rparr>"

definition fileUnknown ::
  "boundary_race \<Rightarrow> escalation_cause \<Rightarrow> rat option \<Rightarrow> rat \<Rightarrow> 'a boundary \<Rightarrow> 'a boundary res" where
  "fileUnknown race why effective now w =
     bindR (unknownWrite (Str (br_source race))) (\<lambda>marker.
       let r = new_escalation race marker why effective now w
       in Inr (add_race ((idle_race race effective)\<lparr>rc_done := True, rc_outcome := Some (BUnknown marker r)\<rparr>)
            (escalate (race_sink race) r (w\<lparr>nextSequence := nextSequence w + 1\<rparr>))))"

definition aborted :: "nat option \<Rightarrow> 'a boundary \<Rightarrow> jsval option" where
  "aborted sig w = (case sig of Some i \<Rightarrow> signals w ! i | None \<Rightarrow> None)"

text \<open>
  The call. \<open>threw\<close> is what \<open>start\<close> throws, when it does: the promise is then rejected with
  it and no reaction is pending. The timer is armed unless the bound is \<open>Infinity\<close>.
\<close>

definition raceBoundary :: "boundary_race \<Rightarrow> jsval option \<Rightarrow> rat \<Rightarrow> 'a boundary \<Rightarrow> 'a boundary res" where
  "raceBoundary race threw now w =
     (if br_source race = ascii ''sql'' \<and> br_signal race \<noteq> None
      then Inl (TypeError ''sql operations take no cancel signal'')
      else if aborted (br_signal race) w \<noteq> None then fileUnknown race CauseCancel (Some 0) now w
      else (case aborted (br_scopeSignal race) w of
          Some reason \<Rightarrow> fileUnknown race (scopeCause reason) (Some 0) now w
        | None \<Rightarrow>
            bindR (effectiveBoundMs (br_boundMs race) (br_budget race) now) (\<lambda>effective.
              if (case effective of Some e \<Rightarrow> e \<le> 0 | None \<Rightarrow> False) then fileUnknown race CauseBudget effective now w
              else (case threw of
                  Some e \<Rightarrow> Inr (add_race ((idle_race race effective)\<lparr>rc_started := 1, rc_done := True, rc_main := True,
                    rc_outcome := Some (BRejected e)\<rparr>) w)
                | None \<Rightarrow> Inr (add_race ((idle_race race effective)\<lparr>rc_started := 1, rc_timer := effective \<noteq> None\<rparr>) w)))))"

definition on_race :: "nat \<Rightarrow> ('a race \<Rightarrow> 'a race) \<Rightarrow> 'a boundary \<Rightarrow> 'a boundary" where
  "on_race i f w = w\<lparr>races := (races w)[i := f (races w ! i)]\<rparr>"

text \<open>The timer is cleared; the listeners of a finished race do nothing.\<close>

definition finish_race :: "nat \<Rightarrow> 'a boundary_outcome \<Rightarrow> 'a boundary \<Rightarrow> 'a boundary" where
  "finish_race i result w =
     (if rc_done (races w ! i) then w
      else on_race i (\<lambda>rc. rc\<lparr>rc_done := True, rc_timer := False, rc_outcome := Some result\<rparr>) w)"

definition expire :: "nat \<Rightarrow> escalation_cause \<Rightarrow> rat \<Rightarrow> 'a boundary \<Rightarrow> 'a boundary" where
  "expire i why now w =
     (let rc = races w ! i; race = rc_input rc
      in if rc_done rc then w
         else (case unknownWrite (Str (br_source race)) of
             Inl _ \<Rightarrow> w
           | Inr marker \<Rightarrow>
               let r = new_escalation race marker why (rc_effective rc) now w;
                   w = on_race i (\<lambda>rc. rc\<lparr>rc_observer := Some (es_seq r)\<rparr>) (w\<lparr>nextSequence := nextSequence w + 1\<rparr>)
               in finish_race i (BUnknown marker r) (escalate (race_sink race) r w)))"

definition on_timer :: "nat \<Rightarrow> rat \<Rightarrow> 'a boundary \<Rightarrow> 'a boundary" where
  "on_timer i now w = expire i CauseBudget now (on_race i (\<lambda>rc. rc\<lparr>rc_timer := False\<rparr>) w)"

text \<open>
  A signal aborts once, with its first reason; the listeners of the races on it run in the
  order the races were called, the listener of the scope before that of the caller.
\<close>

definition abort_race :: "nat \<Rightarrow> jsval \<Rightarrow> rat \<Rightarrow> nat \<Rightarrow> 'a boundary \<Rightarrow> 'a boundary" where
  "abort_race sig reason now i w =
     (let race = rc_input (races w ! i);
          w = (if br_scopeSignal race = Some sig then expire i (scopeCause reason) now w else w)
      in if br_signal race = Some sig then expire i CauseCancel now w else w)"

definition abort_signal :: "nat \<Rightarrow> jsval \<Rightarrow> rat \<Rightarrow> 'a boundary \<Rightarrow> 'a boundary" where
  "abort_signal sig reason now w =
     (if signals w ! sig \<noteq> None then w
      else fold (abort_race sig reason now) [0..<length (races w)] (w\<lparr>signals := (signals w)[sig := Some reason]\<rparr>))"

text \<open>The operation settles; its reactions then run, the finishing one before the late observer.\<close>

definition settle_operation :: "nat \<Rightarrow> 'a op_result \<Rightarrow> 'a boundary \<Rightarrow> 'a boundary" where
  "settle_operation i r w = on_race i (\<lambda>rc. rc\<lparr>rc_operation := Some r\<rparr>) w"

definition main_reaction :: "nat \<Rightarrow> 'a boundary \<Rightarrow> 'a boundary" where
  "main_reaction i w =
     (case rc_operation (races w ! i) of
        Some (Resolved v) \<Rightarrow> finish_race i (BSettled v) (on_race i (\<lambda>rc. rc\<lparr>rc_main := True\<rparr>) w)
      | Some (Rejected e) \<Rightarrow> finish_race i (BRejected e) (on_race i (\<lambda>rc. rc\<lparr>rc_main := True\<rparr>) w)
      | None \<Rightarrow> w)"

definition late_reaction :: "nat \<Rightarrow> rat \<Rightarrow> 'a boundary \<Rightarrow> 'a boundary" where
  "late_reaction i now w =
     (let rc = races w ! i
      in case (rc_operation rc, rc_observer rc) of
           (Some r, Some seq) \<Rightarrow>
             observe_late (race_sink (rc_input rc))
               \<lparr>lt_seq = seq, lt_resolved = (case r of Resolved _ \<Rightarrow> True | Rejected _ \<Rightarrow> False), lt_atMs = now\<rparr>
               (on_race i (\<lambda>rc. rc\<lparr>rc_observed := True\<rparr>) w)
         | _ \<Rightarrow> w)"

section \<open>Request scopes\<close>

definition createRequestScope :: "jsnum option \<Rightarrow> rat \<Rightarrow> 'a boundary \<Rightarrow> (nat \<times> 'a boundary) res" where
  "createRequestScope totalMs now w =
     bindR (case totalMs of None \<Rightarrow> Inr None | Some t \<Rightarrow> bindR (createRequestBudget t now) (\<lambda>b. Inr (Some b))) (\<lambda>budget.
       case createCollectorSink w of (c, w) \<Rightarrow>
         Inr (length (scopes w),
           w\<lparr>signals := signals w @ [None],
             scopes := scopes w @ [\<lparr>rs_budget = budget, rs_signal = length (signals w), rs_expired = False, rs_sink = c\<rparr>]\<rparr>))"

definition expire_scope :: "nat \<Rightarrow> jsval \<Rightarrow> rat \<Rightarrow> 'a boundary \<Rightarrow> 'a boundary res" where
  "expire_scope s reason now w =
     (if rs_expired (scopes w ! s) then Inr w
      else if reason \<noteq> Str (ascii ''disconnect'') \<and> reason \<noteq> Str (ascii ''shutdown'')
      then Inl (TypeError ''invalid scope abort reason'')
      else Inr (abort_signal (rs_signal (scopes w ! s)) reason now
        (w\<lparr>scopes := (scopes w)[s := (scopes w ! s)\<lparr>rs_expired := True\<rparr>]\<rparr>)))"

definition scopeRaceInput ::
  "request_scope option \<Rightarrow> request_budget option \<Rightarrow> request_budget option \<times> nat option \<times> sink option" where
  "scopeRaceInput scope explicit =
     ((case explicit of Some b \<Rightarrow> Some b | None \<Rightarrow> Option.bind scope rs_budget),
      map_option rs_signal scope, map_option (\<lambda>s. CollectorSink (rs_sink s)) scope)"

end
