(* ===== verification/BoundaryProps.thy ===== *)
theory BoundaryProps
  imports Boundary
begin

text \<open>
  What a boundary race guarantees in every order of timers, aborts, settlements and reactions:
  it returns once, an unknown outcome is escalated exactly once and its late settlement is
  observed at most once, the operation is started at most once and never after expiry, and a
  bounded race can always return.
\<close>

section \<open>Runs of the event loop\<close>

text \<open>The caller's side of a race: its source is one the type admits and its signals exist.\<close>

definition race_ok :: "boundary_race \<Rightarrow> 'a boundary \<Rightarrow> bool" where
  "race_ok race w \<longleftrightarrow> br_source race \<in> set write_sources
     \<and> (\<forall>i. br_scopeSignal race = Some i \<or> br_signal race = Some i \<longrightarrow> i < length (signals w))
     \<and> (\<forall>c. br_sink race = Some (CollectorSink c) \<longrightarrow> c < length (collectors w))"

inductive boundary_step :: "'a boundary \<Rightarrow> 'a boundary \<Rightarrow> bool" where
  call: "race_ok race w \<Longrightarrow> raceBoundary race threw now w = Inr w' \<Longrightarrow> boundary_step w w'"
| timer: "i < length (races w) \<Longrightarrow> rc_timer (races w ! i) \<Longrightarrow> boundary_step w (on_timer i now w)"
| abort: "sig < length (signals w) \<Longrightarrow> boundary_step w (abort_signal sig reason now w)"
| settle: "i < length (races w) \<Longrightarrow> rc_started (races w ! i) = 1 \<Longrightarrow> rc_operation (races w ! i) = None \<Longrightarrow> \<not> rc_main (races w ! i) \<Longrightarrow>
    boundary_step w (settle_operation i r w)"
| react: "i < length (races w) \<Longrightarrow> rc_operation (races w ! i) \<noteq> None \<Longrightarrow> \<not> rc_main (races w ! i) \<Longrightarrow>
    boundary_step w (main_reaction i w)"
| observe: "i < length (races w) \<Longrightarrow> rc_operation (races w ! i) \<noteq> None \<Longrightarrow> rc_main (races w ! i) \<Longrightarrow>
    rc_observer (races w ! i) \<noteq> None \<Longrightarrow> \<not> rc_observed (races w ! i) \<Longrightarrow> boundary_step w (late_reaction i now w)"
| drain: "boundary_step w (snd (drainBudgetEscalations w))"
| new_signal: "boundary_step w (w\<lparr>signals := signals w @ [None]\<rparr>)"
| new_scope: "createRequestScope totalMs now w = Inr (s, w') \<Longrightarrow> boundary_step w w'"
| scope_expires: "s < length (scopes w) \<Longrightarrow> expire_scope s reason now w = Inr w' \<Longrightarrow> boundary_step w w'"

definition boundary_start :: "'a boundary" where
  "boundary_start = \<lparr>nextSequence = 0, ringEscalations = [], ringLates = [], ringDropped = 0, collectors = [], signals = [],
     scopes = [], races = [], filed = [], seen = []\<rparr>"

definition reachable_boundary :: "'a boundary \<Rightarrow> bool" where
  "reachable_boundary w \<longleftrightarrow> boundary_step\<^sup>*\<^sup>* boundary_start w"

section \<open>The invariant\<close>

definition unknown_of :: "'a race \<Rightarrow> escalation option" where
  "unknown_of rc = (case rc_outcome rc of Some (BUnknown _ r) \<Rightarrow> Some r | _ \<Rightarrow> None)"

definition race_inv :: "'a race \<Rightarrow> bool" where
  "race_inv rc \<longleftrightarrow>
     (rc_done rc \<longleftrightarrow> rc_outcome rc \<noteq> None) \<and> br_source (rc_input rc) \<in> set write_sources
     \<and> (rc_observed rc \<longrightarrow> rc_observer rc \<noteq> None \<and> rc_operation rc \<noteq> None)
     \<and> (case rc_outcome rc of
          None \<Rightarrow> rc_started rc = 1 \<and> rc_observer rc = None \<and> \<not> rc_main rc \<and> (rc_timer rc \<longleftrightarrow> rc_effective rc \<noteq> None)
        | Some (BSettled v) \<Rightarrow> rc_started rc = 1 \<and> rc_operation rc = Some (Resolved v) \<and> rc_observer rc = None \<and> rc_main rc \<and> \<not> rc_timer rc
        | Some (BRejected e) \<Rightarrow> rc_started rc = 1 \<and> rc_observer rc = None \<and> rc_main rc \<and> \<not> rc_timer rc
        | Some (BUnknown marker r) \<Rightarrow> isUnknownWrite marker \<and> es_marker r = marker \<and> es_boundMs r = br_boundMs (rc_input rc) \<and> \<not> rc_timer rc
            \<and> (rc_started rc = 0 \<and> rc_observer rc = None \<and> rc_operation rc = None \<or> rc_started rc = 1 \<and> rc_observer rc = Some (es_seq r)))"

definition filed_inv :: "'a race list \<Rightarrow> escalation list \<Rightarrow> nat \<Rightarrow> bool" where
  "filed_inv rs es n \<longleftrightarrow>
     distinct (map es_seq es) \<and> (\<forall>r \<in> set es. es_seq r \<le> n)
     \<and> (\<forall>r. r \<in> set es \<longleftrightarrow> (\<exists>i < length rs. unknown_of (rs ! i) = Some r))
     \<and> (\<forall>i < length rs. \<forall>j < length rs. \<forall>r. unknown_of (rs ! i) = Some r \<longrightarrow> unknown_of (rs ! j) = Some r \<longrightarrow> i = j)"

definition seen_inv :: "'a race list \<Rightarrow> late_record list \<Rightarrow> bool" where
  "seen_inv rs ls \<longleftrightarrow>
     distinct (map lt_seq ls)
     \<and> (\<forall>k. k \<in> lt_seq ` set ls \<longleftrightarrow> (\<exists>i < length rs. rc_observed (rs ! i) \<and> rc_observer (rs ! i) = Some k))"

definition boundary_inv :: "'a boundary \<Rightarrow> bool" where
  "boundary_inv w \<longleftrightarrow> list_all race_inv (races w) \<and> filed_inv (races w) (filed w) (nextSequence w) \<and> seen_inv (races w) (seen w)
     \<and> length (ringEscalations w) \<le> RING_CAP \<and> length (ringLates w) \<le> RING_CAP"

lemma unknownWrite_ok: "s \<in> set write_sources \<Longrightarrow> \<exists>m. unknownWrite (Str s) = Inr m \<and> isUnknownWrite m"
  by (simp add: unknownWrite_def isUnknownWrite_def obj_field_def ascii_def unit_of_char_def)

lemma ringPush_length: "length ring \<le> RING_CAP \<Longrightarrow> length (fst (ringPush r ring)) \<le> RING_CAP"
  by (simp add: ringPush_def RING_CAP_def Let_def)

lemma escalate_fields [simp]:
  "races (escalate s r w) = races w" "filed (escalate s r w) = filed w @ [r]" "seen (escalate s r w) = seen w"
  "nextSequence (escalate s r w) = nextSequence w" "ringLates (escalate s r w) = ringLates w" "signals (escalate s r w) = signals w"
  by (simp_all add: escalate_def Let_def split: sink.splits prod.splits)

lemma observe_fields [simp]:
  "races (observe_late s r w) = races w" "filed (observe_late s r w) = filed w" "seen (observe_late s r w) = seen w @ [r]"
  "nextSequence (observe_late s r w) = nextSequence w" "ringEscalations (observe_late s r w) = ringEscalations w"
  by (simp_all add: observe_late_def Let_def split: sink.splits prod.splits)

lemma ring_bounds:
  "length (ringEscalations w) \<le> RING_CAP \<Longrightarrow> length (ringEscalations (escalate s r w)) \<le> RING_CAP"
  "length (ringLates w) \<le> RING_CAP \<Longrightarrow> length (ringLates (observe_late s l w)) \<le> RING_CAP"
  using ringPush_length [of "ringEscalations w" r] ringPush_length [of "ringLates w" l]
  by (auto simp: escalate_def observe_late_def Let_def split: sink.splits prod.splits)

lemma filed_inv_keep:
  assumes "filed_inv rs es n" and "i < length rs" and "unknown_of rc = unknown_of (rs ! i)"
  shows "filed_inv (rs[i := rc]) es n"
proof -
  have "unknown_of (rs[i := rc] ! j) = unknown_of (rs ! j)" for j
    using assms(2,3) by (cases "j = i") simp_all
  then show ?thesis using assms(1) by (simp add: filed_inv_def)
qed

lemma filed_inv_new:
  assumes "filed_inv rs es n" and "es_seq r = Suc n"
  shows "r \<notin> set es" and "es_seq r \<notin> es_seq ` set es"
proof -
  have le: "es_seq x \<le> n" if "x \<in> set es" for x using assms(1) that unfolding filed_inv_def by blast
  show "r \<notin> set es" using le [of r] assms(2) by auto
  show "es_seq r \<notin> es_seq ` set es"
  proof
    assume "es_seq r \<in> es_seq ` set es"
    then obtain x where "x \<in> set es" "es_seq r = es_seq x" by blast
    then show False using le [of x] assms(2) by simp
  qed
qed

lemma filed_inv_append:
  assumes "filed_inv rs es n"
  shows "unknown_of rc = None \<Longrightarrow> filed_inv (rs @ [rc]) es n"
    and "unknown_of rc = Some r \<Longrightarrow> es_seq r = Suc n \<Longrightarrow> filed_inv (rs @ [rc]) (es @ [r]) (Suc n)"
proof -
  note new = filed_inv_new [OF assms]
  show "unknown_of rc = None \<Longrightarrow> filed_inv (rs @ [rc]) es n"
    using assms by (auto simp: filed_inv_def nth_append less_Suc_eq)
  show "filed_inv (rs @ [rc]) (es @ [r]) (Suc n)" if u: "unknown_of rc = Some r" and n: "es_seq r = Suc n"
  proof -
    have "\<exists>i < length (rs @ [rc]). unknown_of ((rs @ [rc]) ! i) = Some r'" if m: "r' \<in> set (es @ [r])" for r'
    proof (cases "r' = r")
      case True
      then show ?thesis using u by (intro exI [of _ "length rs"]) simp
    next
      case False
      then obtain i where "i < length rs" "unknown_of (rs ! i) = Some r'" using assms m by (auto simp: filed_inv_def)
      then show ?thesis by (intro exI [of _ i]) (simp add: nth_append)
    qed
    moreover have "r' \<in> set (es @ [r])" if "i < length (rs @ [rc])" "unknown_of ((rs @ [rc]) ! i) = Some r'" for i r'
      using assms that u by (auto simp: filed_inv_def nth_append less_Suc_eq split: if_splits)
    moreover have "i = j" if "i < length (rs @ [rc])" "j < length (rs @ [rc])" "unknown_of ((rs @ [rc]) ! i) = Some r'"
      "unknown_of ((rs @ [rc]) ! j) = Some r'" for i j r'
      using assms that u new(1) [OF n] by (auto simp: filed_inv_def nth_append less_Suc_eq split: if_splits)
    ultimately show ?thesis
      using assms new(2) [OF n] n unfolding filed_inv_def by (auto simp del: nth_append)
  qed
qed

lemma filed_inv_update:
  assumes "filed_inv rs es n" and "i < length rs" and "unknown_of (rs ! i) = None" and "unknown_of rc = Some r" and "es_seq r = Suc n"
  shows "filed_inv (rs[i := rc]) (es @ [r]) (Suc n)"
proof -
  note new = filed_inv_new [OF assms(1,5)]
  have old: "j \<noteq> i" if "unknown_of (rs ! j) = Some r'" for j r' using that assms(3) by auto
  have "\<exists>j < length rs. unknown_of (rs[i := rc] ! j) = Some r'" if m: "r' \<in> set (es @ [r])" for r'
  proof (cases "r' = r")
    case True
    then show ?thesis using assms(2,4) by (intro exI [of _ i]) simp
  next
    case False
    then obtain j where "j < length rs" "unknown_of (rs ! j) = Some r'" using assms(1) m by (auto simp: filed_inv_def)
    then show ?thesis using old [of j r'] by (intro exI [of _ j]) simp
  qed
  moreover have "r' \<in> set (es @ [r])" if "j < length rs" "unknown_of (rs[i := rc] ! j) = Some r'" for j r'
    using assms(1,4) that by (cases "j = i") (auto simp: filed_inv_def)
  moreover have "j = k" if "j < length rs" "k < length rs" "unknown_of (rs[i := rc] ! j) = Some r'"
    "unknown_of (rs[i := rc] ! k) = Some r'" for j k r'
    using assms(1,4) that new(1) by (cases "j = i"; cases "k = i") (auto simp: filed_inv_def)
  ultimately show ?thesis using assms(1,5) new(2) unfolding filed_inv_def by auto
qed

lemma seen_inv_keep:
  assumes "seen_inv rs ls" and "i < length rs" and "rc_observed rc = rc_observed (rs ! i)"
    and "rc_observed rc \<Longrightarrow> rc_observer rc = rc_observer (rs ! i)"
  shows "seen_inv (rs[i := rc]) ls"
proof -
  have "rc_observed (rs[i := rc] ! j) \<and> rc_observer (rs[i := rc] ! j) = Some k \<longleftrightarrow> rc_observed (rs ! j) \<and> rc_observer (rs ! j) = Some k" for j k
    using assms(2-4) by (cases "j = i") auto
  then show ?thesis using assms(1) by (simp add: seen_inv_def)
qed

lemma seen_inv_append: "seen_inv rs ls \<Longrightarrow> \<not> rc_observed rc \<Longrightarrow> seen_inv (rs @ [rc]) ls"
  by (auto simp: seen_inv_def nth_append less_Suc_eq)

lemma list_all_set_nth: "list_all P xs \<Longrightarrow> P x \<Longrightarrow> list_all P (xs[i := x])"
  using set_update_subset_insert [of xs i x] by (auto simp: list_all_iff)

lemma boundary_inv_race:
  assumes "boundary_inv w" and "i < length (races w)" and "race_inv (f (races w ! i))"
    and "unknown_of (f (races w ! i)) = unknown_of (races w ! i)" and "rc_observed (f (races w ! i)) = rc_observed (races w ! i)"
    and "rc_observer (f (races w ! i)) = rc_observer (races w ! i)"
  shows "boundary_inv (on_race i f w)"
  using assms filed_inv_keep [of "races w" "filed w" "nextSequence w" i "f (races w ! i)"]
    seen_inv_keep [of "races w" "seen w" i "f (races w ! i)"]
  by (simp add: boundary_inv_def on_race_def list_all_set_nth)

text \<open>What an expiry does to an unfinished race.\<close>

definition expired_race :: "jsval \<Rightarrow> escalation \<Rightarrow> 'a race \<Rightarrow> 'a race" where
  "expired_race marker r rc =
     rc\<lparr>rc_observer := Some (es_seq r), rc_done := True, rc_timer := False, rc_outcome := Some (BUnknown marker r)\<rparr>"

lemma expire_effect:
  assumes "i < length (races w)" and "\<not> rc_done (races w ! i)" and "br_source (rc_input (races w ! i)) \<in> set write_sources"
    and "length (ringEscalations w) \<le> RING_CAP"
  obtains marker r where "isUnknownWrite marker" "es_seq r = Suc (nextSequence w)" "es_marker r = marker" "es_cause r = why"
    "es_boundMs r = br_boundMs (rc_input (races w ! i))" "es_effectiveMs r = rc_effective (races w ! i)"
    "races (expire i why now w) = (races w)[i := expired_race marker r (races w ! i)]" "filed (expire i why now w) = filed w @ [r]"
    "seen (expire i why now w) = seen w" "nextSequence (expire i why now w) = Suc (nextSequence w)"
    "ringLates (expire i why now w) = ringLates w" "length (ringEscalations (expire i why now w)) \<le> RING_CAP"
    "signals (expire i why now w) = signals w"
proof -
  obtain marker where m: "unknownWrite (Str (br_source (rc_input (races w ! i)))) = Inr marker" "isUnknownWrite marker"
    using unknownWrite_ok assms(3) by blast
  define r where "r = new_escalation (rc_input (races w ! i)) marker why (rc_effective (races w ! i)) now w"
  define v where "v = on_race i (\<lambda>rc. rc\<lparr>rc_observer := Some (es_seq r)\<rparr>) (w\<lparr>nextSequence := nextSequence w + 1\<rparr>)"
  have run: "expire i why now w = finish_race i (BUnknown marker r) (escalate (race_sink (rc_input (races w ! i))) r v)"
    using assms(2) m(1) by (simp add: expire_def Let_def r_def v_def)
  have v: "races v = (races w)[i := (races w ! i)\<lparr>rc_observer := Some (es_seq r)\<rparr>]" "filed v = filed w" "seen v = seen w"
    "nextSequence v = Suc (nextSequence w)" "ringLates v = ringLates w" "ringEscalations v = ringEscalations w" "signals v = signals w"
    by (simp_all add: v_def on_race_def)
  show thesis
  proof (rule that [of marker r])
    show "length (ringEscalations (expire i why now w)) \<le> RING_CAP"
      using ring_bounds(1) [of v] assms(4) v(6) by (simp add: run finish_race_def on_race_def)
  qed (use assms(1,2) m v in \<open>simp_all add: run finish_race_def on_race_def expired_race_def r_def new_escalation_def\<close>)
qed

lemma expired_race_inv:
  assumes "race_inv rc" and "\<not> rc_done rc" and "isUnknownWrite marker" and "es_marker r = marker" and "es_boundMs r = br_boundMs (rc_input rc)"
  shows "race_inv (expired_race marker r rc)" and "unknown_of rc = None" and "\<not> rc_observed rc" and "br_source (rc_input rc) \<in> set write_sources"
  using assms by (auto simp: race_inv_def expired_race_def unknown_of_def)

lemma expire_inv:
  assumes "boundary_inv w" and "i < length (races w)"
  shows "boundary_inv (expire i why now w) \<and> length (races (expire i why now w)) = length (races w)"
proof (cases "rc_done (races w ! i)")
  case True
  then show ?thesis using assms(1) by (simp add: expire_def Let_def)
next
  case False
  have ri: "race_inv (races w ! i)" using assms by (simp add: boundary_inv_def list_all_length)
  have ok: "br_source (rc_input (races w ! i)) \<in> set write_sources" "length (ringEscalations w) \<le> RING_CAP"
    using ri assms(1) by (simp_all add: race_inv_def boundary_inv_def)
  obtain marker r where e: "isUnknownWrite marker" "es_seq r = Suc (nextSequence w)" "es_marker r = marker"
    "es_boundMs r = br_boundMs (rc_input (races w ! i))"
    and f: "races (expire i why now w) = (races w)[i := expired_race marker r (races w ! i)]" "filed (expire i why now w) = filed w @ [r]"
    "seen (expire i why now w) = seen w" "nextSequence (expire i why now w) = Suc (nextSequence w)"
    "ringLates (expire i why now w) = ringLates w" "length (ringEscalations (expire i why now w)) \<le> RING_CAP"
    using expire_effect [OF assms(2) False ok] by metis
  note x = expired_race_inv [OF ri False e(1,3,4)]
  have "filed_inv ((races w)[i := expired_race marker r (races w ! i)]) (filed w @ [r]) (Suc (nextSequence w))"
    using assms x(2) e(2) by (intro filed_inv_update) (simp_all add: boundary_inv_def unknown_of_def expired_race_def)
  moreover have "seen_inv ((races w)[i := expired_race marker r (races w ! i)]) (seen w)"
    using assms x(3) by (intro seen_inv_keep) (simp_all add: boundary_inv_def expired_race_def)
  ultimately show ?thesis using assms(1) x(1) f by (simp add: boundary_inv_def list_all_set_nth)
qed

lemma abort_race_inv:
  assumes "boundary_inv w" and "i < length (races w)"
  shows "boundary_inv (abort_race sig reason now i w) \<and> length (races (abort_race sig reason now i w)) = length (races w)"
proof -
  let ?v = "expire i (scopeCause reason) now w"
  have "boundary_inv ?v" "length (races ?v) = length (races w)" using expire_inv [OF assms] by simp_all
  then have "boundary_inv (expire i CauseCancel now ?v) \<and> length (races (expire i CauseCancel now ?v)) = length (races w)"
    using expire_inv [of ?v i] assms(2) by simp
  then show ?thesis using expire_inv [OF assms] assms by (simp add: abort_race_def Let_def)
qed

lemma abort_races_inv:
  assumes "boundary_inv w" and "\<forall>i \<in> set is. i < length (races w)"
  shows "boundary_inv (fold (abort_race sig reason now) is w)"
  using assms
proof (induction "is" arbitrary: w)
  case (Cons i js)
  then show ?case using abort_race_inv [OF Cons.prems(1), of i sig reason now] by simp
qed simp

lemma abort_signal_inv:
  assumes "boundary_inv w"
  shows "boundary_inv (abort_signal sig reason now w)"
proof -
  have "boundary_inv (w\<lparr>signals := (signals w)[sig := Some reason]\<rparr>)" using assms by (simp add: boundary_inv_def)
  then show ?thesis
    using assms abort_races_inv [of "w\<lparr>signals := (signals w)[sig := Some reason]\<rparr>" "[0..<length (races w)]"]
    by (simp add: abort_signal_def)
qed

lemma on_timer_expire:
  assumes "i < length (races w)" and "\<not> rc_done (races w ! i)" and "br_source (rc_input (races w ! i)) \<in> set write_sources"
  shows "on_timer i now w = expire i CauseBudget now w"
proof -
  obtain marker where m: "unknownWrite (Str (br_source (rc_input (races w ! i)))) = Inr marker" using unknownWrite_ok assms(3) by blast
  have "finish_race i x (escalate s r (on_race i f (on_race i (\<lambda>rc. rc\<lparr>rc_timer := False\<rparr>) w\<lparr>nextSequence := n\<rparr>)))
      = finish_race i x (escalate s r (on_race i f (w\<lparr>nextSequence := n\<rparr>)))" if "\<And>rc. rc_done (f rc) = rc_done rc" "\<And>rc. (f (rc\<lparr>rc_timer := False\<rparr>))\<lparr>rc_done := True, rc_timer := False, rc_outcome := Some x\<rparr> = (f rc)\<lparr>rc_done := True, rc_timer := False, rc_outcome := Some x\<rparr>" for x s r f n
    using assms that
    by (simp add: finish_race_def on_race_def escalate_def Let_def split: sink.splits prod.splits)
  then show ?thesis
    using assms m by (simp add: on_timer_def expire_def Let_def on_race_def new_escalation_def)
qed

lemma on_timer_inv:
  assumes "boundary_inv w" and "i < length (races w)" and "rc_timer (races w ! i)"
  shows "boundary_inv (on_timer i now w)"
proof -
  have ri: "race_inv (races w ! i)" using assms(1,2) by (simp add: boundary_inv_def list_all_length)
  have "\<not> rc_done (races w ! i)" "br_source (rc_input (races w ! i)) \<in> set write_sources"
    using ri assms(3) by (auto simp: race_inv_def split: option.splits boundary_outcome.splits)
  then show ?thesis using on_timer_expire [OF assms(2)] expire_inv [OF assms(1,2)] by simp
qed

lemma main_reaction_inv:
  assumes "boundary_inv w" and "i < length (races w)" and "rc_operation (races w ! i) \<noteq> None" and "\<not> rc_main (races w ! i)"
  shows "boundary_inv (main_reaction i w)"
proof -
  have ri: "race_inv (races w ! i)" using assms(1,2) by (simp add: boundary_inv_def list_all_length)
  obtain r where r: "rc_operation (races w ! i) = Some r" using assms(3) by blast
  define out where "out = (case r of Resolved v \<Rightarrow> BSettled v | Rejected e \<Rightarrow> BRejected e)"
  have run: "main_reaction i w = finish_race i out (on_race i (\<lambda>rc. rc\<lparr>rc_main := True\<rparr>) w)"
    using r by (simp add: main_reaction_def out_def split: op_result.splits)
  have out: "\<And>v. out = BSettled v \<Longrightarrow> rc_operation (races w ! i) = Some (Resolved v)" "\<And>m r. out \<noteq> BUnknown m r"
    using r by (simp_all add: out_def split: op_result.splits)
  show ?thesis
  proof (cases "rc_done (races w ! i)")
    case True
    then have "main_reaction i w = on_race i (\<lambda>rc. rc\<lparr>rc_main := True\<rparr>) w"
      using assms(2) by (simp add: run finish_race_def on_race_def)
    moreover have "race_inv ((races w ! i)\<lparr>rc_main := True\<rparr>)"
      using ri True by (auto simp: race_inv_def split: option.splits boundary_outcome.splits)
    ultimately show ?thesis using boundary_inv_race [OF assms(1,2), of "\<lambda>rc. rc\<lparr>rc_main := True\<rparr>"] by (simp add: unknown_of_def)
  next
    case False
    let ?f = "\<lambda>rc. rc\<lparr>rc_main := True, rc_done := True, rc_timer := False, rc_outcome := Some out\<rparr>"
    have "main_reaction i w = on_race i ?f w" using False assms(2) by (simp add: run finish_race_def on_race_def)
    moreover have "race_inv (?f (races w ! i))" "unknown_of (races w ! i) = None"
      using ri False out by (cases out; auto simp: race_inv_def unknown_of_def)+
    moreover have "unknown_of (?f (races w ! i)) = None" using out(2) by (simp add: unknown_of_def split: boundary_outcome.splits)
    ultimately show ?thesis using boundary_inv_race [OF assms(1,2), of ?f] by simp
  qed
qed

lemma settle_operation_inv:
  assumes "boundary_inv w" and "i < length (races w)" and "rc_operation (races w ! i) = None" and "rc_started (races w ! i) = 1" and "\<not> rc_main (races w ! i)"
  shows "boundary_inv (settle_operation i r w)"
proof -
  have "race_inv (races w ! i)" using assms(1,2) by (simp add: boundary_inv_def list_all_length)
  then have "race_inv ((races w ! i)\<lparr>rc_operation := Some r\<rparr>)"
    using assms(3-5) by (auto simp: race_inv_def split: option.splits boundary_outcome.splits)
  then show ?thesis
    using boundary_inv_race [OF assms(1,2), of "\<lambda>rc. rc\<lparr>rc_operation := Some r\<rparr>"] by (simp add: settle_operation_def unknown_of_def)
qed

lemma observer_unknown: "race_inv rc \<Longrightarrow> rc_observer rc = Some k \<Longrightarrow> \<exists>r. unknown_of rc = Some r \<and> es_seq r = k"
  by (auto simp: race_inv_def unknown_of_def split: option.splits boundary_outcome.splits)

lemma observer_unique:
  assumes "boundary_inv w" and "i < length (races w)" and "j < length (races w)"
    and "rc_observer (races w ! i) = Some k" and "rc_observer (races w ! j) = Some k"
  shows "i = j"
proof -
  have "race_inv (races w ! i)" "race_inv (races w ! j)" and f: "filed_inv (races w) (filed w) (nextSequence w)"
    using assms(1-3) by (simp_all add: boundary_inv_def list_all_length)
  then obtain r r' where r: "unknown_of (races w ! i) = Some r" "es_seq r = k" "unknown_of (races w ! j) = Some r'" "es_seq r' = k"
    using observer_unknown assms(4,5) by metis
  then have "r \<in> set (filed w)" "r' \<in> set (filed w)" using f assms(2,3) unfolding filed_inv_def by blast+
  moreover have "inj_on es_seq (set (filed w))" using f unfolding filed_inv_def distinct_map by blast
  ultimately have "r = r'" using r(2,4) by (metis inj_onD)
  then show ?thesis using f assms(2,3) r(1,3) unfolding filed_inv_def by metis
qed

lemma late_reaction_inv:
  assumes "boundary_inv w" and "i < length (races w)" and "rc_operation (races w ! i) \<noteq> None" and "rc_observer (races w ! i) \<noteq> None"
    and "\<not> rc_observed (races w ! i)"
  shows "boundary_inv (late_reaction i now w)"
proof -
  obtain r k where r: "rc_operation (races w ! i) = Some r" "rc_observer (races w ! i) = Some k" using assms(3,4) by blast
  define l where "l = \<lparr>lt_seq = k, lt_resolved = (case r of Resolved _ \<Rightarrow> True | Rejected _ \<Rightarrow> False), lt_atMs = now\<rparr>"
  define v where "v = on_race i (\<lambda>rc. rc\<lparr>rc_observed := True\<rparr>) w"
  have run: "late_reaction i now w = observe_late (race_sink (rc_input (races w ! i))) l v"
    using r by (simp add: late_reaction_def Let_def l_def v_def)
  have ri: "race_inv (races w ! i)" using assms(1,2) by (simp add: boundary_inv_def list_all_length)
  have "race_inv ((races w ! i)\<lparr>rc_observed := True\<rparr>)" using ri r by (auto simp: race_inv_def split: option.splits boundary_outcome.splits)
  moreover have "filed_inv (races v) (filed v) (nextSequence v)"
    using assms(1,2) filed_inv_keep [of "races w" "filed w" "nextSequence w" i] by (simp add: v_def on_race_def boundary_inv_def unknown_of_def)
  moreover have "seen_inv (races v) (seen w @ [l])"
  proof -
    have s: "seen_inv (races w) (seen w)" using assms(1) by (simp add: boundary_inv_def)
    have other: "rc_observer (races w ! j) \<noteq> Some k" if "j < length (races w)" "j \<noteq> i" for j
      using observer_unique [OF assms(1) that(1) assms(2)] r(2) that by blast
    then have new: "k \<notin> lt_seq ` set (seen w)" using s assms(2,5) unfolding seen_inv_def by metis
    have "m \<in> lt_seq ` set (seen w @ [l]) \<longleftrightarrow> (\<exists>j < length (races v). rc_observed (races v ! j) \<and> rc_observer (races v ! j) = Some m)" for m
    proof (cases "m = k")
      case True
      then show ?thesis using assms(2) r(2) by (auto simp: l_def v_def on_race_def intro!: exI [of _ i])
    next
      case False
      have "rc_observed (races v ! j) \<and> rc_observer (races v ! j) = Some m \<longleftrightarrow> rc_observed (races w ! j) \<and> rc_observer (races w ! j) = Some m"
        if "j < length (races w)" for j
        using that False r(2) assms(5) by (cases "j = i") (simp_all add: v_def on_race_def)
      then show ?thesis using s False unfolding seen_inv_def by (simp add: l_def v_def on_race_def) metis
    qed
    then show ?thesis using s new unfolding seen_inv_def by (simp add: l_def)
  qed
  ultimately show ?thesis
    using assms(1) ring_bounds(2) [of v]
    by (simp add: run boundary_inv_def v_def on_race_def list_all_set_nth)
qed

lemma fileUnknown_inv:
  fixes w :: "'a boundary"
  assumes "boundary_inv w" and "br_source race \<in> set write_sources" and "fileUnknown race why effective now w = Inr w'"
  shows "boundary_inv w'"
proof -
  obtain marker where m: "unknownWrite (Str (br_source race)) = Inr marker" "isUnknownWrite marker" using unknownWrite_ok assms(2) by blast
  define r where "r = new_escalation race marker why effective now w"
  define rc :: "'a race" where "rc = (idle_race race effective)\<lparr>rc_done := True, rc_outcome := Some (BUnknown marker r)\<rparr>"
  define v where "v = w\<lparr>nextSequence := nextSequence w + 1\<rparr>"
  have w': "w' = add_race rc (escalate (race_sink race) r v)"
    using assms(3) m(1) by (simp add: fileUnknown_def Let_def r_def rc_def v_def)
  have r: "es_seq r = Suc (nextSequence w)" "es_marker r = marker" "es_boundMs r = br_boundMs race" by (simp_all add: r_def new_escalation_def)
  have "race_inv rc" "\<not> rc_observed rc" "unknown_of rc = Some r"
    using m(2) assms(2) r by (simp_all add: race_inv_def rc_def idle_race_def unknown_of_def)
  then show ?thesis
    using assms(1) filed_inv_append(2) [of "races w" "filed w" "nextSequence w" rc r] seen_inv_append [of "races w" "seen w" rc] r(1)
      ring_bounds(1) [of v]
    by (simp add: w' v_def boundary_inv_def add_race_def)
qed

lemma raceBoundary_inv:
  assumes "boundary_inv w" and "race_ok race w" and "raceBoundary race threw now w = Inr w'"
  shows "boundary_inv w'"
proof -
  have src: "br_source race \<in> set write_sources" using assms(2) by (simp add: race_ok_def)
  have add: "boundary_inv (add_race rc w)" if "race_inv rc" "\<not> rc_observed rc" "unknown_of rc = None" for rc
    using assms(1) that filed_inv_append(1) [of "races w" "filed w" "nextSequence w" rc] seen_inv_append [of "races w" "seen w" rc]
    by (simp add: boundary_inv_def add_race_def)
  have "boundary_inv (add_race ((idle_race race None)\<lparr>rc_started := 1, rc_timer := False\<rparr>) w)"
    "boundary_inv (add_race ((idle_race race (Some m))\<lparr>rc_started := 1, rc_timer := True\<rparr>) w)"
    "boundary_inv (add_race ((idle_race race effective)\<lparr>rc_started := 1, rc_done := True, rc_main := True, rc_outcome := Some (BRejected e)\<rparr>) w)"
    for effective e m
    by (rule add; use src in \<open>simp add: race_inv_def idle_race_def unknown_of_def\<close>)+
  then show ?thesis
    using assms(3) fileUnknown_inv [OF assms(1) src]
    by (auto simp: raceBoundary_def bindR_Inr_conv split: if_splits option.splits)
qed

lemma boundary_step_inv:
  assumes "boundary_step w w'" and "boundary_inv w"
  shows "boundary_inv w'"
  using assms(1)
proof cases
  case (call race threw now)
  then show ?thesis using raceBoundary_inv assms(2) by blast
next
  case (new_scope totalMs now s)
  then show ?thesis
    using assms(2) by (auto simp: createRequestScope_def createCollectorSink_def bindR_Inr_conv boundary_inv_def)
next
  case (scope_expires s reason now)
  have "boundary_inv (w\<lparr>scopes := ss\<rparr>)" for ss using assms(2) by (simp add: boundary_inv_def)
  then show ?thesis using scope_expires(2) assms(2) by (auto simp: expire_scope_def intro!: abort_signal_inv split: if_splits)
next
  case (timer i now)
  then show ?thesis using on_timer_inv assms(2) by blast
next
  case (abort sig reason now)
  then show ?thesis using abort_signal_inv assms(2) by blast
next
  case (settle i r)
  then show ?thesis using settle_operation_inv assms(2) by blast
next
  case (react i)
  then show ?thesis using main_reaction_inv assms(2) by blast
next
  case (observe i now)
  then show ?thesis using late_reaction_inv assms(2) by blast
qed (use assms(2) in \<open>simp_all add: drainBudgetEscalations_def boundary_inv_def\<close>)

lemma reachable_boundary_inv: "reachable_boundary w \<Longrightarrow> boundary_inv w"
  unfolding reachable_boundary_def
proof (induction rule: rtranclp_induct)
  case base
  show ?case by (simp add: boundary_inv_def boundary_start_def filed_inv_def seen_inv_def)
next
  case (step w w')
  then show ?case using boundary_step_inv by blast
qed

section \<open>Outcomes\<close>

lemma count_list_one: "distinct xs \<Longrightarrow> count_list xs x = (if x \<in> set xs then 1 else 0)"
  by (induction xs) auto

lemma unknown_same_seq:
  assumes "boundary_inv w" and "i < length (races w)" and "j < length (races w)"
    and "unknown_of (races w ! i) = Some r" and "unknown_of (races w ! j) = Some r'" and "es_seq r' = es_seq r"
  shows "j = i"
proof -
  have f: "filed_inv (races w) (filed w) (nextSequence w)" using assms(1) by (simp add: boundary_inv_def)
  then have "r \<in> set (filed w)" "r' \<in> set (filed w)" using assms(2-5) unfolding filed_inv_def by blast+
  then have "r' = r" using f assms(6) unfolding filed_inv_def distinct_map by (metis inj_onD)
  then show ?thesis using f assms(2-5) unfolding filed_inv_def by blast
qed

lemma late_observed:
  assumes "boundary_inv w" and "i < length (races w)" and "unknown_of (races w ! i) = Some r"
  shows "es_seq r \<in> lt_seq ` set (seen w) \<longleftrightarrow> rc_observed (races w ! i)"
proof -
  have ri: "race_inv (races w ! j)" if "j < length (races w)" for j using assms(1) that by (simp add: boundary_inv_def list_all_length)
  have si: "seen_inv (races w) (seen w)" using assms(1) by (simp add: boundary_inv_def)
  show ?thesis
  proof
    assume "es_seq r \<in> lt_seq ` set (seen w)"
    then obtain j where j: "j < length (races w)" "rc_observed (races w ! j)" "rc_observer (races w ! j) = Some (es_seq r)"
      using si unfolding seen_inv_def by blast
    then obtain r' where "unknown_of (races w ! j) = Some r'" "es_seq r' = es_seq r" using observer_unknown ri by metis
    then show "rc_observed (races w ! i)" using unknown_same_seq [OF assms(1,2) j(1) assms(3)] j(2) by simp
  next
    assume o: "rc_observed (races w ! i)"
    then have "rc_observer (races w ! i) = Some (es_seq r)"
      using ri [OF assms(2)] assms(3) by (auto simp: race_inv_def unknown_of_def split: option.splits boundary_outcome.splits)
    then show "es_seq r \<in> lt_seq ` set (seen w)" using o si assms(2) unfolding seen_inv_def by blast
  qed
qed

text \<open>
  C19: A race is honest about its outcome. In every order of calls, timers, aborts, settlements
  and reactions: the operation of a race is started at most once; a race that returned a value
  returned what its operation resolved with and never expired; a race that returned
  unknown-write filed exactly one escalation, with the marker and the bound of the race, and its late settlement was
  observed exactly once or not yet, and only after the operation settled.
\<close>

theorem race_honest:
  assumes "reachable_boundary w" and "i < length (races w)"
  shows "rc_started (races w ! i) \<le> 1 \<and>
    (case rc_outcome (races w ! i) of
       Some (BSettled v) \<Rightarrow> rc_operation (races w ! i) = Some (Resolved v) \<and> rc_observer (races w ! i) = None
     | Some (BUnknown marker r) \<Rightarrow>
         isUnknownWrite marker \<and> es_marker r = marker \<and> es_boundMs r = br_boundMs (rc_input (races w ! i))
         \<and> count_list (filed w) r = 1
         \<and> count_list (map lt_seq (seen w)) (es_seq r) = (if rc_observed (races w ! i) then 1 else 0)
         \<and> (rc_observed (races w ! i) \<longrightarrow> rc_operation (races w ! i) \<noteq> None)
     | _ \<Rightarrow> True)"
proof -
  have inv: "boundary_inv w" using reachable_boundary_inv assms(1) .
  then have ri: "race_inv (races w ! i)" and fi: "filed_inv (races w) (filed w) (nextSequence w)" and si: "seen_inv (races w) (seen w)"
    using assms(2) by (simp_all add: boundary_inv_def list_all_length)
  have "distinct (filed w)" "distinct (map lt_seq (seen w))"
    using fi si unfolding filed_inv_def seen_inv_def distinct_map by blast+
  then have "count_list (filed w) r = 1 \<and> count_list (map lt_seq (seen w)) (es_seq r) = (if rc_observed (races w ! i) then 1 else 0)"
    if "unknown_of (races w ! i) = Some r" for r
    using late_observed [OF inv assms(2) that] fi assms(2) that unfolding filed_inv_def by (auto simp: count_list_one)
  then show ?thesis
    using ri by (auto simp: race_inv_def unknown_of_def split: option.splits boundary_outcome.splits)
qed

text \<open>What has returned stays: no handler changes the outcome of a race or starts it again.\<close>

definition kept :: "'a boundary \<Rightarrow> 'a boundary \<Rightarrow> bool" where
  "kept w w' \<longleftrightarrow> length (races w) \<le> length (races w') \<and>
     (\<forall>i < length (races w). rc_done (races w ! i) \<longrightarrow> rc_done (races w' ! i) \<and> rc_outcome (races w' ! i) = rc_outcome (races w ! i)
        \<and> rc_started (races w' ! i) = rc_started (races w ! i))"

lemma kept_refl: "kept w w"
  by (simp add: kept_def)

lemma kept_trans: "kept w w' \<Longrightarrow> kept w' w'' \<Longrightarrow> kept w w''"
  by (auto simp: kept_def)

lemma kept_races: "races w' = races w \<Longrightarrow> kept w w'"
  by (simp add: kept_def)

lemma on_race_nth:
  "j < length (races w) \<Longrightarrow> races (on_race i f w) ! j = (if j = i then f (races w ! j) else races w ! j)"
  by (cases "j = i") (simp_all add: on_race_def)

lemma length_on_race [simp]: "length (races (on_race i f w)) = length (races w)"
  by (simp add: on_race_def)

lemma kept_on_race:
  "(\<And>rc. rc_done rc \<Longrightarrow> rc_done (f rc) \<and> rc_outcome (f rc) = rc_outcome rc \<and> rc_started (f rc) = rc_started rc) \<Longrightarrow> kept w (on_race i f w)"
  by (simp add: kept_def on_race_nth)

lemma kept_finish: "kept w (finish_race i x w)"
proof (cases "rc_done (races w ! i)")
  case True
  then show ?thesis by (simp add: finish_race_def kept_refl)
next
  case False
  then have "rc_done (races w ! j) \<Longrightarrow> j \<noteq> i" for j by blast
  then show ?thesis using False by (simp add: finish_race_def kept_def on_race_nth)
qed

lemma kept_add: "kept w (add_race rc w)"
  by (simp add: kept_def add_race_def nth_append)

lemma kept_expire: "kept w (expire i why now w)"
proof -
  have "kept w (finish_race i x (escalate s r (on_race i (\<lambda>rc. rc\<lparr>rc_observer := k\<rparr>) (w\<lparr>nextSequence := n\<rparr>))))" for x s r k n
    by (rule kept_trans [OF kept_trans [OF kept_trans [OF kept_races kept_on_race] kept_races] kept_finish]) simp_all
  then show ?thesis by (simp add: expire_def Let_def kept_refl split: sum.splits)
qed

lemma kept_abort: "kept w (abort_signal sig reason now w)"
proof -
  have one: "kept v (abort_race sig reason now i v)" for i v
  proof -
    have "kept v (expire i CauseCancel now (expire i (scopeCause reason) now v))" by (rule kept_trans [OF kept_expire kept_expire])
    then show ?thesis using kept_expire [of v i] by (simp add: abort_race_def Let_def kept_refl)
  qed
  have all: "kept v (fold (abort_race sig reason now) js v)" for js v
    by (induction js arbitrary: v) (auto simp: kept_refl intro: kept_trans one)
  have "kept w (fold (abort_race sig reason now) js (w\<lparr>signals := ss\<rparr>))" for js ss
    by (rule kept_trans [OF kept_races all]) simp
  then show ?thesis by (simp add: abort_signal_def kept_refl)
qed

lemma kept_fileUnknown: "fileUnknown race why effective now w = Inr w' \<Longrightarrow> kept w w'"
  by (auto simp: fileUnknown_def bindR_Inr_conv Let_def intro!: kept_trans [OF kept_races kept_add])

lemma kept_step:
  assumes "boundary_step w w'"
  shows "kept w w'"
  using assms
proof cases
  case (call race threw now)
  then show ?thesis
    by (auto simp: raceBoundary_def bindR_Inr_conv intro: kept_fileUnknown kept_add split: if_splits option.splits)
next
  case (timer i now)
  have "kept w (on_timer i now w)" unfolding on_timer_def by (rule kept_trans [OF kept_on_race kept_expire]) simp
  then show ?thesis using timer by simp
next
  case (settle i r)
  then show ?thesis by (simp add: settle_operation_def kept_on_race)
next
  case (react i)
  have "kept w (finish_race i x (on_race i (\<lambda>rc. rc\<lparr>rc_main := True\<rparr>) w))" for x
    by (rule kept_trans [OF kept_on_race kept_finish]) simp
  then show ?thesis using react by (simp add: main_reaction_def kept_refl split: option.splits op_result.splits)
next
  case (observe i now)
  have "kept w (observe_late s l (on_race i (\<lambda>rc. rc\<lparr>rc_observed := True\<rparr>) w))" for s l
    by (rule kept_trans [OF kept_on_race kept_races]) simp_all
  then show ?thesis using observe by (simp add: late_reaction_def Let_def kept_refl split: option.splits)
next
  case (new_scope totalMs now s)
  then show ?thesis by (auto simp: createRequestScope_def createCollectorSink_def bindR_Inr_conv intro!: kept_races)
next
  case (scope_expires s reason now)
  then show ?thesis
    by (auto simp: expire_scope_def kept_refl intro!: kept_trans [OF kept_races kept_abort] split: if_splits)
qed (simp_all add: kept_abort kept_races drainBudgetEscalations_def)

text \<open>
  A returned outcome is final. Whatever the event loop runs afterwards, a race that has
  returned keeps its outcome, a late settlement never rewrites an unknown-write marker, and
  an operation that was not started because the boundary had expired is never started.
\<close>

lemma outcome_final:
  assumes "boundary_step\<^sup>*\<^sup>* w w'" and "i < length (races w)" and "rc_done (races w ! i)"
  shows "rc_outcome (races w' ! i) = rc_outcome (races w ! i) \<and> rc_started (races w' ! i) = rc_started (races w ! i)"
proof -
  have "kept w w'" using assms(1) by (induction rule: rtranclp_induct) (auto intro: kept_refl kept_trans kept_step)
  then show ?thesis using assms(2,3) by (simp add: kept_def)
qed

section \<open>Progress\<close>

lemma unfinished_race:
  assumes "reachable_boundary w" and "i < length (races w)" and "\<not> rc_done (races w ! i)"
  shows "rc_outcome (races w ! i) = None" and "\<not> rc_main (races w ! i)" and "rc_timer (races w ! i) \<longleftrightarrow> rc_effective (races w ! i) \<noteq> None"
    and "br_source (rc_input (races w ! i)) \<in> set write_sources" and "length (ringEscalations w) \<le> RING_CAP"
  using reachable_boundary_inv [OF assms(1)] assms(2,3)
  by (auto simp: boundary_inv_def list_all_length race_inv_def split: option.splits)

text \<open>
  C20: A race cannot hang. As long as a race has not returned, its timer is armed if it has a
  bound, and the timer firing returns unknown-write with the budget as cause and that bound;
  and once its operation has settled, the pending reaction returns the value or the rejection.
\<close>

theorem race_can_return:
  assumes "reachable_boundary w" and "i < length (races w)" and "\<not> rc_done (races w ! i)"
  shows "(\<forall>e now. rc_effective (races w ! i) = Some e \<longrightarrow> boundary_step w (on_timer i now w) \<and>
      (\<exists>marker r. rc_outcome (races (on_timer i now w) ! i) = Some (BUnknown marker r) \<and> es_cause r = CauseBudget \<and> es_effectiveMs r = Some e))
    \<and> (\<forall>r. rc_operation (races w ! i) = Some r \<longrightarrow> boundary_step w (main_reaction i w) \<and>
      rc_outcome (races (main_reaction i w) ! i) = Some (case r of Resolved v \<Rightarrow> BSettled v | Rejected e \<Rightarrow> BRejected e))"
proof (intro conjI allI impI)
  note open_race = unfinished_race [OF assms]
  fix e now assume e: "rc_effective (races w ! i) = Some e"
  then show "boundary_step w (on_timer i now w)" using open_race(3) assms(2) boundary_step.timer by blast
  obtain marker r where "es_cause r = CauseBudget" "es_effectiveMs r = rc_effective (races w ! i)"
    "races (expire i CauseBudget now w) = (races w)[i := expired_race marker r (races w ! i)]"
    using expire_effect [OF assms(2,3) open_race(4,5)] by metis
  then show "\<exists>marker r. rc_outcome (races (on_timer i now w) ! i) = Some (BUnknown marker r) \<and> es_cause r = CauseBudget \<and> es_effectiveMs r = Some e"
    using on_timer_expire [OF assms(2,3) open_race(4)] e assms(2) by (simp add: expired_race_def)
next
  note open_race = unfinished_race [OF assms]
  fix r assume r: "rc_operation (races w ! i) = Some r"
  then show "boundary_step w (main_reaction i w)" using open_race(2) assms(2) boundary_step.react by blast
  show "rc_outcome (races (main_reaction i w) ! i) = Some (case r of Resolved v \<Rightarrow> BSettled v | Rejected e \<Rightarrow> BRejected e)"
    using r assms(2,3) by (simp add: main_reaction_def finish_race_def on_race_def split: op_result.splits)
qed

section \<open>The ring\<close>

text \<open>
  The fallback ring loses nothing silently. After any number of escalations filed since a
  drain it holds exactly the newest 256 of them in order, and the drop counter is the number
  of the others; draining hands out exactly that and empties the ring.
\<close>

lemma ring_keeps_newest:
  "let v = fold (escalate RingSink) rs (snd (drainBudgetEscalations w))
   in fst (drainBudgetEscalations v) = (drop (length rs - 256) rs, [], length rs - 256)
     \<and> fst (drainBudgetEscalations (snd (drainBudgetEscalations v))) = ([], [], 0)"
proof -
  define v where "v = fold (escalate RingSink) rs (snd (drainBudgetEscalations w))"
  have "ringEscalations v = drop (length rs - 256) rs \<and> ringLates v = [] \<and> ringDropped v = length rs - 256"
    unfolding v_def
  proof (induction rs rule: rev_induct)
    case (snoc r rs)
    let ?v = "fold (escalate RingSink) rs (snd (drainBudgetEscalations w))"
    have "ringPush r (drop (length rs - 256) rs) = (drop (length (rs @ [r]) - 256) (rs @ [r]), if length rs < 256 then 0 else 1)"
    proof (cases "length rs < 256")
      case True
      then show ?thesis by (simp add: ringPush_def RING_CAP_def Let_def)
    next
      case False
      then have "drop (length rs - 256) rs \<noteq> []" "length rs - 255 = Suc (length rs - 256)" by simp_all
      then show ?thesis using False by (simp add: ringPush_def RING_CAP_def Let_def drop_Suc tl_drop)
    qed
    then show ?case using snoc.IH by (auto simp: escalate_def Let_def)
  qed (simp add: drainBudgetEscalations_def)
  then show ?thesis unfolding v_def [symmetric] Let_def by (simp add: drainBudgetEscalations_def)
qed

section \<open>A race evaluated\<close>

definition demo_bounded :: boundary_race where
  "demo_bounded = \<lparr>br_source = ascii ''sql'', br_boundMs = Some (num 50), br_budget = None, br_scopeSignal = None, br_signal = None, br_sink = None\<rparr>"

definition demo_called :: "int boundary" where
  "demo_called = projr (raceBoundary demo_bounded None 0 boundary_start)"

definition demo_timed_out :: "int boundary" where
  "demo_timed_out = on_timer 0 50 demo_called"

definition demo_late :: "int boundary" where
  "demo_late = late_reaction 0 70 (main_reaction 0 (settle_operation 0 (Resolved 3) demo_timed_out))"

lemma demo_called_reachable: "reachable_boundary demo_called"
proof -
  have "raceBoundary demo_bounded None 0 (boundary_start :: int boundary) = Inr demo_called" by code_simp
  moreover have "race_ok demo_bounded (boundary_start :: int boundary)"
    by (simp add: race_ok_def demo_bounded_def write_sources_def)
  ultimately show ?thesis unfolding reachable_boundary_def by (blast intro: boundary_step.call r_into_rtranclp)
qed

lemma demo_steps: "boundary_step demo_called demo_timed_out" "boundary_step\<^sup>*\<^sup>* demo_timed_out demo_late"
proof -
  show "boundary_step demo_called demo_timed_out" unfolding demo_timed_out_def by (rule boundary_step.timer) code_simp+
  let ?s = "settle_operation 0 (Resolved 3) demo_timed_out"
  have "boundary_step demo_timed_out ?s" by (rule boundary_step.settle) code_simp+
  moreover have "boundary_step ?s (main_reaction 0 ?s)" by (rule boundary_step.react) code_simp+
  moreover have "boundary_step (main_reaction 0 ?s) demo_late" unfolding demo_late_def by (rule boundary_step.observe) code_simp+
  ultimately show "boundary_step\<^sup>*\<^sup>* demo_timed_out demo_late" by (meson converse_rtranclp_into_rtranclp rtranclp.rtrancl_refl)
qed

theorem race_honest_witness:
  "\<exists>marker r. rc_outcome (races demo_late ! 0) = Some (BUnknown marker r) \<and> count_list (filed demo_late) r = 1
     \<and> count_list (map lt_seq (seen demo_late)) (es_seq r) = 1"
proof -
  have "reachable_boundary demo_late"
    using demo_called_reachable demo_steps unfolding reachable_boundary_def by (meson rtranclp.rtrancl_into_rtrancl rtranclp_trans)
  moreover have "0 < length (races demo_late)" "rc_observed (races demo_late ! 0)" by code_simp+
  moreover have "case rc_outcome (races demo_late ! 0) of Some (BUnknown marker r) \<Rightarrow> True | _ \<Rightarrow> False" by code_simp
  ultimately show ?thesis using race_honest [of demo_late 0] by (auto split: option.splits boundary_outcome.splits)
qed

theorem race_can_return_witness:
  "\<exists>marker r. rc_outcome (races (on_timer 0 50 demo_called) ! 0) = Some (BUnknown marker r) \<and> es_effectiveMs r = Some 50"
proof -
  have "0 < length (races demo_called)" "\<not> rc_done (races demo_called ! 0)" "rc_effective (races demo_called ! 0) = Some 50" by code_simp+
  then show ?thesis using race_can_return [OF demo_called_reachable] by blast
qed

end
