(* ===== verification/UriComponent.thy ===== *)
theory UriComponent
  imports Unicode
begin

text \<open>
  The percent coding of the language's global functions \<open>decodeURIComponent\<close> and
  \<open>encodeURIComponent\<close>, which the route table and the URL builder call, and that decoding
  inverts encoding on well-formed strings.
\<close>

section \<open>Decoding\<close>

definition hex_val :: "code_unit \<Rightarrow> int option" where
  "hex_val u =
     (if in_range 48 57 u then Some (uint u - 48)
      else if in_range 65 70 u then Some (uint u - 55)
      else if in_range 97 102 u then Some (uint u - 87)
      else None)"

text \<open>One escape \<open>%XX\<close> at the head of the string.\<close>

definition percent_byte :: "jsstr \<Rightarrow> (int \<times> jsstr) option" where
  "percent_byte s =
     (case s of
        p # h # l # rest \<Rightarrow>
          (if p = 37 then
             (case (hex_val h, hex_val l) of
                (Some a, Some b) \<Rightarrow> Some (16 * a + b, rest)
              | _ \<Rightarrow> None)
           else None)
      | _ \<Rightarrow> None)"

fun percent_run :: "nat \<Rightarrow> jsstr \<Rightarrow> (int list \<times> jsstr) option" where
  "percent_run 0 s = Some ([], s)"
| "percent_run (Suc n) s =
     (case percent_byte s of
        Some (b, r) \<Rightarrow> map_option (\<lambda>(bs, t). (b # bs, t)) (percent_run n r)
      | None \<Rightarrow> None)"

text \<open>The number of octets a leading octet from 0x80 on announces.\<close>

definition octets :: "int \<Rightarrow> nat option" where
  "octets b =
     (if b < 0xC0 then None else if b < 0xE0 then Some 2 else if b < 0xF0 then Some 3
      else if b < 0xF8 then Some 4 else None)"

text \<open>
  One step of the decoder: the units of the first character and the rest of the string, or
  None where the function throws a \<open>URIError\<close>.
\<close>

definition uri_step :: "code_unit \<Rightarrow> jsstr \<Rightarrow> (jsstr \<times> jsstr) option" where
  "uri_step u us =
     (if u \<noteq> 37 then Some ([u], us)
      else
        (case percent_byte (u # us) of
           None \<Rightarrow> None
         | Some (b, r) \<Rightarrow>
             if b < 0x80 then Some ([word_of_int b], r)
             else
               (case octets b of
                  None \<Rightarrow> None
                | Some n \<Rightarrow>
                    (case percent_run (n - 1) r of
                       None \<Rightarrow> None
                     | Some (bs, t) \<Rightarrow>
                         (case utf8_decode (b # bs) of
                            Some [c] \<Rightarrow> Some (units_of c, t)
                          | _ \<Rightarrow> None)))))"

lemma percent_byte_length: "percent_byte s = Some (b, r) \<Longrightarrow> length r < length s"
  by (auto simp: percent_byte_def split: list.splits if_splits option.splits)

lemma percent_run_length: "percent_run n s = Some (bs, r) \<Longrightarrow> length r \<le> length s"
  by (induction n arbitrary: s bs) (force dest: percent_byte_length split: option.splits)+

lemma uri_step_length: "uri_step u us = Some (v, r) \<Longrightarrow> length r < Suc (length us)"
  unfolding uri_step_def
  by (auto split: if_splits option.splits list.splits dest!: percent_byte_length percent_run_length)

function decodeURIComponent :: "jsstr \<Rightarrow> jsstr option" where
  "decodeURIComponent [] = Some []"
| "decodeURIComponent (u # us) =
     (case uri_step u us of
        None \<Rightarrow> None
      | Some (v, r) \<Rightarrow> map_option (append v) (decodeURIComponent r))"
  by pat_completeness auto
termination
  by (relation "measure length") (auto dest: uri_step_length)

section \<open>Encoding\<close>

definition uri_unreserved :: "code_unit \<Rightarrow> bool" where
  "uri_unreserved u \<longleftrightarrow> is_alnum_unit u \<or> u \<in> {45, 95, 46, 33, 126, 42, 39, 40, 41}"

definition upper_hex :: "int \<Rightarrow> code_unit" where
  "upper_hex d = word_of_int (if d < 10 then 48 + d else 55 + d)"

definition percent_escape :: "int \<Rightarrow> jsstr" where
  "percent_escape b = [37, upper_hex (b div 16), upper_hex (b mod 16)]"

definition encode_point :: "int \<Rightarrow> jsstr" where
  "encode_point c =
     (if c < 0x80 \<and> uri_unreserved (word_of_int c) then [word_of_int c]
      else concat (map percent_escape (utf8_of c)))"

text \<open>A lone surrogate is a \<open>URIError\<close>.\<close>

definition encodeURIComponent :: "jsstr \<Rightarrow> jsstr option" where
  "encodeURIComponent s =
     (if isWellFormed s then Some (concat (map encode_point (utf16_decode s))) else None)"

section \<open>The round trip\<close>

lemma uint_upper_hex: "0 \<le> d \<Longrightarrow> d < 16 \<Longrightarrow> uint (upper_hex d) = (if d < 10 then 48 + d else 55 + d)"
  by (simp add: upper_hex_def)

lemma hex_val_upper [simp]: "0 \<le> d \<Longrightarrow> d < 16 \<Longrightarrow> hex_val (upper_hex d) = Some d"
  by (auto simp: hex_val_def in_range_def uint_upper_hex)

lemma percent_byte_escape [simp]:
  assumes "0 \<le> b" "b < 256"
  shows "percent_byte (percent_escape b @ s) = Some (b, s)"
proof -
  have "b div 16 < 16" "0 \<le> b div 16" "0 \<le> b mod 16" "b mod 16 < 16" using assms by auto
  then show ?thesis by (simp add: percent_byte_def percent_escape_def)
qed

lemma percent_run_escapes:
  "list_all (\<lambda>b. 0 \<le> b \<and> b < 256) bs \<Longrightarrow>
     percent_run (length bs) (concat (map percent_escape bs) @ s) = Some (bs, s)"
  by (induction bs) auto

lemma octets_utf8_of:
  assumes "scalar c" "0x80 \<le> c"
  shows "\<exists>b bs. utf8_of c = b # bs \<and> 0x80 \<le> b \<and> octets b = Some (Suc (length bs))"
proof -
  have "c div 64 < 32" if "c < 0x800" using that by auto
  moreover have "c div 4096 < 16" if "c < 0x10000" using that by auto
  moreover have "c div 262144 < 8" "0 \<le> c div 64" "0 \<le> c div 4096" "0 \<le> c div 262144"
    using assms by (auto simp: scalar_def)
  ultimately show ?thesis using assms by (auto simp: utf8_of_def octets_def)
qed

lemma uri_step_plain: "u \<noteq> 37 \<Longrightarrow> uri_step u us = Some ([u], us)"
  by (simp add: uri_step_def)

lemma not_percent_unreserved: "uri_unreserved u \<Longrightarrow> u \<noteq> 37"
  by (auto simp: uri_unreserved_def unit_defs)

lemma decode_encode_point:
  assumes c: "scalar c"
  shows "decodeURIComponent (encode_point c @ s) = map_option (append (units_of c)) (decodeURIComponent s)"
proof (cases "c < 0x80 \<and> uri_unreserved (word_of_int c)")
  case True
  then have "units_of c = [word_of_int c]" using c by (simp add: units_of_def)
  with True not_percent_unreserved [of "word_of_int c"] show ?thesis
    by (simp add: encode_point_def uri_step_plain)
next
  case plain: False
  note range = utf8_of_range [OF c]
  show ?thesis
  proof (cases "c < 0x80")
    case True
    then have "utf8_of c = [c]" "0 \<le> c" "c < 256" "units_of c = [word_of_int c]"
      using c by (auto simp: utf8_of_def scalar_def units_of_def)
    moreover have "percent_byte (37 # upper_hex (c div 16) # upper_hex (c mod 16) # s) = Some (c, s)"
      using percent_byte_escape [of c s] calculation by (simp add: percent_escape_def)
    ultimately show ?thesis using plain True
      by (simp add: encode_point_def percent_escape_def uri_step_def)
  next
    case False
    then obtain b bs where b: "utf8_of c = b # bs" "0x80 \<le> b" "octets b = Some (Suc (length bs))"
      using octets_utf8_of [OF c] by auto
    have u8: "utf8_decode (b # bs) = Some [c]"
      using utf8_decode_encode [of "[c]"] c b(1) by (simp add: utf8_encode_def)
    let ?t = "concat (map percent_escape bs) @ s"
    have pb: "percent_byte (37 # upper_hex (b div 16) # upper_hex (b mod 16) # ?t) = Some (b, ?t)"
      using percent_byte_escape [of b ?t] range b(1) by (simp add: percent_escape_def)
    have pr: "percent_run (length bs) ?t = Some (bs, s)"
      using range b(1) by (intro percent_run_escapes) simp
    have "uri_step 37 (upper_hex (b div 16) # upper_hex (b mod 16) # ?t) = Some (units_of c, s)"
      unfolding uri_step_def pb using b(2,3) pr u8 by simp
    then show ?thesis using plain False b(1) by (simp add: encode_point_def percent_escape_def)
  qed
qed

lemma decode_encode_points:
  "list_all scalar cs \<Longrightarrow> decodeURIComponent (concat (map encode_point cs)) = Some (utf16_encode cs)"
  by (induction cs) (simp_all add: utf16_encode_def decode_encode_point)

lemma decode_encodeURIComponent:
  assumes "encodeURIComponent s = Some t"
  shows "decodeURIComponent t = Some s"
  using assms utf16_encode_decode [of s] decode_encode_points [of "utf16_decode s"]
  by (auto simp: encodeURIComponent_def split: if_splits)

lemma decode_plain: "37 \<notin> set s \<Longrightarrow> decodeURIComponent s = Some s"
  by (induction s) (auto simp: uri_step_plain)

section \<open>The alphabet of encoded strings\<close>

lemma upper_hex_alnum: "0 \<le> d \<Longrightarrow> d < 16 \<Longrightarrow> is_alnum_unit (upper_hex d)"
  by (simp add: is_alnum_unit_def is_upper_unit_def is_digit_unit_def in_range_def uint_upper_hex)

lemma encode_point_units:
  assumes "scalar c" "u \<in> set (encode_point c)"
  shows "u = 37 \<or> uri_unreserved u"
proof (cases "c < 0x80 \<and> uri_unreserved (word_of_int c)")
  case False
  then obtain b where b: "b \<in> set (utf8_of c)" "u \<in> set (percent_escape b)"
    using assms(2) by (auto simp: encode_point_def)
  then have "0 \<le> b" "b < 256" using utf8_of_range [OF assms(1)] by (auto simp: list_all_iff)
  then have "is_alnum_unit (upper_hex (b div 16))" "is_alnum_unit (upper_hex (b mod 16))"
    by (auto intro!: upper_hex_alnum)
  with b(2) show ?thesis by (auto simp: percent_escape_def uri_unreserved_def)
qed (use assms in \<open>auto simp: encode_point_def split: if_splits\<close>)

lemma encodeURIComponent_units:
  assumes "encodeURIComponent s = Some t" "u \<in> set t"
  shows "u = 37 \<or> uri_unreserved u"
proof -
  have "list_all scalar (utf16_decode s)" "\<exists>c \<in> set (utf16_decode s). u \<in> set (encode_point c)"
    using assms utf16_encode_decode [of s] by (auto simp: encodeURIComponent_def split: if_splits)
  then show ?thesis using encode_point_units by (auto simp: list_all_iff)
qed

section \<open>The coding as an interface\<close>

text \<open>
  What the route table and the form gate rely on: decoding inverts encoding, and an encoded
  component keeps to an alphabet, so that a separator outside the alphabet never occurs in it.
\<close>

locale component_coding =
  fixes enc dec :: "jsstr \<Rightarrow> jsstr option" and alphabet :: "code_unit \<Rightarrow> bool"
  assumes dec_enc: "enc s = Some t \<Longrightarrow> dec t = Some s"
    and enc_alphabet: "enc s = Some t \<Longrightarrow> u \<in> set t \<Longrightarrow> alphabet u"
begin

lemma enc_free: "enc s = Some t \<Longrightarrow> \<not> alphabet u \<Longrightarrow> u \<notin> set t"
  using enc_alphabet by blast

lemma enc_inj: "enc s = Some t \<Longrightarrow> enc s' = Some t \<Longrightarrow> s = s'"
  using dec_enc [of s t] dec_enc [of s' t] by simp

lemma joined_split:
  assumes "list_all2 (\<lambda>s t. enc s = Some t) ss ts" "ts \<noteq> []" "\<not> alphabet sep"
  shows "map dec (split_on sep (join_on sep ts)) = map Some ss"
proof -
  have "sep \<notin> set t" if t: "t \<in> set ts" for t
  proof -
    obtain i where "i < length ts" "ts ! i = t" using t by (auto simp: in_set_conv_nth)
    then have "enc (ss ! i) = Some t" using assms(1) by (auto simp: list_all2_conv_all_nth)
    then show ?thesis using assms(3) by (rule enc_free)
  qed
  then have "split_on sep (join_on sep ts) = ts" using assms(2) by (intro join_split_on)
  then show ?thesis
    using assms(1) dec_enc by (auto simp: list_eq_iff_nth_eq list_all2_conv_all_nth)
qed

end

definition uri_unit :: "code_unit \<Rightarrow> bool" where
  "uri_unit u \<longleftrightarrow> u = 37 \<or> uri_unreserved u"

interpretation uri: component_coding encodeURIComponent decodeURIComponent uri_unit
  by unfold_locales (auto simp: uri_unit_def dest: decode_encodeURIComponent encodeURIComponent_units)

lemma not_uri_units [simp]:
  "\<not> uri_unit 38" "\<not> uri_unit 43" "\<not> uri_unit 47" "\<not> uri_unit 61" "\<not> uri_unit 63"
  by (simp_all add: uri_unit_def uri_unreserved_def unit_defs)

end
