(* ===== verification/ActionRoutes.thy ===== *)
theory ActionRoutes
  imports Identity Numbers UriComponent "HOL-Library.List_Lexorder"
begin

text \<open>
  The guarded route table of \<open>runtime/platform/action-routes.ts\<close>: compiling checked
  \<open>action\<close> declarations, the collision check, canonical dispatch and the canonical URL
  builder. An issue keeps its code and its structured data; the prose of its message is left
  out.
\<close>

section \<open>Data\<close>

datatype route_issue =
    InvalidRoute
  | DuplicateRoute (dup_method: jsstr) (dup_path: jsstr)
  | AmbiguousRoute (amb_first: jsstr) (amb_second: jsstr)
  | UnknownAction
  | CaptureArity
  | CaptureType
  | CaptureValue
  | UriError

datatype capture_type = StrCapture | IntCapture

datatype route_mode = JsonMode | FormMode | DocumentMode

datatype route_segment =
    Static (seg_raw: jsstr) (seg_decoded: jsstr)
  | Capture (seg_name: jsstr) (seg_type: capture_type)

record action_route =
  ar_identity :: jsstr
  ar_method :: jsstr
  ar_template :: jsstr
  ar_segments :: "route_segment list"
  ar_statics :: nat
  ar_bunKey :: jsstr
  ar_mode :: route_mode

datatype capture_value = StrValue jsstr | IntValue int

datatype route_match =
    Match (match_identity: jsstr) (match_captures: "(jsstr \<times> capture_value) list") (match_mode: route_mode)
  | BadRequest
  | NotFound
  | MethodNotAllowed (match_allow: jsstr)

definition bindI :: "route_issue + 'a \<Rightarrow> ('a \<Rightarrow> route_issue + 'b) \<Rightarrow> route_issue + 'b" where
  "bindI m f = (case m of Inl e \<Rightarrow> Inl e | Inr x \<Rightarrow> f x)"

lemma bindI_Inr_conv: "bindI m f = Inr y \<longleftrightarrow> (\<exists>x. m = Inr x \<and> f x = Inr y)"
  by (cases m) (auto simp: bindI_def)

lemma bindI_simps [simp]: "bindI (Inl e) f = Inl e" "bindI (Inr x) f = f x"
  by (simp_all add: bindI_def)

definition require :: "bool \<Rightarrow> route_issue \<Rightarrow> route_issue + unit" where
  "require b e = (if b then Inr () else Inl e)"

lemma require_Inr [simp]: "require b e = Inr u \<longleftrightarrow> b"
  by (simp add: require_def)

text \<open>The property \<open>k\<close> of a value of unknown type.\<close>

definition prop_of :: "jsval \<Rightarrow> string \<Rightarrow> jsval" where
  "prop_of v k = (case v of Obj ps \<Rightarrow> obj_field ps k | _ \<Rightarrow> Undefined)"

section \<open>Templates\<close>

text \<open>\<open>{\<close> and \<open>}\<close> are the units 123 and 125, the slash is 47.\<close>

definition template_point :: "int \<Rightarrow> bool" where
  "template_point c \<longleftrightarrow> \<not> (c \<le> 0x20 \<or> c = 0x7f \<or> c = 92 \<or> c = 63 \<or> c = 35 \<or> c = 42)"

definition capture_name :: "jsstr \<Rightarrow> bool" where
  "capture_name s \<longleftrightarrow>
     (case s of
        u # us \<Rightarrow> is_lower_unit u \<and> list_all (\<lambda>v. is_lower_unit v \<or> is_digit_unit v \<or> v = 95) us
      | [] \<Rightarrow> False)"

definition braced :: "jsstr \<Rightarrow> jsstr" where
  "braced segment = butlast (tl segment)"

fun check_segments :: "jsstr list \<Rightarrow> jsstr list \<Rightarrow> route_issue + unit" where
  "check_segments seen [] = Inr ()"
| "check_segments seen (segment # rest) =
     (if startsWith segment [58] then Inl InvalidRoute
      else if 123 \<notin> set segment \<and> 125 \<notin> set segment then check_segments seen rest
      else if \<not> startsWith segment [123] \<or> \<not> endsWith segment [125] \<or> length segment < 3 then Inl InvalidRoute
      else if \<not> capture_name (braced segment) then Inl InvalidRoute
      else if braced segment \<in> set seen then Inl InvalidRoute
      else check_segments (braced segment # seen) rest)"

definition checkTemplate :: "jsstr \<Rightarrow> route_issue + jsstr list" where
  "checkTemplate path =
     bindI (require (isWellFormed path) InvalidRoute) (\<lambda>_.
     bindI (require (startsWith path [47] \<and> \<not> startsWith path [47, 47]) InvalidRoute) (\<lambda>_.
     bindI (require (list_all template_point (utf16_decode path)) InvalidRoute) (\<lambda>_.
     let segments = split_on 47 path in
     bindI (check_segments [] (tl segments)) (\<lambda>_. Inr segments))))"

text \<open>The class \<open>[\x00-\x1f\x7f\\]\<close>.\<close>

definition control_unit :: "code_unit \<Rightarrow> bool" where
  "control_unit u \<longleftrightarrow> uint u \<le> 0x1f \<or> uint u = 0x7f \<or> uint u = 92"

definition decodeStatic :: "jsstr \<Rightarrow> route_issue + jsstr" where
  "decodeStatic segment =
     (case decodeURIComponent segment of
        None \<Rightarrow> Inl InvalidRoute
      | Some decoded \<Rightarrow> if list_ex control_unit decoded then Inl InvalidRoute else Inr decoded)"

section \<open>Compiling a route\<close>

definition capture_type_of :: "jsval \<Rightarrow> capture_type option" where
  "capture_type_of v =
     (if v = Str (ascii ''str'') then Some StrCapture
      else if v = Str (ascii ''int'') then Some IntCapture else None)"

fun capture_rows :: "jsval list \<Rightarrow> (jsstr \<times> capture_type) list \<Rightarrow> route_issue + (jsstr \<times> capture_type) list" where
  "capture_rows [] rows = Inr rows"
| "capture_rows (row # rest) rows =
     (case (prop_of row ''name'', capture_type_of (prop_of row ''type'')) of
        (Str name, Some type) \<Rightarrow>
          (if map_of rows name \<noteq> None then Inl InvalidRoute
           else capture_rows rest (rows @ [(name, type)]))
      | _ \<Rightarrow> Inl InvalidRoute)"

fun compile_segments ::
  "(jsstr \<times> capture_type) list \<Rightarrow> jsstr list \<Rightarrow> route_segment list \<Rightarrow> nat \<Rightarrow> route_issue + route_segment list \<times> nat" where
  "compile_segments rows [] segments statics = Inr (segments, statics)"
| "compile_segments rows (segment # rest) segments statics =
     (if startsWith segment [123] then
        (case map_of rows (braced segment) of
           None \<Rightarrow> Inl InvalidRoute
         | Some type \<Rightarrow> compile_segments rows rest (segments @ [Capture (braced segment) type]) statics)
      else
        bindI (decodeStatic segment) (\<lambda>decoded.
          compile_segments rows rest (segments @ [Static segment decoded]) (Suc statics)))"

definition rows_of :: "jsval \<Rightarrow> route_issue + (jsstr \<times> capture_type) list" where
  "rows_of v = (case v of Arr captures \<Rightarrow> capture_rows captures [] | _ \<Rightarrow> Inl InvalidRoute)"

definition bun_segment :: "jsstr \<Rightarrow> jsstr" where
  "bun_segment segment = (if startsWith segment [123] then 58 # braced segment else segment)"

definition mode_of :: "jsval \<Rightarrow> route_issue + route_mode" where
  "mode_of v =
     (if v = Undefined \<or> v = Null \<or> v = Str (ascii ''json'') then Inr JsonMode
      else if v = Str (ascii ''form'') then Inr FormMode
      else if v = Str (ascii ''document'') then Inr DocumentMode
      else Inl InvalidRoute)"

definition reserved_first :: "route_segment list \<Rightarrow> bool" where
  "reserved_first segments \<longleftrightarrow>
     (case segments of Static raw decoded # _ \<Rightarrow> decoded = ascii ''__can'' | _ \<Rightarrow> False)"

definition compileRoute :: "jsval \<Rightarrow> route_issue + action_route" where
  "compileRoute entry =
     (case (prop_of entry ''identity'', prop_of entry ''method'', prop_of entry ''path'') of
        (Str identity, Str method, Str path) \<Rightarrow>
          bindI (require (identity \<noteq> []) InvalidRoute) (\<lambda>_.
          bindI (require (method = ascii ''GET'' \<or> method = ascii ''POST'') InvalidRoute) (\<lambda>_.
          bindI (checkTemplate path) (\<lambda>raw.
          bindI (rows_of (prop_of entry ''captures'')) (\<lambda>rows.
          bindI (compile_segments rows (tl raw) [] 0) (\<lambda>(segments, statics).
          bindI (require (list_all (\<lambda>row. 123 # fst row @ [125] \<in> set (tl raw)) rows) InvalidRoute) (\<lambda>_.
          bindI (require (\<not> reserved_first segments) InvalidRoute) (\<lambda>_.
          bindI (mode_of (prop_of entry ''mode'')) (\<lambda>mode.
            Inr \<lparr>ar_identity = identity, ar_method = method, ar_template = path,
                 ar_segments = segments, ar_statics = statics,
                 ar_bunKey = 47 # join_on 47 (map bun_segment (tl raw)), ar_mode = mode\<rparr>))))))))
      | _ \<Rightarrow> Inl InvalidRoute)"

definition shape_segment :: "route_segment \<Rightarrow> jsstr" where
  "shape_segment segment = (case segment of Capture _ _ \<Rightarrow> [123, 125] | Static _ decoded \<Rightarrow> decoded)"

definition shapeOf :: "action_route \<Rightarrow> jsstr" where
  "shapeOf route = 47 # join_on 47 (map shape_segment (ar_segments route))"

section \<open>Collisions\<close>

datatype collision = Duplicate | Ambiguous

text \<open>
  The loop over the positions of two shapes of one length: None when two statics differ,
  otherwise whether the kinds agree everywhere.
\<close>

fun unify_segments :: "route_segment list \<Rightarrow> route_segment list \<Rightarrow> bool \<Rightarrow> bool option" where
  "unify_segments (Static _ a # as) (Static _ b # bs) same = (if a \<noteq> b then None else unify_segments as bs same)"
| "unify_segments (Capture _ _ # as) (Capture _ _ # bs) same = unify_segments as bs same"
| "unify_segments (_ # as) (_ # bs) same = unify_segments as bs False"
| "unify_segments _ _ same = Some same"

definition is_static :: "route_segment \<Rightarrow> bool" where
  "is_static segment \<longleftrightarrow> (case segment of Static _ _ \<Rightarrow> True | _ \<Rightarrow> False)"

definition covers :: "action_route \<Rightarrow> action_route \<Rightarrow> bool" where
  "covers outer inner \<longleftrightarrow>
     ar_statics inner < ar_statics outer
     \<and> list_all (\<lambda>(segment, other). is_static segment \<or> \<not> is_static other)
         (zip (ar_segments outer) (ar_segments inner))"

definition collides :: "action_route \<Rightarrow> action_route \<Rightarrow> collision option" where
  "collides first second =
     (if ar_method first \<noteq> ar_method second \<or> length (ar_segments first) \<noteq> length (ar_segments second) then None
      else
        (case unify_segments (ar_segments first) (ar_segments second) True of
           None \<Rightarrow> None
         | Some same \<Rightarrow>
             if same then Some Duplicate
             else if covers first second \<or> covers second first then None else Some Ambiguous))"

fun first_collision :: "action_route \<Rightarrow> action_route list \<Rightarrow> route_issue option" where
  "first_collision first [] = None"
| "first_collision first (second # rest) =
     (case collides first second of
        Some Duplicate \<Rightarrow> Some (DuplicateRoute (ar_method second) (shapeOf second))
      | Some Ambiguous \<Rightarrow> Some (AmbiguousRoute (ar_template first) (ar_template second))
      | None \<Rightarrow> first_collision first rest)"

fun table_collision :: "action_route list \<Rightarrow> route_issue option" where
  "table_collision [] = None"
| "table_collision (first # rest) =
     (case first_collision first rest of Some e \<Rightarrow> Some e | None \<Rightarrow> table_collision rest)"

fun compile_all :: "jsval list \<Rightarrow> route_issue + action_route list" where
  "compile_all [] = Inr []"
| "compile_all (entry # rest) = bindI (compileRoute entry) (\<lambda>r. bindI (compile_all rest) (\<lambda>rs. Inr (r # rs)))"

definition compileActionRoutes :: "jsval \<Rightarrow> route_issue + action_route list" where
  "compileActionRoutes entries =
     (case entries of
        Arr xs \<Rightarrow>
          bindI (compile_all xs) (\<lambda>routes.
            case table_collision routes of Some e \<Rightarrow> Inl e | None \<Rightarrow> Inr routes)
      | _ \<Rightarrow> Inl InvalidRoute)"

section \<open>Dispatch\<close>

definition MIN_INT64 :: int where "MIN_INT64 = - (2 ^ 63)"
definition MAX_INT64 :: int where "MAX_INT64 = 2 ^ 63 - 1"

definition strictInt :: "jsstr \<Rightarrow> int option" where
  "strictInt text =
     (let unsigned = (if startsWith text [45] then drop 1 text else text) in
      if (if startsWith text [45] then \<not> (plain_integer unsigned \<and> unsigned \<noteq> [digit_unit 0])
          else \<not> plain_integer text) then None
      else if 19 < length unsigned then None
      else
        let v = bigint_of_text text in
        if v < MIN_INT64 \<or> MAX_INT64 < v then None else Some v)"

definition dot_segment :: "jsstr \<Rightarrow> bool" where
  "dot_segment text \<longleftrightarrow> text = ascii ''.'' \<or> text = ascii ''..''"

fun decode_all :: "jsstr list \<Rightarrow> jsstr list option" where
  "decode_all [] = Some []"
| "decode_all (segment # rest) =
     (case decodeURIComponent segment of
        None \<Rightarrow> None
      | Some text \<Rightarrow>
          if 47 \<in> set text \<or> list_ex control_unit text \<or> dot_segment text then None
          else map_option (Cons text) (decode_all rest))"

record decoded_target =
  dt_raw :: "jsstr list"
  dt_decoded :: "jsstr list"

definition decodeSegments :: "jsstr \<Rightarrow> decoded_target option" where
  "decodeSegments pathname =
     (let raw = split_on 47 pathname in
      if hd raw \<noteq> [] then None
      else map_option (\<lambda>decoded. \<lparr>dt_raw = tl raw, dt_decoded = decoded\<rparr>) (decode_all (tl raw)))"

definition actionTargetSegments :: "jsval \<Rightarrow> jsstr list option" where
  "actionTargetSegments pathname =
     (case pathname of Str p \<Rightarrow> map_option dt_decoded (decodeSegments p) | _ \<Rightarrow> None)"

definition segment_fits :: "route_segment \<Rightarrow> jsstr \<Rightarrow> bool" where
  "segment_fits segment text =
     (case segment of Static _ decoded \<Rightarrow> decoded = text | Capture _ _ \<Rightarrow> text \<noteq> [])"

definition structural :: "action_route \<Rightarrow> jsstr list \<Rightarrow> bool" where
  "structural route decoded \<longleftrightarrow>
     length (ar_segments route) = length decoded \<and>
     list_all (\<lambda>(segment, text). segment_fits segment text) (zip (ar_segments route) decoded)"

fun typed_loop :: "route_segment list \<Rightarrow> jsstr list \<Rightarrow> jsstr list \<Rightarrow> (jsstr \<times> capture_value) list option" where
  "typed_loop (Static _ _ # segments) (_ # raw) (_ # decoded) = typed_loop segments raw decoded"
| "typed_loop (Capture name IntCapture # segments) (r # raw) (d # decoded) =
     (if r \<noteq> d then None
      else
        (case strictInt d of
           None \<Rightarrow> None
         | Some v \<Rightarrow> map_option (Cons (name, IntValue v)) (typed_loop segments raw decoded)))"
| "typed_loop (Capture name StrCapture # segments) (_ # raw) (d # decoded) =
     map_option (Cons (name, StrValue d)) (typed_loop segments raw decoded)"
| "typed_loop _ _ _ = Some []"

definition typed :: "action_route \<Rightarrow> decoded_target \<Rightarrow> (jsstr \<times> capture_value) list option" where
  "typed route target =
     (if \<not> structural route (dt_decoded target) then None
      else typed_loop (ar_segments route) (dt_raw target) (dt_decoded target))"

record match_state =
  ms_best :: "(action_route \<times> (jsstr \<times> capture_value) list) option"
  ms_groupStructural :: bool
  ms_foreign :: "jsstr list"

text \<open>The set of foreign methods keeps the order of insertion.\<close>

definition add_foreign :: "jsstr \<Rightarrow> match_state \<Rightarrow> match_state" where
  "add_foreign method st = st\<lparr>ms_foreign := (if method \<in> set (ms_foreign st) then ms_foreign st else ms_foreign st @ [method])\<rparr>"

definition match_step :: "jsstr \<Rightarrow> decoded_target \<Rightarrow> match_state \<Rightarrow> action_route \<Rightarrow> match_state" where
  "match_step method target st route =
     (case typed route target of
        Some captures \<Rightarrow>
          if ar_method route = method then
            (case ms_best st of
               None \<Rightarrow> st\<lparr>ms_best := Some (route, captures)\<rparr>
             | Some (r, c) \<Rightarrow>
                 if ar_statics r < ar_statics route then st\<lparr>ms_best := Some (route, captures)\<rparr> else st)
          else add_foreign (ar_method route) st
      | None \<Rightarrow>
          if \<not> structural route (dt_decoded target) then st
          else if ar_method route = method then st\<lparr>ms_groupStructural := True\<rparr>
          else add_foreign (ar_method route) st)"

definition match_start :: match_state where
  "match_start = \<lparr>ms_best = None, ms_groupStructural = False, ms_foreign = []\<rparr>"

fun join_comma :: "jsstr list \<Rightarrow> jsstr" where
  "join_comma [] = []"
| "join_comma [p] = p"
| "join_comma (p # q # ps) = p @ ascii '', '' @ join_comma (q # ps)"

definition matchActionRoute :: "action_route list \<Rightarrow> jsstr \<Rightarrow> jsval \<Rightarrow> route_match" where
  "matchActionRoute routes method pathname =
     (case (case pathname of Str p \<Rightarrow> decodeSegments p | _ \<Rightarrow> None) of
        None \<Rightarrow> BadRequest
      | Some target \<Rightarrow>
          let st = foldl (match_step method target) match_start routes in
          (case ms_best st of
             Some (route, captures) \<Rightarrow> Match (ar_identity route) captures (ar_mode route)
           | None \<Rightarrow>
               if ms_groupStructural st then BadRequest
               else if ms_foreign st \<noteq> [] then MethodNotAllowed (join_comma (sort (ms_foreign st)))
               else NotFound))"

section \<open>Building URLs\<close>

definition checkURLValue :: "jsstr \<Rightarrow> bool" where
  "checkURLValue text \<longleftrightarrow> text \<noteq> [] \<and> \<not> dot_segment text \<and> 47 \<notin> set text \<and> \<not> list_ex control_unit text"

definition build_capture :: "capture_type \<Rightarrow> jsval \<Rightarrow> route_issue + jsstr" where
  "build_capture type v =
     (case type of
        IntCapture \<Rightarrow>
          (case v of
             BigInt i \<Rightarrow> if i < MIN_INT64 \<or> MAX_INT64 < i then Inl CaptureValue else Inr (int_string i)
           | _ \<Rightarrow> Inl CaptureType)
      | StrCapture \<Rightarrow>
          (case v of
             Str s \<Rightarrow>
               if \<not> isWellFormed s \<or> \<not> checkURLValue s then Inl CaptureValue
               else (case encodeURIComponent s of Some t \<Rightarrow> Inr t | None \<Rightarrow> Inl UriError)
           | _ \<Rightarrow> Inl CaptureType))"

text \<open>The values are consumed from the left; a missing one would read \<open>undefined\<close>.\<close>

fun build_segments :: "route_segment list \<Rightarrow> jsval list \<Rightarrow> route_issue + jsstr list" where
  "build_segments [] vs = Inr []"
| "build_segments (Static raw _ # segments) vs = bindI (build_segments segments vs) (\<lambda>ts. Inr (raw # ts))"
| "build_segments (Capture _ type # segments) vs =
     bindI (build_capture type (case vs of v # _ \<Rightarrow> v | [] \<Rightarrow> Undefined)) (\<lambda>t.
     bindI (build_segments segments (tl vs)) (\<lambda>ts. Inr (t # ts)))"

definition buildActionURL :: "action_route list \<Rightarrow> jsstr \<Rightarrow> jsval \<Rightarrow> route_issue + jsstr" where
  "buildActionURL routes identity values =
     (case find (\<lambda>route. ar_identity route = identity) routes of
        None \<Rightarrow> Inl UnknownAction
      | Some route \<Rightarrow>
          (case values of
             Arr vs \<Rightarrow>
               if length vs \<noteq> length (filter (\<lambda>s. \<not> is_static s) (ar_segments route)) then Inl CaptureArity
               else bindI (build_segments (ar_segments route) vs) (\<lambda>ts. Inr (47 # join_on 47 ts))
           | _ \<Rightarrow> Inl CaptureArity))"

definition bunRouteKeys :: "action_route list \<Rightarrow> jsstr list" where
  "bunRouteKeys routes = map ar_bunKey routes"

section \<open>Paired generations\<close>

record http_response =
  hr_status :: int
  hr_headers :: "(jsstr \<times> jsstr) list"
  hr_body :: jsstr

definition actionReject :: "int \<Rightarrow> jsstr option \<Rightarrow> http_response" where
  "actionReject status allow =
     \<lparr>hr_status = status,
      hr_headers =
        [(ascii ''content-type'', ascii ''text/plain; charset=utf-8''),
         (ascii ''x-content-type-options'', ascii ''nosniff'')]
        @ (case allow of Some a \<Rightarrow> if status = 405 then [(ascii ''allow'', a)] else [] | None \<Rightarrow> []),
      hr_body = (if status = 400 then ascii ''Bad Request'' else ascii ''Method Not Allowed'')\<rparr>"

definition generationMismatchKind :: jsstr where
  "generationMismatchKind = ascii ''can.generation-mismatch''"

definition hex64 :: "jsstr \<Rightarrow> bool" where
  "hex64 s \<longleftrightarrow> length s = 64 \<and> list_all (\<lambda>u. is_digit_unit u \<or> in_range 97 102 u) s"

definition isGenerationId :: "jsval \<Rightarrow> bool" where
  "isGenerationId v = (case v of Str s \<Rightarrow> hex64 s | _ \<Rightarrow> False)"

definition readGenerationMismatch :: "jsval \<Rightarrow> jsstr option" where
  "readGenerationMismatch v =
     (case v of
        Obj ps \<Rightarrow>
          if length ps \<noteq> 3 then None
          else if obj_field ps ''schemaVersion'' \<noteq> Num (num 1)
            \<or> obj_field ps ''kind'' \<noteq> Str generationMismatchKind then None
          else
            (case obj_field ps ''serverGeneration'' of
               Str s \<Rightarrow> if isGenerationId (Str s) then Some s else None
             | _ \<Rightarrow> None)
      | _ \<Rightarrow> None)"

end
