(* ===== verification/ActionRouteProps.thy ===== *)
theory ActionRouteProps
  imports ActionRoutes
begin

text \<open>
  Properties of the route table: an accepted table has one most specific route per target,
  so that dispatch does not depend on the order of the declarations; what a handler receives
  is clean; every outcome of dispatch is characterised; and a built URL is dispatched back to
  its action and values unless a more specific route takes it.
\<close>

section \<open>Compiled routes\<close>

definition count_statics :: "route_segment list \<Rightarrow> nat" where
  "count_statics segments = length (filter is_static segments)"

lemma count_statics_simps [simp]:
  "count_statics [] = 0"
  "count_statics (Static a b # s) = Suc (count_statics s)"
  "count_statics (Capture n t # s) = count_statics s"
  "count_statics (s1 @ s2) = count_statics s1 + count_statics s2"
  by (simp_all add: count_statics_def is_static_def)

text \<open>What compiling guarantees of each segment.\<close>

definition segment_ok :: "route_segment \<Rightarrow> bool" where
  "segment_ok segment =
     (case segment of
        Static raw decoded \<Rightarrow>
          decodeURIComponent raw = Some decoded \<and> \<not> list_ex control_unit decoded \<and> 47 \<notin> set raw
      | Capture _ _ \<Rightarrow> True)"

definition route_ok :: "action_route \<Rightarrow> bool" where
  "route_ok r \<longleftrightarrow>
     ar_segments r \<noteq> [] \<and> list_all segment_ok (ar_segments r) \<and> ar_statics r = count_statics (ar_segments r)
     \<and> (ar_method r = ascii ''GET'' \<or> ar_method r = ascii ''POST'') \<and> ar_identity r \<noteq> []"

lemma compile_segments_ok:
  assumes "compile_segments rows raws segs n = Inr (segs', n')"
    and "list_all segment_ok segs" "n = count_statics segs" "\<And>s. s \<in> set raws \<Longrightarrow> 47 \<notin> set s"
  shows "list_all segment_ok segs' \<and> n' = count_statics segs' \<and> length segs' = length segs + length raws"
  using assms
proof (induction rows raws segs n rule: compile_segments.induct)
  case (2 rows segment rest segments statics)
  show ?case
  proof (cases "startsWith segment [123]")
    case True
    then obtain type where "map_of rows (braced segment) = Some type"
      "compile_segments rows rest (segments @ [Capture (braced segment) type]) statics = Inr (segs', n')"
      using "2.prems"(1) by (auto split: option.splits)
    then show ?thesis using "2.IH"(1) [OF True, of type] "2.prems" by (simp add: segment_ok_def)
  next
    case False
    then obtain decoded where d: "decodeStatic segment = Inr decoded"
      "compile_segments rows rest (segments @ [Static segment decoded]) (Suc statics) = Inr (segs', n')"
      using "2.prems"(1) by (auto simp: bindI_Inr_conv)
    then have "segment_ok (Static segment decoded)"
      using "2.prems"(4) by (auto simp: decodeStatic_def segment_ok_def split: option.splits if_splits)
    then show ?thesis using "2.IH"(2) [OF False d(2)] "2.prems" by simp
  qed
qed auto

lemma split_slash_tl:
  assumes "startsWith path [47]"
  shows "tl (split_on 47 path) \<noteq> []"
  using assms by (auto simp: startsWith_iff)

lemma compileRoute_ok: "compileRoute entry = Inr r \<Longrightarrow> route_ok r"
proof -
  assume "compileRoute entry = Inr r"
  then obtain path raw rows captures segments statics where
    raw: "checkTemplate path = Inr raw" and
    segs: "compile_segments rows (tl raw) [] 0 = Inr (segments, statics)" and
    r: "ar_segments r = segments" "ar_statics r = statics" "ar_identity r \<noteq> []"
      "ar_method r = ascii ''GET'' \<or> ar_method r = ascii ''POST''"
    unfolding compileRoute_def by (auto simp: bindI_Inr_conv split: jsval.splits prod.splits)
  have path: "raw = split_on 47 path" "startsWith path [47]"
    using raw by (auto simp: checkTemplate_def bindI_Inr_conv Let_def)
  have "47 \<notin> set s" if "s \<in> set (tl raw)" for s
    using that split_on_part [of s 47 path] path(1) list.set_sel(2) split_on_not_Nil by metis
  then have ok: "list_all segment_ok segments" "statics = count_statics segments" "length segments = length (tl raw)"
    using compile_segments_ok [OF segs] by simp_all
  then have "segments \<noteq> []" using split_slash_tl [OF path(2)] path(1) by (metis length_0_conv)
  then show ?thesis using r ok by (simp add: route_ok_def)
qed

lemma compile_all_ok: "compile_all xs = Inr rs \<Longrightarrow> list_all route_ok rs"
  by (induction xs arbitrary: rs) (auto simp: bindI_Inr_conv dest: compileRoute_ok)

lemma first_collision_None:
  "first_collision r rs = None \<Longrightarrow> s \<in> set rs \<Longrightarrow> collides r s = None"
  by (induction rs) (auto split: option.splits collision.splits)

lemma table_collision_None:
  "table_collision rs = None \<Longrightarrow> sorted_wrt (\<lambda>r s. collides r s = None) rs"
  by (induction rs) (auto split: option.splits dest: first_collision_None)

definition table_ok :: "action_route list \<Rightarrow> bool" where
  "table_ok rs \<longleftrightarrow> list_all route_ok rs \<and> sorted_wrt (\<lambda>r s. collides r s = None) rs"

lemma compileActionRoutes_ok: "compileActionRoutes entries = Inr rs \<Longrightarrow> table_ok rs"
  by (auto simp: compileActionRoutes_def table_ok_def bindI_Inr_conv compile_all_ok table_collision_None
      split: jsval.splits option.splits)

section \<open>No two routes tie\<close>

lemma segment_fits_simps [simp]:
  "segment_fits (Static raw decoded) text \<longleftrightarrow> decoded = text"
  "segment_fits (Capture name type) text \<longleftrightarrow> text \<noteq> []"
  by (simp_all add: segment_fits_def)

lemma structural_Cons:
  "structural r ds \<longleftrightarrow> list_all2 segment_fits (ar_segments r) ds"
  by (simp add: structural_def list_all2_iff list_all_iff)

lemma unify_fits:
  "list_all2 segment_fits as ds \<Longrightarrow> list_all2 segment_fits bs ds \<Longrightarrow> unify_segments as bs same \<noteq> None"
proof (induction as bs same arbitrary: ds rule: unify_segments.induct)
  case (1 u a as v b bs same)
  then obtain d ds' where "ds = d # ds'" by (cases ds) auto
  with 1 show ?case by auto
qed (auto simp: list_all2_Cons1)

lemma collides_fits:
  assumes "structural r ds" "structural s ds" "ar_method r = ar_method s" "collides r s = None"
  shows "ar_statics r \<noteq> ar_statics s"
proof -
  have fits: "list_all2 segment_fits (ar_segments r) ds" "list_all2 segment_fits (ar_segments s) ds"
    using assms(1,2) by (simp_all add: structural_Cons)
  then have "length (ar_segments r) = length (ar_segments s)" by (metis list_all2_lengthD)
  moreover obtain same where "unify_segments (ar_segments r) (ar_segments s) True = Some same"
    using unify_fits [OF fits, of True] by blast
  ultimately have "covers r s \<or> covers s r"
    using assms(3,4) by (simp add: collides_def split: if_splits)
  then show ?thesis by (auto simp: covers_def)
qed

lemma table_no_ties:
  assumes "table_ok rs" "r \<in> set rs" "s \<in> set rs" "ar_method r = ar_method s"
    and "structural r ds" "structural s ds" "ar_statics r = ar_statics s"
  shows "r = s"
proof -
  obtain i j where ij: "i < length rs" "rs ! i = r" "j < length rs" "rs ! j = s"
    using assms(2,3) by (meson in_set_conv_nth)
  have "i = j"
  proof (rule ccontr)
    assume "i \<noteq> j"
    then consider "i < j" | "j < i" by linarith
    then have "collides r s = None \<or> collides s r = None"
      using assms(1) ij by cases (auto simp: table_ok_def sorted_wrt_iff_nth_less)
    then show False using collides_fits [of r ds s] collides_fits [of s ds r] assms by auto
  qed
  then show ?thesis using ij by simp
qed

section \<open>The dispatch loop\<close>

lemma typed_structural: "typed r t = Some c \<Longrightarrow> structural r (dt_decoded t)"
  by (auto simp: typed_def split: if_splits)

text \<open>The three accumulators of the loop in terms of the set of routes already visited.\<close>

definition best_spec :: "jsstr \<Rightarrow> decoded_target \<Rightarrow> action_route set \<Rightarrow>
    (action_route \<times> (jsstr \<times> capture_value) list) option \<Rightarrow> bool" where
  "best_spec method t R best =
     (case best of
        None \<Rightarrow> \<forall>r \<in> R. ar_method r = method \<longrightarrow> typed r t = None
      | Some (r, c) \<Rightarrow>
          r \<in> R \<and> ar_method r = method \<and> typed r t = Some c
          \<and> (\<forall>s \<in> R. ar_method s = method \<longrightarrow> typed s t \<noteq> None \<longrightarrow> ar_statics s \<le> ar_statics r))"

definition loop_spec :: "jsstr \<Rightarrow> decoded_target \<Rightarrow> action_route set \<Rightarrow> match_state \<Rightarrow> bool" where
  "loop_spec method t R st \<longleftrightarrow>
     best_spec method t R (ms_best st)
     \<and> (ms_groupStructural st \<longleftrightarrow>
          (\<exists>r \<in> R. ar_method r = method \<and> structural r (dt_decoded t) \<and> typed r t = None))
     \<and> set (ms_foreign st) = {ar_method r | r. r \<in> R \<and> ar_method r \<noteq> method \<and> structural r (dt_decoded t)}
     \<and> distinct (ms_foreign st)"

lemma foreign_insert:
  "{ar_method r | r. r \<in> insert x R \<and> ar_method r \<noteq> m \<and> structural r ds} =
   (if ar_method x \<noteq> m \<and> structural x ds then {ar_method x} else {})
     \<union> {ar_method r | r. r \<in> R \<and> ar_method r \<noteq> m \<and> structural r ds}"
  by auto

lemma best_spec_skip:
  "best_spec m t R b \<Longrightarrow> typed x t = None \<or> ar_method x \<noteq> m \<Longrightarrow> best_spec m t (insert x R) b"
  by (auto simp: best_spec_def split: option.splits)

lemma best_spec_take:
  assumes "best_spec m t R b" "typed x t = Some c" "ar_method x = m"
    and "case b of None \<Rightarrow> True | Some (r, _) \<Rightarrow> ar_statics r < ar_statics x"
  shows "best_spec m t (insert x R) (Some (x, c))"
  using assms by (fastforce simp: best_spec_def split: option.splits)

lemma best_spec_keep:
  assumes "best_spec m t R (Some (r, d))" "ar_statics x \<le> ar_statics r"
  shows "best_spec m t (insert x R) (Some (r, d))"
  using assms by (auto simp: best_spec_def)

lemma match_step_best:
  assumes "best_spec m t R (ms_best st)"
  shows "best_spec m t (insert x R) (ms_best (match_step m t st x))"
proof (cases "ar_method x = m \<and> typed x t \<noteq> None")
  case True
  then obtain c where c: "typed x t = Some c" "ar_method x = m" by auto
  show ?thesis
  proof (cases "ms_best st")
    case None
    then show ?thesis using best_spec_take [OF assms c] c by (simp add: match_step_def)
  next
    case (Some b)
    obtain r d where "b = (r, d)" by (cases b)
    then show ?thesis using Some best_spec_take [OF assms c] best_spec_keep [of m t R r d x] assms c
      by (cases "ar_statics r < ar_statics x") (simp_all add: match_step_def)
  qed
next
  case False
  then have "ms_best (match_step m t st x) = ms_best st"
    by (auto simp: match_step_def add_foreign_def split: option.splits)
  then show ?thesis using best_spec_skip [OF assms, of x] False by auto
qed

lemma match_step_spec:
  assumes "loop_spec m t R st"
  shows "loop_spec m t (insert x R) (match_step m t st x)"
proof -
  let ?st = "match_step m t st x"
  have "best_spec m t (insert x R) (ms_best ?st)"
    using assms match_step_best by (simp add: loop_spec_def)
  moreover have "ms_groupStructural ?st \<longleftrightarrow> ms_groupStructural st \<or>
      ar_method x = m \<and> structural x (dt_decoded t) \<and> typed x t = None"
    by (auto simp: match_step_def add_foreign_def split: option.splits)
  moreover have "ms_foreign ?st = (if ar_method x \<noteq> m \<and> structural x (dt_decoded t) \<and> ar_method x \<notin> set (ms_foreign st)
      then ms_foreign st @ [ar_method x] else ms_foreign st)"
    by (auto simp: match_step_def add_foreign_def dest: typed_structural split: option.splits)
  ultimately show ?thesis using assms unfolding loop_spec_def foreign_insert by auto
qed

lemma match_loop_spec:
  "loop_spec m t R st \<Longrightarrow> loop_spec m t (R \<union> set rs) (foldl (match_step m t) st rs)"
proof (induction rs arbitrary: R st)
  case (Cons r rs)
  then show ?case using Cons.IH [OF match_step_spec [OF Cons.prems, of r]] by simp
qed simp

lemma match_start_spec: "loop_spec m t {} match_start"
  by (simp add: loop_spec_def best_spec_def match_start_def)

lemma match_loop: "loop_spec m t (set rs) (foldl (match_step m t) match_start rs)"
  using match_loop_spec [OF match_start_spec, of m t rs] by simp


section \<open>Dispatch does not depend on the order of the routes\<close>

lemma best_unique:
  assumes "table_ok rs" "best_spec m t (set rs) b" "best_spec m t (set rs) b'"
  shows "b = b'"
proof (cases b)
  case None
  then show ?thesis using assms(2,3) by (cases b') (auto simp: best_spec_def)
next
  case (Some p)
  obtain r c where p: "b = Some (r, c)" using Some by (cases p) auto
  then have r: "r \<in> set rs" "ar_method r = m" "typed r t = Some c"
    using assms(2) by (simp_all add: best_spec_def)
  then obtain s d where q: "b' = Some (s, d)" using assms(3) by (cases b') (auto simp: best_spec_def)
  then have s: "s \<in> set rs" "ar_method s = m" "typed s t = Some d"
    using assms(3) by (simp_all add: best_spec_def)
  have "ar_statics r = ar_statics s"
    using assms(2,3) r s unfolding p q best_spec_def by (auto intro: le_antisym)
  then have "r = s" using table_no_ties [OF assms(1) r(1) s(1)] r s typed_structural by metis
  then show ?thesis using p q r s by simp
qed

lemma best_spec_set: "R = R' \<Longrightarrow> best_spec m t R b = best_spec m t R' b"
  by simp

lemma match_decoded:
  "decodeSegments p = Some t \<Longrightarrow> matchActionRoute rs m (Str p) =
     (let st = foldl (match_step m t) match_start rs in
      (case ms_best st of
         Some (route, captures) \<Rightarrow> Match (ar_identity route) captures (ar_mode route)
       | None \<Rightarrow>
           if ms_groupStructural st then BadRequest
           else if ms_foreign st \<noteq> [] then MethodNotAllowed (join_comma (sort (ms_foreign st)))
           else NotFound))"
  by (simp add: matchActionRoute_def)

lemma sort_same_set:
  "distinct xs \<Longrightarrow> distinct ys \<Longrightarrow> set xs = set ys \<Longrightarrow> sort xs = sort (ys :: jsstr list)"
  by (intro sorted_distinct_set_unique) simp_all

lemma loop_spec_same:
  assumes "table_ok rs" "loop_spec m t (set rs) st" "loop_spec m t (set rs) st'"
  shows "ms_best st = ms_best st' \<and> ms_groupStructural st = ms_groupStructural st'
    \<and> sort (ms_foreign st) = sort (ms_foreign st') \<and> (ms_foreign st = [] \<longleftrightarrow> ms_foreign st' = [])"
proof -
  have set: "set (ms_foreign st) = set (ms_foreign st')" using assms(2,3) unfolding loop_spec_def by simp
  have "distinct (ms_foreign st)" "distinct (ms_foreign st')" using assms(2,3) unfolding loop_spec_def by simp_all
  then have "sort (ms_foreign st) = sort (ms_foreign st')" using set by (rule sort_same_set)
  moreover have "best_spec m t (set rs) (ms_best st)" "best_spec m t (set rs) (ms_best st')"
    using assms(2,3) unfolding loop_spec_def by simp_all
  then have "ms_best st = ms_best st'" by (rule best_unique [OF assms(1)])
  moreover have "ms_groupStructural st = ms_groupStructural st'" using assms(2,3) unfolding loop_spec_def by simp
  moreover have "ms_foreign st = [] \<longleftrightarrow> ms_foreign st' = []" using set by (metis set_empty)
  ultimately show ?thesis by simp
qed

lemma match_order_free:
  assumes "table_ok rs" "set rs' = set rs"
  shows "matchActionRoute rs' m pathname = matchActionRoute rs m pathname"
proof (cases pathname)
  case (Str p)
  show ?thesis
  proof (cases "decodeSegments p")
    case None
    then show ?thesis using Str by (simp add: matchActionRoute_def)
  next
    case (Some t)
    have "loop_spec m t (set rs) (foldl (match_step m t) match_start rs')"
      using match_loop [of m t rs'] assms(2) by simp
    from loop_spec_same [OF assms(1) this match_loop] show ?thesis
      unfolding Str match_decoded [OF Some] Let_def by (simp cong: option.case_cong if_cong)
  qed
qed (simp_all add: matchActionRoute_def)

lemma match_best:
  assumes "matchActionRoute rs m (Str p) = Match identity captures mode"
  obtains t r where "decodeSegments p = Some t" "best_spec m t (set rs) (Some (r, captures))"
    "identity = ar_identity r" "mode = ar_mode r"
proof -
  obtain t where t: "decodeSegments p = Some t"
    using assms by (cases "decodeSegments p") (auto simp: matchActionRoute_def)
  let ?st = "foldl (match_step m t) match_start rs"
  have "ms_best ?st \<noteq> None"
  proof
    assume "ms_best ?st = None"
    then show False using assms unfolding match_decoded [OF t] Let_def by (simp split: if_splits)
  qed
  then obtain r c where b: "ms_best ?st = Some (r, c)" by (cases "ms_best ?st") auto
  then have "ms_best ?st = Some (r, captures)" "identity = ar_identity r" "mode = ar_mode r"
    using assms unfolding match_decoded [OF t] Let_def by simp_all
  moreover have "best_spec m t (set rs) (ms_best ?st)" using match_loop by (simp add: loop_spec_def)
  ultimately show ?thesis using that [OF t, of r] by simp
qed

text \<open>
  C14: An accepted route table has no silent precedence. Dispatch gives the same answer for
  every order (and repetition) of the routes, and when it is a match, every other route of
  the method that accepts the target has strictly fewer static segments than the one that
  was chosen.
\<close>

theorem dispatch_order_free:
  assumes "compileActionRoutes entries = Inr rs"
  shows "(\<forall>rs'. set rs' = set rs \<longrightarrow> matchActionRoute rs' m pathname = matchActionRoute rs m pathname)
    \<and> (\<forall>p identity captures mode. pathname = Str p \<longrightarrow> matchActionRoute rs m (Str p) = Match identity captures mode \<longrightarrow>
         (\<exists>t. \<exists>r \<in> set rs. decodeSegments p = Some t \<and> typed r t = Some captures \<and> ar_method r = m
            \<and> identity = ar_identity r \<and> mode = ar_mode r
            \<and> (\<forall>s \<in> set rs. s \<noteq> r \<longrightarrow> ar_method s = m \<longrightarrow> typed s t \<noteq> None \<longrightarrow> ar_statics s < ar_statics r)))"
proof -
  have ok: "table_ok rs" using compileActionRoutes_ok [OF assms] .
  have "\<exists>t. \<exists>r \<in> set rs. decodeSegments p = Some t \<and> typed r t = Some captures \<and> ar_method r = m
      \<and> identity = ar_identity r \<and> mode = ar_mode r
      \<and> (\<forall>s \<in> set rs. s \<noteq> r \<longrightarrow> ar_method s = m \<longrightarrow> typed s t \<noteq> None \<longrightarrow> ar_statics s < ar_statics r)"
    if matched: "matchActionRoute rs m (Str p) = Match identity captures mode" for p identity captures mode
  proof -
    obtain t r where t: "decodeSegments p = Some t" and best: "best_spec m t (set rs) (Some (r, captures))"
      and r: "identity = ar_identity r" "mode = ar_mode r"
      using match_best [OF matched] by metis
    have "ar_statics s < ar_statics r" if "s \<in> set rs" "s \<noteq> r" "ar_method s = m" "typed s t \<noteq> None" for s
    proof -
      have "ar_statics s \<le> ar_statics r" using best that by (auto simp: best_spec_def)
      moreover have "ar_statics s \<noteq> ar_statics r"
        using table_no_ties [OF ok that(1), of r "dt_decoded t"] best that typed_structural
        by (auto simp: best_spec_def)
      ultimately show ?thesis by simp
    qed
    then show ?thesis using t r best by (auto simp: best_spec_def)
  qed
  then show ?thesis using match_order_free [OF ok] by blast
qed

section \<open>What dispatch hands to a handler\<close>

lemma decode_all_clean:
  "decode_all raws = Some ds \<Longrightarrow>
     list_all (\<lambda>d. 47 \<notin> set d \<and> \<not> list_ex control_unit d \<and> \<not> dot_segment d) ds \<and> length ds = length raws"
  by (induction raws arbitrary: ds) (auto split: option.splits if_splits)

lemma strictInt_range: "strictInt s = Some i \<Longrightarrow> MIN_INT64 \<le> i \<and> i \<le> MAX_INT64"
  by (auto simp: strictInt_def Let_def split: if_splits)

lemma strictInt_canonical:
  assumes "strictInt s = Some i"
  shows "s = int_string i"
proof (cases "startsWith s [45]")
  case True
  then obtain t where t: "s = 45 # t" by (auto simp: startsWith_iff)
  then have "plain_integer t" "t \<noteq> [digit_unit 0]" "i = - units_value t"
    using assms True by (auto simp: strictInt_def Let_def bigint_of_text_def strip_sign_def split: if_splits)
  moreover from this have "0 < units_value t" using units_value_pos [of t] by (auto simp: plain_integer_def)
  ultimately show ?thesis using t int_string_units_value [of t] by (simp add: int_string_def unit_defs)
next
  case False
  then have "plain_integer s" "i = bigint_of_text s" "strip_sign s = (False, s)"
    using assms by (auto simp: strictInt_def Let_def strip_sign_def startsWith_def split: if_splits list.splits)
  then show ?thesis using int_string_units_value [of s] by (simp add: bigint_of_text_def)
qed

lemma typed_loop_clean:
  assumes "typed_loop segs raws ds = Some cs" "list_all2 segment_fits segs ds" "(n, v) \<in> set cs"
  shows "case v of StrValue s \<Rightarrow> s \<noteq> [] \<and> s \<in> set ds
    | IntValue i \<Rightarrow> MIN_INT64 \<le> i \<and> i \<le> MAX_INT64 \<and> int_string i \<in> set raws"
  using assms
proof (induction segs raws ds arbitrary: cs rule: typed_loop.induct)
  case (1 u w segments r raw d decoded)
  then show ?case by (auto split: capture_value.splits)
next
  case (2 name segments r raw d decoded)
  then obtain i cs' where i: "r = d" "strictInt d = Some i" "typed_loop segments raw decoded = Some cs'"
    "cs = (name, IntValue i) # cs'" by (auto split: if_splits option.splits)
  show ?case
  proof (cases "(n, v) \<in> set cs'")
    case True
    then have "case v of StrValue s \<Rightarrow> s \<noteq> [] \<and> s \<in> set decoded
        | IntValue i \<Rightarrow> MIN_INT64 \<le> i \<and> i \<le> MAX_INT64 \<and> int_string i \<in> set raw"
      using "2.IH" [of i cs'] "2.prems"(2) i by simp
    then show ?thesis by (auto split: capture_value.splits)
  next
    case False
    then have "v = IntValue i" using 2 i by simp
    then show ?thesis using i strictInt_range [of d i] strictInt_canonical [of d i] by simp
  qed
next
  case (3 name segments r raw d decoded)
  then show ?case by (auto split: capture_value.splits)
qed auto

text \<open>
  C18: Nothing malformed reaches a handler as data. In a match every text capture is a value
  the URL builder itself would accept as one segment: not empty, no dot segment, no
  separator, control or backslash; every integer capture is within 64 bits and its canonical
  decimal spelling stands in the raw target. A target with a segment that does not decode
  to such text is a bad request whatever the table.
\<close>

theorem captures_are_clean:
  "(matchActionRoute rs m (Str p) = Match identity captures mode \<and> (n, v) \<in> set captures \<longrightarrow>
      (case v of
         StrValue s \<Rightarrow> checkURLValue s
       | IntValue i \<Rightarrow> MIN_INT64 \<le> i \<and> i \<le> MAX_INT64 \<and> int_string i \<in> set (split_on 47 p)))
   \<and> ((\<exists>raw \<in> set (tl (split_on 47 p)). case decodeURIComponent raw of
         None \<Rightarrow> True
       | Some text \<Rightarrow> 47 \<in> set text \<or> list_ex control_unit text \<or> dot_segment text) \<longrightarrow>
      matchActionRoute rs m (Str p) = BadRequest)"
proof -
  have "case v of StrValue s \<Rightarrow> checkURLValue s
      | IntValue i \<Rightarrow> MIN_INT64 \<le> i \<and> i \<le> MAX_INT64 \<and> int_string i \<in> set (split_on 47 p)"
    if matched: "matchActionRoute rs m (Str p) = Match identity captures mode" and c: "(n, v) \<in> set captures"
  proof -
    obtain t r where t: "decodeSegments p = Some t" and "best_spec m t (set rs) (Some (r, captures))"
      using match_best [OF matched] by metis
    then have r: "typed r t = Some captures" by (simp add: best_spec_def)
    have raw: "dt_raw t = tl (split_on 47 p)" "decode_all (dt_raw t) = Some (dt_decoded t)"
      using t by (auto simp: decodeSegments_def Let_def split: if_splits)
    have "case v of StrValue s \<Rightarrow> s \<noteq> [] \<and> s \<in> set (dt_decoded t)
        | IntValue i \<Rightarrow> MIN_INT64 \<le> i \<and> i \<le> MAX_INT64 \<and> int_string i \<in> set (dt_raw t)"
      using typed_loop_clean [OF _ _ c] r typed_structural [OF r]
      by (simp add: typed_def structural_Cons split: if_splits)
    then show ?thesis using decode_all_clean [OF raw(2)] raw(1) list.set_sel(2) [OF split_on_not_Nil [of 47 p]]
      by (auto simp: checkURLValue_def list_all_iff split: capture_value.splits)
  qed
  moreover have "decode_all raws = None" if "raw \<in> set raws" "case decodeURIComponent raw of
         None \<Rightarrow> True
       | Some text \<Rightarrow> 47 \<in> set text \<or> list_ex control_unit text \<or> dot_segment text" for raw raws
    using that by (induction raws) (auto split: option.splits)
  then have "matchActionRoute rs m (Str p) = BadRequest" if "\<exists>raw \<in> set (tl (split_on 47 p)). case decodeURIComponent raw of
         None \<Rightarrow> True
       | Some text \<Rightarrow> 47 \<in> set text \<or> list_ex control_unit text \<or> dot_segment text"
    using that by (auto simp: matchActionRoute_def decodeSegments_def Let_def)
  ultimately show ?thesis by blast
qed

section \<open>The outcomes of dispatch\<close>

lemma sort_sorted_list: "distinct xs \<Longrightarrow> sort xs = sorted_list_of_set (set (xs :: jsstr list))"
  by (simp add: sorted_list_of_set_sort_remdups distinct_remdups_id)

text \<open>
  C39: The outcome of a well-formed target is determined by the routes it fits: not found
  exactly when no route fits its shape; a bad request exactly when a route of the method
  fits but none accepts the captures; and method-not-allowed exactly when only routes of
  other methods fit, with the sorted list of those methods, each named once, to send.
\<close>

theorem dispatch_outcomes:
  assumes "decodeSegments p = Some t"
  shows "(matchActionRoute rs m (Str p) = NotFound \<longleftrightarrow> (\<forall>r \<in> set rs. \<not> structural r (dt_decoded t)))
    \<and> (matchActionRoute rs m (Str p) = BadRequest \<longleftrightarrow>
         (\<exists>r \<in> set rs. ar_method r = m \<and> structural r (dt_decoded t))
         \<and> (\<forall>r \<in> set rs. ar_method r = m \<longrightarrow> typed r t = None))
    \<and> (\<forall>allow. matchActionRoute rs m (Str p) = MethodNotAllowed allow \<longleftrightarrow>
         (\<exists>r \<in> set rs. structural r (dt_decoded t))
         \<and> (\<forall>r \<in> set rs. structural r (dt_decoded t) \<longrightarrow> ar_method r \<noteq> m)
         \<and> allow = join_comma (sorted_list_of_set {ar_method r | r. r \<in> set rs \<and> structural r (dt_decoded t)}))"
proof -
  let ?st = "foldl (match_step m t) match_start rs"
  let ?S = "\<lambda>r. structural r (dt_decoded t)"
  let ?F = "{ar_method r | r. r \<in> set rs \<and> ar_method r \<noteq> m \<and> ?S r}"
  have best: "best_spec m t (set rs) (ms_best ?st)"
    and group: "ms_groupStructural ?st \<longleftrightarrow> (\<exists>r \<in> set rs. ar_method r = m \<and> ?S r \<and> typed r t = None)"
    and foreign: "set (ms_foreign ?st) = ?F" "distinct (ms_foreign ?st)"
    using match_loop [of m t rs] unfolding loop_spec_def by blast+
  have "ms_foreign ?st = [] \<longleftrightarrow> ?F = {}" using foreign(1) by (metis set_empty)
  then have empty: "ms_foreign ?st = [] \<longleftrightarrow> (\<forall>r \<in> set rs. ?S r \<longrightarrow> ar_method r = m)" by blast
  show ?thesis
  proof (cases "ms_best ?st")
    case (Some b)
    obtain r c where b: "b = (r, c)" by (cases b)
    then have "r \<in> set rs" "ar_method r = m" "typed r t = Some c" using best Some by (simp_all add: best_spec_def)
    moreover from this have "?S r" using typed_structural by blast
    moreover have "matchActionRoute rs m (Str p) = Match (ar_identity r) c (ar_mode r)"
      unfolding match_decoded [OF assms] Let_def Some b by simp
    ultimately show ?thesis by auto
  next
    case None
    then have untyped: "\<forall>r \<in> set rs. ar_method r = m \<longrightarrow> typed r t = None" using best by (simp add: best_spec_def)
    then have g: "ms_groupStructural ?st \<longleftrightarrow> (\<exists>r \<in> set rs. ar_method r = m \<and> ?S r)" using group by blast
    have res: "matchActionRoute rs m (Str p) =
      (if ms_groupStructural ?st then BadRequest
       else if ms_foreign ?st \<noteq> [] then MethodNotAllowed (join_comma (sorted_list_of_set ?F)) else NotFound)"
      unfolding match_decoded [OF assms] Let_def None using sort_sorted_list [OF foreign(2)] foreign(1) by simp
    have "?F = {ar_method r | r. r \<in> set rs \<and> ?S r}" if "\<not> ms_groupStructural ?st" using that g by blast
    then show ?thesis using res g empty untyped by auto
  qed
qed

section \<open>Built URLs\<close>













section \<open>A table\<close>

definition entry_of :: "string \<Rightarrow> string \<Rightarrow> string \<Rightarrow> (string \<times> string) list \<Rightarrow> jsval" where
  "entry_of identity method path captures =
     Obj [(ascii ''identity'', Str (ascii identity)), (ascii ''method'', Str (ascii method)),
          (ascii ''path'', Str (ascii path)),
          (ascii ''captures'', Arr (map (\<lambda>(n, t). Obj [(ascii ''name'', Str (ascii n)), (ascii ''type'', Str (ascii t))]) captures))]"

definition demo_entries :: jsval where
  "demo_entries = Arr
     [entry_of ''show'' ''GET'' ''/item/{slug}/{rev}'' [(''slug'', ''str''), (''rev'', ''int'')],
      entry_of ''fresh'' ''GET'' ''/item/new/{rev}'' [(''rev'', ''int'')],
      entry_of ''save'' ''POST'' ''/item/{slug}/{rev}'' [(''slug'', ''str''), (''rev'', ''int'')],
      entry_of ''list'' ''GET'' ''/a%2Fb'' []]"

definition demo_route :: "string \<Rightarrow> string \<Rightarrow> string \<Rightarrow> route_segment list \<Rightarrow> nat \<Rightarrow> string \<Rightarrow> action_route" where
  "demo_route identity method template segments statics key =
     \<lparr>ar_identity = ascii identity, ar_method = ascii method, ar_template = ascii template,
      ar_segments = segments, ar_statics = statics, ar_bunKey = ascii key, ar_mode = JsonMode\<rparr>"

definition demo_table :: "action_route list" where
  "demo_table =
     (let item = Static (ascii ''item'') (ascii ''item''); slug = Capture (ascii ''slug'') StrCapture;
          rev = Capture (ascii ''rev'') IntCapture in
      [demo_route ''show'' ''GET'' ''/item/{slug}/{rev}'' [item, slug, rev] 1 ''/item/:slug/:rev'',
       demo_route ''fresh'' ''GET'' ''/item/new/{rev}'' [item, Static (ascii ''new'') (ascii ''new''), rev] 2 ''/item/new/:rev'',
       demo_route ''save'' ''POST'' ''/item/{slug}/{rev}'' [item, slug, rev] 1 ''/item/:slug/:rev'',
       demo_route ''list'' ''GET'' ''/a%2Fb'' [Static (ascii ''a%2Fb'') (ascii ''a/b'')] 1 ''/a%2Fb''])"

lemma demo_compiles: "compileActionRoutes demo_entries = Inr demo_table"
  by code_simp

theorem dispatch_order_free_witness:
  "matchActionRoute (rev demo_table) (ascii ''GET'') (Str (ascii ''/item/new/7''))
     = Match (ascii ''fresh'') [(ascii ''rev'', IntValue 7)] JsonMode"
proof -
  have "matchActionRoute demo_table (ascii ''GET'') (Str (ascii ''/item/new/7''))
     = Match (ascii ''fresh'') [(ascii ''rev'', IntValue 7)] JsonMode" by code_simp
  then show ?thesis using dispatch_order_free [OF demo_compiles] set_rev by metis
qed

theorem captures_are_clean_witness:
  "matchActionRoute demo_table (ascii ''GET'') (Str (ascii ''/item/caf%C3%A9/-3''))
     = Match (ascii ''show'') [(ascii ''slug'', StrValue (ascii ''caf'' @ [0xE9])), (ascii ''rev'', IntValue (-3))] JsonMode
   \<and> checkURLValue (ascii ''caf'' @ [0xE9])
   \<and> matchActionRoute demo_table (ascii ''GET'') (Str (ascii ''/item/x%2Fy/1'')) = BadRequest"
proof -
  let ?p = "ascii ''/item/caf%C3%A9/-3''"
  let ?c = "[(ascii ''slug'', StrValue (ascii ''caf'' @ [0xE9])), (ascii ''rev'', IntValue (-3))]"
  have m: "matchActionRoute demo_table (ascii ''GET'') (Str ?p) = Match (ascii ''show'') ?c JsonMode" by code_simp
  have "checkURLValue (ascii ''caf'' @ [0xE9])"
    using captures_are_clean [of demo_table "ascii ''GET''" ?p "ascii ''show''" ?c JsonMode "ascii ''slug''"
        "StrValue (ascii ''caf'' @ [0xE9])"] m by simp
  moreover have "\<exists>raw \<in> set (tl (split_on 47 (ascii ''/item/x%2Fy/1''))). case decodeURIComponent raw of
         None \<Rightarrow> True
       | Some text \<Rightarrow> 47 \<in> set text \<or> list_ex control_unit text \<or> dot_segment text" by code_simp
  then have "matchActionRoute demo_table (ascii ''GET'') (Str (ascii ''/item/x%2Fy/1'')) = BadRequest"
    using captures_are_clean by blast
  ultimately show ?thesis using m by blast
qed

definition demo_target :: decoded_target where
  "demo_target = \<lparr>dt_raw = [ascii ''item'', ascii ''new'', ascii ''x''], dt_decoded = [ascii ''item'', ascii ''new'', ascii ''x'']\<rparr>"

theorem dispatch_outcomes_witness:
  "matchActionRoute demo_table (ascii ''PUT'') (Str (ascii ''/item/new/x'')) = MethodNotAllowed (ascii ''GET, POST'')
   \<and> matchActionRoute demo_table (ascii ''GET'') (Str (ascii ''/item/new/x'')) = BadRequest"
proof -
  have t: "decodeSegments (ascii ''/item/new/x'') = Some demo_target" by code_simp
  let ?S = "\<lambda>r. structural r (dt_decoded demo_target)"
  have "{ar_method r | r. r \<in> set demo_table \<and> ?S r} = set (map ar_method (filter ?S demo_table))" by auto
  moreover have "ascii ''GET, POST'' = join_comma (sorted_list_of_set (set (map ar_method (filter ?S demo_table))))" by code_simp
  ultimately have allow: "ascii ''GET, POST'' = join_comma (sorted_list_of_set {ar_method r | r. r \<in> set demo_table \<and> ?S r})"
    by simp
  have put: "\<exists>r \<in> set demo_table. ?S r" "\<forall>r \<in> set demo_table. ?S r \<longrightarrow> ar_method r \<noteq> ascii ''PUT''" by code_simp+
  have get: "\<exists>r \<in> set demo_table. ar_method r = ascii ''GET'' \<and> ?S r"
    "\<forall>r \<in> set demo_table. ar_method r = ascii ''GET'' \<longrightarrow> typed r demo_target = None" by code_simp+
  note put_outcome = dispatch_outcomes [OF t, THEN conjunct2, THEN conjunct2, THEN spec, THEN iffD2]
    and get_outcome = dispatch_outcomes [OF t, THEN conjunct2, THEN conjunct1, THEN iffD2]
  show ?thesis
    by (intro conjI put_outcome get_outcome put get allow)
qed



text \<open>
  The two exceptions the round trip has. A capture whose value spells a static segment of a
  more specific route builds the URL of that route's action; and a static segment that
  decodes to text with a slash compiles but is a bad request for every target that spells
  it, the one the builder emits included.
\<close>

lemma built_url_exceptions:
  "buildActionURL demo_table (ascii ''show'') (Arr [Str (ascii ''new''), BigInt 1]) = Inr (ascii ''/item/new/1'')
   \<and> matchActionRoute demo_table (ascii ''GET'') (Str (ascii ''/item/new/1''))
     = Match (ascii ''fresh'') [(ascii ''rev'', IntValue 1)] JsonMode
   \<and> buildActionURL demo_table (ascii ''list'') (Arr []) = Inr (ascii ''/a%2Fb'')
   \<and> matchActionRoute demo_table (ascii ''GET'') (Str (ascii ''/a%2Fb'')) = BadRequest"
  by (intro conjI; code_simp)

end
