(* ===== verification/Form.thy ===== *)
theory Form
  imports Document UriComponent
begin

text \<open>
  Form decoding, \<open>runtime/platform/form.ts\<close>: the strict gate before \<open>URLSearchParams\<close>, the
  classification pass over the submitted pairs, the structural analysis of scalar fields and
  keyed rows, the two decoders built on it, and the names that rendered inputs carry.
\<close>

section \<open>Schemas and issues\<close>

datatype field_kind = StrField | ArrayField | OptionalField | RowsField | OtherField

datatype form_field =
    FormField (ff_name: jsstr) (ff_kind: field_kind) (ff_some: "jsstr option") (ff_none: "jsstr option")
      (ff_rows: "form_rows option")
and form_rows =
    FormRows (fr_row: jsstr) (fr_order: jsstr) (fr_collection: jsstr) (fr_item: jsstr)
      (fr_fields: "form_field list")

record form_schema =
  fs_root :: jsstr
  fs_fields :: "form_field list"

datatype form_reason = FormMissing | FormRepeated | FormType | FormRowLimit | FormRowValueLimit

datatype form_exn = InvalidFormEncoding | MissingExn | RepeatedExn | CodecExn codec_exn

type_synonym 'a form = "form_exn + 'a"
type_synonym issues = "(jsstr \<times> form_reason) list"

definition liftF :: "'a codec \<Rightarrow> 'a form" where
  "liftF m = (case m of Inl e \<Rightarrow> Inl (CodecExn e) | Inr x \<Rightarrow> Inr x)"

definition bindF :: "'a form \<Rightarrow> ('a \<Rightarrow> 'b form) \<Rightarrow> 'b form" where
  "bindF m f = (case m of Inl e \<Rightarrow> Inl e | Inr x \<Rightarrow> f x)"

lemma bindF_simps [simp]: "bindF (Inl e) f = Inl e" "bindF (Inr x) f = f x"
  by (simp_all add: bindF_def)

lemma bindF_Inr_conv: "bindF m f = Inr y \<longleftrightarrow> (\<exists>x. m = Inr x \<and> f x = Inr y)"
  by (cases m) auto

lemma liftF_simps [simp]: "liftF (Inr x) = Inr x" "liftF (Inl e) = Inl (CodecExn e)"
  by (simp_all add: liftF_def)

lemma liftF_Inr_conv: "liftF m = Inr y \<longleftrightarrow> m = Inr y"
  by (cases m) simp_all

definition maxFormRows :: int where "maxFormRows = 64"
definition maxFormRowBytes :: nat where "maxFormRowBytes = 2048"

definition rowKeyPattern :: "jsstr \<Rightarrow> bool" where
  "rowKeyPattern s \<longleftrightarrow>
     1 \<le> length s \<and> length s \<le> 64 \<and> list_all (\<lambda>u. is_alnum_unit u \<or> u = 95 \<or> u = 45) s"

definition name_unit :: "code_unit \<Rightarrow> bool" where
  "name_unit u \<longleftrightarrow> is_lower_unit u \<or> is_digit_unit u"

definition fieldNamePattern :: "jsstr \<Rightarrow> bool" where
  "fieldNamePattern s \<longleftrightarrow>
     s \<noteq> [] \<and> is_lower_unit (hd s) \<and> list_all (\<lambda>part. part \<noteq> [] \<and> list_all name_unit part) (split_on 95 s)"

section \<open>The strict gate\<close>

text \<open>The test \<open>/%(?![0-9a-fA-F]{2})/\<close>: a percent sign without two hexadecimal digits.\<close>

fun bad_percent :: "jsstr \<Rightarrow> bool" where
  "bad_percent [] = False"
| "bad_percent (u # us) =
     (u = 37 \<and> (case us of h # l # _ \<Rightarrow> hex_val h = None \<or> hex_val l = None | _ \<Rightarrow> True) \<or> bad_percent us)"

definition plus_space :: "jsstr \<Rightarrow> jsstr" where
  "plus_space s = map (\<lambda>u. if u = 43 then 32 else u) s"

text \<open>A pair at its first equals sign (unit 61).\<close>

definition pair_key :: "jsstr \<Rightarrow> jsstr" where
  "pair_key pair = takeWhile (\<lambda>u. u \<noteq> 61) pair"

definition pair_value :: "jsstr \<Rightarrow> jsstr" where
  "pair_value pair = drop 1 (dropWhile (\<lambda>u. u \<noteq> 61) pair)"

fun check_pairs :: "jsstr list \<Rightarrow> unit codec" where
  "check_pairs [] = Inr ()"
| "check_pairs (pair # rest) =
     (if pair = [] then check_pairs rest
      else
        (case decodeURIComponent (plus_space (pair_key pair)) of
           None \<Rightarrow> Inl (Issue [] Utf8)
         | Some name \<Rightarrow>
             (case decodeURIComponent (plus_space (pair_value pair)) of
                None \<Rightarrow> Inl (Issue (childPath [] name) Utf8)
              | Some _ \<Rightarrow> check_pairs rest)))"

text \<open>
  What \<open>new URLSearchParams(text)\<close> lists: a leading question mark is dropped, the text is cut
  at the ampersands, and names and values are percent decoded. Its replacement of malformed
  sequences is never reached: a piece that does not decode has been refused before.
\<close>

definition decode_piece :: "jsstr \<Rightarrow> jsstr" where
  "decode_piece s = (case decodeURIComponent (plus_space s) of Some t \<Rightarrow> t | None \<Rightarrow> [])"

definition URLSearchParams :: "jsstr \<Rightarrow> (jsstr \<times> jsstr) list" where
  "URLSearchParams text =
     map (\<lambda>pair. (decode_piece (pair_key pair), decode_piece (pair_value pair)))
       (filter (\<lambda>pair. pair \<noteq> []) (split_on 38 (if startsWith text [63] then drop 1 text else text)))"

definition strictParameters :: "jsstr \<Rightarrow> (jsstr \<times> jsstr) list form" where
  "strictParameters text =
     (if bad_percent text then Inl InvalidFormEncoding
      else bindF (liftF (check_pairs (split_on 38 text))) (\<lambda>_. Inr (URLSearchParams text)))"

definition formParams :: "octet list \<Rightarrow> int \<Rightarrow> ((jsstr \<times> jsstr) list \<times> Budget) form" where
  "formParams input limit =
     (if int (length input) > limit then Inl (CodecExn (Issue [] ByteLimit))
      else
        bindF (liftF (new_Budget (max 1 limit))) (\<lambda>b.
        bindF (liftF (visit 1 [] b)) (\<lambda>b.
          (case utf8_decode (map uint input) of
             None \<Rightarrow> Inl (CodecExn (Issue [] Utf8))
           | Some cs \<Rightarrow> bindF (strictParameters (utf16_encode cs)) (\<lambda>params. Inr (params, b))))))"

section \<open>Classification\<close>

record row_entry =
  re_coll :: jsstr
  re_key :: jsstr
  re_field :: jsstr
  re_value :: jsstr

type_synonym multi = "(jsstr \<times> jsstr list) list"

record classified =
  cl_top :: multi
  cl_orders :: multi
  cl_entries :: "row_entry list"
  cl_keysInOrder :: multi
  cl_known :: "(jsstr \<times> jsstr) list"
  cl_unknown :: "jsstr list"

definition getl :: "multi \<Rightarrow> jsstr \<Rightarrow> jsstr list" where
  "getl m k = (case map_of m k of Some l \<Rightarrow> l | None \<Rightarrow> [])"

definition pushl :: "jsstr \<Rightarrow> jsstr \<Rightarrow> multi \<Rightarrow> multi" where
  "pushl k v m = js_set k (getl m k @ [v]) m"

definition trackKey :: "jsstr \<Rightarrow> jsstr \<Rightarrow> multi \<Rightarrow> multi" where
  "trackKey coll key m =
     (let seen = getl m coll in js_set coll (if key \<in> set seen then seen else seen @ [key]) m)"

text \<open>The text before and after the first \<open>][\<close>.\<close>

fun cut_brackets :: "jsstr \<Rightarrow> (jsstr \<times> jsstr) option" where
  "cut_brackets (u # v # us) =
     (if u = 93 \<and> v = 91 then Some ([], us)
      else map_option (\<lambda>(k, f). (u # k, f)) (cut_brackets (v # us)))"
| "cut_brackets _ = None"

definition parseRowEntry :: "jsstr \<Rightarrow> jsstr \<Rightarrow> (jsstr \<times> jsstr) option" where
  "parseRowEntry coll name =
     (let head = coll @ [91] in
      if \<not> startsWith name head \<or> \<not> endsWith name [93] then None
      else
        (case cut_brackets (butlast (drop (length head) name)) of
           None \<Rightarrow> None
         | Some (key, field) \<Rightarrow>
             if key = [] \<or> field = [] \<or> 91 \<in> set field \<or> 93 \<in> set field then None else Some (key, field)))"

definition rowAddress :: "jsstr \<Rightarrow> jsstr \<Rightarrow> jsstr" where
  "rowAddress coll key = coll @ [91] @ key @ [93]"

definition entryName :: "jsstr \<Rightarrow> jsstr \<Rightarrow> jsstr \<Rightarrow> jsstr" where
  "entryName coll key field = coll @ [91] @ key @ [93, 91] @ field @ [93]"

definition invalid_schema :: "'a codec" where
  "invalid_schema = Inl (Fault (TypeError ''invalid compiler form schema''))"

definition add_unknown :: "jsstr \<Rightarrow> classified \<Rightarrow> classified" where
  "add_unknown name c = c\<lparr>cl_unknown := (if name \<in> set (cl_unknown c) then cl_unknown c else cl_unknown c @ [name])\<rparr>"

text \<open>The loop over the collections for one pair, with whether one matched.\<close>

fun classify_rows :: "form_field list \<Rightarrow> jsstr \<Rightarrow> jsstr \<Rightarrow> classified \<Rightarrow> (bool \<times> classified) codec" where
  "classify_rows [] name v c = Inr (False, c)"
| "classify_rows (coll # colls) name v c =
     (case ff_rows coll of
        None \<Rightarrow> invalid_schema
      | Some rows \<Rightarrow>
          if name = fr_order rows then
            Inr (True, c\<lparr>cl_known := cl_known c @ [(name, v)],
                         cl_orders := pushl (ff_name coll) v (cl_orders c),
                         cl_keysInOrder := (if rowKeyPattern v then trackKey (ff_name coll) v (cl_keysInOrder c)
                                            else cl_keysInOrder c)\<rparr>)
          else
            (case parseRowEntry (ff_name coll) name of
               None \<Rightarrow> classify_rows colls name v c
             | Some (key, field) \<Rightarrow>
                 if rowKeyPattern key \<and> list_ex (\<lambda>f. ff_name f = field) (fr_fields rows) then
                   Inr (True, c\<lparr>cl_known := cl_known c @ [(name, v)],
                                cl_entries := cl_entries c @
                                  [\<lparr>re_coll = ff_name coll, re_key = key, re_field = field, re_value = v\<rparr>],
                                cl_keysInOrder := trackKey (ff_name coll) key (cl_keysInOrder c)\<rparr>)
                 else classify_rows colls name v c))"

definition scalars :: "form_schema \<Rightarrow> jsstr list" where
  "scalars schema = map ff_name (filter (\<lambda>f. ff_kind f \<noteq> RowsField) (fs_fields schema))"

definition colls :: "form_schema \<Rightarrow> form_field list" where
  "colls schema = filter (\<lambda>f. ff_kind f = RowsField) (fs_fields schema)"

definition classify_pair :: "form_schema \<Rightarrow> jsstr \<Rightarrow> jsval \<Rightarrow> classified \<Rightarrow> classified codec" where
  "classify_pair schema name raw c =
     (case raw of
        Str v \<Rightarrow>
          if name \<in> set (scalars schema) then
            Inr (c\<lparr>cl_known := cl_known c @ [(name, v)], cl_top := pushl name v (cl_top c)\<rparr>)
          else
            bindK (classify_rows (colls schema) name v c) (\<lambda>(matched, c).
              Inr (if matched then c else add_unknown name c))
      | _ \<Rightarrow> Inr (add_unknown name c))"

fun classify_loop :: "form_schema \<Rightarrow> (jsstr \<times> jsval) list \<Rightarrow> classified \<Rightarrow> classified codec" where
  "classify_loop schema [] c = Inr c"
| "classify_loop schema ((name, raw) # pairs) c = bindK (classify_pair schema name raw c) (classify_loop schema pairs)"

definition classify_start :: classified where
  "classify_start = \<lparr>cl_top = [], cl_orders = [], cl_entries = [], cl_keysInOrder = [], cl_known = [], cl_unknown = []\<rparr>"

definition classifyForm :: "form_schema \<Rightarrow> (jsstr \<times> jsval) list \<Rightarrow> classified codec" where
  "classifyForm schema pairs = classify_loop schema pairs classify_start"

section \<open>Rows\<close>

text \<open>The loop over the submitted order; its state is the admitted keys, the issues and the budget.\<close>

fun order_loop ::
  "jsstr \<Rightarrow> jsstr \<Rightarrow> jsstr list \<Rightarrow> jsstr list \<Rightarrow> issues \<Rightarrow> Budget \<Rightarrow> (jsstr list \<times> issues \<times> Budget) codec" where
  "order_loop order path [] ordered issues b = Inr (ordered, issues, b)"
| "order_loop order path (key # keys) ordered issues b =
     bindK (visit 2 (childPath path key) b) (\<lambda>b.
       if \<not> rowKeyPattern key then order_loop order path keys ordered (issues @ [(order, FormType)]) b
       else if key \<in> set ordered then order_loop order path keys ordered (issues @ [(order, FormRepeated)]) b
       else order_loop order path keys (ordered @ [key]) issues b)"

type_synonym row_table = "(jsstr \<times> multi) list"

fun byKey_loop :: "jsstr \<Rightarrow> row_entry list \<Rightarrow> row_table \<Rightarrow> row_table" where
  "byKey_loop coll [] table = table"
| "byKey_loop coll (entry # entries) table =
     (if re_coll entry \<noteq> coll then byKey_loop coll entries table
      else
        let fds = (case map_of table (re_key entry) of Some m \<Rightarrow> m | None \<Rightarrow> []) in
        byKey_loop coll entries (js_set (re_key entry) (pushl (re_field entry) (re_value entry) fds) table))"

fun value_checks :: "jsstr list \<Rightarrow> jsstr \<Rightarrow> jsstr \<Rightarrow> issues \<Rightarrow> Budget \<Rightarrow> (issues \<times> Budget) codec" where
  "value_checks [] path name issues b = Inr (issues, b)"
| "value_checks (text # texts) path name issues b =
     bindK (visit 2 path b) (\<lambda>b.
       value_checks texts path name
         (if length (utf8_text text) > maxFormRowBytes then issues @ [(name, FormRowValueLimit)] else issues) b)"

definition falsy :: "jsstr option \<Rightarrow> bool" where
  "falsy s \<longleftrightarrow> s = None \<or> s = Some []"

definition unknown_field :: "'a codec" where
  "unknown_field = Inl (Fault (TypeError ''unknown compiler form field''))"

text \<open>The value of an optional field; the identities have been checked to be there.\<close>

definition optional_value :: "form_field \<Rightarrow> jsstr list \<Rightarrow> cval" where
  "optional_value field values =
     (case values of
        [] \<Rightarrow> VRec (case ff_none field of Some n \<Rightarrow> n | None \<Rightarrow> []) []
      | v # _ \<Rightarrow> VRec (case ff_some field of Some n \<Rightarrow> n | None \<Rightarrow> []) [(ascii ''value'', VStr v)])"

fun row_fields ::
  "form_field list \<Rightarrow> jsstr \<Rightarrow> jsstr \<Rightarrow> multi \<Rightarrow> (jsstr \<times> cval) list \<Rightarrow> issues \<Rightarrow> Budget
    \<Rightarrow> ((jsstr \<times> cval) list \<times> issues \<times> Budget) codec" where
  "row_fields [] coll key row fds issues b = Inr (fds, issues, b)"
| "row_fields (def # defs) coll key row fds issues b =
     (let vals = getl row (ff_name def); name = entryName coll key (ff_name def);
          path = childPath (childPath (childPath [] coll) key) (ff_name def) in
      bindK (visit 2 path b) (\<lambda>b.
      bindK (value_checks vals path name issues b) (\<lambda>(issues, b).
        if ff_kind def = ArrayField then
          row_fields defs coll key row (fds @ [(ff_name def, VArr (map VStr vals))]) issues b
        else if length vals > 1 then row_fields defs coll key row fds (issues @ [(name, FormRepeated)]) b
        else if ff_kind def = StrField then
          (case vals of
             [] \<Rightarrow> row_fields defs coll key row fds (issues @ [(name, FormMissing)]) b
           | v # _ \<Rightarrow> row_fields defs coll key row (fds @ [(ff_name def, VStr v)]) issues b)
        else if ff_kind def = OptionalField then
          (if falsy (ff_some def) \<or> falsy (ff_none def) then invalid_schema
           else bindK (visit 3 path b) (\<lambda>b.
             row_fields defs coll key row (fds @ [(ff_name def, optional_value def vals)]) issues b))
        else unknown_field)))"

fun row_items ::
  "form_rows \<Rightarrow> jsstr \<Rightarrow> row_table \<Rightarrow> jsstr list \<Rightarrow> cval list \<Rightarrow> issues \<Rightarrow> Budget \<Rightarrow> (cval list \<times> issues \<times> Budget) codec" where
  "row_items rows coll table [] items issues b = Inr (items, issues, b)"
| "row_items rows coll table (key # keys) items issues b =
     (case map_of table key of
        None \<Rightarrow> row_items rows coll table keys items issues b
      | Some row \<Rightarrow>
          bindK (visit 3 (childPath (childPath [] coll) key) b) (\<lambda>b.
          bindK (row_fields (fr_fields rows) coll key row [] issues b) (\<lambda>(fds, issues, b).
            row_items rows coll table keys
              (items @ [VRec (fr_item rows) [(ascii ''key'', VStr key), (ascii ''value'', VRec (fr_row rows) fds)]])
              issues b)))"

definition missing_rows :: "jsstr \<Rightarrow> jsstr list \<Rightarrow> issues" where
  "missing_rows coll keys = map (\<lambda>key. (rowAddress coll key, FormMissing)) keys"

definition analyzeRows ::
  "jsstr \<Rightarrow> form_rows \<Rightarrow> classified \<Rightarrow> issues \<Rightarrow> Budget \<Rightarrow> nat \<Rightarrow> (cval \<times> issues \<times> Budget) codec" where
  "analyzeRows coll rows c issues b rowsLimit =
     (let path = childPath [] coll in
      bindK (visit 2 path b) (\<lambda>b.
      bindK (order_loop (fr_order rows) path (getl (cl_orders c) coll) [] issues b) (\<lambda>(ordered, issues, b).
      let table = byKey_loop coll (cl_entries c) [];
          distinct_keys = getl (cl_keysInOrder c) coll;
          limited = (length distinct_keys > rowsLimit);
          limit_issues = (if limited then [(rowAddress coll (distinct_keys ! rowsLimit), FormRowLimit)] else []);
          admitted = take rowsLimit distinct_keys;
          issues = issues @ limit_issues
            @ missing_rows coll (filter (\<lambda>key. map_of table key = None) ordered)
            @ missing_rows coll (filter (\<lambda>key. key \<notin> set ordered \<and> (\<not> limited \<or> key \<in> set admitted)) (map fst table)) in
      bindK (row_items rows coll table ordered [] issues b) (\<lambda>(items, issues, b).
        Inr (VRec (fr_collection rows) [(ascii ''order'', VArr (map VStr ordered)), (ascii ''items'', VArr items)],
             issues, b)))))"

section \<open>Forms\<close>

record analysis =
  an_value :: "cval option"
  an_raw :: "(jsstr \<times> jsstr) list"
  an_issues :: issues

fun visit_items :: "jsstr \<Rightarrow> nat \<Rightarrow> jsstr list \<Rightarrow> Budget \<Rightarrow> Budget codec" where
  "visit_items path i [] b = Inr b"
| "visit_items path i (_ # vs) b =
     bindK (visit 2 (childPath path (int_string (int i))) b) (visit_items path (Suc i) vs)"

definition rows_declared :: "form_rows \<Rightarrow> bool" where
  "rows_declared rows \<longleftrightarrow>
     fr_row rows \<noteq> [] \<and> fr_order rows \<noteq> [] \<and> fr_collection rows \<noteq> [] \<and> fr_item rows \<noteq> []"

fun form_fields ::
  "form_field list \<Rightarrow> classified \<Rightarrow> nat \<Rightarrow> (jsstr \<times> cval) list \<Rightarrow> issues \<Rightarrow> Budget
    \<Rightarrow> ((jsstr \<times> cval) list \<times> issues \<times> Budget) codec" where
  "form_fields [] c rowsLimit fds issues b = Inr (fds, issues, b)"
| "form_fields (field # rest) c rowsLimit fds issues b =
     (let path = childPath [] (ff_name field) in
      if ff_kind field = RowsField then
        (case ff_rows field of
           None \<Rightarrow> invalid_schema
         | Some rows \<Rightarrow>
             if \<not> rows_declared rows then invalid_schema
             else
               bindK (analyzeRows (ff_name field) rows c issues b rowsLimit) (\<lambda>(v, issues, b).
                 form_fields rest c rowsLimit (fds @ [(ff_name field, v)]) issues b))
      else
        bindK (visit (if ff_kind field = StrField then 1 else 2) path b) (\<lambda>b.
        let vals = getl (cl_top c) (ff_name field) in
        if ff_kind field = ArrayField then
          bindK (visit_items path 0 vals b) (\<lambda>b.
            form_fields rest c rowsLimit (fds @ [(ff_name field, VArr (map VStr vals))]) issues b)
        else if length vals > 1 then form_fields rest c rowsLimit fds (issues @ [(ff_name field, FormRepeated)]) b
        else if ff_kind field = StrField then
          (case vals of
             [] \<Rightarrow> form_fields rest c rowsLimit fds (issues @ [(ff_name field, FormMissing)]) b
           | v # _ \<Rightarrow> form_fields rest c rowsLimit (fds @ [(ff_name field, VStr v)]) issues b)
        else if ff_kind field = OptionalField then
          (if falsy (ff_some field) \<or> falsy (ff_none field) then invalid_schema
           else
             bindK (visit 3 path b) (\<lambda>b.
             bindK (if vals = [] then Inr b else visit 3 (childPath path (ascii ''value'')) b) (\<lambda>b.
               form_fields rest c rowsLimit (fds @ [(ff_name field, optional_value field vals)]) issues b)))
        else unknown_field))"

definition analyzeForm :: "form_schema \<Rightarrow> classified \<Rightarrow> Budget \<Rightarrow> nat \<Rightarrow> analysis codec" where
  "analyzeForm schema c b rowsLimit =
     bindK (form_fields (fs_fields schema) c rowsLimit [] (map (\<lambda>name. (name, FormType)) (cl_unknown c)) b)
       (\<lambda>(fds, issues, b).
         Inr \<lparr>an_value = (if issues \<noteq> [] then None else Some (VRec (fs_root schema) fds)),
              an_raw = cl_known c, an_issues = issues\<rparr>)"

definition text_pairs :: "(jsstr \<times> jsstr) list \<Rightarrow> (jsstr \<times> jsval) list" where
  "text_pairs params = map (\<lambda>(name, v). (name, Str v)) params"

definition codec_reason :: "form_reason \<Rightarrow> reason" where
  "codec_reason r = (case r of FormRowLimit \<Rightarrow> RowLimit | FormRowValueLimit \<Rightarrow> RowValueLimit | _ \<Rightarrow> TypeReason)"

definition decodeForm :: "form_schema \<Rightarrow> octet list \<Rightarrow> int \<Rightarrow> cval form" where
  "decodeForm schema input limit =
     bindF (formParams input limit) (\<lambda>(params, b).
     bindF (liftF (classifyForm schema (text_pairs params))) (\<lambda>c.
     bindF (liftF (analyzeForm schema c b (nat maxFormRows))) (\<lambda>a.
       (case an_value a of
          Some v \<Rightarrow> Inr v
        | None \<Rightarrow>
            (case hd (an_issues a) of
               (name, FormMissing) \<Rightarrow> Inl MissingExn
             | (name, FormRepeated) \<Rightarrow> Inl RepeatedExn
             | (name, r) \<Rightarrow> Inl (CodecExn (Issue (childPath [] name) (codec_reason r))))))))"

record form_identities =
  fi_rejected :: jsstr
  fi_rawEntry :: jsstr
  fi_issue :: jsstr

datatype action_form = Wire cval | Rejected cval

definition form_reason_text :: "form_reason \<Rightarrow> jsstr" where
  "form_reason_text r = ascii
     (case r of FormMissing \<Rightarrow> ''form_missing'' | FormRepeated \<Rightarrow> ''form_repeated'' | FormType \<Rightarrow> ''type''
      | FormRowLimit \<Rightarrow> ''row_limit'' | FormRowValueLimit \<Rightarrow> ''row_value_limit'')"

definition rejected_value :: "form_identities \<Rightarrow> analysis \<Rightarrow> cval" where
  "rejected_value ids a =
     VRec (fi_rejected ids)
       [(ascii ''raw'', VArr (map (\<lambda>(name, v). VRec (fi_rawEntry ids) [(ascii ''name'', VStr name), (ascii ''value'', VStr v)])
           (an_raw a))),
        (ascii ''issues'', VArr (map (\<lambda>(name, r). VRec (fi_issue ids)
           [(ascii ''name'', VStr name), (ascii ''reason'', VStr (form_reason_text r))]) (an_issues a)))]"

text \<open>The pairs appended to a \<open>FormData\<close> are the entries it lists.\<close>

definition decodeActionForm :: "form_schema \<Rightarrow> octet list \<Rightarrow> int \<Rightarrow> form_identities \<Rightarrow> int \<Rightarrow> action_form form" where
  "decodeActionForm schema input limit ids rowsLimit =
     (if fi_rejected ids = [] \<or> fi_rawEntry ids = [] \<or> fi_issue ids = []
      then Inl (CodecExn (Fault (TypeError ''invalid compiler form action'')))
      else if rowsLimit < 1 \<or> rowsLimit > maxFormRows
      then Inl (CodecExn (Fault (TypeError ''invalid compiler form rows limit'')))
      else
        bindF (formParams input limit) (\<lambda>(params, b).
        bindF (liftF (classifyForm schema (text_pairs params))) (\<lambda>c.
        bindF (liftF (analyzeForm schema c b (nat rowsLimit))) (\<lambda>a.
          Inr (case an_value a of Some v \<Rightarrow> Wire v | None \<Rightarrow> Rejected (rejected_value ids a))))))"

section \<open>Names of rendered inputs\<close>

text \<open>The three kinds of tokens are kept apart by the weak map they are in.\<close>

datatype form_token = CollectionToken jsstr | RowToken jsstr | FieldToken jsstr

type_synonym form_tokens = "form_token opaque_store"

record form_types =
  ft_unknownField :: jsstr
  ft_invalidName :: jsstr

definition name_failure :: "jsstr \<Rightarrow> jsstr \<Rightarrow> 'a completion" where
  "name_failure identity name = Domain identity [(ascii ''name'', Str name)]"

definition namedCollection :: "form_types \<Rightarrow> jsstr \<Rightarrow> form_tokens \<Rightarrow> handle completion \<times> form_tokens" where
  "namedCollection types text st =
     (if \<not> fieldNamePattern text then (name_failure (ft_unknownField types) text, st)
      else publish (CollectionToken text) st)"

definition namedField :: "form_types \<Rightarrow> jsstr \<Rightarrow> form_tokens \<Rightarrow> handle completion \<times> form_tokens" where
  "namedField types text st =
     (if \<not> fieldNamePattern text then (name_failure (ft_unknownField types) text, st)
      else publish (FieldToken text) st)"

definition rowKey :: "form_types \<Rightarrow> jsstr \<Rightarrow> form_tokens \<Rightarrow> handle completion \<times> form_tokens" where
  "rowKey types text st =
     (if \<not> rowKeyPattern text then (name_failure (ft_invalidName types) text, st)
      else publish (RowToken text) st)"

definition read_collection :: "form_tokens \<Rightarrow> handle \<Rightarrow> jsstr completion" where
  "read_collection st h = (case content st h of Some (CollectionToken s) \<Rightarrow> Ok s | _ \<Rightarrow> resource_state)"

definition read_row :: "form_tokens \<Rightarrow> handle \<Rightarrow> jsstr completion" where
  "read_row st h = (case content st h of Some (RowToken s) \<Rightarrow> Ok s | _ \<Rightarrow> resource_state)"

definition read_field :: "form_tokens \<Rightarrow> handle \<Rightarrow> jsstr completion" where
  "read_field st h = (case content st h of Some (FieldToken s) \<Rightarrow> Ok s | _ \<Rightarrow> resource_state)"

definition orderName :: "form_tokens \<Rightarrow> handle \<Rightarrow> jsstr completion" where
  "orderName st collection = bindC (read_collection st collection) (\<lambda>s. Ok (s @ ascii ''_order''))"

definition inputName :: "form_tokens \<Rightarrow> handle \<Rightarrow> handle \<Rightarrow> handle \<Rightarrow> jsstr completion" where
  "inputName st collection row field =
     bindC (read_collection st collection) (\<lambda>c.
     bindC (read_row st row) (\<lambda>r.
     bindC (read_field st field) (\<lambda>f. Ok (c @ [91] @ r @ [93, 91] @ f @ [93]))))"

definition fieldName :: "form_tokens \<Rightarrow> handle \<Rightarrow> jsstr completion" where
  "fieldName st field = read_field st field"

end
