(* ===== verification/FormProps.thy ===== *)
theory FormProps
  imports Form
begin

text \<open>
  Properties of form decoding: an accepted form is exactly the value a direct reading of the
  submitted pairs prescribes and every other form is rejected with its known pairs kept; the
  names of rendered inputs parse back to their parts; and encoded pairs pass the strict gate
  unchanged.
\<close>

section \<open>Names\<close>

definition plain_name :: "jsstr \<Rightarrow> bool" where
  "plain_name s \<longleftrightarrow> s \<noteq> [] \<and> 91 \<notin> set s \<and> 93 \<notin> set s"

lemma rowKey_plain: "rowKeyPattern k \<Longrightarrow> plain_name k"
  by (auto simp: rowKeyPattern_def plain_name_def list_all_iff unit_defs)

lemma cut_brackets_append: "93 \<notin> set k \<Longrightarrow> cut_brackets (k @ [93, 91] @ f) = Some (k, f)"
proof (induction k)
  case (Cons u k)
  then show ?case by (cases k) auto
qed simp

lemma cut_brackets_Some: "cut_brackets s = Some (k, f) \<Longrightarrow> s = k @ [93, 91] @ f"
  by (induction s arbitrary: k rule: cut_brackets.induct) (auto split: if_splits)

lemma parse_entryName:
  assumes "plain_name k" "plain_name f"
  shows "parseRowEntry coll (entryName coll k f) = Some (k, f)"
proof -
  have "cut_brackets (k @ 93 # 91 # f) = Some (k, f)"
    using cut_brackets_append [of k f] assms by (simp add: plain_name_def)
  moreover have "butlast (drop (length (coll @ [91])) (entryName coll k f)) = k @ 93 # 91 # f"
    by (simp add: entryName_def butlast_append)
  ultimately show ?thesis using assms
    by (simp add: parseRowEntry_def plain_name_def startsWith_def endsWith_iff Let_def)
       (simp add: entryName_def)
qed

lemma parse_Some:
  assumes "parseRowEntry coll n = Some (k, f)"
  shows "n = entryName coll k f"
proof -
  have h: "startsWith n (coll @ [91])" "endsWith n [93]"
    and c: "cut_brackets (butlast (drop (Suc (length coll)) n)) = Some (k, f)"
    using assms by (auto simp: parseRowEntry_def Let_def split: if_splits option.splits)
  obtain t where t: "n = coll @ [91] @ t" using h(1) by (auto simp: startsWith_iff)
  have "t \<noteq> []" using h(2) c t by auto
  moreover have "last n = 93" using h(2) by (auto simp: endsWith_iff)
  then have "last t = 93" using t \<open>t \<noteq> []\<close> by simp
  ultimately have "t = butlast t @ [93]" by (metis append_butlast_last_id)
  moreover have "butlast t = k @ [93, 91] @ f" using cut_brackets_Some [OF c] t by simp
  ultimately show ?thesis using t by (simp add: entryName_def)
qed

text \<open>The key and field a submitted name addresses in a collection, if any.\<close>

definition entry_of_name :: "jsstr \<Rightarrow> form_rows \<Rightarrow> jsstr \<Rightarrow> (jsstr \<times> jsstr) option" where
  "entry_of_name coll rows n =
     (case parseRowEntry coll n of
        Some (k, f) \<Rightarrow> if rowKeyPattern k \<and> f \<in> ff_name ` set (fr_fields rows) then Some (k, f) else None
      | None \<Rightarrow> None)"

lemma entry_of_name_iff:
  assumes "\<And>f. f \<in> set (fr_fields rows) \<Longrightarrow> plain_name (ff_name f)"
  shows "entry_of_name coll rows n = Some (k, f) \<longleftrightarrow>
    rowKeyPattern k \<and> f \<in> ff_name ` set (fr_fields rows) \<and> n = entryName coll k f"
proof
  assume "entry_of_name coll rows n = Some (k, f)"
  then show "rowKeyPattern k \<and> f \<in> ff_name ` set (fr_fields rows) \<and> n = entryName coll k f"
    by (auto simp: entry_of_name_def dest: parse_Some split: option.splits if_splits)
next
  assume a: "rowKeyPattern k \<and> f \<in> ff_name ` set (fr_fields rows) \<and> n = entryName coll k f"
  then have "plain_name k" "plain_name f" using assms rowKey_plain by auto
  then show "entry_of_name coll rows n = Some (k, f)" using a by (auto simp: entry_of_name_def parse_entryName)
qed

lemma entryName_inj:
  assumes "91 \<notin> set c" "91 \<notin> set d" "entryName c k f = entryName d l g"
  shows "c = d"
proof -
  have "takeWhile (\<lambda>u. u \<noteq> 91) (c @ [91] @ r) = c" if "91 \<notin> set c" for c r :: jsstr
    using that by (induction c) auto
  then show ?thesis using assms unfolding entryName_def by (metis append.assoc)
qed

section \<open>The reading of a form\<close>

text \<open>
  What a form means, read off the list of submitted pairs: the values of a name are those of
  the pairs with that name, in document order.
\<close>

definition values_of :: "(jsstr \<times> jsstr) list \<Rightarrow> jsstr \<Rightarrow> jsstr list" where
  "values_of ps n = map snd (filter (\<lambda>p. fst p = n) ps)"

definition scalar_value :: "form_field \<Rightarrow> jsstr list \<Rightarrow> cval option" where
  "scalar_value f vs =
     (case ff_kind f of
        ArrayField \<Rightarrow> Some (VArr (map VStr vs))
      | StrField \<Rightarrow> (case vs of [v] \<Rightarrow> Some (VStr v) | _ \<Rightarrow> None)
      | OptionalField \<Rightarrow> (if length vs > 1 then None else Some (optional_value f vs))
      | _ \<Rightarrow> None)"

definition row_field_value :: "(jsstr \<times> jsstr) list \<Rightarrow> jsstr \<Rightarrow> jsstr \<Rightarrow> form_field \<Rightarrow> (jsstr \<times> cval) option" where
  "row_field_value ps coll key def =
     (let vs = values_of ps (entryName coll key (ff_name def)) in
      if list_all (\<lambda>v. length (utf8_text v) \<le> maxFormRowBytes) vs
      then map_option (Pair (ff_name def)) (scalar_value def vs) else None)"

definition row_value :: "(jsstr \<times> jsstr) list \<Rightarrow> jsstr \<Rightarrow> form_rows \<Rightarrow> jsstr \<Rightarrow> cval option" where
  "row_value ps coll rows key =
     map_option (\<lambda>fds. VRec (fr_item rows) [(ascii ''key'', VStr key), (ascii ''value'', VRec (fr_row rows) fds)])
       (those (map (row_field_value ps coll key) (fr_fields rows)))"

definition row_keys :: "(jsstr \<times> jsstr) list \<Rightarrow> jsstr \<Rightarrow> form_rows \<Rightarrow> jsstr list" where
  "row_keys ps coll rows = List.map_filter (\<lambda>p. map_option fst (entry_of_name coll rows (fst p))) ps"

definition rows_value :: "nat \<Rightarrow> (jsstr \<times> jsstr) list \<Rightarrow> jsstr \<Rightarrow> form_rows \<Rightarrow> cval option" where
  "rows_value limit ps coll rows =
     (let order = values_of ps (fr_order rows) in
      if distinct order \<and> list_all rowKeyPattern order \<and> length order \<le> limit \<and> set order = set (row_keys ps coll rows)
      then map_option (\<lambda>items. VRec (fr_collection rows)
             [(ascii ''order'', VArr (map VStr order)), (ascii ''items'', VArr items)])
             (those (map (row_value ps coll rows) order))
      else None)"

definition field_value :: "nat \<Rightarrow> (jsstr \<times> jsstr) list \<Rightarrow> form_field \<Rightarrow> (jsstr \<times> cval) option" where
  "field_value limit ps f =
     map_option (Pair (ff_name f))
       (if ff_kind f = RowsField
        then (case ff_rows f of Some rows \<Rightarrow> rows_value limit ps (ff_name f) rows | None \<Rightarrow> None)
        else scalar_value f (values_of ps (ff_name f)))"

definition row_match :: "form_field \<Rightarrow> jsstr \<Rightarrow> bool" where
  "row_match f n \<longleftrightarrow>
     (case ff_rows f of Some rows \<Rightarrow> n = fr_order rows \<or> entry_of_name (ff_name f) rows n \<noteq> None | None \<Rightarrow> False)"

definition known_name :: "form_schema \<Rightarrow> jsstr \<Rightarrow> bool" where
  "known_name schema n \<longleftrightarrow> n \<in> set (scalars schema) \<or> list_ex (\<lambda>f. row_match f n) (colls schema)"

definition form_value :: "form_schema \<Rightarrow> nat \<Rightarrow> (jsstr \<times> jsstr) list \<Rightarrow> cval option" where
  "form_value schema limit ps =
     (if list_all (\<lambda>p. known_name schema (fst p)) ps
      then map_option (VRec (fs_root schema)) (those (map (field_value limit ps) (fs_fields schema)))
      else None)"

text \<open>Schemas as the compiler emits them.\<close>

definition scalar_field_ok :: "form_field \<Rightarrow> bool" where
  "scalar_field_ok f \<longleftrightarrow>
     ff_kind f \<in> {StrField, ArrayField, OptionalField}
     \<and> (ff_kind f = OptionalField \<longrightarrow> \<not> falsy (ff_some f) \<and> \<not> falsy (ff_none f))"

definition rows_ok :: "form_rows \<Rightarrow> bool" where
  "rows_ok rows \<longleftrightarrow>
     rows_declared rows \<and> plain_name (fr_order rows) \<and> distinct (map ff_name (fr_fields rows))
     \<and> list_all (\<lambda>f. plain_name (ff_name f) \<and> scalar_field_ok f) (fr_fields rows)"

definition field_ok :: "form_field \<Rightarrow> bool" where
  "field_ok f \<longleftrightarrow> plain_name (ff_name f) \<and>
     (if ff_kind f = RowsField then (case ff_rows f of Some rows \<Rightarrow> rows_ok rows | None \<Rightarrow> False)
      else scalar_field_ok f)"

definition orders_of :: "form_schema \<Rightarrow> jsstr list" where
  "orders_of schema = map (\<lambda>f. case ff_rows f of Some rows \<Rightarrow> fr_order rows | None \<Rightarrow> []) (colls schema)"

definition form_ok :: "form_schema \<Rightarrow> bool" where
  "form_ok schema \<longleftrightarrow>
     distinct (map ff_name (fs_fields schema)) \<and> list_all field_ok (fs_fields schema)
     \<and> distinct (orders_of schema) \<and> set (orders_of schema) \<inter> set (scalars schema) = {}"

lemma those_Cons: "those (map f (x # xs)) =
    (case f x of None \<Rightarrow> None | Some y \<Rightarrow> map_option (Cons y) (those (map f xs)))"
  by simp

lemma values_of_simps [simp]:
  "values_of [] n = []"
  "values_of (ps @ [(m, v)]) n = (if m = n then values_of ps n @ [v] else values_of ps n)"
  by (simp_all add: values_of_def)

lemma getl_pushl [simp]: "getl (pushl k v m) j = (if j = k then getl m k @ [v] else getl m j)"
  by (simp add: getl_def pushl_def)

lemma getl_trackKey:
  "getl (trackKey c k m) d = (if d = c then (if k \<in> set (getl m c) then getl m c else getl m c @ [k]) else getl m d)"
  by (cases "d = c") (simp_all add: getl_def trackKey_def Let_def split: option.splits)

section \<open>Classification\<close>

lemma colls_rows:
  assumes "form_ok schema" "f \<in> set (colls schema)"
  obtains rows where "ff_rows f = Some rows" "rows_ok rows" "plain_name (ff_name f)" "f \<in> set (fs_fields schema)"
proof -
  have "field_ok f" "ff_kind f = RowsField" "f \<in> set (fs_fields schema)"
    using assms by (auto simp: colls_def form_ok_def list_all_iff)
  then show ?thesis using that by (auto simp: field_ok_def split: option.splits)
qed

lemma rows_ok_plain: "rows_ok rows \<Longrightarrow> f \<in> set (fr_fields rows) \<Longrightarrow> plain_name (ff_name f)"
  by (auto simp: rows_ok_def list_all_iff)

lemma entry_not_plain: "\<not> plain_name (entryName c k f)"
  by (simp add: entryName_def plain_name_def)

lemma colls_name_inj:
  assumes "form_ok schema" "f \<in> set (colls schema)" "g \<in> set (colls schema)" "ff_name f = ff_name g"
  shows "f = g"
  using assms by (auto simp: colls_def form_ok_def dest: inj_onD distinct_map [THEN iffD1] simp: distinct_map inj_on_def)

lemma order_inj:
  assumes "form_ok schema" "f \<in> set (colls schema)" "g \<in> set (colls schema)"
    and "ff_rows f = Some r" "ff_rows g = Some s" "fr_order r = fr_order s"
  shows "f = g"
  using assms by (auto simp: form_ok_def orders_of_def distinct_map inj_on_def)

text \<open>A name belongs to at most one collection.\<close>

lemma row_match_inj:
  assumes ok: "form_ok schema" and f: "f \<in> set (colls schema)" and g: "g \<in> set (colls schema)"
    and m: "row_match f n" "row_match g n"
  shows "f = g"
proof -
  obtain r where r: "ff_rows f = Some r" "rows_ok r" "plain_name (ff_name f)" using colls_rows [OF ok f] .
  obtain s where s: "ff_rows g = Some s" "rows_ok s" "plain_name (ff_name g)" using colls_rows [OF ok g] .
  have e: "n = entryName (ff_name f) k x" if "entry_of_name (ff_name f) r n = Some (k, x)" for k x
    using that entry_of_name_iff [of r] rows_ok_plain [OF r(2)] by blast
  have e': "n = entryName (ff_name g) k x" if "entry_of_name (ff_name g) s n = Some (k, x)" for k x
    using that entry_of_name_iff [of s] rows_ok_plain [OF s(2)] by blast
  have "plain_name (fr_order r)" "plain_name (fr_order s)" using r s by (simp_all add: rows_ok_def)
  then consider "n = fr_order r" "n = fr_order s"
    | k x l y where "n = entryName (ff_name f) k x" "n = entryName (ff_name g) l y"
    using m r s e e' entry_not_plain by (auto simp: row_match_def) metis+
  then show ?thesis
  proof cases
    case 1
    then show ?thesis using order_inj [OF ok f g r(1) s(1)] by simp
  next
    case 2
    then have eq: "entryName (ff_name f) k x = entryName (ff_name g) l y" by simp
    have "91 \<notin> set (ff_name f)" "91 \<notin> set (ff_name g)" using r(3) s(3) by (simp_all add: plain_name_def)
    from entryName_inj [OF this eq] have "ff_name f = ff_name g" .
    then show ?thesis using colls_name_inj [OF ok f g] by simp
  qed
qed

definition row_update :: "form_field \<Rightarrow> jsstr \<Rightarrow> jsstr \<Rightarrow> classified \<Rightarrow> classified" where
  "row_update f n v c =
     (case ff_rows f of
        None \<Rightarrow> c
      | Some rows \<Rightarrow>
          if n = fr_order rows then
            c\<lparr>cl_known := cl_known c @ [(n, v)],
              cl_orders := pushl (ff_name f) v (cl_orders c),
              cl_keysInOrder := (if rowKeyPattern v then trackKey (ff_name f) v (cl_keysInOrder c) else cl_keysInOrder c)\<rparr>
          else
            (case entry_of_name (ff_name f) rows n of
               None \<Rightarrow> c
             | Some (key, field) \<Rightarrow>
                 c\<lparr>cl_known := cl_known c @ [(n, v)],
                   cl_entries := cl_entries c @ [\<lparr>re_coll = ff_name f, re_key = key, re_field = field, re_value = v\<rparr>],
                   cl_keysInOrder := trackKey (ff_name f) key (cl_keysInOrder c)\<rparr>))"

lemma classify_rows_find:
  assumes "\<And>f. f \<in> set fs \<Longrightarrow> ff_rows f \<noteq> None"
  shows "classify_rows fs n v c =
    (case find (\<lambda>f. row_match f n) fs of None \<Rightarrow> Inr (False, c) | Some f \<Rightarrow> Inr (True, row_update f n v c))"
  using assms
proof (induction fs)
  case (Cons f fs)
  then obtain rows where rows: "ff_rows f = Some rows" by fastforce
  have names: "list_ex (\<lambda>g. ff_name g = x) (fr_fields rows) \<longleftrightarrow> x \<in> ff_name ` set (fr_fields rows)" for x
    by (auto simp: list_ex_iff)
  show ?case
    using Cons rows
    by (auto simp: row_match_def row_update_def entry_of_name_def names split: option.splits)
qed simp


text \<open>What the pass has collected after a list of pairs.\<close>

definition entry_values :: "row_entry list \<Rightarrow> jsstr \<Rightarrow> jsstr \<Rightarrow> jsstr \<Rightarrow> jsstr list" where
  "entry_values es c k f = map re_value (filter (\<lambda>e. re_coll e = c \<and> re_key e = k \<and> re_field e = f) es)"

definition entry_keys :: "row_entry list \<Rightarrow> jsstr \<Rightarrow> jsstr list" where
  "entry_keys es c = map re_key (filter (\<lambda>e. re_coll e = c) es)"

definition coll_spec :: "(jsstr \<times> jsstr) list \<Rightarrow> classified \<Rightarrow> form_field \<Rightarrow> form_rows \<Rightarrow> bool" where
  "coll_spec ps c f rows \<longleftrightarrow>
     getl (cl_orders c) (ff_name f) = values_of ps (fr_order rows)
     \<and> (\<forall>k x. entry_values (cl_entries c) (ff_name f) k x =
          (if rowKeyPattern k \<and> x \<in> ff_name ` set (fr_fields rows) then values_of ps (entryName (ff_name f) k x) else []))
     \<and> entry_keys (cl_entries c) (ff_name f) = row_keys ps (ff_name f) rows
     \<and> distinct (getl (cl_keysInOrder c) (ff_name f))
     \<and> set (getl (cl_keysInOrder c) (ff_name f)) =
         {v \<in> set (values_of ps (fr_order rows)). rowKeyPattern v} \<union> set (row_keys ps (ff_name f) rows)"

definition class_spec :: "form_schema \<Rightarrow> (jsstr \<times> jsstr) list \<Rightarrow> classified \<Rightarrow> bool" where
  "class_spec schema ps c \<longleftrightarrow>
     (\<forall>n \<in> set (scalars schema). getl (cl_top c) n = values_of ps n)
     \<and> (\<forall>f \<in> set (colls schema). \<forall>rows. ff_rows f = Some rows \<longrightarrow> coll_spec ps c f rows)
     \<and> cl_known c = filter (\<lambda>p. known_name schema (fst p)) ps
     \<and> set (cl_unknown c) = {n \<in> fst ` set ps. \<not> known_name schema n} \<and> distinct (cl_unknown c)"

lemma row_keys_snoc:
  "row_keys (ps @ [(n, v)]) c rows =
     row_keys ps c rows @ (case entry_of_name c rows n of None \<Rightarrow> [] | Some (k, _) \<Rightarrow> [k])"
  by (auto simp: row_keys_def List.map_filter_def split: option.splits)

text \<open>A pair whose name belongs neither to the order nor to the rows of a collection leaves it alone.\<close>

lemma coll_spec_other:
  assumes "rows_ok rows" "ff_rows f = Some rows" "\<not> row_match f n" "coll_spec ps c f rows"
    and "getl (cl_orders c') (ff_name f) = getl (cl_orders c) (ff_name f)"
    and "entry_keys (cl_entries c') (ff_name f) = entry_keys (cl_entries c) (ff_name f)"
    and "\<And>k x. entry_values (cl_entries c') (ff_name f) k x = entry_values (cl_entries c) (ff_name f) k x"
    and "getl (cl_keysInOrder c') (ff_name f) = getl (cl_keysInOrder c) (ff_name f)"
  shows "coll_spec (ps @ [(n, v)]) c' f rows"
proof -
  have n: "n \<noteq> fr_order rows" "entry_of_name (ff_name f) rows n = None"
    using assms(2,3) by (simp_all add: row_match_def del: not_None_eq)
  then have "n \<noteq> entryName (ff_name f) k x" if "rowKeyPattern k" "x \<in> ff_name ` set (fr_fields rows)" for k x
    using that entry_of_name_iff [of rows "ff_name f" n k x] rows_ok_plain [OF assms(1)] by auto
  then show ?thesis using assms(4-) n by (auto simp: coll_spec_def row_keys_snoc)
qed

lemma entry_values_snoc:
  "entry_values (es @ [e]) c k x =
     entry_values es c k x @ (if re_coll e = c \<and> re_key e = k \<and> re_field e = x then [re_value e] else [])"
  by (simp add: entry_values_def)

lemma entry_keys_snoc:
  "entry_keys (es @ [e]) c = entry_keys es c @ (if re_coll e = c then [re_key e] else [])"
  by (simp add: entry_keys_def)

lemma coll_spec_order:
  assumes "rows_ok rows" "ff_rows f = Some rows" "n = fr_order rows" "coll_spec ps c f rows"
  shows "coll_spec (ps @ [(n, v)]) (row_update f n v c) f rows"
proof -
  have plain: "plain_name n" using assms(1,3) by (simp add: rows_ok_def)
  then have "entry_of_name (ff_name f) rows n = None"
    using entry_not_plain entry_of_name_iff [of rows "ff_name f" n] rows_ok_plain [OF assms(1)]
    by (cases "entry_of_name (ff_name f) rows n") (auto, metis)
  moreover have "n \<noteq> entryName (ff_name f) k x" for k x using plain entry_not_plain by metis
  ultimately show ?thesis using assms
    by (auto simp: coll_spec_def row_update_def row_keys_snoc getl_trackKey)
qed

lemma coll_spec_entry:
  assumes "rows_ok rows" "ff_rows f = Some rows" "entry_of_name (ff_name f) rows n = Some (key, field)"
    and "coll_spec ps c f rows"
  shows "coll_spec (ps @ [(n, v)]) (row_update f n v c) f rows"
proof -
  have n: "rowKeyPattern key" "field \<in> ff_name ` set (fr_fields rows)" "n = entryName (ff_name f) key field"
    using assms(3) entry_of_name_iff [of rows] rows_ok_plain [OF assms(1)] by blast+
  have "n \<noteq> fr_order rows" using n(3) entry_not_plain assms(1) unfolding rows_ok_def by metis
  moreover have "n = entryName (ff_name f) k x \<longleftrightarrow> k = key \<and> x = field"
    if "rowKeyPattern k" "x \<in> ff_name ` set (fr_fields rows)" for k x
    using that assms(3) entry_of_name_iff [of rows "ff_name f" n k x] rows_ok_plain [OF assms(1)] n by auto
  ultimately show ?thesis using assms n
    by (auto simp: coll_spec_def row_update_def row_keys_snoc getl_trackKey entry_values_snoc entry_keys_snoc)
qed

lemma row_update_others:
  assumes "ff_name g \<noteq> ff_name f"
  shows "getl (cl_orders (row_update f n v c)) (ff_name g) = getl (cl_orders c) (ff_name g)"
    and "entry_keys (cl_entries (row_update f n v c)) (ff_name g) = entry_keys (cl_entries c) (ff_name g)"
    and "entry_values (cl_entries (row_update f n v c)) (ff_name g) k x = entry_values (cl_entries c) (ff_name g) k x"
    and "getl (cl_keysInOrder (row_update f n v c)) (ff_name g) = getl (cl_keysInOrder c) (ff_name g)"
  using assms
  by (auto simp: row_update_def getl_trackKey entry_values_snoc entry_keys_snoc split: option.splits)

lemma row_update_rest:
  "cl_top (row_update f n v c) = cl_top c" "cl_unknown (row_update f n v c) = cl_unknown c"
  by (auto simp: row_update_def split: option.splits)

lemma row_update_known: "row_match f n \<Longrightarrow> cl_known (row_update f n v c) = cl_known c @ [(n, v)]"
  by (auto simp: row_match_def row_update_def split: option.splits)

lemma row_match_not_scalar:
  assumes ok: "form_ok schema" and f: "f \<in> set (colls schema)" and m: "row_match f n"
  shows "n \<notin> set (scalars schema)"
proof
  assume n: "n \<in> set (scalars schema)"
  obtain r where r: "ff_rows f = Some r" "rows_ok r" using colls_rows [OF ok f] .
  have "plain_name n" using n ok by (auto simp: scalars_def form_ok_def field_ok_def list_all_iff)
  moreover have "n = entryName (ff_name f) k x" if "entry_of_name (ff_name f) r n = Some (k, x)" for k x
    using that entry_of_name_iff [of r] rows_ok_plain [OF r(2)] by blast
  ultimately have "n = fr_order r" using m r entry_not_plain by (auto simp: row_match_def)
  then have "n \<in> set (orders_of schema)" using f r(1) by (force simp: orders_of_def)
  then show False using n ok by (auto simp: form_ok_def)
qed

lemma class_spec_row:
  assumes ok: "form_ok schema" and spec: "class_spec schema ps c"
    and f: "f \<in> set (colls schema)" and m: "row_match f n"
  shows "class_spec schema (ps @ [(n, v)]) (row_update f n v c)"
proof -
  have ns: "n \<notin> set (scalars schema)" using row_match_not_scalar [OF ok f m] .
  have kn: "known_name schema n" using f m by (auto simp: known_name_def list_ex_iff)
  have "coll_spec (ps @ [(n, v)]) (row_update f n v c) g rows"
    if g: "g \<in> set (colls schema)" "ff_rows g = Some rows" for g rows
  proof (cases "g = f")
    case True
    have "rows_ok rows" using colls_rows [OF ok g(1)] g(2) by auto
    moreover have "coll_spec ps c f rows" using spec g True by (auto simp: class_spec_def)
    moreover have "n = fr_order rows \<or> entry_of_name (ff_name f) rows n \<noteq> None"
      using m g(2) True by (auto simp: row_match_def)
    ultimately show ?thesis using True g(2) coll_spec_order [of rows f n] coll_spec_entry [of rows f n]
      by (auto simp: not_None_eq)
  next
    case False
    then have "\<not> row_match g n" using row_match_inj [OF ok f g(1) m] by blast
    moreover have "ff_name g \<noteq> ff_name f" using colls_name_inj [OF ok g(1) f] False by blast
    moreover have "rows_ok rows" using colls_rows [OF ok g(1)] g(2) by auto
    moreover have "coll_spec ps c g rows" using spec g by (auto simp: class_spec_def)
    ultimately show ?thesis using g(2) by (intro coll_spec_other [of rows g n ps c]) (simp_all add: row_update_others)
  qed
  moreover have "n \<noteq> s" if "s \<in> set (scalars schema)" for s using ns that by blast
  ultimately show ?thesis using spec kn row_update_known [OF m]
    by (auto simp: class_spec_def row_update_rest)
qed

lemma class_spec_scalar:
  assumes ok: "form_ok schema" and spec: "class_spec schema ps c" and n: "n \<in> set (scalars schema)"
  shows "class_spec schema (ps @ [(n, v)])
    (c\<lparr>cl_known := cl_known c @ [(n, v)], cl_top := pushl n v (cl_top c)\<rparr>)" (is "class_spec schema _ ?c")
proof -
  have "coll_spec (ps @ [(n, v)]) ?c g rows" if g: "g \<in> set (colls schema)" "ff_rows g = Some rows" for g rows
  proof (rule coll_spec_other [of rows g n ps c])
    show "rows_ok rows" using colls_rows [OF ok g(1)] g(2) by auto
    show "\<not> row_match g n" using row_match_not_scalar [OF ok g(1)] n by blast
    show "coll_spec ps c g rows" using spec g by (auto simp: class_spec_def)
  qed (use g in simp_all)
  moreover have "known_name schema n" using n by (simp add: known_name_def)
  ultimately show ?thesis using spec by (auto simp: class_spec_def)
qed

lemma class_spec_unknown:
  assumes ok: "form_ok schema" and spec: "class_spec schema ps c" and n: "\<not> known_name schema n"
  shows "class_spec schema (ps @ [(n, v)]) (add_unknown n c)"
proof -
  have "coll_spec (ps @ [(n, v)]) (add_unknown n c) g rows" if g: "g \<in> set (colls schema)" "ff_rows g = Some rows" for g rows
  proof (rule coll_spec_other [of rows g n ps c])
    show "rows_ok rows" using colls_rows [OF ok g(1)] g(2) by auto
    show "\<not> row_match g n" using n g by (auto simp: known_name_def list_ex_iff)
    show "coll_spec ps c g rows" using spec g by (auto simp: class_spec_def)
  qed (use g in \<open>simp_all add: add_unknown_def\<close>)
  moreover have "getl (cl_top c) s = values_of (ps @ [(n, v)]) s" if "s \<in> set (scalars schema)" for s
    using spec n that by (auto simp: class_spec_def known_name_def)
  moreover have "{m \<in> fst ` set (ps @ [(n, v)]). \<not> known_name schema m} = insert n {m \<in> fst ` set ps. \<not> known_name schema m}"
    using n by auto
  ultimately show ?thesis using spec n unfolding class_spec_def
    by (simp add: add_unknown_def) blast
qed

lemma class_spec_pair:
  assumes ok: "form_ok schema" and spec: "class_spec schema ps c"
  shows "\<exists>c'. classify_pair schema n (Str v) c = Inr c' \<and> class_spec schema (ps @ [(n, v)]) c'"
proof (cases "n \<in> set (scalars schema)")
  case True
  then show ?thesis using class_spec_scalar [OF ok spec True, of v] by (simp add: classify_pair_def)
next
  case False
  have rows: "ff_rows f \<noteq> None" if "f \<in> set (colls schema)" for f
    by (rule colls_rows [OF ok that]) simp
  show ?thesis
  proof (cases "find (\<lambda>f. row_match f n) (colls schema)")
    case None
    then have "\<not> known_name schema n" using False by (auto simp: known_name_def find_None_iff list_ex_iff)
    then show ?thesis using class_spec_unknown [OF ok spec] None False classify_rows_find [OF rows, of "colls schema"]
      by (simp add: classify_pair_def)
  next
    case (Some f)
    then have f: "f \<in> set (colls schema)" "row_match f n" by (auto simp: find_Some_iff)
    then show ?thesis using class_spec_row [OF ok spec f] Some False classify_rows_find [OF rows, of "colls schema"]
      by (simp add: classify_pair_def)
  qed
qed

lemma class_spec_loop:
  assumes "form_ok schema" "class_spec schema ps c"
  shows "\<exists>c'. classify_loop schema (text_pairs qs) c = Inr c' \<and> class_spec schema (ps @ qs) c'"
  using assms(2)
proof (induction qs arbitrary: ps c)
  case (Cons q qs)
  obtain n v where q: "q = (n, v)" by (cases q)
  obtain c1 where "classify_pair schema n (Str v) c = Inr c1" "class_spec schema (ps @ [q]) c1"
    using class_spec_pair [OF assms(1) Cons.prems] q by blast
  then show ?case using Cons.IH [of "ps @ [q]" c1] q by (simp add: text_pairs_def)
qed (simp add: text_pairs_def)

lemma classifyForm_spec:
  assumes "form_ok schema"
  shows "\<exists>c. classifyForm schema (text_pairs ps) = Inr c \<and> class_spec schema ps c"
proof -
  have "class_spec schema [] classify_start"
    by (auto simp: class_spec_def classify_start_def coll_spec_def getl_def entry_values_def entry_keys_def
        row_keys_def List.map_filter_def)
  then show ?thesis using class_spec_loop [OF assms, of "[]" classify_start ps] by (simp add: classifyForm_def)
qed

section \<open>Analysis\<close>

text \<open>
  A pass of the analysis is sound for a reading: it stops only at the node limit, it only
  adds issues, and it adds none exactly when the reading has a value, which it then returns.
\<close>

definition sound :: "issues \<Rightarrow> 'a option \<Rightarrow> ('a \<times> issues \<times> Budget) codec \<Rightarrow> bool" where
  "sound issues spec r =
     (case r of
        Inl e \<Rightarrow> (\<exists>path. e = Issue path NodeLimit)
      | Inr (res, issues', b) \<Rightarrow>
          (\<exists>ex. issues' = issues @ ex \<and> (case spec of None \<Rightarrow> ex \<noteq> [] | Some x \<Rightarrow> ex = [] \<and> res = x)))"

lemma visit_cases: "d \<le> 64 \<Longrightarrow> visit d path b = Inl (Issue path NodeLimit) \<or> (\<exists>b'. visit d path b = Inr b')"
  by (simp add: visit_def maxDepth_def)

lemma sound_limit [simp]: "sound issues spec (Inl (Issue path NodeLimit))"
  by (simp add: sound_def)

lemma sound_Inr [simp]: "sound issues (Some x) (Inr (x, issues, b))"
  by (simp add: sound_def)

lemma sound_visit:
  assumes "d \<le> 64" "\<And>b'. sound issues spec (k b')"
  shows "sound issues spec (bindK (visit d path b) k)"
  using visit_cases [OF assms(1), of path b] assms(2) by auto

lemma sound_more: "sound (issues @ ex) s r \<Longrightarrow> ex \<noteq> [] \<Longrightarrow> sound issues None r"
  by (auto simp: sound_def split: sum.splits)

lemma sound_bind:
  assumes "sound issues s r"
    and "\<And>res b. s = Some res \<Longrightarrow> sound issues spec (k (res, issues, b))"
    and "\<And>res ex b. s = None \<Longrightarrow> ex \<noteq> [] \<Longrightarrow> \<exists>s'. sound (issues @ ex) s' (k (res, issues @ ex, b))"
    and "s = None \<Longrightarrow> spec = None"
  shows "sound issues spec (bindK r k)"
proof (cases r)
  case (Inl e)
  then show ?thesis using assms(1) by (auto simp: sound_def)
next
  case (Inr p)
  obtain res issues' b where p: "p = (res, issues', b)" by (metis prod_cases3)
  obtain ex where ex: "issues' = issues @ ex" "case s of None \<Rightarrow> ex \<noteq> [] | Some x \<Rightarrow> ex = [] \<and> res = x"
    using assms(1) Inr p by (auto simp: sound_def)
  show ?thesis
  proof (cases s)
    case None
    then obtain s' where "sound (issues @ ex) s' (k (res, issues @ ex, b))" using assms(3) ex(2) by fastforce
    then have "sound issues None (k (res, issues @ ex, b))" using ex(2) None by (auto intro: sound_more)
    then show ?thesis using Inr p ex(1) assms(4) None by simp
  next
    case (Some x)
    then show ?thesis using assms(2) [of x b] ex Inr p by simp
  qed
qed

lemma order_loop_sound:
  "sound issues (if list_all rowKeyPattern keys \<and> distinct keys \<and> set keys \<inter> set ordered = {} then Some (ordered @ keys) else None)
     (order_loop order path keys ordered issues b)"
proof (induction keys arbitrary: ordered issues b)
  case (Cons key keys)
  show ?case
  proof (simp only: order_loop.simps, rule sound_visit, goal_cases)
    case (2 b')
    consider (bad) "\<not> rowKeyPattern key" | (seen) "rowKeyPattern key" "key \<in> set ordered"
      | (new) "rowKeyPattern key" "key \<notin> set ordered" by blast
    then show ?case
    proof cases
      case bad
      then show ?thesis using Cons.IH [of "issues @ [(order, FormType)]" ordered b'] by (auto intro: sound_more)
    next
      case seen
      then show ?thesis using Cons.IH [of "issues @ [(order, FormRepeated)]" ordered b'] by (auto intro: sound_more)
    next
      case new
      then have "(list_all rowKeyPattern (key # keys) \<and> distinct (key # keys) \<and> set (key # keys) \<inter> set ordered = {}) \<longleftrightarrow>
          (list_all rowKeyPattern keys \<and> distinct keys \<and> set keys \<inter> set (ordered @ [key]) = {})"
        by auto
      then show ?thesis using Cons.IH [of issues "ordered @ [key]" b'] new by (simp only: if_False simp_thms append.simps append_assoc)
    qed
  qed simp
qed simp

lemma value_checks_sound:
  "value_checks vals path name issues b = Inl e \<Longrightarrow> \<exists>p. e = Issue p NodeLimit"
  "value_checks vals path name issues b = Inr (issues', b') \<Longrightarrow>
     \<exists>ex. issues' = issues @ ex \<and> (ex = [] \<longleftrightarrow> list_all (\<lambda>v. length (utf8_text v) \<le> maxFormRowBytes) vals)"
proof (induction vals arbitrary: issues b)
  case (Cons v vals)
  { case 1
    then show ?case using visit_cases [of 2 path b] Cons.IH(1) by auto
  next
    case 2
    then obtain b1 where b1: "value_checks vals path name
        (if length (utf8_text v) > maxFormRowBytes then issues @ [(name, FormRowValueLimit)] else issues) b1 = Inr (issues', b')"
      by (auto simp: bindK_Inr_conv)
    from Cons.IH(2) [OF this] show ?case by (cases "length (utf8_text v) > maxFormRowBytes") auto }
qed auto

text \<open>The reading of one row in terms of the table built from the entries.\<close>

definition row_field_of :: "multi \<Rightarrow> form_field \<Rightarrow> (jsstr \<times> cval) option" where
  "row_field_of row def =
     (let vs = getl row (ff_name def) in
      if list_all (\<lambda>v. length (utf8_text v) \<le> maxFormRowBytes) vs
      then map_option (Pair (ff_name def)) (scalar_value def vs) else None)"

lemma those_step:
  "map_option (append xs) (those (map f (y # ys))) =
     (case f y of None \<Rightarrow> None | Some z \<Rightarrow> map_option (append (xs @ [z])) (those (map f ys)))"
  by (cases "those (map f ys)") (simp_all split: option.splits)

lemma map_append_Nil [simp]: "map_option (append []) x = x"
  by (cases x) simp_all

lemma sound_checks:
  assumes "\<And>b. P \<Longrightarrow> sound issues spec (k (issues, b))"
    and "\<And>ex b. ex \<noteq> [] \<Longrightarrow> \<exists>s. sound (issues @ ex) s (k (issues @ ex, b))"
    and P: "P \<longleftrightarrow> list_all (\<lambda>v. length (utf8_text v) \<le> maxFormRowBytes) vals"
  shows "sound issues (if P then spec else None) (bindK (value_checks vals path name issues b) k)"
proof (cases "value_checks vals path name issues b")
  case (Inl e)
  then show ?thesis using value_checks_sound(1) [OF Inl] by auto
next
  case (Inr r)
  obtain issues' b' where r: "r = (issues', b')" by (cases r)
  obtain ex where ex: "issues' = issues @ ex" "ex = [] \<longleftrightarrow> P"
    using value_checks_sound(2) [OF Inr [unfolded r]] P by blast
  show ?thesis
  proof (cases P)
    case True
    then show ?thesis using assms(1) [of b'] ex Inr r by simp
  next
    case False
    then obtain s where "sound (issues @ ex) s (k (issues @ ex, b'))" using assms(2) ex(2) by blast
    then show ?thesis using False ex Inr r by (auto intro: sound_more)
  qed
qed

lemma scalar_cases:
  assumes "scalar_field_ok f"
  obtains (array) "ff_kind f = ArrayField" | (str) "ff_kind f = StrField"
    | (optional) "ff_kind f = OptionalField" "\<not> falsy (ff_some f)" "\<not> falsy (ff_none f)"
  using assms by (auto simp: scalar_field_ok_def)

lemma row_fields_sound:
  assumes "list_all scalar_field_ok defs"
  shows "sound issues (map_option (append fds) (those (map (row_field_of row) defs)))
    (row_fields defs coll key row fds issues b)"
  using assms
proof (induction defs arbitrary: fds issues b)
  case (Cons def defs)
  let ?vs = "getl row (ff_name def)" and ?n = "entryName coll key (ff_name def)"
  let ?P = "list_all (\<lambda>v. length (utf8_text v) \<le> maxFormRowBytes) ?vs"
  let ?rest = "\<lambda>fds. map_option (append fds) (those (map (row_field_of row) defs))"
  let ?spec = "case scalar_value def ?vs of None \<Rightarrow> None | Some z \<Rightarrow> ?rest (fds @ [(ff_name def, z)])"
  have IH: "sound i (?rest fds) (row_fields defs coll key row fds i b)" for i fds b using Cons by simp
  have IHm: "sound i None (row_fields defs coll key row fds (i @ [x]) b)" for i fds b x
    using sound_more [OF IH [of "i @ [x]" fds b]] by simp
  have spec: "map_option (append fds) (those (map (row_field_of row) (def # defs))) = (if ?P then ?spec else None)"
    unfolding those_step by (auto simp: row_field_of_def Let_def split: option.splits)
  let ?k = "\<lambda>(issues, b).
        if ff_kind def = ArrayField then
          row_fields defs coll key row (fds @ [(ff_name def, VArr (map VStr ?vs))]) issues b
        else if length ?vs > 1 then row_fields defs coll key row fds (issues @ [(?n, FormRepeated)]) b
        else if ff_kind def = StrField then
          (case ?vs of
             [] \<Rightarrow> row_fields defs coll key row fds (issues @ [(?n, FormMissing)]) b
           | v # _ \<Rightarrow> row_fields defs coll key row (fds @ [(ff_name def, VStr v)]) issues b)
        else if ff_kind def = OptionalField then
          (if falsy (ff_some def) \<or> falsy (ff_none def) then invalid_schema
           else bindK (visit 3 (childPath (childPath (childPath [] coll) key) (ff_name def)) b) (\<lambda>b.
             row_fields defs coll key row (fds @ [(ff_name def, optional_value def ?vs)]) issues b))
        else unknown_field"
  have ok: "scalar_field_ok def" using Cons.prems by simp
  have k: "sound i ?spec (?k (i, b))" for i b
    using ok
  proof (cases rule: scalar_cases)
    case array
    then show ?thesis using IH by (simp add: scalar_value_def)
  next
    case str
    consider "?vs = []" | v where "?vs = [v]" | v w vs where "?vs = v # w # vs"
      by (metis list.exhaust)
    then show ?thesis using str IH IHm by cases (simp_all add: scalar_value_def)
  next
    case optional
    then show ?thesis using IH IHm
      by (cases "length ?vs > 1") (simp_all add: scalar_value_def sound_visit)
  qed
  show ?case unfolding spec row_fields.simps Let_def
    by (rule sound_visit, simp, rule sound_checks, rule k, rule exI, rule k, rule refl)
qed simp

definition table_row :: "row_table \<Rightarrow> jsstr \<Rightarrow> multi" where
  "table_row table key = (case map_of table key of Some row \<Rightarrow> row | None \<Rightarrow> [])"

definition row_item_of :: "form_rows \<Rightarrow> row_table \<Rightarrow> jsstr \<Rightarrow> cval option" where
  "row_item_of rows table key =
     map_option (\<lambda>fds. VRec (fr_item rows) [(ascii ''key'', VStr key), (ascii ''value'', VRec (fr_row rows) fds)])
       (those (map (row_field_of (table_row table key)) (fr_fields rows)))"

lemma row_items_sound:
  assumes "list_all scalar_field_ok (fr_fields rows)"
  shows "sound issues (map_option (append items)
      (those (map (row_item_of rows table) (filter (\<lambda>k. map_of table k \<noteq> None) keys))))
    (row_items rows coll table keys items issues b)"
proof (induction keys arbitrary: items issues b)
  case (Cons key keys)
  show ?case
  proof (cases "map_of table key")
    case None
    then show ?thesis using Cons by simp
  next
    case (Some row)
    let ?rest = "\<lambda>items. map_option (append items)
      (those (map (row_item_of rows table) (filter (\<lambda>k. map_of table k \<noteq> None) keys)))"
    let ?item = "\<lambda>fds. VRec (fr_item rows) [(ascii ''key'', VStr key), (ascii ''value'', VRec (fr_row rows) fds)]"
    have fds: "sound i (those (map (row_field_of row) (fr_fields rows)))
        (row_fields (fr_fields rows) coll key row [] i b)" for i b
      using row_fields_sound [OF assms, of i "[]"] by simp
    have spec: "map_option (append items)
        (those (map (row_item_of rows table) (filter (\<lambda>k. map_of table k \<noteq> None) (key # keys)))) =
      (case those (map (row_field_of row) (fr_fields rows)) of None \<Rightarrow> None | Some fs \<Rightarrow> ?rest (items @ [?item fs]))"
      unfolding filter.simps Some
      by (cases "those (map (row_field_of row) (fr_fields rows))")
         (simp_all add: those_step row_item_of_def table_row_def Some del: list.map those.simps)
    show ?thesis unfolding spec row_items.simps Some option.case
    proof (rule sound_visit, simp, rule sound_bind [OF fds])
      show "sound issues (case those (map (row_field_of row) (fr_fields rows)) of None \<Rightarrow> None | Some fs \<Rightarrow> ?rest (items @ [?item fs]))
          (case (res, issues, b') of (fds, issues, b) \<Rightarrow> row_items rows coll table keys (items @ [?item fds]) issues b)"
        if "those (map (row_field_of row) (fr_fields rows)) = Some res" for res b'
        unfolding that option.case prod.case by (rule Cons.IH)
    qed (use Cons.IH in auto)
  qed
qed simp

lemma table_row_js_set: "table_row (js_set k row t) j = (if j = k then row else table_row t j)"
  by (simp add: table_row_def)

lemma byKey_row:
  "getl (table_row (byKey_loop coll es table) k) f = getl (table_row table k) f @ entry_values es coll k f"
proof (induction coll es table rule: byKey_loop.induct)
  case (2 coll e es table)
  then show ?case
    by (cases "re_coll e = coll") (auto simp: entry_values_def table_row_js_set Let_def table_row_def [symmetric])
qed (simp add: entry_values_def)

lemma byKey_keys: "fst ` set (byKey_loop coll es table) = fst ` set table \<union> set (entry_keys es coll)"
proof (induction coll es table rule: byKey_loop.induct)
  case (2 coll e es table)
  then show ?case by (cases "re_coll e = coll") (auto simp: entry_keys_def Let_def)
qed (simp add: entry_keys_def)

lemma map_of_fst: "map_of t k \<noteq> None \<longleftrightarrow> k \<in> fst ` set t"
  by (metis map_of_eq_None_iff)

text \<open>The reading of a collection in the terms of the pass and in those of the pairs.\<close>

lemma row_item_of_value:
  assumes rows: "rows_ok rows" and spec: "coll_spec ps c f rows" and k: "rowKeyPattern key"
    and table: "table = byKey_loop (ff_name f) (cl_entries c) []"
  shows "row_item_of rows table key = row_value ps (ff_name f) rows key"
proof -
  have "getl (table_row table key) x = values_of ps (entryName (ff_name f) key x)"
    if "x \<in> ff_name ` set (fr_fields rows)" for x
    using spec k that table byKey_row [of "ff_name f" "cl_entries c" "[]" key x]
    by (simp add: coll_spec_def table_row_def getl_def)
  then have "row_field_of (table_row table key) def = row_field_value ps (ff_name f) key def"
    if "def \<in> set (fr_fields rows)" for def
    using that by (simp add: row_field_of_def row_field_value_def)
  then have eq: "map (row_field_of (table_row table key)) (fr_fields rows) = map (row_field_value ps (ff_name f) key) (fr_fields rows)"
    by simp
  show ?thesis unfolding row_item_of_def row_value_def eq ..
qed

text \<open>The four conditions on the keys of a collection.\<close>

definition keys_ok :: "nat \<Rightarrow> (jsstr \<times> jsstr) list \<Rightarrow> jsstr \<Rightarrow> form_rows \<Rightarrow> bool" where
  "keys_ok limit ps coll rows \<longleftrightarrow>
     (let order = values_of ps (fr_order rows) in
      distinct order \<and> list_all rowKeyPattern order \<and> length order \<le> limit \<and> set order = set (row_keys ps coll rows))"

lemma keys_ok_issues:
  assumes spec: "coll_spec ps c f rows" and order: "order = values_of ps (fr_order rows)"
    and ok: "list_all rowKeyPattern order" "distinct order"
    and table: "table = byKey_loop (ff_name f) (cl_entries c) []"
    and keys: "keys = getl (cl_keysInOrder c) (ff_name f)"
  shows "keys_ok limit ps (ff_name f) rows \<longleftrightarrow>
    \<not> length keys > limit \<and> filter (\<lambda>key. map_of table key = None) order = []
    \<and> filter (\<lambda>key. key \<notin> set order \<and> (\<not> length keys > limit \<or> key \<in> set (take limit keys))) (map fst table) = []"
proof -
  have tk: "fst ` set table = set (row_keys ps (ff_name f) rows)"
    using byKey_keys [of "ff_name f" "cl_entries c" "[]"] spec table by (simp add: coll_spec_def)
  then have m1: "filter (\<lambda>key. map_of table key = None) order = [] \<longleftrightarrow> set order \<subseteq> set (row_keys ps (ff_name f) rows)"
    by (auto simp: filter_empty_conv map_of_eq_None_iff)
  have ks: "set keys = set order \<union> set (row_keys ps (ff_name f) rows)" "distinct keys"
    using spec keys order ok(1) by (auto simp: coll_spec_def list_all_iff)
  have len: "length keys = length order" if "set order = set (row_keys ps (ff_name f) rows)"
    using that ks ok(2) by (metis distinct_card sup.idem)
  have m2: "filter (\<lambda>key. key \<notin> set order \<and> (\<not> length keys > limit \<or> key \<in> set (take limit keys))) (map fst table) = []
      \<longleftrightarrow> set (row_keys ps (ff_name f) rows) \<subseteq> set order" if "\<not> length keys > limit"
    using that tk by (auto simp: filter_empty_conv)
  show ?thesis
    using m1 m2 len ok order unfolding keys_ok_def Let_def by (cases "length keys > limit") auto
qed

lemma sound_weak: "sound (issues @ ex) s r \<Longrightarrow> \<exists>s'. sound issues s' r"
  by (cases "ex = []") (auto dest: sound_more)

lemma sound_map:
  assumes "sound issues s r"
  shows "sound issues (map_option g s) (bindK r (\<lambda>(x, issues, b). Inr (g x, issues, b)))"
  using assms by (cases r) (auto simp: sound_def split: option.splits)

lemma sound_extend:
  assumes "sound (issues @ ex) s r" "ex = [] \<Longrightarrow> spec = s" "ex \<noteq> [] \<Longrightarrow> spec = None"
  shows "sound issues spec r"
  using assms sound_more by (cases "ex = []") auto

lemma rows_value_keys:
  assumes rows: "rows_ok rows" and spec: "coll_spec ps c f rows" and ok: "keys_ok limit ps (ff_name f) rows"
    and table: "table = byKey_loop (ff_name f) (cl_entries c) []" and order: "order = values_of ps (fr_order rows)"
  shows "rows_value limit ps (ff_name f) rows =
    map_option (\<lambda>items. VRec (fr_collection rows) [(ascii ''order'', VArr (map VStr order)), (ascii ''items'', VArr items)])
      (those (map (row_item_of rows table) (filter (\<lambda>k. map_of table k \<noteq> None) order)))"
proof -
  have q: "list_all rowKeyPattern order" "distinct order" using ok order by (simp_all add: keys_ok_def Let_def)
  have "filter (\<lambda>key. map_of table key = None) order = []"
    using keys_ok_issues [OF spec order q table refl, of limit] ok by simp
  then have all: "filter (\<lambda>k. map_of table k \<noteq> None) order = order" by (simp add: filter_empty_conv filter_id_conv)
  have eq: "map (row_item_of rows table) order = map (row_value ps (ff_name f) rows) order"
    using row_item_of_value [OF rows spec _ table] q(1) by (simp add: list_all_iff)
  show ?thesis unfolding all eq using ok order by (simp add: rows_value_def keys_ok_def Let_def)
qed

lemma analyzeRows_sound:
  assumes rows: "rows_ok rows" and spec: "coll_spec ps c f rows"
  shows "sound issues (rows_value limit ps (ff_name f) rows) (analyzeRows (ff_name f) rows c issues b limit)"
proof -
  let ?order = "values_of ps (fr_order rows)"
  let ?table = "byKey_loop (ff_name f) (cl_entries c) []"
  let ?keys = "getl (cl_keysInOrder c) (ff_name f)"
  let ?wrap = "\<lambda>ordered items. VRec (fr_collection rows)
    [(ascii ''order'', VArr (map VStr ordered)), (ascii ''items'', VArr items)]"
  let ?Q = "list_all rowKeyPattern ?order \<and> distinct ?order"
  let ?ex = "\<lambda>ordered. (if length ?keys > limit then [(rowAddress (ff_name f) (?keys ! limit), FormRowLimit)] else [])
    @ missing_rows (ff_name f) (filter (\<lambda>key. map_of ?table key = None) ordered)
    @ missing_rows (ff_name f)
        (filter (\<lambda>key. key \<notin> set ordered \<and> (\<not> length ?keys > limit \<or> key \<in> set (take limit ?keys))) (map fst ?table))"
  have "getl (cl_orders c) (ff_name f) = ?order" using spec by (simp add: coll_spec_def)
  then have loop: "sound i (if ?Q then Some ?order else None)
      (order_loop (fr_order rows) path (getl (cl_orders c) (ff_name f)) [] i b)" for i path b
    using order_loop_sound [of i ?order "[]" "fr_order rows" path b] 
    by (simp only: append_Nil list.set(1) Int_empty_right simp_thms)
  have fds: "list_all scalar_field_ok (fr_fields rows)" using rows by (auto simp: rows_ok_def list_all_iff)
  note items = sound_map [OF row_items_sound [OF fds, where items = "[]" and table = ?table, unfolded map_append_Nil]]
  have ex: "?ex ?order = [] \<longleftrightarrow> keys_ok limit ps (ff_name f) rows" if ?Q
    using keys_ok_issues [OF spec refl _ _ refl refl, of limit] that by (auto simp: missing_rows_def)
  have none: "rows_value limit ps (ff_name f) rows = None" if "\<not> keys_ok limit ps (ff_name f) rows"
    using that by (auto simp: rows_value_def keys_ok_def Let_def)
  show ?thesis
    unfolding analyzeRows_def Let_def
  proof (rule sound_visit, simp, rule sound_bind [OF loop], goal_cases)
    case (1 b1 ordered b2)
    then have q: ?Q and o: "ordered = ?order" by (auto split: if_splits)
    show ?case unfolding prod.case o
      by (rule sound_extend [where ex = "?ex ?order"], rule items [where g = "?wrap ?order"])
         (use ex [OF q] none rows_value_keys [OF rows spec _ refl refl] in blast)+
  next
    case (2 b1 ordered ex b2)
    show ?case unfolding prod.case by (rule sound_weak, rule items [where g = "?wrap ordered"])
  next
    case (3 b1)
    then show ?case using none by (auto simp: keys_ok_def Let_def split: if_splits)
  qed
qed

text \<open>Codec steps that only touch the budget.\<close>

definition node_step :: "Budget codec \<Rightarrow> bool" where
  "node_step r \<longleftrightarrow> (case r of Inl e \<Rightarrow> (\<exists>path. e = Issue path NodeLimit) | Inr _ \<Rightarrow> True)"

lemma node_visit: "d \<le> 64 \<Longrightarrow> node_step (visit d path b)"
  using visit_cases [of d path b] by (auto simp: node_step_def)

lemma node_visit_items: "node_step (visit_items path i vs b)"
proof (induction vs arbitrary: i b)
  case (Cons v vs)
  then show ?case using visit_cases [of 2 "childPath path (int_string (int i))" b] by (auto simp: node_step_def)
qed (simp add: node_step_def)

lemma sound_node:
  assumes "node_step r" "\<And>b'. sound issues spec (k b')"
  shows "sound issues spec (bindK r k)"
  using assms by (cases r) (auto simp: node_step_def)

lemma form_fields_sound:
  assumes "list_all field_ok fs"
    and "\<And>f. f \<in> set fs \<Longrightarrow> ff_kind f \<noteq> RowsField \<Longrightarrow> getl (cl_top c) (ff_name f) = values_of ps (ff_name f)"
    and "\<And>f rows. f \<in> set fs \<Longrightarrow> ff_kind f = RowsField \<Longrightarrow> ff_rows f = Some rows \<Longrightarrow> coll_spec ps c f rows"
  shows "sound issues (map_option (append fds) (those (map (field_value limit ps) fs)))
    (form_fields fs c limit fds issues b)"
  using assms
proof (induction fs arbitrary: fds issues b)
  case (Cons f fs)
  let ?rest = "\<lambda>fds. map_option (append fds) (those (map (field_value limit ps) fs))"
  have IH: "sound i (?rest fds) (form_fields fs c limit fds i b)" for i fds b using Cons by simp
  have IHm: "sound i None (form_fields fs c limit fds (i @ [x]) b)" for i fds b x
    using sound_more [OF IH [of "i @ [x]" fds b]] by simp
  show ?case
  proof (cases "ff_kind f = RowsField")
    case True
    then obtain rows where rows: "ff_rows f = Some rows" "rows_ok rows" "rows_declared rows"
      using Cons.prems(1) by (auto simp: field_ok_def rows_ok_def split: option.splits)
    have r: "sound i (rows_value limit ps (ff_name f) rows) (analyzeRows (ff_name f) rows c i b limit)" for i b
      using Cons.prems(3) [of f rows] True rows by (intro analyzeRows_sound) simp_all
    have spec: "map_option (append fds) (those (map (field_value limit ps) (f # fs))) =
      (case rows_value limit ps (ff_name f) rows of None \<Rightarrow> None | Some v \<Rightarrow> ?rest (fds @ [(ff_name f, v)]))"
      unfolding those_step using True rows(1) by (simp add: field_value_def split: option.splits)
    show ?thesis unfolding spec
      using True rows(1,3) by (auto intro!: sound_bind [OF r] IH)
  next
    case False
    let ?vs = "getl (cl_top c) (ff_name f)"
    have vs: "?vs = values_of ps (ff_name f)" using Cons.prems(2) False by simp
    have spec: "map_option (append fds) (those (map (field_value limit ps) (f # fs))) =
      (case scalar_value f ?vs of None \<Rightarrow> None | Some v \<Rightarrow> ?rest (fds @ [(ff_name f, v)]))"
      unfolding those_step vs using False by (simp add: field_value_def split: option.splits)
    have "scalar_field_ok f" using Cons.prems(1) False by (simp add: field_ok_def)
    then show ?thesis
    proof (cases rule: scalar_cases)
      case array
      then show ?thesis unfolding spec form_fields.simps Let_def using IH by (simp add: scalar_value_def sound_visit sound_node [OF node_visit_items])
    next
      case str
      consider "?vs = []" | v where "?vs = [v]" | v w vs where "?vs = v # w # vs" by (metis list.exhaust)
      then show ?thesis unfolding spec form_fields.simps Let_def
        using str IH IHm by cases (simp_all add: scalar_value_def sound_visit)
    next
      case optional
      then have n: "node_step (if ?vs = [] then Inr b else visit 3 path b)" for b path
        using node_visit [of 3] by (simp add: node_step_def)
      show ?thesis unfolding spec form_fields.simps Let_def using optional IH IHm n
        by (cases "length ?vs > 1") (simp_all add: scalar_value_def sound_visit sound_node)
    qed
  qed
qed simp

lemma analyzeForm_reads:
  assumes ok: "form_ok schema" and spec: "class_spec schema ps c"
  shows "case analyzeForm schema c b limit of
      Inl e \<Rightarrow> (\<exists>path. e = Issue path NodeLimit)
    | Inr a \<Rightarrow> an_value a = form_value schema limit ps \<and> an_raw a = filter (\<lambda>p. known_name schema (fst p)) ps
        \<and> (an_value a = None \<longleftrightarrow> an_issues a \<noteq> [])"
proof -
  let ?u = "map (\<lambda>name. (name, FormType)) (cl_unknown c)"
  have fields: "list_all field_ok (fs_fields schema)" using ok by (simp add: form_ok_def)
  have s: "sound ?u (those (map (field_value limit ps) (fs_fields schema))) (form_fields (fs_fields schema) c limit [] ?u b)"
    using form_fields_sound [OF fields, where fds = "[]" and c = c and ps = ps] spec
    by (simp add: class_spec_def scalars_def colls_def)
  have u: "cl_unknown c = [] \<longleftrightarrow> list_all (\<lambda>p. known_name schema (fst p)) ps"
  proof -
    have "cl_unknown c = [] \<longleftrightarrow> {n \<in> fst ` set ps. \<not> known_name schema n} = {}"
      using spec unfolding class_spec_def by (metis set_empty)
    then show ?thesis by (auto simp: list_all_iff)
  qed
  show ?thesis
  proof (cases "form_fields (fs_fields schema) c limit [] ?u b")
    case (Inl e)
    then show ?thesis using s by (simp add: analyzeForm_def sound_def)
  next
    case (Inr r)
    obtain fds issues b' where r: "r = (fds, issues, b')" by (metis prod_cases3)
    obtain ex where ex: "issues = ?u @ ex" "case those (map (field_value limit ps) (fs_fields schema)) of
        None \<Rightarrow> ex \<noteq> [] | Some x \<Rightarrow> ex = [] \<and> fds = x"
      using s Inr r by (auto simp: sound_def)
    have "issues = [] \<longleftrightarrow> form_value schema limit ps \<noteq> None"
      using ex u by (auto simp: form_value_def split: option.splits)
    moreover have "form_value schema limit ps = Some (VRec (fs_root schema) fds)" if "issues = []"
      using that ex u by (auto simp: form_value_def split: option.splits)
    ultimately show ?thesis using Inr r spec by (auto simp: analyzeForm_def class_spec_def)
  qed
qed

text \<open>
  C16: Form decoding is exactly the reading of the submitted pairs. For a schema the compiler
  emits, the action decoder returns the value that the pairs denote (every scalar field read
  off the pairs of its name, every collection off its order and its rows, within the row
  limit) when they denote one, and otherwise a rejection with at least one issue that keeps
  exactly the pairs of known names in document order; the throwing decoder returns the same
  values. The only other outcome is the shared node limit.
\<close>

theorem form_decodes_exactly:
  assumes "form_ok schema" and "formParams input limit = Inr (ps, b)"
    and "fi_rejected ids \<noteq> []" "fi_rawEntry ids \<noteq> []" "fi_issue ids \<noteq> []" and "1 \<le> rowsLimit" "rowsLimit \<le> maxFormRows"
  shows "((\<exists>path. decodeActionForm schema input limit ids rowsLimit = Inl (CodecExn (Issue path NodeLimit)))
      \<or> (\<exists>issues. decodeActionForm schema input limit ids rowsLimit =
           Inr (case form_value schema (nat rowsLimit) ps of
                  Some v \<Rightarrow> Wire v
                | None \<Rightarrow> Rejected (rejected_value ids \<lparr>an_value = None,
                    an_raw = filter (\<lambda>p. known_name schema (fst p)) ps, an_issues = issues\<rparr>))
           \<and> (form_value schema (nat rowsLimit) ps = None \<longleftrightarrow> issues \<noteq> [])))
    \<and> ((\<exists>path. decodeForm schema input limit = Inl (CodecExn (Issue path NodeLimit)))
      \<or> (\<forall>v. decodeForm schema input limit = Inr v \<longleftrightarrow> form_value schema (nat maxFormRows) ps = Some v))"
proof -
  obtain c where c: "classifyForm schema (text_pairs ps) = Inr c" "class_spec schema ps c"
    using classifyForm_spec [OF assms(1)] by blast
  note reads = analyzeForm_reads [OF assms(1) c(2), where b = b]
  have limits: "\<not> rowsLimit < 1" "\<not> maxFormRows < rowsLimit" using assms by simp_all
  have run: "decodeActionForm schema input limit ids rowsLimit =
      bindF (liftF (analyzeForm schema c b (nat rowsLimit))) (\<lambda>a.
        Inr (case an_value a of Some v \<Rightarrow> Wire v | None \<Rightarrow> Rejected (rejected_value ids a)))"
    using assms(3-5) limits by (simp add: decodeActionForm_def assms(2) c(1))
  have act: "(\<exists>path. decodeActionForm schema input limit ids rowsLimit = Inl (CodecExn (Issue path NodeLimit)))
      \<or> (\<exists>issues. decodeActionForm schema input limit ids rowsLimit =
           Inr (case form_value schema (nat rowsLimit) ps of
                  Some v \<Rightarrow> Wire v
                | None \<Rightarrow> Rejected (rejected_value ids \<lparr>an_value = None,
                    an_raw = filter (\<lambda>p. known_name schema (fst p)) ps, an_issues = issues\<rparr>))
           \<and> (form_value schema (nat rowsLimit) ps = None \<longleftrightarrow> issues \<noteq> []))"
  proof (cases "analyzeForm schema c b (nat rowsLimit)")
    case (Inl e)
    then show ?thesis using reads [of "nat rowsLimit"] run by auto
  next
    case (Inr a)
    then have a: "an_value a = form_value schema (nat rowsLimit) ps" "an_raw a = filter (\<lambda>p. known_name schema (fst p)) ps"
      "an_value a = None \<longleftrightarrow> an_issues a \<noteq> []" using reads [of "nat rowsLimit"] by auto
    then show ?thesis using Inr run
      by (intro disjI2 exI [of _ "an_issues a"]) (auto simp: rejected_value_def split: option.splits)
  qed
  have "decodeForm schema input limit = bindF (liftF (analyzeForm schema c b (nat maxFormRows))) (\<lambda>a.
       (case an_value a of
          Some v \<Rightarrow> Inr v
        | None \<Rightarrow>
            (case hd (an_issues a) of
               (name, FormMissing) \<Rightarrow> Inl MissingExn
             | (name, FormRepeated) \<Rightarrow> Inl RepeatedExn
             | (name, r) \<Rightarrow> Inl (CodecExn (Issue (childPath [] name) (codec_reason r))))))"
    by (simp add: decodeForm_def assms(2) c(1))
  then have "(\<exists>path. decodeForm schema input limit = Inl (CodecExn (Issue path NodeLimit)))
      \<or> (\<forall>v. decodeForm schema input limit = Inr v \<longleftrightarrow> form_value schema (nat maxFormRows) ps = Some v)"
    using reads [of "nat maxFormRows"]
    by (cases "analyzeForm schema c b (nat maxFormRows)") (auto split: option.splits prod.splits form_reason.splits)
  with act show ?thesis by blast
qed

section \<open>Rendered names\<close>

lemma split_on_units: "u \<in> set s \<Longrightarrow> u = c \<or> (\<exists>p \<in> set (split_on c s). u \<in> set p)"
  by (induction s) (auto split: list.splits)

lemma fieldName_plain:
  assumes "fieldNamePattern s"
  shows "plain_name s"
proof -
  have "u = 95 \<or> name_unit u" if "u \<in> set s" for u
    using split_on_units [OF that, of 95] assms by (auto simp: fieldNamePattern_def list_all_iff)
  from this [of 91] this [of 93] have "91 \<notin> set s" "93 \<notin> set s" by (auto simp: name_unit_def unit_defs)
  then show ?thesis using assms by (simp add: plain_name_def fieldNamePattern_def)
qed

text \<open>
  The names of rendered inputs are the names the decoder understands. Whatever
  collection, row key and field the form interface accepts, the input name it renders from
  their tokens parses, for that collection, to exactly that key and field, and for no other
  collection; and a token of one kind is never read as one of another.
\<close>

lemma rendered_names_parse:
  assumes "store_ok st" and "namedCollection types coll st = (Ok hc, st1)"
    and "rowKey types key st1 = (Ok hr, st2)" and "namedField types field st2 = (Ok hf, st3)"
  shows "\<exists>n. inputName st3 hc hr hf = Ok n \<and> parseRowEntry coll n = Some (key, field)
    \<and> (\<forall>other. fieldNamePattern other \<longrightarrow> other \<noteq> coll \<longrightarrow> parseRowEntry other n = None)
    \<and> orderName st3 hc = Ok (coll @ ascii ''_order'') \<and> fieldName st3 hf = Ok field
    \<and> inputName st3 hr hc hf = resource_state \<and> fieldName st3 hc = resource_state"
proof -
  have c: "fieldNamePattern coll" "publish (CollectionToken coll) st = (Ok hc, st1)"
    using assms(2) by (auto simp: namedCollection_def name_failure_def split: if_splits)
  have r: "rowKeyPattern key" "publish (RowToken key) st1 = (Ok hr, st2)"
    using assms(3) by (auto simp: rowKey_def name_failure_def split: if_splits)
  have f: "fieldNamePattern field" "publish (FieldToken field) st2 = (Ok hf, st3)"
    using assms(4) by (auto simp: namedField_def name_failure_def split: if_splits)
  note p1 = publish_ok [OF assms(1) c(2)]
  note p2 = publish_ok [OF p1(2) r(2)]
  note p3 = publish_ok [OF p2(2) f(2)]
  have tokens: "content st3 hc = Some (CollectionToken coll)" "content st3 hr = Some (RowToken key)"
    "content st3 hf = Some (FieldToken field)"
    using p1(1) p2(1) p3(1) extendsD [OF p2(3)] extendsD [OF p3(3)] by auto
  have plain: "plain_name coll" "plain_name key" "plain_name field"
    using fieldName_plain c(1) f(1) rowKey_plain r(1) by auto
  have other: "parseRowEntry other (entryName coll key field) = None" if "fieldNamePattern other" "other \<noteq> coll" for other
  proof (rule ccontr)
    assume "parseRowEntry other (entryName coll key field) \<noteq> None"
    then obtain k x where "entryName coll key field = entryName other k x" using parse_Some by fastforce
    moreover have "91 \<notin> set other" using fieldName_plain [OF that(1)] by (simp add: plain_name_def)
    moreover have "91 \<notin> set coll" using plain by (simp add: plain_name_def)
    ultimately show False using that(2) entryName_inj by metis
  qed
  show ?thesis
    using tokens other parse_entryName [OF plain(2,3), of coll]
    by (simp add: inputName_def orderName_def fieldName_def read_collection_def read_row_def read_field_def
        entryName_def resource_state_def)
qed

section \<open>Encoded pairs\<close>

definition form_encode :: "jsstr \<Rightarrow> jsstr" where
  "form_encode s = concat (map encode_point (utf16_decode s))"

definition form_piece :: "jsstr \<times> jsstr \<Rightarrow> jsstr" where
  "form_piece p = form_encode (fst p) @ [61] @ form_encode (snd p)"

definition form_text :: "(jsstr \<times> jsstr) list \<Rightarrow> jsstr" where
  "form_text ps = join_on 38 (map form_piece ps)"

lemma form_encode_enc: "isWellFormed s \<Longrightarrow> encodeURIComponent s = Some (form_encode s)"
  by (simp add: encodeURIComponent_def form_encode_def)

lemmas form_encode_ok = uri.dec_enc [OF form_encode_enc] uri.enc_alphabet [OF form_encode_enc]

lemma form_encode_free:
  assumes "isWellFormed s"
  shows "38 \<notin> set (form_encode s)" "43 \<notin> set (form_encode s)" "61 \<notin> set (form_encode s)" "63 \<notin> set (form_encode s)"
  using uri.enc_free [OF form_encode_enc [OF assms]] by simp_all

lemma bad_percent_escape:
  assumes "0 \<le> b" "b < 256"
  shows "bad_percent (percent_escape b @ s) = bad_percent s"
proof -
  have d: "0 \<le> b div 16" "b div 16 < 16" "0 \<le> b mod 16" "b mod 16 < 16" using assms by auto
  then have "upper_hex (b div 16) \<noteq> 37" "upper_hex (b mod 16) \<noteq> 37"
    using upper_hex_alnum by (fastforce simp: unit_defs)+
  then show ?thesis using d by (simp add: percent_escape_def)
qed

lemma bad_percent_escapes:
  "list_all (\<lambda>b. 0 \<le> b \<and> b < 256) bs \<Longrightarrow> bad_percent (concat (map percent_escape bs) @ s) = bad_percent s"
  by (induction bs) (simp_all add: bad_percent_escape)

lemma bad_percent_point: "scalar c \<Longrightarrow> bad_percent (encode_point c @ s) = bad_percent s"
  using bad_percent_escapes [OF utf8_of_range, of c s] not_percent_unreserved [of "word_of_int c"]
  by (auto simp: encode_point_def)

lemma bad_percent_encode:
  assumes "isWellFormed t"
  shows "bad_percent (form_encode t @ s) = bad_percent s"
proof -
  have "list_all scalar cs \<Longrightarrow> bad_percent (concat (map encode_point cs) @ s) = bad_percent s" for cs
    by (induction cs) (simp_all add: bad_percent_point)
  then show ?thesis using utf16_encode_decode [OF assms] by (simp add: form_encode_def)
qed

definition pairs_wf :: "(jsstr \<times> jsstr) list \<Rightarrow> bool" where
  "pairs_wf ps \<longleftrightarrow> list_all (\<lambda>p. isWellFormed (fst p) \<and> isWellFormed (snd p)) ps"

lemma form_text_Cons: "form_text (p # ps) = form_piece p @ (if ps = [] then [] else 38 # form_text ps)"
  by (cases ps) (simp_all add: form_text_def)

lemma bad_percent_text: "pairs_wf ps \<Longrightarrow> \<not> bad_percent (form_text ps)"
proof (induction ps)
  case (Cons p ps)
  then show ?case using bad_percent_encode [of "snd p" "[]"]
    by (simp add: form_text_Cons form_piece_def pairs_wf_def bad_percent_encode)
qed (simp add: form_text_def)

lemma plus_space_free: "43 \<notin> set s \<Longrightarrow> plus_space s = s"
  by (induction s) (auto simp: plus_space_def)

lemma piece_parts:
  assumes "isWellFormed k" "isWellFormed v"
  shows "pair_key (form_piece (k, v)) = form_encode k" "pair_value (form_piece (k, v)) = form_encode v"
proof -
  have k: "\<And>u. u \<in> set (form_encode k) \<Longrightarrow> u \<noteq> 61" using form_encode_free(3) [OF assms(1)] by blast
  show "pair_key (form_piece (k, v)) = form_encode k"
    using k by (simp add: pair_key_def form_piece_def takeWhile_append2)
  show "pair_value (form_piece (k, v)) = form_encode v"
    using k by (simp add: pair_value_def form_piece_def dropWhile_append2)
qed

lemma piece_decodes:
  assumes "isWellFormed k" "isWellFormed v"
  shows "decodeURIComponent (plus_space (pair_key (form_piece (k, v)))) = Some k"
    and "decodeURIComponent (plus_space (pair_value (form_piece (k, v)))) = Some v"
  using piece_parts [OF assms] form_encode_ok(1) form_encode_free(2) assms by (simp_all add: plus_space_free)

lemma form_text_split:
  assumes "pairs_wf ps" "ps \<noteq> []"
  shows "split_on 38 (form_text ps) = map form_piece ps"
  unfolding form_text_def
proof (rule join_split_on)
  fix q assume "q \<in> set (map form_piece ps)"
  then show "38 \<notin> set q" using assms(1) form_encode_free(1) by (auto simp: pairs_wf_def list_all_iff form_piece_def)
qed (use assms in simp)

lemma check_pieces: "pairs_wf ps \<Longrightarrow> check_pairs (map form_piece ps) = Inr ()"
proof (induction ps)
  case (Cons p ps)
  obtain k v where "p = (k, v)" by (cases p)
  then show ?case using Cons piece_decodes [of k v] by (simp add: pairs_wf_def)
qed simp

lemma form_text_units:
  assumes "pairs_wf ps" "u \<in> set (form_text ps)"
  shows "uri_unit u \<or> u = 61 \<or> u = 38"
  using assms
proof (induction ps)
  case (Cons p ps)
  then show ?case using form_encode_ok(2) [of "fst p" u] form_encode_ok(2) [of "snd p" u]
    by (auto simp: form_text_Cons form_piece_def pairs_wf_def split: if_splits)
qed (simp add: form_text_def)

lemma params_of_text:
  assumes "pairs_wf ps"
  shows "strictParameters (form_text ps) = Inr ps"
proof (cases "ps = []")
  case True
  then show ?thesis by (simp add: strictParameters_def form_text_def URLSearchParams_def startsWith_def)
next
  case False
  have "\<not> startsWith (form_text ps) [63]"
    using form_text_units [OF assms, of 63] by (auto simp: startsWith_iff)
  moreover have "filter (\<lambda>pair. pair \<noteq> []) (map form_piece ps) = map form_piece ps"
    by (auto simp: filter_id_conv form_piece_def)
  moreover have "(decode_piece (pair_key (form_piece p)), decode_piece (pair_value (form_piece p))) = p" if "p \<in> set ps" for p
    using piece_decodes [of "fst p" "snd p"] assms that by (auto simp: pairs_wf_def list_all_iff decode_piece_def)
  then have "map ((\<lambda>pair. (decode_piece (pair_key pair), decode_piece (pair_value pair))) \<circ> form_piece) ps = ps"
    by (intro map_idI) simp
  ultimately have "URLSearchParams (form_text ps) = ps"
    using form_text_split [OF assms False] by (simp add: URLSearchParams_def)
  then show ?thesis using bad_percent_text [OF assms] form_text_split [OF assms False] check_pieces [OF assms]
    by (simp add: strictParameters_def)
qed

lemma ascii_wf: "list_all (\<lambda>u. uint u < 128) s \<Longrightarrow> isWellFormed s"
  by (induction s rule: isWellFormed.induct) (auto simp: is_high_surrogate_def is_low_surrogate_def in_range_def)

text \<open>
  Submitted text survives. Any list of pairs of well-formed strings, percent encoded and
  joined as a form body, passes the strict gate within the byte limit and comes out as
  exactly that list, with one node charged.
\<close>

lemma form_body_roundtrip:
  assumes "pairs_wf ps" and "int (length (utf8_text (form_text ps))) \<le> limit" and "limit \<le> 67108864"
  shows "formParams (map word_of_int (utf8_text (form_text ps))) limit
    = Inr (ps, \<lparr>bytes = max 1 limit, remaining = max 1 limit, nodes = 1\<rparr>)"
proof -
  have "uint u < 128" if "u \<in> set (form_text ps)" for u
    using form_text_units [OF assms(1) that] by (auto simp: uri_unit_def uri_unreserved_def unit_defs)
  then have "isWellFormed (form_text ps)" by (intro ascii_wf) (simp add: list_all_iff)
  then have "decodeText (map word_of_int (utf8_text (form_text ps))) limit = Inr (form_text ps)"
    using assms(2) by (rule decodeText_utf8)
  then obtain cs where "utf8_decode (map uint (map (word_of_int :: int \<Rightarrow> octet) (utf8_text (form_text ps)))) = Some cs"
    "utf16_encode cs = form_text ps" by (auto simp: decodeText_def split: if_splits option.splits)
  moreover have "new_Budget (max 1 limit) = Inr \<lparr>bytes = max 1 limit, remaining = max 1 limit, nodes = 0\<rparr>"
    using assms(3) by (auto simp: new_Budget_def safe_int_def MAX_SAFE_INTEGER_def)
  ultimately show ?thesis using assms(2) params_of_text [OF assms(1)]
    by (simp add: formParams_def visit_def maxDepth_def maxNodes_def)
qed

section \<open>A form\<close>

definition demo_form :: form_schema where
  "demo_form = \<lparr>fs_root = ascii ''cart'',
     fs_fields =
       [FormField (ascii ''title'') StrField None None None,
        FormField (ascii ''note'') OptionalField (Some (ascii ''some'')) (Some (ascii ''none'')) None,
        FormField (ascii ''tags'') ArrayField None None None,
        FormField (ascii ''lines'') RowsField None None
          (Some (FormRows (ascii ''line'') (ascii ''lines_order'') (ascii ''lines'') (ascii ''item'')
            [FormField (ascii ''qty'') StrField None None None]))]\<rparr>"

definition demo_pairs :: "(jsstr \<times> jsstr) list" where
  "demo_pairs =
     [(ascii ''title'', ascii ''a&b''), (ascii ''lines_order'', ascii ''k2''), (ascii ''lines_order'', ascii ''k1''),
      (ascii ''lines[k1][qty]'', ascii ''1''), (ascii ''tags'', ascii ''x''), (ascii ''lines[k2][qty]'', [0xE9])]"

definition demo_body :: "octet list" where
  "demo_body = map word_of_int (utf8_text (form_text demo_pairs))"

definition demo_wire :: cval where
  "demo_wire =
     (let line = (\<lambda>k q. VRec (ascii ''item'')
            [(ascii ''key'', VStr (ascii k)), (ascii ''value'', VRec (ascii ''line'') [(ascii ''qty'', VStr q)])]) in
      VRec (ascii ''cart'')
        [(ascii ''title'', VStr (ascii ''a&b'')), (ascii ''note'', VRec (ascii ''none'') []), (ascii ''tags'', VArr [VStr (ascii ''x'')]),
         (ascii ''lines'', VRec (ascii ''lines'')
           [(ascii ''order'', VArr [VStr (ascii ''k2''), VStr (ascii ''k1'')]),
            (ascii ''items'', VArr [line ''k2'' [0xE9], line ''k1'' (ascii ''1'')])])])"

definition demo_form_ids :: form_identities where
  "demo_form_ids = \<lparr>fi_rejected = ascii ''rejected'', fi_rawEntry = ascii ''raw'', fi_issue = ascii ''issue''\<rparr>"

lemma demo_form_facts:
  "form_ok demo_form" "pairs_wf demo_pairs" "form_value demo_form 64 demo_pairs = Some demo_wire"
  "form_value demo_form 64 (demo_pairs @ [(ascii ''lines[k1][qty]'', ascii ''2'')]) = None"
  "int (length (utf8_text (form_text demo_pairs))) \<le> 1000"
  "\<not> (\<exists>path. decodeActionForm demo_form demo_body 1000 demo_form_ids 64 = Inl (CodecExn (Issue path NodeLimit)))"
proof -
  show "\<not> (\<exists>path. decodeActionForm demo_form demo_body 1000 demo_form_ids 64 = Inl (CodecExn (Issue path NodeLimit)))"
  proof -
    have "isl (decodeActionForm demo_form demo_body 1000 demo_form_ids 64) = False" by code_simp
    then show ?thesis by (metis sum.disc(1))
  qed
qed code_simp+

theorem form_decodes_exactly_witness:
  "decodeActionForm demo_form demo_body 1000 demo_form_ids 64 = Inr (Wire demo_wire)"
proof -
  have p: "formParams demo_body 1000 = Inr (demo_pairs, \<lparr>bytes = 1000, remaining = 1000, nodes = 1\<rparr>)" by code_simp
  have ids: "fi_rejected demo_form_ids \<noteq> []" "fi_rawEntry demo_form_ids \<noteq> []" "fi_issue demo_form_ids \<noteq> []" by code_simp+
  show ?thesis
    using form_decodes_exactly [OF demo_form_facts(1) p ids, of 64] demo_form_facts(3,6) by (auto simp: maxFormRows_def)
qed

definition demo_types :: form_types where
  "demo_types = \<lparr>ft_unknownField = ascii ''unknown_field'', ft_invalidName = ascii ''invalid_name''\<rparr>"

end
