(* ===== verification/Media.thy ===== *)
theory Media
  imports CodecBudget Text
begin

text \<open>
  Media types (\<open>runtime/transport/media.ts\<close>): the strict reading of a \<open>content-type\<close> value and the
  two gates built on it. The regular expressions are written as scanners; the classes that
  follow each other in them are disjoint, so a match never depends on backtracking.
\<close>

section \<open>Tokens\<close>

definition media_token_unit :: "code_unit \<Rightarrow> bool" where
  "media_token_unit u \<longleftrightarrow> is_alnum_unit u
     \<or> u \<in> {33, 35, 36, 37, 38, 39, 42, 43, 45, 46, 94, 95, 96, 124, 126}"

definition blank :: "code_unit \<Rightarrow> bool" where
  "blank u \<longleftrightarrow> u = 32 \<or> u = 9"

text \<open>The units that may occur at all: tab, visible ASCII and the rest of Latin-1.\<close>

definition media_unit :: "code_unit \<Rightarrow> bool" where
  "media_unit u \<longleftrightarrow> u = 9 \<or> in_range 32 126 u \<or> in_range 128 255 u"

text \<open>The end \<open>(;|$)\<close> of a part: whether a semicolon was read, and what follows it.\<close>

definition media_end :: "jsstr \<Rightarrow> (bool \<times> jsstr) option" where
  "media_end s = (case dropWhile blank s of
       [] \<Rightarrow> Some (False, [])
     | u # rest \<Rightarrow> if u = 59 then Some (True, rest) else None)"

definition media_head :: "jsstr \<Rightarrow> (jsstr \<times> bool \<times> jsstr) option" where
  "media_head s =
     (let kind = takeWhile media_token_unit s in
      case dropWhile media_token_unit s of
        [] \<Rightarrow> None
      | u # r \<Rightarrow>
          let sub = takeWhile media_token_unit r in
          if kind = [] \<or> u \<noteq> 47 \<or> sub = [] then None
          else map_option (\<lambda>(semi, rest). (kind @ [47] @ sub, semi, rest)) (media_end (dropWhile media_token_unit r)))"

text \<open>The body of a quoted string up to its closing quote, escapes kept.\<close>

fun quoted_body :: "jsstr \<Rightarrow> (jsstr \<times> jsstr) option" where
  "quoted_body [] = None"
| "quoted_body (u # us) =
     (if u = 34 then Some ([], us)
      else if u = 13 \<or> u = 10 then None
      else if u = 92 then
        (case us of
           [] \<Rightarrow> None
         | c # r \<Rightarrow> if c = 13 \<or> c = 10 then None else map_option (\<lambda>(t, rest). (92 # c # t, rest)) (quoted_body r))
      else map_option (\<lambda>(t, rest). (u # t, rest)) (quoted_body us))"

text \<open>The replacement of \<open>/\\(.)/g\<close> by the escaped character; a dot matches no line terminator.\<close>

fun unescape :: "jsstr \<Rightarrow> jsstr" where
  "unescape (u # c # r) =
     (if u = 92 \<and> c \<notin> {10, 13, 0x2028, 0x2029} then c # unescape r else u # unescape (c # r))"
| "unescape s = s"

definition parameter_value :: "jsstr \<Rightarrow> (jsstr \<times> jsstr) option" where
  "parameter_value s =
     (let data = takeWhile media_token_unit s in
      if data \<noteq> [] then Some (data, dropWhile media_token_unit s)
      else (case s of
          [] \<Rightarrow> None
        | u # r \<Rightarrow> if u = 34 then map_option (\<lambda>(t, rest). (34 # t @ [34], rest)) (quoted_body r) else None))"

definition media_parameter :: "jsstr \<Rightarrow> (jsstr \<times> jsstr \<times> bool \<times> jsstr) option" where
  "media_parameter s =
     (let r1 = dropWhile blank s; name = takeWhile media_token_unit r1 in
      case dropWhile blank (dropWhile media_token_unit r1) of
        [] \<Rightarrow> None
      | u # r2 \<Rightarrow>
          if name = [] \<or> u \<noteq> 61 then None
          else (case parameter_value (dropWhile blank r2) of
              None \<Rightarrow> None
            | Some (data, r3) \<Rightarrow> map_option (\<lambda>(semi, rest). (name, data, semi, rest)) (media_end r3)))"

section \<open>Media types\<close>

definition parameter_data :: "jsstr \<Rightarrow> jsstr" where
  "parameter_data data = (if startsWith data [34] then unescape (butlast (tl data)) else data)"

lemma length_media_end: "media_end s = Some (semi, rest) \<Longrightarrow> length rest \<le> length s"
proof -
  assume "media_end s = Some (semi, rest)"
  then have "length rest \<le> length (dropWhile blank s)"
    by (auto simp: media_end_def split: list.splits if_splits)
  then show ?thesis using length_dropWhile_le [of blank s] by simp
qed

lemma length_quoted_body: "quoted_body s = Some (t, rest) \<Longrightarrow> length rest < length s"
proof (induction s arbitrary: t rule: quoted_body.induct)
  case (2 u us)
  then show ?case by (fastforce split: if_splits list.splits)
qed simp

lemma length_parameter_value: "parameter_value s = Some (data, rest) \<Longrightarrow> length rest \<le> length s"
  using length_dropWhile_le [of media_token_unit s] length_quoted_body
  by (fastforce simp: parameter_value_def Let_def split: if_splits list.splits)

lemma length_media_parameter: "media_parameter s = Some (name, data, semi, rest) \<Longrightarrow> length rest < length s"
proof -
  assume "media_parameter s = Some (name, data, semi, rest)"
  then obtain u r2 r3 where r: "dropWhile blank (dropWhile media_token_unit (dropWhile blank s)) = u # r2"
    "parameter_value (dropWhile blank r2) = Some (data, r3)" "media_end r3 = Some (semi, rest)"
    by (auto simp: media_parameter_def Let_def split: list.splits if_splits option.splits)
  have "length rest \<le> length r2"
    using length_media_end [OF r(3)] length_parameter_value [OF r(2)] length_dropWhile_le [of blank r2] by simp
  moreover have "length (dropWhile blank (dropWhile media_token_unit (dropWhile blank s))) \<le> length s"
    by (meson length_dropWhile_le order_trans)
  ultimately show ?thesis using r(1) by simp
qed

function media_parameters :: "jsstr \<Rightarrow> (jsstr \<times> jsstr) list \<Rightarrow> (jsstr \<times> jsstr) list codec" where
  "media_parameters rest params =
     (if rest = [] then Inr params
      else (case media_parameter rest of
          None \<Rightarrow> Inl (Issue [] MediaType)
        | Some (name, data, semi, rest') \<Rightarrow>
            if toLowerCase name \<in> set (map fst params) then Inl (Issue [] MediaType)
            else if semi \<and> trim rest' = [] then Inl (Issue [] MediaType)
            else media_parameters rest' (params @ [(toLowerCase name, parameter_data data)])))"
  by pat_completeness auto
termination
  by (relation "measure (\<lambda>(rest, _). length rest)") (auto dest: length_media_parameter)

declare media_parameters.simps [simp del]

record media_type =
  mt_type :: jsstr
  mt_parameters :: "(jsstr \<times> jsstr) list"

definition mediaType :: "jsstr \<Rightarrow> media_type codec" where
  "mediaType s =
     (if \<not> list_all media_unit s then Inl (Issue [] MediaType)
      else (case media_head s of
          None \<Rightarrow> Inl (Issue [] MediaType)
        | Some (head, semi, rest) \<Rightarrow>
            if semi \<and> trim rest = [] then Inl (Issue [] MediaType)
            else bindK (media_parameters rest []) (\<lambda>params.
              Inr \<lparr>mt_type = toLowerCase head, mt_parameters = params\<rparr>)))"

section \<open>Gates\<close>

definition responseMedia :: "jsstr option \<Rightarrow> bool \<Rightarrow> unit codec" where
  "responseMedia value json =
     (case value of
        None \<Rightarrow> if json then Inl (Issue [] MediaType) else Inr ()
      | Some text \<Rightarrow>
          bindK (mediaType text) (\<lambda>parsed.
          if json \<and> mt_type parsed \<noteq> ascii ''application/json''
             \<and> \<not> endsWith (split_on 47 (mt_type parsed) ! 1) (ascii ''+json'')
          then Inl (Issue [] MediaType)
          else (case map_of (mt_parameters parsed) (ascii ''charset'') of
              None \<Rightarrow> Inr ()
            | Some charset \<Rightarrow> if toLowerCase charset \<noteq> ascii ''utf-8'' then Inl (Issue [] Charset) else Inr ())))"

definition jsonRequestMedia :: "jsstr \<Rightarrow> bool codec" where
  "jsonRequestMedia text =
     (case mediaType text of
        Inl (Issue path reason) \<Rightarrow> Inr False
      | Inl e \<Rightarrow> Inl e
      | Inr parsed \<Rightarrow> Inr (mt_type parsed = ascii ''application/json''
          \<and> list_all (\<lambda>(key, v). key = ascii ''charset'' \<and> toLowerCase v = ascii ''utf-8'') (mt_parameters parsed)))"

section \<open>Rendered media types\<close>

text \<open>A quoted string with its quotes and backslashes escaped.\<close>

definition backslashed :: "code_unit \<Rightarrow> jsstr" where
  "backslashed u = (if u = 34 \<or> u = 92 then [92, u] else [u])"

definition escaped :: "jsstr \<Rightarrow> jsstr" where
  "escaped s = concat (map backslashed s)"

lemma escaped_simps [simp]: "escaped [] = []" "escaped (u # s) = backslashed u @ escaped s"
  by (simp_all add: escaped_def)

definition quote_name :: "jsstr \<Rightarrow> jsstr" where
  "quote_name s = [34] @ escaped s @ [34]"

definition parameter_texts :: "(jsstr \<times> jsstr) list \<Rightarrow> jsstr" where
  "parameter_texts params = concat (map (\<lambda>(name, data). [59, 32] @ name @ [61] @ quote_name data) params)"

lemma parameter_texts_simps [simp]:
  "parameter_texts [] = []"
  "parameter_texts ((name, data) # params) = 59 # 32 # name @ [61] @ quote_name data @ parameter_texts params"
  by (simp_all add: parameter_texts_def)

definition render_media :: "jsstr \<Rightarrow> jsstr \<Rightarrow> (jsstr \<times> jsstr) list \<Rightarrow> jsstr" where
  "render_media kind sub params = kind @ [47] @ sub @ parameter_texts params"

definition media_token :: "jsstr \<Rightarrow> bool" where
  "media_token s \<longleftrightarrow> s \<noteq> [] \<and> list_all media_token_unit s"

lemma token_span:
  assumes "list_all media_token_unit t" and "rest = [] \<or> \<not> media_token_unit (hd rest)"
  shows "takeWhile media_token_unit (t @ rest) = t" "dropWhile media_token_unit (t @ rest) = rest"
  using assms by (cases rest; auto simp: list_all_iff takeWhile_append dropWhile_append)+

lemma separator_units:
  "\<not> media_token_unit 47" "\<not> media_token_unit 59" "\<not> media_token_unit 61" "\<not> media_token_unit 34" "\<not> media_token_unit 32"
  "\<not> blank 59" "\<not> blank 61" "\<not> blank 34" "\<not> blank 47" "blank 32"
  by code_simp+

lemma token_not_blank: "media_token_unit u \<Longrightarrow> \<not> blank u"
  by (auto simp: media_token_unit_def blank_def is_alnum_unit_def unit_defs is_digit_unit_def)

lemma quoted_body_escaped:
  "list_all media_unit s \<Longrightarrow> quoted_body (escaped s @ 34 # rest) = Some (escaped s, rest)"
  by (induction s) (auto simp: backslashed_def media_unit_def in_range_def)

lemma unescape_plain: "u \<noteq> 92 \<Longrightarrow> unescape (u # s) = u # unescape s"
  by (cases s) simp_all

lemma unescape_escaped: "list_all media_unit s \<Longrightarrow> unescape (escaped s) = s"
  by (induction s) (auto simp: backslashed_def unescape_plain media_unit_def in_range_def)

lemma parameter_data_quoted: "list_all media_unit s \<Longrightarrow> parameter_data (quote_name s) = s"
  by (simp add: parameter_data_def quote_name_def startsWith_iff unescape_escaped butlast_append)

lemma media_end_simps: "media_end [] = Some (False, [])" "media_end (59 # rest) = Some (True, rest)"
  by (simp_all add: media_end_def separator_units)

text \<open>The text of the parameters after the first semicolon.\<close>

lemma media_parameter_rendered:
  assumes "media_token name" and "list_all media_unit data" and "rest = [] \<or> hd rest = 59"
  shows "media_parameter (32 # name @ [61] @ quote_name data @ rest) = Some (name, quote_name data, rest \<noteq> [], tl rest)"
proof -
  obtain u us where n: "name = u # us" "media_token_unit u" "list_all media_token_unit name"
    using assms(1) by (cases name) (auto simp: media_token_def)
  have r1: "dropWhile blank (32 # name @ [61] @ quote_name data @ rest) = name @ [61] @ quote_name data @ rest"
    using n token_not_blank by (simp add: separator_units)
  have v: "parameter_value (quote_name data @ rest) = Some (quote_name data, rest)"
    using quoted_body_escaped [OF assms(2), of rest] by (simp add: parameter_value_def quote_name_def separator_units)
  have e: "media_end rest = Some (rest \<noteq> [], tl rest)" using assms(3) by (cases rest) (auto simp: media_end_simps)
  have q: "dropWhile blank (quote_name data @ rest) = quote_name data @ rest"
    by (simp add: quote_name_def separator_units)
  show ?thesis
  proof -
    have t: "takeWhile media_token_unit (name @ 61 # quote_name data @ rest) = name"
      "dropWhile media_token_unit (name @ 61 # quote_name data @ rest) = 61 # quote_name data @ rest"
      using token_span [OF n(3), of "61 # quote_name data @ rest"] separator_units(3) by simp_all
    have b: "dropWhile blank (61 # quote_name data @ rest) = 61 # quote_name data @ rest" by (simp add: separator_units)
    have ne: "name \<noteq> []" by (simp add: n(1))
    show ?thesis using v e q ne unfolding media_parameter_def r1 Let_def
      by (simp add: t b del: dropWhile.simps takeWhile.simps)
  qed
qed

lemma parameter_texts_start: "parameter_texts params = [] \<or> hd (parameter_texts params) = 59"
  by (cases params) auto

lemma trim_empty: "trim s = [] \<Longrightarrow> u \<in> set s \<Longrightarrow> is_space u"
proof -
  assume t: "trim s = []" and u: "u \<in> set s"
  have "dropWhile is_space s = []"
  proof (rule ccontr)
    assume "dropWhile is_space s \<noteq> []"
    then have "hd (dropWhile is_space s) \<in> set (dropWhile is_space s)" "\<not> is_space (hd (dropWhile is_space s))"
      by (simp_all add: hd_dropWhile)
    then show False using t by (simp add: trim_def)
  qed
  then show "is_space u" using u by simp
qed

lemma token_not_space: "media_token_unit u \<Longrightarrow> \<not> is_space u"
  by (auto simp: media_token_unit_def is_space_def is_alnum_unit_def unit_defs is_digit_unit_def)

definition parameter_ok :: "jsstr \<times> jsstr \<Rightarrow> bool" where
  "parameter_ok p \<longleftrightarrow> media_token (fst p) \<and> toLowerCase (fst p) = fst p \<and> list_all media_unit (snd p)"

lemma trailing_parameters:
  "list_all parameter_ok params \<Longrightarrow> params \<noteq> [] \<Longrightarrow> trim (tl (parameter_texts params)) \<noteq> []"
proof
  assume p: "list_all parameter_ok params" "params \<noteq> []" "trim (tl (parameter_texts params)) = []"
  obtain u us data ps where "params = (u # us, data) # ps" "media_token_unit u"
    using p(1,2) by (cases params; cases "fst (hd params)") (auto simp: parameter_ok_def media_token_def)
  then show False using trim_empty [OF p(3), of u] token_not_space by simp
qed

lemma media_parameters_rendered:
  "list_all parameter_ok params \<Longrightarrow> distinct (map fst (acc @ params))
    \<Longrightarrow> media_parameters (tl (parameter_texts params)) acc = Inr (acc @ params)"
proof (induction params arbitrary: acc)
  case Nil
  then show ?case by (simp add: media_parameters.simps)
next
  case (Cons p params)
  obtain name data where p: "p = (name, data)" "media_token name" "toLowerCase name = name" "list_all media_unit data"
    using Cons.prems(1) by (cases p) (auto simp: parameter_ok_def)
  have rest: "parameter_texts params \<noteq> [] \<longleftrightarrow> params \<noteq> []" by (cases params) auto
  have "media_parameters (tl (parameter_texts (p # params))) acc
      = media_parameters (tl (parameter_texts params)) (acc @ [(name, data)])"
    using media_parameter_rendered [OF p(2,4) parameter_texts_start [of params]] Cons.prems
      parameter_data_quoted [OF p(4)] trailing_parameters [of params] p(1,3) rest
    by (auto simp: media_parameters.simps [of "32 # s" for s])
  then show ?case using Cons.IH [of "acc @ [p]"] Cons.prems p(1) by simp
qed

text \<open>
  Strict media types are read back: any type of two tokens and any parameters with distinct
  lower-case names and printable Latin-1 values.
\<close>

lemma mediaType_rendered:
  assumes "media_token kind" and "media_token sub" and "list_all parameter_ok params" and "distinct (map fst params)"
  shows "mediaType (render_media kind sub params)
    = Inr \<lparr>mt_type = toLowerCase (kind @ [47] @ sub), mt_parameters = params\<rparr>"
proof -
  have tok: "media_unit u" if "media_token_unit u" for u
    using that by (auto simp: media_token_unit_def media_unit_def is_alnum_unit_def unit_defs is_digit_unit_def)
  have esc: "list_all media_unit (escaped s)" if "list_all media_unit s" for s
    using that by (induction s) (auto simp: backslashed_def media_unit_def in_range_def)
  have sep: "media_unit 47" "media_unit 59" "media_unit 32" "media_unit 61" "media_unit 34" by code_simp+
  have tokens: "list_all media_unit t" if "media_token t" for t
    using that tok by (auto simp: media_token_def list_all_iff)
  have quotes: "list_all media_unit (quote_name d)" if "list_all media_unit d" for d
    using esc [OF that] sep(5) by (simp add: quote_name_def)
  have "list_all media_unit (parameter_texts params)"
    using assms(3)
  proof (induction params)
    case (Cons p params)
    then show ?case using tokens [of "fst p"] quotes [of "snd p"] sep by (cases p) (simp add: parameter_ok_def)
  qed simp
  then have units: "list_all media_unit (render_media kind sub params)"
    using tokens [OF assms(1)] tokens [OF assms(2)] sep(1) by (simp add: render_media_def)
  have start: "parameter_texts params = [] \<or> \<not> media_token_unit (hd (parameter_texts params))"
    using parameter_texts_start [of params] separator_units(2) by auto
  have e: "media_end (parameter_texts params) = Some (params \<noteq> [], tl (parameter_texts params))"
    by (cases params) (auto simp: media_end_simps)
  have "media_head (render_media kind sub params) = Some (kind @ [47] @ sub, params \<noteq> [], tl (parameter_texts params))"
    using assms(1,2) token_span [of kind "[47] @ sub @ parameter_texts params"] token_span [of sub "parameter_texts params"] start e
    by (simp add: media_head_def render_media_def media_token_def separator_units Let_def)
  then show ?thesis
    using units trailing_parameters [OF assms(3)] media_parameters_rendered [OF assms(3), of "[]"] assms(4)
    by (auto simp: mediaType_def)
qed

end
