(* ===== verification/Multipart.thy ===== *)
theory Multipart
  imports Media Encode
begin

text \<open>
  Multipart forms (\<open>runtime/platform/multipart.ts\<close>): the strict parser of \<open>multipart/form-data\<close>
  bodies that have been read as a whole. Byte tokens are their octets.
\<close>

section \<open>Outcomes\<close>

datatype multipart_reason = MultipartBoundary | MultipartFrame | MultipartNested

text \<open>A thrown \<open>MultipartIssue\<close>, or an exception of the codec.\<close>

datatype multipart_exn = MultipartIssue multipart_reason | MultipartCodec codec_exn

type_synonym 'a multipart = "multipart_exn + 'a"

definition bindM :: "'a multipart \<Rightarrow> ('a \<Rightarrow> 'b multipart) \<Rightarrow> 'b multipart" where
  "bindM m f = (case m of Inl e \<Rightarrow> Inl e | Inr x \<Rightarrow> f x)"

lemma bindM_simps [simp]: "bindM (Inl e) f = Inl e" "bindM (Inr x) f = f x"
  by (simp_all add: bindM_def)

lemma bindM_Inr_conv: "bindM m f = Inr y \<longleftrightarrow> (\<exists>x. m = Inr x \<and> f x = Inr y)"
  by (cases m) auto

lemma bindM_cong [fundef_cong]:
  "m = m' \<Longrightarrow> (\<And>x. m' = Inr x \<Longrightarrow> f x = g x) \<Longrightarrow> bindM m f = bindM m' g"
  by (cases m') auto

abbreviation frame_issue :: "'a multipart" where
  "frame_issue \<equiv> Inl (MultipartIssue MultipartFrame)"

record MultipartFile =
  mf_name :: jsstr
  mf_filename :: jsstr
  mf_contentType :: jsstr
  mf_content :: "octet list"

record MultipartDocument =
  md_fields :: "(jsstr \<times> jsstr) list"
  md_files :: "MultipartFile list"

section \<open>Lines and texts\<close>

text \<open>The scan for line ends: \<open>cur\<close> is the slice since the last one.\<close>

fun lines_from :: "octet list \<Rightarrow> octet list \<Rightarrow> octet list list" where
  "lines_from cur (x # y # rest) =
     (if x = 13 \<and> y = 10 then cur # lines_from [] rest else lines_from (cur @ [x]) (y # rest))"
| "lines_from cur rest = [cur @ rest]"

definition linesOf :: "octet list \<Rightarrow> octet list list" where
  "linesOf body = lines_from [] body"

text \<open>The strict decoder of the module, which drops a byte order mark at the start.\<close>

definition part_text :: "octet list \<Rightarrow> jsstr option" where
  "part_text bs = map_option (\<lambda>cs. utf16_encode (if cs \<noteq> [] \<and> hd cs = 0xFEFF then tl cs else cs))
     (utf8_decode (map uint bs))"

definition asciiLine :: "octet list \<Rightarrow> jsstr multipart" where
  "asciiLine line = (case part_text line of Some s \<Rightarrow> Inr s | None \<Rightarrow> frame_issue)"

section \<open>Headers\<close>

text \<open>The text before and after the first occurrence of a separator.\<close>

definition cut_at :: "code_unit \<Rightarrow> jsstr \<Rightarrow> (jsstr \<times> jsstr) option" where
  "cut_at c s = (if c \<in> set s then Some (takeWhile (\<lambda>u. u \<noteq> c) s, tl (dropWhile (\<lambda>u. u \<noteq> c) s)) else None)"

text \<open>The loop of \<open>unquote\<close> stops before the last unit, the closing quote.\<close>

fun unquote_from :: "jsstr \<Rightarrow> jsstr multipart" where
  "unquote_from (c # d # rest) =
     (if c = 92 then (if rest = [] then frame_issue else bindM (unquote_from rest) (\<lambda>out. Inr (d # out)))
      else if c = 13 \<or> c = 10 then frame_issue
      else bindM (unquote_from (d # rest)) (\<lambda>out. Inr (c # out)))"
| "unquote_from _ = Inr []"

definition unquote :: "jsstr \<Rightarrow> jsstr multipart" where
  "unquote s =
     (if \<not> startsWith s [34] then Inr s
      else if length s < 2 \<or> \<not> endsWith s [34] then frame_issue
      else unquote_from (tl s))"

fun disposition_loop :: "jsstr list \<Rightarrow> jsstr option \<Rightarrow> jsstr option \<Rightarrow> (jsstr \<times> jsstr option) multipart" where
  "disposition_loop [] name filename = (case name of None \<Rightarrow> frame_issue | Some n \<Rightarrow> Inr (n, filename))"
| "disposition_loop (part # parts) name filename =
     (case cut_at 61 part of
        None \<Rightarrow> frame_issue
      | Some (k, v) \<Rightarrow>
          bindM (unquote (trim v)) (\<lambda>x.
          let key = toLowerCase (trim k) in
          if key = ascii ''name'' then
            (if name \<noteq> None then frame_issue else disposition_loop parts (Some x) filename)
          else if key = ascii ''filename'' then
            (if filename \<noteq> None then frame_issue else disposition_loop parts name (Some x))
          else disposition_loop parts name filename))"

definition dispositionOf :: "jsstr \<Rightarrow> (jsstr \<times> jsstr option) multipart" where
  "dispositionOf header =
     (let parts = split_on 59 header in
      if toLowerCase (trim (hd parts)) \<noteq> ascii ''form-data'' then frame_issue
      else disposition_loop (tl parts) None None)"

text \<open>The header lines of a part, up to the blank line; folded lines are refused.\<close>

fun read_headers :: "octet list list \<Rightarrow> (jsstr list \<times> octet list list) multipart" where
  "read_headers [] = frame_issue"
| "read_headers (raw # lines) =
     bindM (asciiLine raw) (\<lambda>line.
     if line = [] then Inr ([], lines)
     else if startsWith line [32] \<or> startsWith line [9] then frame_issue
     else bindM (read_headers lines) (\<lambda>(headers, rest). Inr (line # headers, rest)))"

fun header_loop :: "jsstr list \<Rightarrow> jsstr option \<Rightarrow> jsstr option \<Rightarrow> (jsstr option \<times> jsstr option) multipart" where
  "header_loop [] disposition contentType = Inr (disposition, contentType)"
| "header_loop (header # headers) disposition contentType =
     (case cut_at 58 header of
        None \<Rightarrow> frame_issue
      | Some (k, v) \<Rightarrow>
          if k = [] then frame_issue
          else
            let key = toLowerCase (trim k) in
            if key = ascii ''content-disposition'' then
              (if disposition \<noteq> None then frame_issue else header_loop headers (Some (trim v)) contentType)
            else if key = ascii ''content-type'' then
              (if contentType \<noteq> None then frame_issue else header_loop headers disposition (Some (trim v)))
            else header_loop headers disposition contentType)"

definition check_type :: "jsstr option \<Rightarrow> unit multipart" where
  "check_type contentType =
     (case contentType of
        None \<Rightarrow> Inr ()
      | Some t \<Rightarrow>
          if startsWith (toLowerCase t) (ascii ''multipart/'') then Inl (MultipartIssue MultipartNested)
          else (case mediaType t of
              Inl (Issue path reason) \<Rightarrow> frame_issue
            | Inl e \<Rightarrow> Inl (MultipartCodec e)
            | Inr parsed \<Rightarrow> Inr ()))"

section \<open>Content\<close>

definition closedBy :: "octet list \<Rightarrow> octet list \<Rightarrow> bool" where
  "closedBy close line \<longleftrightarrow> line = close
     \<or> (length line > length close \<and> take (length close) line = close
        \<and> list_all (\<lambda>v. v = 32 \<or> v = 9) (drop (length close) line))"

fun read_content ::
  "octet list \<Rightarrow> octet list \<Rightarrow> octet list list \<Rightarrow> (octet list list \<times> bool \<times> octet list list) multipart" where
  "read_content delimiter close [] = frame_issue"
| "read_content delimiter close (raw # lines) =
     (if raw = delimiter then Inr ([], False, lines)
      else if closedBy close raw then Inr ([], True, lines)
      else bindM (read_content delimiter close lines) (\<lambda>(contents, ended, rest). Inr (raw # contents, ended, rest)))"

text \<open>Writing into a fixed buffer at an offset.\<close>

definition put_at :: "nat \<Rightarrow> octet list \<Rightarrow> octet list \<Rightarrow> octet list" where
  "put_at offset xs buf = take offset buf @ xs @ drop (offset + length xs) buf"

text \<open>
  Joining the content lines: a line end is written before every line whose offset is not zero.
\<close>

fun fill :: "octet list list \<Rightarrow> nat \<Rightarrow> octet list \<Rightarrow> octet list" where
  "fill [] offset buf = buf"
| "fill (line # lines) offset buf =
     (let (offset, buf) = (if offset \<noteq> 0 then (offset + 2, put_at offset [13, 10] buf) else (offset, buf))
      in fill lines (offset + length line) (put_at offset line buf))"

definition joined :: "octet list list \<Rightarrow> octet list" where
  "joined contents =
     (let size = sum_list (map length contents) + (if contents = [] then 0 else (length contents - 1) * 2)
      in fill contents 0 (replicate size 0))"

section \<open>Documents\<close>

lemma read_headers_shorter: "read_headers lines = Inr (headers, rest) \<Longrightarrow> length rest < length lines"
  by (induction lines arbitrary: headers) (fastforce simp: bindM_Inr_conv split: if_splits)+

lemma read_content_shorter: "read_content delimiter close lines = Inr (contents, ended, rest) \<Longrightarrow> length rest < length lines"
  by (induction lines arbitrary: contents) (fastforce simp: bindM_Inr_conv split: if_splits)+

function decode_parts ::
  "octet list \<Rightarrow> octet list \<Rightarrow> octet list list \<Rightarrow> (jsstr \<times> jsstr) list \<Rightarrow> MultipartFile list
     \<Rightarrow> MultipartDocument multipart" where
  "decode_parts delimiter close lines fs files =
     bindM (read_headers lines) (\<lambda>(headers, lines1).
     bindM (header_loop headers None None) (\<lambda>(disposition, contentType).
     case disposition of
       None \<Rightarrow> frame_issue
     | Some header \<Rightarrow>
         bindM (check_type contentType) (\<lambda>_.
         bindM (read_content delimiter close lines1) (\<lambda>(contents, ended, lines2).
         bindM (dispositionOf header) (\<lambda>(name, filename).
         bindM (case filename of
             None \<Rightarrow> (case part_text (joined contents) of
                 None \<Rightarrow> Inl (MultipartCodec (Issue (ascii ''multipart'') Utf8))
               | Some value \<Rightarrow> Inr (fs @ [(name, value)], files))
           | Some fname \<Rightarrow> Inr (fs, files @ [\<lparr>mf_name = name, mf_filename = fname,
               mf_contentType = (case contentType of Some t \<Rightarrow> t | None \<Rightarrow> ascii ''application/octet-stream''),
               mf_content = joined contents\<rparr>])) (\<lambda>(fs', files').
         if ended then Inr \<lparr>md_fields = fs', md_files = files'\<rparr>
         else decode_parts delimiter close lines2 fs' files'))))))"
  by pat_completeness auto
termination
proof (relation "measure (\<lambda>(_, _, lines, _). length lines)", goal_cases)
  case (2 delimiter close lines fs files r headers lines1)
  then show ?case using read_headers_shorter read_content_shorter by (fastforce intro: less_trans)
qed simp

declare decode_parts.simps [simp del]

fun skip_preamble :: "octet list \<Rightarrow> octet list \<Rightarrow> octet list list \<Rightarrow> octet list list option multipart" where
  "skip_preamble delimiter close [] = frame_issue"
| "skip_preamble delimiter close (line # lines) =
     (if line = delimiter then Inr (Some lines)
      else if closedBy close line then Inr None
      else skip_preamble delimiter close lines)"

definition boundary_unit :: "code_unit \<Rightarrow> bool" where
  "boundary_unit u \<longleftrightarrow> is_alnum_unit u \<or> u \<in> {39, 40, 41, 43, 95, 44, 45, 46, 47, 58, 61, 63}"

definition encode_text :: "jsstr \<Rightarrow> octet list" where
  "encode_text s = map word_of_int (utf8_text s)"

definition decodeMultipart :: "octet list \<Rightarrow> jsstr \<Rightarrow> MultipartDocument multipart" where
  "decodeMultipart body boundary =
     (if \<not> (boundary \<noteq> [] \<and> list_all boundary_unit boundary) \<or> length boundary > 70
      then Inl (MultipartIssue MultipartBoundary)
      else
        let delimiter = encode_text (ascii ''--'' @ boundary);
            close = encode_text (ascii ''--'' @ boundary @ ascii ''--'')
        in bindM (skip_preamble delimiter close (linesOf body)) (\<lambda>start.
           case start of
             None \<Rightarrow> Inr \<lparr>md_fields = [], md_files = []\<rparr>
           | Some lines \<Rightarrow> decode_parts delimiter close lines [] []))"

end
