(* ===== verification/MultipartProps.thy ===== *)
theory MultipartProps
  imports Multipart Document
begin

text \<open>
  Properties of multipart forms: a body framed from well-formed parts is decoded to exactly those
  parts, an accepted body has a closing delimiter, and where the joining of content lines
  departs from the octets that were sent.
\<close>

section \<open>Lines\<close>

fun join_lines :: "octet list list \<Rightarrow> octet list" where
  "join_lines [] = []"
| "join_lines [l] = l"
| "join_lines (l # m # ls) = l @ [13, 10] @ join_lines (m # ls)"

text \<open>Further lines, each after a line end.\<close>

definition following :: "octet list list \<Rightarrow> octet list" where
  "following ls = concat (map (\<lambda>m. [13, 10] @ m) ls)"

lemma following_simps [simp]:
  "following [] = []" "following (m # ls) = [13, 10] @ m @ following ls"
  by (simp_all add: following_def)

lemma length_following: "length (following ls) = sum_list (map length ls) + 2 * length ls"
  by (induction ls) simp_all

lemma join_lines_Cons: "join_lines (l # ls) = l @ following ls"
  by (induction ls arbitrary: l) simp_all

lemma lines_from_append: "lines_from cur (a @ 13 # 10 # b) = lines_from cur a @ linesOf b"
  by (induction cur a rule: lines_from.induct) (simp_all add: linesOf_def)

lemma linesOf_append: "linesOf (a @ 13 # 10 # b) = linesOf a @ linesOf b"
  by (simp add: linesOf_def lines_from_append)

lemma lines_from_plain: "10 \<notin> set a \<Longrightarrow> lines_from cur a = [cur @ a]"
  by (induction cur a rule: lines_from.induct) auto

lemma linesOf_plain: "10 \<notin> set a \<Longrightarrow> linesOf a = [a]"
  by (simp add: linesOf_def lines_from_plain)

lemma lines_from_join: "lines_from cur a \<noteq> [] \<and> join_lines (lines_from cur a) = cur @ a"
proof (induction cur a rule: lines_from.induct)
  case (1 cur x y rest)
  then show ?case by (cases "lines_from [] rest") auto
qed simp_all

lemma join_linesOf: "join_lines (linesOf a) = a" "linesOf a \<noteq> []"
  using lines_from_join [of "[]" a] by (simp_all add: linesOf_def)

section \<open>Joining content lines\<close>

lemma length_put_at: "offset + length xs \<le> length buf \<Longrightarrow> length (put_at offset xs buf) = length buf"
  by (simp add: put_at_def)

lemma take_put_at: "offset + length xs \<le> length buf \<Longrightarrow> take (offset + length xs) (put_at offset xs buf) = take offset buf @ xs"
  by (simp add: put_at_def)

lemma drop_put_at:
  assumes "offset + length xs \<le> length buf" and "offset + length xs \<le> n"
  shows "drop n (put_at offset xs buf) = drop n buf"
proof -
  obtain k where "n = k + (offset + length xs)" using assms(2) by (metis le_Suc_ex add.commute)
  moreover have "drop (offset + length xs) (put_at offset xs buf) = drop (offset + length xs) buf"
    using assms(1) by (simp add: put_at_def)
  ultimately show ?thesis by (metis drop_drop)
qed

lemma put_at_nil: "put_at 0 [] buf = buf"
  by (simp add: put_at_def)

text \<open>Past the first octet the lines are written one after the other.\<close>

lemma fill_lines:
  "offset \<noteq> 0 \<Longrightarrow> offset + length (following lines) \<le> length buf
    \<Longrightarrow> fill lines offset buf = take offset buf @ following lines
          @ drop (offset + length (following lines)) buf"
proof (induction lines arbitrary: offset buf)
  case (Cons line lines)
  let ?b1 = "put_at offset [13, 10] buf"
  let ?b2 = "put_at (offset + 2) line ?b1"
  have l: "length ?b1 = length buf" "length ?b2 = length buf" using Cons.prems(2) by (simp_all add: length_put_at)
  have t: "take (offset + 2) ?b1 = take offset buf @ [13, 10]"
    using take_put_at [of offset "[13, 10]" buf] Cons.prems(2) by simp
  have t2: "take (offset + 2 + length line) ?b2 = take offset buf @ [13, 10] @ line"
    using take_put_at [of "offset + 2" line ?b1] Cons.prems(2) l t by simp
  have d: "drop n ?b2 = drop n buf" if "offset + 2 + length line \<le> n" for n
    using that Cons.prems(2) l by (simp add: drop_put_at)
  have "fill (line # lines) offset buf = fill lines (offset + 2 + length line) ?b2"
    using Cons.prems(1) by simp
  also have "\<dots> = take (offset + 2 + length line) ?b2 @ following lines
      @ drop (offset + 2 + length line + length (following lines)) ?b2"
    using Cons.prems(2) l by (intro Cons.IH) auto
  finally show ?case using t2 d by (simp add: add.assoc)
qed simp

definition joins :: "octet list list \<Rightarrow> bool" where
  "joins contents \<longleftrightarrow> (case contents of [] \<Rightarrow> True | l # ls \<Rightarrow> l \<noteq> [] \<or> ls = [])"

lemma joined_lines:
  assumes "joins contents"
  shows "joined contents = join_lines contents"
proof (cases contents)
  case (Cons l ls)
  show ?thesis
  proof (cases "ls = []")
    case False
    then have l: "l \<noteq> []" using assms Cons by (simp add: joins_def)
    let ?c = "following ls"
    let ?buf = "put_at 0 l (replicate (length l + length ?c) 0)"
    have "joined contents = fill ls (length l) ?buf"
      by (simp add: joined_def Cons length_following mult.commute add.assoc)
    also have "\<dots> = take (length l) ?buf @ ?c @ drop (length l + length ?c) ?buf"
      using l by (intro fill_lines) (simp_all add: put_at_def)
    finally show ?thesis by (simp add: put_at_def join_lines_Cons Cons)
  qed (simp add: Cons joined_def put_at_def)
qed (simp add: joined_def)

text \<open>No line is written past the end of the buffer.\<close>

lemma length_joined:
  "length (joined contents) = sum_list (map length contents) + (if contents = [] then 0 else (length contents - 1) * 2)"
proof -
  have later: "length (fill lines offset buf) = length buf"
    if "offset \<noteq> 0" "offset + length (following lines) \<le> length buf" for lines offset buf
    using fill_lines [OF that] that by simp
  have first: "length (fill (l # ls) 0 buf) = length buf" if "length l + length (following ls) \<le> length buf" for l ls buf
    using that
  proof (induction ls arbitrary: l buf)
    case (Cons m ms)
    then show ?case
      using later [of "length l" "m # ms" "put_at 0 l buf"] put_at_nil by (cases "l = []") (simp_all add: length_put_at)
  qed (simp add: length_put_at)
  show ?thesis
  proof (cases contents)
    case (Cons l ls)
    then show ?thesis
      using first [of l ls "replicate (length l + length (following ls)) 0"]
      by (simp add: joined_def length_following algebra_simps del: fill.simps)
  qed (simp add: joined_def)
qed

text \<open>
  A content that starts with a line end loses it, and ends with two zero octets instead: the
  offset is still zero when the second line is written.
\<close>

lemma joined_leading_line_end:
  assumes "l \<noteq> []"
  shows "joined ([] # l # ls) = join_lines (l # ls) @ [0, 0]"
proof -
  let ?c = "following ls"
  let ?buf = "put_at 0 l (replicate (length l + length ?c + 2) 0)"
  have "joined ([] # l # ls) = fill ls (length l) ?buf"
    using put_at_nil by (simp add: joined_def length_following algebra_simps)
  also have "\<dots> = take (length l) ?buf @ ?c @ drop (length l + length ?c) ?buf"
    using assms by (intro fill_lines) (simp_all add: put_at_def)
  also have "drop (length l + length ?c) ?buf = replicate 2 0"
    by (simp only: put_at_def add_0 drop_append drop_drop drop_replicate length_append take_0 append_Nil) simp
  finally show ?thesis by (simp add: put_at_def join_lines_Cons numeral_eq_Suc)
qed

section \<open>Texts\<close>

lemma utf8_low_bytes: "scalar c \<Longrightarrow> b \<in> set (utf8_of c) \<Longrightarrow> b < 128 \<Longrightarrow> b = c"
  by (auto simp: utf8_of_def scalar_def split: if_splits)

lemma encode_text_no_line_feed:
  assumes "isWellFormed s" and "10 \<notin> set s"
  shows "10 \<notin> set (encode_text s)"
proof
  assume "10 \<in> set (encode_text s)"
  then obtain b where b: "b \<in> set (utf8_text s)" "(word_of_int b :: octet) = 10" by (auto simp: encode_text_def)
  have cs: "utf16_encode (utf16_decode s) = s" "list_all scalar (utf16_decode s)"
    using utf16_encode_decode [OF assms(1)] by auto
  have "0 \<le> b \<and> b < 256" using utf8_encode_range [OF cs(2)] b(1) by (auto simp: utf8_text_def list_all_iff)
  then have "b = 10" using b(2) by (auto dest: arg_cong [of _ _ uint] simp: uint_word_of_int)
  then obtain c where c: "c \<in> set (utf16_decode s)" "10 \<in> set (utf8_of c)"
    using b(1) by (auto simp: utf8_text_def utf8_encode_def)
  then have "c = 10" using utf8_low_bytes [of c 10] cs(2) by (auto simp: list_all_iff)
  then have "10 \<in> set (utf16_encode (utf16_decode s))" using c(1) by (force simp: utf16_encode_def units_of_def)
  then show False using assms(2) cs(1) by simp
qed

lemma part_text_encode:
  assumes "isWellFormed s" and "s = [] \<or> hd s \<noteq> 0xFEFF"
  shows "part_text (encode_text s) = Some s"
proof -
  let ?cs = "utf16_decode s"
  have cs: "utf16_encode ?cs = s" "list_all scalar ?cs" using utf16_encode_decode [OF assms(1)] by auto
  have "map (uint :: octet \<Rightarrow> int) (map word_of_int (utf8_text s)) = utf8_text s"
    using utf8_encode_range [OF cs(2)] by (auto simp: utf8_text_def list_all_iff uint_word_of_int intro!: map_idI)
  then have d: "utf8_decode (map uint (encode_text s)) = Some ?cs"
    using utf8_decode_encode [OF cs(2)] by (simp add: encode_text_def utf8_text_def)
  have "hd ?cs \<noteq> 0xFEFF" if ne: "?cs \<noteq> []"
  proof
    assume "hd ?cs = 0xFEFF"
    then obtain ds where "?cs = 0xFEFF # ds" using ne by (cases ?cs) auto
    then have "s = 0xFEFF # utf16_encode ds" using cs(1) by (simp add: utf16_encode_def units_of_def)
    then show False using assms(2) by simp
  qed
  then show ?thesis using cs(1) by (auto simp: part_text_def d)
qed

lemma trim_blank [simp]: "trim (32 # s) = trim s"
  by (simp add: trim_def is_space_def)

lemma trim_id: "s \<noteq> [] \<Longrightarrow> \<not> is_space (hd s) \<Longrightarrow> \<not> is_space (last s) \<Longrightarrow> trim s = s"
proof -
  assume s: "s \<noteq> []" "\<not> is_space (hd s)" "\<not> is_space (last s)"
  then have "dropWhile is_space s = s" "dropWhile is_space (rev s) = rev s"
    by (cases s; simp; fail) (cases s rule: rev_cases; use s in simp)
  then show ?thesis by (simp add: trim_def)
qed

lemma cut_at_append: "c \<notin> set k \<Longrightarrow> cut_at c (k @ c # v) = Some (k, v)"
  by (auto simp: cut_at_def takeWhile_append dropWhile_append)

section \<open>Framing\<close>

text \<open>A part as a client sends it: names are quoted, quotes and backslashes in them escaped.\<close>

record form_part =
  fp_name :: jsstr
  fp_filename :: "jsstr option"
  fp_type :: "jsstr option"
  fp_content :: "octet list"

definition disposition_text :: "form_part \<Rightarrow> jsstr" where
  "disposition_text p = ascii ''form-data; name='' @ quote_name (fp_name p)
     @ (case fp_filename p of None \<Rightarrow> [] | Some f \<Rightarrow> ascii ''; filename='' @ quote_name f)"

definition header_texts :: "form_part \<Rightarrow> jsstr list" where
  "header_texts p = (ascii ''content-disposition: '' @ disposition_text p)
     # (case fp_type p of None \<Rightarrow> [] | Some t \<Rightarrow> [ascii ''content-type: '' @ t])"

definition delimiter_line :: "jsstr \<Rightarrow> octet list" where
  "delimiter_line boundary = encode_text (ascii ''--'' @ boundary)"

definition close_line :: "jsstr \<Rightarrow> octet list" where
  "close_line boundary = encode_text (ascii ''--'' @ boundary @ ascii ''--'')"

definition frame_part :: "jsstr \<Rightarrow> form_part \<Rightarrow> octet list" where
  "frame_part boundary p =
     concat (map (\<lambda>l. l @ [13, 10]) (delimiter_line boundary # map encode_text (header_texts p) @ [[]]))
     @ fp_content p @ [13, 10]"

definition frame_body :: "jsstr \<Rightarrow> form_part list \<Rightarrow> octet list" where
  "frame_body boundary ps = concat (map (frame_part boundary) ps) @ close_line boundary"

text \<open>What the parser is promised of a part, and what it returns for it.\<close>

definition name_ok :: "jsstr \<Rightarrow> bool" where
  "name_ok s \<longleftrightarrow> isWellFormed s \<and> list_all (\<lambda>u. u \<notin> {10, 13, 59}) s"

definition type_ok :: "jsstr \<Rightarrow> bool" where
  "type_ok t \<longleftrightarrow> (case mediaType t of Inr m \<Rightarrow> True | Inl e \<Rightarrow> False) \<and> trim t = t
     \<and> \<not> startsWith (toLowerCase t) (ascii ''multipart/'')"

definition content_ok :: "jsstr \<Rightarrow> octet list \<Rightarrow> bool" where
  "content_ok boundary c \<longleftrightarrow> joins (linesOf c)
     \<and> list_all (\<lambda>l. l \<noteq> delimiter_line boundary \<and> \<not> closedBy (close_line boundary) l) (linesOf c)"

definition part_ok :: "jsstr \<Rightarrow> form_part \<Rightarrow> bool" where
  "part_ok boundary p \<longleftrightarrow> name_ok (fp_name p)
     \<and> (case fp_filename p of None \<Rightarrow> part_text (fp_content p) \<noteq> None | Some f \<Rightarrow> name_ok f)
     \<and> (case fp_type p of None \<Rightarrow> True | Some t \<Rightarrow> type_ok t) \<and> content_ok boundary (fp_content p)"

definition boundary_ok :: "jsstr \<Rightarrow> bool" where
  "boundary_ok boundary \<longleftrightarrow> boundary \<noteq> [] \<and> list_all boundary_unit boundary \<and> length boundary \<le> 70"

definition part_fields :: "form_part \<Rightarrow> (jsstr \<times> jsstr) list" where
  "part_fields p = (case fp_filename p of
       None \<Rightarrow> [(fp_name p, the (part_text (fp_content p)))] | Some f \<Rightarrow> [])"

definition part_files :: "form_part \<Rightarrow> MultipartFile list" where
  "part_files p = (case fp_filename p of
       None \<Rightarrow> []
     | Some f \<Rightarrow> [\<lparr>mf_name = fp_name p, mf_filename = f,
         mf_contentType = (case fp_type p of Some t \<Rightarrow> t | None \<Rightarrow> ascii ''application/octet-stream''),
         mf_content = fp_content p\<rparr>])"

section \<open>Reading the headers of a part\<close>

lemma quote_name_ends: "hd (quote_name s) = 34" "last (quote_name s) = 34" "quote_name s \<noteq> []"
  by (simp_all add: quote_name_def)

lemma quote_name_units: "u \<in> set (quote_name s) \<Longrightarrow> u = 34 \<or> u = 92 \<or> u \<in> set s"
  by (auto simp: quote_name_def escaped_def backslashed_def split: if_splits)

lemma unquote_from_plain:
  "c \<noteq> 92 \<Longrightarrow> c \<noteq> 13 \<Longrightarrow> c \<noteq> 10 \<Longrightarrow> s \<noteq> [] \<Longrightarrow> unquote_from (c # s) = bindM (unquote_from s) (\<lambda>out. Inr (c # out))"
  by (cases s) simp_all

lemma unquote_from_quote:
  "list_all (\<lambda>u. u \<noteq> 13 \<and> u \<noteq> 10) s
    \<Longrightarrow> unquote_from (escaped s @ [34]) = Inr s"
  by (induction s) (auto simp: unquote_from_plain backslashed_def)

lemma unquote_quote: "name_ok s \<Longrightarrow> unquote (quote_name s) = Inr s"
  using unquote_from_quote [of s]
  by (auto simp: unquote_def quote_name_def startsWith_iff endsWith_iff name_ok_def list_all_iff)

lemma trim_quote: "trim (quote_name s) = quote_name s"
  using quote_name_ends [of s] by (intro trim_id) (simp_all add: is_space_def in_range_def)

lemma disposition_round:
  assumes "name_ok (fp_name p)" and "case fp_filename p of None \<Rightarrow> True | Some f \<Rightarrow> name_ok f"
  shows "dispositionOf (disposition_text p) = Inr (fp_name p, fp_filename p)"
proof -
  have no: "59 \<notin> set (quote_name s)" if "name_ok s" for s
    using that quote_name_units [of 59 s] by (auto simp: name_ok_def list_all_iff)
  have keys: "toLowerCase (trim (ascii '' name'')) = ascii ''name''" "toLowerCase (trim (ascii '' filename'')) = ascii ''filename''"
    "toLowerCase (trim (ascii ''form-data'')) = ascii ''form-data''" by code_simp+
  have split: "split_on 59 (ascii ''form-data'' @ 59 # s) = ascii ''form-data'' # split_on 59 s" for s
    by (rule split_on_append) (simp add: ascii_def unit_of_char_def)
  have cut: "cut_at 61 (ascii '' name='' @ v) = Some (ascii '' name'', v)"
    "cut_at 61 (ascii '' filename='' @ v) = Some (ascii '' filename'', v)" for v
    using cut_at_append [of 61 "ascii '' name''" v] cut_at_append [of 61 "ascii '' filename''" v]
    by (simp_all add: ascii_def unit_of_char_def)
  have n: "59 \<notin> set (ascii '' name='' @ quote_name (fp_name p))"
    using no [OF assms(1)] by (simp add: ascii_def unit_of_char_def)
  have loop: "disposition_loop ((ascii '' name='' @ quote_name (fp_name p)) # parts) None None
      = disposition_loop parts (Some (fp_name p)) None" for parts
    using unquote_quote [OF assms(1)] by (simp add: cut trim_quote keys)
  show ?thesis
  proof (cases "fp_filename p")
    case None
    have "disposition_text p = ascii ''form-data'' @ 59 # (ascii '' name='' @ quote_name (fp_name p))"
      by (simp add: disposition_text_def None ascii_def unit_of_char_def)
    then show ?thesis
      using split_on_no_sep [OF n] by (simp only: dispositionOf_def split Let_def list.sel keys loop) (simp add: loop None)
  next
    case (Some f)
    have f: "59 \<notin> set (ascii '' filename='' @ quote_name f)"
      using no assms(2) Some by (simp add: ascii_def unit_of_char_def)
    have "disposition_text p = ascii ''form-data'' @ 59 # ((ascii '' name='' @ quote_name (fp_name p))
        @ 59 # (ascii '' filename='' @ quote_name f))"
      by (simp add: disposition_text_def Some ascii_def unit_of_char_def)
    moreover have "disposition_loop [ascii '' filename='' @ quote_name f] (Some (fp_name p)) None = Inr (fp_name p, Some f)"
      using unquote_quote [of f] assms(2) Some keys(2) by (simp add: cut trim_quote) (simp add: ascii_def unit_of_char_def)
    ultimately show ?thesis
      by (simp only: dispositionOf_def split split_on_append [OF n] split_on_no_sep [OF f] Let_def list.sel keys loop Some) simp
  qed
qed

lemma header_loop_round:
  assumes "case fp_type p of None \<Rightarrow> True | Some t \<Rightarrow> type_ok t"
  shows "header_loop (header_texts p) None None = Inr (Some (disposition_text p), fp_type p)"
proof -
  have keys: "toLowerCase (trim (ascii ''content-disposition'')) = ascii ''content-disposition''"
    "toLowerCase (trim (ascii ''content-type'')) = ascii ''content-type''"
    "ascii ''content-type'' \<noteq> ascii ''content-disposition''" "ascii ''content-disposition'' \<noteq> []" "ascii ''content-type'' \<noteq> []"
    by code_simp+
  have cut: "cut_at 58 (ascii ''content-disposition: '' @ v) = Some (ascii ''content-disposition'', 32 # v)"
    "cut_at 58 (ascii ''content-type: '' @ v) = Some (ascii ''content-type'', 32 # v)" for v
    using cut_at_append [of 58 "ascii ''content-disposition''" "32 # v"] cut_at_append [of 58 "ascii ''content-type''" "32 # v"]
    by (simp_all add: ascii_def unit_of_char_def)
  have "last (disposition_text p) = 34" "hd (disposition_text p) = 102" "disposition_text p \<noteq> []"
    using quote_name_ends by (auto simp: disposition_text_def ascii_def unit_of_char_def split: option.split)
  then have "trim (disposition_text p) = disposition_text p" by (intro trim_id) (simp_all add: is_space_def in_range_def)
  then show ?thesis
    using assms keys(4,5) by (auto simp: header_texts_def cut keys(1-3) type_ok_def split: option.splits)
qed

section \<open>Reading a framed body\<close>

lemma decoded_headers:
  assumes "list_all (\<lambda>h. isWellFormed h \<and> h \<noteq> [] \<and> hd h \<noteq> 0xFEFF \<and> hd h \<noteq> 32 \<and> hd h \<noteq> 9) hs"
  shows "read_headers (map encode_text hs @ [] # lines) = Inr (hs, lines)"
  using assms
proof (induction hs)
  case Nil
  then show ?case by (simp add: asciiLine_def part_text_def utf16_encode_def)
next
  case (Cons h hs)
  then have "part_text (encode_text h) = Some h" by (intro part_text_encode) auto
  moreover have "\<not> startsWith h [32]" "\<not> startsWith h [9]" using Cons.prems by (cases h; auto simp: startsWith_iff)+
  ultimately show ?case using Cons by (simp add: asciiLine_def)
qed

lemma read_content_lines:
  assumes "list_all (\<lambda>l. l \<noteq> dl \<and> \<not> closedBy close l) ls" and "close \<noteq> dl"
  shows "read_content dl close (ls @ dl # lines) = Inr (ls, False, lines)"
    and "read_content dl close (ls @ close # lines) = Inr (ls, True, lines)"
  using assms by (induction ls) (auto simp: closedBy_def)

lemma type_ok_units: "type_ok t \<Longrightarrow> list_all media_unit t"
  by (auto simp: type_ok_def mediaType_def split: if_splits)

lemma isWellFormed_plain: "list_all (\<lambda>u. uint u < 0xD800) s \<Longrightarrow> isWellFormed s"
  by (induction s rule: isWellFormed.induct) (auto simp: unit_defs)

lemma isWellFormed_quote_name: "isWellFormed s \<Longrightarrow> isWellFormed (quote_name s)"
proof -
  have one: "\<not> is_high_surrogate u \<Longrightarrow> \<not> is_low_surrogate u \<Longrightarrow> isWellFormed (backslashed u)" for u
    by (auto simp: backslashed_def unit_defs)
  have "isWellFormed s \<Longrightarrow> isWellFormed (escaped s)"
  proof (induction s rule: isWellFormed.induct)
    case (2 u)
    then show ?case using one [of u] by simp
  next
    case (3 u v us)
    show ?case
    proof (cases "is_high_surrogate u")
      case True
      then have "is_low_surrogate v" using "3.prems" by auto
      then show ?thesis using True 3 surrogate_plain [of u] surrogate_plain [of v] by (simp add: backslashed_def)
    next
      case False
      then have "isWellFormed (escaped (v # us))" "\<not> is_low_surrogate u" using 3 by (auto split: if_splits)
      then show ?thesis using isWellFormed_append [OF one [OF False]] by simp
    qed
  qed simp
  moreover assume "isWellFormed s"
  ultimately show ?thesis
    unfolding quote_name_def by (intro isWellFormed_append) (simp_all add: unit_defs)
qed

lemma header_texts_ok:
  assumes "part_ok boundary p"
  shows "list_all (\<lambda>h. isWellFormed h \<and> h \<noteq> [] \<and> hd h \<noteq> 0xFEFF \<and> hd h \<noteq> 32 \<and> hd h \<noteq> 9 \<and> 10 \<notin> set h) (header_texts p)"
proof -
  have ok: "name_ok (fp_name p)" "\<And>f. fp_filename p = Some f \<Longrightarrow> name_ok f" "\<And>t. fp_type p = Some t \<Longrightarrow> type_ok t"
    using assms by (auto simp: part_ok_def split: option.splits)
  have q: "isWellFormed (quote_name s)" "10 \<notin> set (quote_name s)" if "name_ok s" for s
    using that isWellFormed_quote_name quote_name_units [of 10 s] by (auto simp: name_ok_def list_all_iff)
  have t: "isWellFormed t" "10 \<notin> set t" if "type_ok t" for t
  proof -
    have m: "list_all media_unit t" using type_ok_units [OF that] .
    then show "isWellFormed t" by (intro isWellFormed_plain) (auto simp: list_all_iff media_unit_def in_range_def)
    show "10 \<notin> set t" using m by (auto simp: list_all_iff media_unit_def in_range_def)
  qed
  have a: "isWellFormed (ascii ''form-data; name='')" "isWellFormed (ascii ''; filename='')"
    "isWellFormed (ascii ''content-disposition: '')" "isWellFormed (ascii ''content-type: '')" by code_simp+
  have n: "10 \<notin> set (ascii ''form-data; name='')" "10 \<notin> set (ascii ''; filename='')"
    "10 \<notin> set (ascii ''content-disposition: '')" "10 \<notin> set (ascii ''content-type: '')" by code_simp+
  have d: "isWellFormed (disposition_text p)" "10 \<notin> set (disposition_text p)"
  proof -
    have *: "isWellFormed (disposition_text p) \<and> 10 \<notin> set (disposition_text p)"
    proof (cases "fp_filename p")
      case None
      then show ?thesis using q [OF ok(1)] a(1) n(1) by (simp add: disposition_text_def isWellFormed_append)
    next
      case (Some f)
      then show ?thesis
        using q [OF ok(1)] q [OF ok(2) [OF Some]] a(1,2) n(1,2) by (simp add: disposition_text_def isWellFormed_append)
    qed
    then show "isWellFormed (disposition_text p)" "10 \<notin> set (disposition_text p)" by simp_all
  qed
  define P where "P h \<longleftrightarrow> isWellFormed h \<and> h \<noteq> [] \<and> hd h \<noteq> 0xFEFF \<and> hd h \<noteq> 32 \<and> hd h \<noteq> 9 \<and> 10 \<notin> set h" for h :: jsstr
  have P: "P (c @ x)" if "isWellFormed c" "10 \<notin> set c" "c \<noteq> []" "hd c = 99" "isWellFormed x" "10 \<notin> set x" for c x
    using that isWellFormed_append [OF that(1,5)] by (simp add: P_def)
  have h: "hd (ascii ''content-disposition: '') = 99" "ascii ''content-disposition: '' \<noteq> []"
    "hd (ascii ''content-type: '') = 99" "ascii ''content-type: '' \<noteq> []" by code_simp+
  have "P (ascii ''content-disposition: '' @ disposition_text p)" using P [OF a(3) n(3) h(2,1) d] .
  moreover have "P (ascii ''content-type: '' @ x)" if "fp_type p = Some x" for x
    using P [OF a(4) n(4) h(4,3) t [OF ok(3) [OF that]]] .
  ultimately have "list_all P (header_texts p)" by (simp add: header_texts_def split: option.split)
  then show ?thesis by (simp add: P_def [abs_def])
qed

text \<open>The lines after the delimiter that starts a part.\<close>

fun part_lines :: "jsstr \<Rightarrow> form_part \<Rightarrow> form_part list \<Rightarrow> octet list list" where
  "part_lines boundary p ps =
     map encode_text (header_texts p) @ [] # linesOf (fp_content p)
     @ (case ps of [] \<Rightarrow> [close_line boundary] | q # qs \<Rightarrow> delimiter_line boundary # part_lines boundary q qs)"

declare part_lines.simps [simp del]

lemma close_not_delimiter: "close_line boundary \<noteq> delimiter_line boundary"
proof
  assume "close_line boundary = delimiter_line boundary"
  then have "length (utf8_text (ascii ''--'' @ boundary @ ascii ''--'')) = length (utf8_text (ascii ''--'' @ boundary))"
    by (metis close_line_def delimiter_line_def encode_text_def length_map)
  moreover have "ascii_start (ascii ''--'')" "length (utf8_text (ascii ''--'')) = 2" by code_simp+
  ultimately show False using utf8_text_append [of "ascii ''--''" "ascii ''--'' @ boundary"] by simp
qed

lemma decode_one_part:
  assumes "part_ok boundary p"
  defines "ls \<equiv> map encode_text (header_texts p) @ [] # linesOf (fp_content p)"
  shows "decode_parts (delimiter_line boundary) (close_line boundary) (ls @ close_line boundary # rest) fs files
      = Inr \<lparr>md_fields = fs @ part_fields p, md_files = files @ part_files p\<rparr>"
    and "decode_parts (delimiter_line boundary) (close_line boundary) (ls @ delimiter_line boundary # rest) fs files
      = decode_parts (delimiter_line boundary) (close_line boundary) rest (fs @ part_fields p) (files @ part_files p)"
proof -
  have ok: "name_ok (fp_name p)" "case fp_filename p of None \<Rightarrow> True | Some f \<Rightarrow> name_ok f"
    "case fp_type p of None \<Rightarrow> True | Some t \<Rightarrow> type_ok t" "content_ok boundary (fp_content p)"
    "fp_filename p = None \<Longrightarrow> part_text (fp_content p) \<noteq> None"
    using assms(1) by (auto simp: part_ok_def split: option.splits)
  have hs: "list_all (\<lambda>h. isWellFormed h \<and> h \<noteq> [] \<and> hd h \<noteq> 0xFEFF \<and> hd h \<noteq> 32 \<and> hd h \<noteq> 9) (header_texts p)"
    using header_texts_ok [OF assms(1)] by (auto simp: list_all_iff)
  have "check_type (fp_type p) = Inr ()"
    using ok(3) by (auto simp: check_type_def type_ok_def split: option.splits sum.splits)
  moreover have "joined (linesOf (fp_content p)) = fp_content p"
    using ok(4) joined_lines join_linesOf(1) by (simp add: content_ok_def)
  moreover note decoded_headers [OF hs] header_loop_round [OF ok(3)] disposition_round [OF ok(1,2)]
    read_content_lines [where ls = "linesOf (fp_content p)", OF _ close_not_delimiter] ok(4,5)
  ultimately show "decode_parts (delimiter_line boundary) (close_line boundary) (ls @ close_line boundary # rest) fs files
      = Inr \<lparr>md_fields = fs @ part_fields p, md_files = files @ part_files p\<rparr>"
    "decode_parts (delimiter_line boundary) (close_line boundary) (ls @ delimiter_line boundary # rest) fs files
      = decode_parts (delimiter_line boundary) (close_line boundary) rest (fs @ part_fields p) (files @ part_files p)"
    by (cases "fp_filename p"; subst decode_parts.simps; auto simp: ls_def content_ok_def part_fields_def part_files_def)+
qed

lemma decode_part_lines:
  "part_ok boundary p \<Longrightarrow> list_all (part_ok boundary) ps
    \<Longrightarrow> decode_parts (delimiter_line boundary) (close_line boundary) (part_lines boundary p ps) fs files
      = Inr \<lparr>md_fields = fs @ concat (map part_fields (p # ps)), md_files = files @ concat (map part_files (p # ps))\<rparr>"
proof (induction ps arbitrary: p fs files)
  case Nil
  then show ?case using decode_one_part(1) [OF Nil(1), of "[]"] by (simp add: part_lines.simps [of _ p])
next
  case (Cons q qs)
  then show ?case
    using decode_one_part(2) [OF Cons.prems(1), of "part_lines boundary q qs" fs files] Cons.IH [of q]
    by (simp add: part_lines.simps [of _ p])
qed

lemma linesOf_ended:
  "list_all (\<lambda>l. 10 \<notin> set l) ls \<Longrightarrow> linesOf (concat (map (\<lambda>l. l @ [13, 10]) ls) @ rest) = ls @ linesOf rest"
  by (induction ls) (simp_all add: linesOf_append linesOf_plain)

lemma boundary_text:
  assumes "boundary_ok boundary"
  shows "10 \<notin> set (delimiter_line boundary)" "10 \<notin> set (close_line boundary)"
proof -
  have b: "list_all (\<lambda>u. uint u < 128) boundary" "10 \<notin> set boundary"
    using assms by (auto simp: boundary_ok_def boundary_unit_def list_all_iff is_alnum_unit_def unit_defs is_digit_unit_def)
  have "isWellFormed (ascii ''--'')" "10 \<notin> set (ascii ''--'')" by code_simp+
  then show "10 \<notin> set (delimiter_line boundary)" "10 \<notin> set (close_line boundary)"
    using b isWellFormed_ascii [OF b(1)] unfolding delimiter_line_def close_line_def
    by (intro encode_text_no_line_feed; simp add: isWellFormed_append)+
qed

lemma frame_body_lines:
  assumes "boundary_ok boundary"
  shows "part_ok boundary p \<Longrightarrow> list_all (part_ok boundary) ps
    \<Longrightarrow> linesOf (frame_body boundary (p # ps)) = delimiter_line boundary # part_lines boundary p ps"
proof (induction ps arbitrary: p)
  have head: "linesOf (frame_part boundary p @ rest) = delimiter_line boundary # map encode_text (header_texts p)
      @ [] # linesOf (fp_content p) @ linesOf rest" if "part_ok boundary p" for p rest
  proof -
    let ?ls = "delimiter_line boundary # map encode_text (header_texts p) @ [[]]"
    have "list_all (\<lambda>l. 10 \<notin> set l) ?ls"
      using header_texts_ok [OF that] boundary_text(1) [OF assms] encode_text_no_line_feed by (auto simp: list_all_iff)
    then have "linesOf (concat (map (\<lambda>l. l @ [13, 10]) ?ls) @ fp_content p @ 13 # 10 # rest)
        = ?ls @ linesOf (fp_content p @ 13 # 10 # rest)" by (rule linesOf_ended)
    then show ?thesis by (simp add: frame_part_def linesOf_append)
  qed
  {
    case Nil
    then show ?case
      using head [OF Nil(1), of "close_line boundary"] linesOf_plain [OF boundary_text(2) [OF assms]]
      by (simp add: frame_body_def part_lines.simps)
  next
    case (Cons q qs)
    then show ?case
      using head [OF Cons.prems(1), of "frame_body boundary (q # qs)"] Cons.IH [of q]
      by (simp add: frame_body_def part_lines.simps [of _ p])
  }
qed

lemma decode_start:
  "boundary_ok boundary \<Longrightarrow> decodeMultipart body boundary
    = bindM (skip_preamble (delimiter_line boundary) (close_line boundary) (linesOf body)) (\<lambda>start.
        case start of
          None \<Rightarrow> Inr \<lparr>md_fields = [], md_files = []\<rparr>
        | Some lines \<Rightarrow> decode_parts (delimiter_line boundary) (close_line boundary) lines [] [])"
  unfolding decodeMultipart_def Let_def delimiter_line_def close_line_def by (simp add: boundary_ok_def)

section \<open>Properties\<close>

text \<open>
  C17: Multipart forms are read as they were sent. A body framed with a valid boundary from any
  list of parts (quoted names without line ends and semicolons, strict media types, contents
  without a delimiter line and not starting with a line end) is decoded to exactly these parts,
  the fields as text and the files octet for octet, in order.
\<close>

theorem multipart_roundtrip:
  assumes "boundary_ok boundary" and "list_all (part_ok boundary) ps"
  shows "decodeMultipart (frame_body boundary ps) boundary
    = Inr \<lparr>md_fields = concat (map part_fields ps), md_files = concat (map part_files ps)\<rparr>"
proof (cases ps)
  case Nil
  have "linesOf (close_line boundary) = [close_line boundary]"
    by (rule linesOf_plain [OF boundary_text(2) [OF assms(1)]])
  then show ?thesis
    using decode_start [OF assms(1)] close_not_delimiter [of boundary] by (simp add: Nil frame_body_def closedBy_def)
next
  case (Cons p qs)
  then show ?thesis
    using assms(2) decode_start [OF assms(1)] frame_body_lines [OF assms(1), of p qs] decode_part_lines [of boundary p qs "[]" "[]"]
    by simp
qed

definition demo_form :: "form_part list" where
  "demo_form =
     [\<lparr>fp_name = [113, 34, 233], fp_filename = None, fp_type = None, fp_content = encode_text [97, 13, 10, 233]\<rparr>,
      \<lparr>fp_name = ascii ''f'', fp_filename = Some (ascii ''p.png''), fp_type = Some (ascii ''image/png''),
       fp_content = [137, 80, 13, 10, 0, 255]\<rparr>]"

theorem multipart_roundtrip_witness:
  "decodeMultipart (frame_body (ascii ''B'') demo_form) (ascii ''B'')
     = Inr \<lparr>md_fields = [([113, 34, 233], [97, 13, 10, 233])],
         md_files = [\<lparr>mf_name = ascii ''f'', mf_filename = ascii ''p.png'', mf_contentType = ascii ''image/png'',
           mf_content = [137, 80, 13, 10, 0, 255]\<rparr>]\<rparr>"
proof -
  have "boundary_ok (ascii ''B'')" "list_all (part_ok (ascii ''B'')) demo_form" by code_simp+
  moreover have "concat (map part_fields demo_form) = [([113, 34, 233], [97, 13, 10, 233])]"
    "concat (map part_files demo_form) = [\<lparr>mf_name = ascii ''f'', mf_filename = ascii ''p.png'',
       mf_contentType = ascii ''image/png'', mf_content = [137, 80, 13, 10, 0, 255]\<rparr>]" by code_simp+
  ultimately show ?thesis using multipart_roundtrip [of "ascii ''B''" demo_form] by simp
qed

text \<open>Nothing is accepted without a closing delimiter line.\<close>

lemma read_headers_rest: "read_headers lines = Inr (headers, rest) \<Longrightarrow> set rest \<subseteq> set lines"
  by (induction lines arbitrary: headers) (fastforce simp: bindM_Inr_conv split: if_splits)+

lemma read_content_rest:
  "read_content dl close lines = Inr (contents, ended, rest)
    \<Longrightarrow> set rest \<subseteq> set lines \<and> (ended \<longrightarrow> (\<exists>line \<in> set lines. closedBy close line))"
  by (induction lines arbitrary: contents) (fastforce simp: bindM_Inr_conv split: if_splits)+

lemma decode_parts_closed:
  "decode_parts dl close lines fs files = Inr doc \<Longrightarrow> \<exists>line \<in> set lines. closedBy close line"
proof (induction dl close lines fs files arbitrary: doc rule: decode_parts.induct)
  case (1 dl close lines fs files)
  obtain headers lines1 where h: "read_headers lines = Inr (headers, lines1)"
    using "1.prems" by (subst (asm) decode_parts.simps) (auto simp: bindM_Inr_conv)
  obtain header contentType where l: "header_loop headers None None = Inr (Some header, contentType)"
    using "1.prems" h by (subst (asm) decode_parts.simps) (auto simp: bindM_Inr_conv split: option.splits)
  note unf = "1.prems" [unfolded decode_parts.simps [of dl close lines] h l bindM_simps prod.case option.case]
  obtain contents ended lines2 where c: "check_type contentType = Inr ()" "read_content dl close lines1 = Inr (contents, ended, lines2)"
    using unf by (auto simp: bindM_Inr_conv)
  note unf2 = unf [unfolded c bindM_simps prod.case]
  obtain name filename where d: "dispositionOf header = Inr (name, filename)" using unf2 by (auto simp: bindM_Inr_conv)
  note unf3 = unf2 [unfolded d bindM_simps prod.case]
  obtain fs' files' where r: "(case filename of
         None \<Rightarrow> (case part_text (joined contents) of
             None \<Rightarrow> Inl (MultipartCodec (Issue (ascii ''multipart'') Utf8))
           | Some value \<Rightarrow> Inr (fs @ [(name, value)], files))
       | Some fname \<Rightarrow> Inr (fs, files @ [\<lparr>mf_name = name, mf_filename = fname,
           mf_contentType = (case contentType of Some t \<Rightarrow> t | None \<Rightarrow> ascii ''application/octet-stream''),
           mf_content = joined contents\<rparr>])) = Inr (fs', files')"
    using unf3 by (auto simp: bindM_Inr_conv)
  have sub: "set lines1 \<subseteq> set lines" "set lines2 \<subseteq> set lines1" "ended \<Longrightarrow> \<exists>line \<in> set lines1. closedBy close line"
    using read_headers_rest [OF h] read_content_rest [OF c(2)] by auto
  show ?case
  proof (cases ended)
    case False
    then have "decode_parts dl close lines2 fs' files' = Inr doc" using unf3 [unfolded r bindM_simps prod.case] by simp
    then have "\<exists>line \<in> set lines2. closedBy close line"
      using "1.IH" [OF h refl l refl refl c(1,2) refl refl d refl r refl False] by blast
    then show ?thesis using sub(1,2) by blast
  qed (use sub in blast)
qed

lemma accepted_body_closed:
  assumes "boundary_ok boundary" and "decodeMultipart body boundary = Inr doc"
  shows "\<exists>line \<in> set (linesOf body). closedBy (close_line boundary) line"
proof -
  have "skip_preamble dl close lines = Inr start \<Longrightarrow> (case start of
      None \<Rightarrow> \<exists>line \<in> set lines. closedBy close line | Some rest \<Rightarrow> set rest \<subseteq> set lines)" for dl close lines start
    by (induction lines) (auto split: if_splits option.splits)
  then show ?thesis
    using assms(2) decode_parts_closed unfolding decode_start [OF assms(1)]
    by (fastforce simp: bindM_Inr_conv split: option.splits)
qed

section \<open>Where a part is not read as it was sent\<close>

definition demo_part :: form_part where
  "demo_part = \<lparr>fp_name = ascii ''f'', fp_filename = Some (ascii ''a''), fp_type = None, fp_content = [13, 10, 120]\<rparr>"

text \<open>The line end at the start of a file is lost and two zero octets are appended.\<close>

lemma leading_line_end_lost:
  "decodeMultipart (frame_body (ascii ''B'') [demo_part]) (ascii ''B'') = Inr \<lparr>md_fields = [],
     md_files = [\<lparr>mf_name = ascii ''f'', mf_filename = ascii ''a'',
       mf_contentType = ascii ''application/octet-stream'', mf_content = [120, 0, 0]\<rparr>]\<rparr>"
  by code_simp

text \<open>A semicolon inside a quoted file name ends the parameter, and the body is refused.\<close>

lemma quoted_semicolon_refused:
  "decodeMultipart (frame_body (ascii ''B'') [demo_part\<lparr>fp_filename := Some (ascii ''a;b'')\<rparr>]) (ascii ''B'') = frame_issue"
  by code_simp

end
