(* ===== verification/Coordination.thy ===== *)
theory Coordination
  imports Owner Arrays
begin

text \<open>
  Coordination of launched participants, \<open>runtime/coordination.ts\<close>: the adapters that record
  every completion, the native combinator that decides, and the continuation that publishes
  the selected participants to their owner group. The participants settle in any order, and
  the continuation runs at any moment after the decision, so that further participants may
  settle in between.
\<close>

datatype coordination_mode = AllMode | SettledMode | AnyMode | RaceMode

datatype 'a selection =
    SelectAll "'a completion option list"
  | SelectOne nat "'a completion"
  | SelectAllFailed "'a completion option list"

text \<open>The state of the promise that \<open>Promise.all\<close>, \<open>allSettled\<close>, \<open>any\<close> or \<open>race\<close> returned.\<close>

datatype 'a native =
    Waiting
  | FulfilledAll
  | FulfilledTag nat "'a completion"
  | RejectedTag nat "'a completion"
  | RejectedAll

record 'a coordination =
  co_outcomes :: "'a completion option list"
  co_rejected :: "nat list"
  co_firstSuccess :: "nat list option"
  co_native :: "'a native"
  co_selection :: "(js_exn + 'a selection \<times> nat list) option"

definition succeeded :: "'a completion \<Rightarrow> bool" where
  "succeeded c \<longleftrightarrow> (case c of Ok _ \<Rightarrow> True | _ \<Rightarrow> False)"

definition native_start :: "coordination_mode \<Rightarrow> nat \<Rightarrow> 'a native" where
  "native_start mode n =
     (if n \<noteq> 0 then Waiting
      else (case mode of AllMode \<Rightarrow> FulfilledAll | SettledMode \<Rightarrow> FulfilledAll | AnyMode \<Rightarrow> RejectedAll | RaceMode \<Rightarrow> Waiting))"

definition select_start :: "coordination_mode \<Rightarrow> nat \<Rightarrow> 'a coordination" where
  "select_start mode n =
     \<lparr>co_outcomes = replicate n None, co_rejected = [], co_firstSuccess = None,
      co_native = native_start mode n, co_selection = None\<rparr>"

text \<open>What the settlement of one adapter means for the native promise.\<close>

definition native_after :: "coordination_mode \<Rightarrow> 'a completion option list \<Rightarrow> nat \<Rightarrow> 'a completion \<Rightarrow> 'a native \<Rightarrow> 'a native" where
  "native_after mode outcomes i c native =
     (case native of
        Waiting \<Rightarrow>
          (case mode of
             AllMode \<Rightarrow>
               if \<not> succeeded c then RejectedTag i c
               else if None \<notin> set outcomes then FulfilledAll else Waiting
           | SettledMode \<Rightarrow> if None \<notin> set outcomes then FulfilledAll else Waiting
           | AnyMode \<Rightarrow>
               if succeeded c then FulfilledTag i c
               else if None \<notin> set outcomes then RejectedAll else Waiting
           | RaceMode \<Rightarrow> if succeeded c then FulfilledTag i c else RejectedTag i c)
      | _ \<Rightarrow> native)"

definition adapter :: "coordination_mode \<Rightarrow> nat \<Rightarrow> 'a completion \<Rightarrow> 'a coordination \<Rightarrow> 'a coordination" where
  "adapter mode i c st =
     (let outcomes = (co_outcomes st)[i := Some c];
          rejected = (if succeeded c \<or> i \<in> set (co_rejected st) then co_rejected st else co_rejected st @ [i]) in
      st\<lparr>co_outcomes := outcomes, co_rejected := rejected,
         co_firstSuccess :=
           (if succeeded c \<and> co_firstSuccess st = None then Some (co_rejected st @ [i]) else co_firstSuccess st),
         co_native := native_after mode outcomes i c (co_native st)\<rparr>)"

definition all_indices :: "nat \<Rightarrow> nat list" where
  "all_indices n = [0..<n]"

definition selected :: "coordination_mode \<Rightarrow> 'a coordination \<Rightarrow> nat \<Rightarrow> 'a completion \<Rightarrow> js_exn + 'a selection \<times> nat list" where
  "selected mode st i c =
     (if mode = AnyMode then
        (case co_firstSuccess st of
           Some indices \<Rightarrow> Inr (SelectOne i c, indices)
         | None \<Rightarrow> Inl (TypeError ''invalid group publication''))
      else Inr (SelectOne i c, [i]))"

text \<open>The rest of \<open>selectFromGroup\<close> after the native promise: the selection and what is published.\<close>

definition resume :: "coordination_mode \<Rightarrow> nat \<Rightarrow> 'a coordination \<Rightarrow> (js_exn + 'a selection \<times> nat list) option" where
  "resume mode n st =
     (case co_native st of
        Waiting \<Rightarrow> None
      | FulfilledAll \<Rightarrow> Some (Inr (SelectAll (co_outcomes st), all_indices n))
      | FulfilledTag i c \<Rightarrow> Some (selected mode st i c)
      | RejectedTag i c \<Rightarrow> Some (selected mode st i c)
      | RejectedAll \<Rightarrow> Some
          (if length (co_outcomes st) \<noteq> n
             \<or> list_ex (\<lambda>v. case v of None \<Rightarrow> True | Some c \<Rightarrow> succeeded c) (co_outcomes st)
           then Inl (TypeError ''invalid all-failed settlement'')
           else Inr (SelectAllFailed (co_outcomes st), all_indices n)))"

text \<open>Runs of \<open>selectFromGroup\<close>, with the order in which the participants have settled.\<close>

inductive coordinated :: "coordination_mode \<Rightarrow> nat \<Rightarrow> (nat \<times> 'a completion) list \<Rightarrow> 'a coordination \<Rightarrow> bool"
  for mode n where
  start: "coordinated mode n [] (select_start mode n)"
| settle: "coordinated mode n es st \<Longrightarrow> i < n \<Longrightarrow> i \<notin> fst ` set es \<Longrightarrow> coordinated mode n (es @ [(i, c)]) (adapter mode i c st)"
| select: "coordinated mode n es st \<Longrightarrow> co_selection st = None \<Longrightarrow> resume mode n st = Some r \<Longrightarrow>
    coordinated mode n es (st\<lparr>co_selection := Some r\<rparr>)"

section \<open>Handlers\<close>

record ('a, 'b, 's) handlers =
  on_each :: "nat \<Rightarrow> 'a completion option \<Rightarrow> 's \<Rightarrow> 'b completion \<times> 's"
  on_shared :: "nat \<Rightarrow> 'a completion \<Rightarrow> 's \<Rightarrow> 'b completion \<times> 's"
  on_allFailed :: "'a completion option list \<Rightarrow> 's \<Rightarrow> 'b completion \<times> 's"

datatype 'b handled = Handled 'b | Collected "'b list" | NoValue

definition map_completion :: "('b \<Rightarrow> 'c) \<Rightarrow> 'b completion \<Rightarrow> 'c completion" where
  "map_completion g c = bindC c (\<lambda>x. Ok (g x))"

fun handle_each ::
  "(nat \<Rightarrow> 'a completion option \<Rightarrow> 's \<Rightarrow> 'b completion \<times> 's) \<Rightarrow> bool \<Rightarrow> nat \<Rightarrow> 'a completion option list \<Rightarrow> 'b list \<Rightarrow> 's
    \<Rightarrow> 'b handled completion \<times> 's" where
  "handle_each each collect i [] values s = (Ok (if collect then Collected values else NoValue), s)"
| "handle_each each collect i (c # cs) values s =
     (case each i c s of
        (Ok v, s) \<Rightarrow> handle_each each collect (Suc i) cs (if collect then values @ [v] else values) s
      | (Domain t p, s) \<Rightarrow> (Domain t p, s)
      | (Standard k m, s) \<Rightarrow> (Standard k m, s))"

definition handle :: "'a selection \<Rightarrow> ('a, 'b, 's) handlers \<Rightarrow> bool \<Rightarrow> 's \<Rightarrow> 'b handled completion \<times> 's" where
  "handle selection handlers collect s =
     (case selection of
        SelectOne i c \<Rightarrow> (case on_shared handlers i c s of (r, s) \<Rightarrow> (map_completion Handled r, s))
      | SelectAllFailed outcomes \<Rightarrow> (case on_allFailed handlers outcomes s of (r, s) \<Rightarrow> (map_completion Handled r, s))
      | SelectAll outcomes \<Rightarrow> handle_each (on_each handlers) collect 0 outcomes [] s)"

end
