(* ===== verification/CoordinationProps.thy ===== *)
theory CoordinationProps
  imports Coordination
begin

text \<open>
  What a coordination selects depends only on the order in which its participants settled up
  to the decision, however late the selection is made; what it publishes is always accepted
  by the owner; and handlers run one after the other up to the first failure.
\<close>

section \<open>The decision\<close>

definition outcome_list :: "nat \<Rightarrow> (nat \<times> 'a completion) list \<Rightarrow> 'a completion option list" where
  "outcome_list n es = map (map_of es) [0..<n]"

definition failed_event :: "nat \<times> 'a completion \<Rightarrow> bool" where
  "failed_event e \<longleftrightarrow> \<not> succeeded (snd e)"

text \<open>
  The selection that an order of settlements prescribes, with the participants it publishes:
  the first failure or all for \<open>all\<close>, everything for \<open>settled\<close>, the first success together
  with the failures before it or all failures for \<open>any\<close>, and the first settlement for
  \<open>race\<close>.
\<close>

definition decide :: "coordination_mode \<Rightarrow> nat \<Rightarrow> (nat \<times> 'a completion) list \<Rightarrow> ('a selection \<times> nat list) option" where
  "decide mode n es =
     (case mode of
        AllMode \<Rightarrow>
          (case find failed_event es of
             Some (i, c) \<Rightarrow> Some (SelectOne i c, [i])
           | None \<Rightarrow> if length es = n then Some (SelectAll (outcome_list n es), [0..<n]) else None)
      | SettledMode \<Rightarrow> if length es = n then Some (SelectAll (outcome_list n es), [0..<n]) else None
      | AnyMode \<Rightarrow>
          (case find (\<lambda>e. \<not> failed_event e) es of
             Some (i, c) \<Rightarrow> Some (SelectOne i c, map fst (takeWhile failed_event es) @ [i])
           | None \<Rightarrow> if length es = n then Some (SelectAllFailed (outcome_list n es), [0..<n]) else None)
      | RaceMode \<Rightarrow> (case es of [] \<Rightarrow> None | (i, c) # _ \<Rightarrow> Some (SelectOne i c, [i])))"

text \<open>The native promise after an order of settlements.\<close>

definition native_of :: "coordination_mode \<Rightarrow> nat \<Rightarrow> (nat \<times> 'a completion) list \<Rightarrow> 'a native" where
  "native_of mode n es =
     (case mode of
        AllMode \<Rightarrow>
          (case find failed_event es of
             Some (i, c) \<Rightarrow> RejectedTag i c
           | None \<Rightarrow> if length es = n then FulfilledAll else Waiting)
      | SettledMode \<Rightarrow> if length es = n then FulfilledAll else Waiting
      | AnyMode \<Rightarrow>
          (case find (\<lambda>e. \<not> failed_event e) es of
             Some (i, c) \<Rightarrow> FulfilledTag i c
           | None \<Rightarrow> if length es = n then RejectedAll else Waiting)
      | RaceMode \<Rightarrow> (case es of [] \<Rightarrow> Waiting | (i, c) # _ \<Rightarrow> if succeeded c then FulfilledTag i c else RejectedTag i c))"

definition order_ok :: "nat \<Rightarrow> (nat \<times> 'a completion) list \<Rightarrow> bool" where
  "order_ok n es \<longleftrightarrow> distinct (map fst es) \<and> (\<forall>e \<in> set es. fst e < n)"

lemma order_ok_length: "order_ok n es \<Longrightarrow> length es \<le> n"
proof -
  assume ok: "order_ok n es"
  then have "length es = card (set (map fst es))" by (metis distinct_card length_map order_ok_def)
  also have "\<dots> \<le> card {0..<n}" using ok by (intro card_mono) (auto simp: order_ok_def)
  finally show ?thesis by simp
qed

lemma order_ok_full:
  assumes "order_ok n es"
  shows "None \<notin> set (outcome_list n es) \<longleftrightarrow> length es = n"
proof -
  have card: "length es = card (set (map fst es))" using assms by (metis distinct_card length_map order_ok_def)
  have sub: "set (map fst es) \<subseteq> {0..<n}" using assms by (auto simp: order_ok_def)
  have "None \<in> set (outcome_list n es) \<longleftrightarrow> (\<exists>i < n. map_of es i = None)"
  proof -
    have "set (outcome_list n es) = map_of es ` {0..<n}" by (simp add: outcome_list_def)
    then show ?thesis by (metis atLeastLessThan_iff image_iff le0)
  qed
  then have "None \<notin> set (outcome_list n es) \<longleftrightarrow> {0..<n} \<subseteq> set (map fst es)"
    by (auto simp: map_of_eq_None_iff)
  also have "\<dots> \<longleftrightarrow> length es = n"
  proof
    assume "{0..<n} \<subseteq> set (map fst es)"
    with sub have "set (map fst es) = {0..<n}" by blast
    then show "length es = n" using card by simp
  next
    assume "length es = n"
    then show "{0..<n} \<subseteq> set (map fst es)" using card sub card_subset_eq [of "{0..<n}" "set (map fst es)"] by simp
  qed
  finally show ?thesis .
qed

lemma outcome_list_snoc:
  assumes "i < n" "i \<notin> fst ` set es"
  shows "outcome_list n (es @ [(i, c)]) = (outcome_list n es)[i := Some c]"
proof (rule nth_equalityI)
  fix j assume "j < length (outcome_list n (es @ [(i, c)]))"
  then have "j < n" by (simp add: outcome_list_def)
  moreover have "map_of es i = None" using assms(2) by (simp add: map_of_eq_None_iff)
  ultimately show "outcome_list n (es @ [(i, c)]) ! j = (outcome_list n es)[i := Some c] ! j"
    using assms(1) by (cases "map_of es j"; cases "i = j") (auto simp: outcome_list_def map_add_def nth_list_update)
qed (simp add: outcome_list_def)

lemma find_append: "find P (xs @ ys) = (case find P xs of Some x \<Rightarrow> Some x | None \<Rightarrow> find P ys)"
  by (induction xs) auto

section \<open>Runs\<close>

definition run_ok :: "coordination_mode \<Rightarrow> nat \<Rightarrow> (nat \<times> 'a completion) list \<Rightarrow> 'a coordination \<Rightarrow> bool" where
  "run_ok mode n es st \<longleftrightarrow>
     order_ok n es \<and> co_outcomes st = outcome_list n es
     \<and> co_rejected st = map fst (filter failed_event es)
     \<and> co_firstSuccess st = map_option (\<lambda>e. map fst (takeWhile failed_event es) @ [fst e]) (find (\<lambda>e. \<not> failed_event e) es)
     \<and> co_native st = native_of mode n es
     \<and> (\<forall>r. co_selection st = Some r \<longrightarrow> map_option Inr (decide mode n es) = Some r)"

lemma takeWhile_none: "find (\<lambda>e. \<not> P e) es = None \<Longrightarrow> takeWhile P es = es \<and> filter P es = es"
  by (auto simp: find_None_iff takeWhile_eq_all_conv filter_id_conv)

lemma native_of_snoc:
  assumes "order_ok n (es @ [(i, c)])"
  shows "native_of mode n (es @ [(i, c)]) = native_after mode (outcome_list n (es @ [(i, c)])) i c (native_of mode n es)"
proof -
  have "length es < n" using order_ok_length [OF assms] by simp
  then show ?thesis using order_ok_full [OF assms]
    by (cases mode) (auto simp: native_of_def native_after_def find_append failed_event_def split: option.splits list.splits)
qed

text \<open>A decision once made stands.\<close>

lemma decide_snoc:
  assumes "decide mode n es = Some r" "order_ok n (es @ [e])"
  shows "decide mode n (es @ [e]) = Some r"
proof -
  have "length es < n" using order_ok_length [OF assms(2)] by simp
  moreover have "takeWhile failed_event (es @ [e]) = takeWhile failed_event es" if "find (\<lambda>e. \<not> failed_event e) es \<noteq> None"
    using that by (auto simp: find_None_iff takeWhile_append)
  ultimately show ?thesis using assms(1)
    by (cases mode) (auto simp: decide_def find_append split: option.splits list.splits)
qed

lemma failed_outcomes:
  assumes "order_ok n es" "length es = n" "find (\<lambda>e. \<not> failed_event e) es = None"
  shows "\<not> list_ex (\<lambda>v. case v of None \<Rightarrow> True | Some c \<Rightarrow> succeeded c) (outcome_list n es)"
proof -
  have "None \<notin> set (outcome_list n es)" using order_ok_full [OF assms(1)] assms(2) by simp
  moreover have "\<not> succeeded c" if "Some c \<in> set (outcome_list n es)" for c
  proof -
    have "Some c \<in> map_of es ` {0..<n}" using that by (simp add: outcome_list_def)
    then obtain i where "map_of es i = Some c" by (metis imageE)
    then have "(i, c) \<in> set es" by (rule map_of_SomeD)
    then show ?thesis using assms(3) by (auto simp: find_None_iff failed_event_def)
  qed
  ultimately show ?thesis by (metis (no_types, lifting) list_ex_iff option.case(2) option.exhaust)
qed

lemma resume_decides:
  assumes "run_ok mode n es st"
  shows "resume mode n st = map_option Inr (decide mode n es)"
proof -
  have len: "length (co_outcomes st) = n" using assms by (simp add: run_ok_def outcome_list_def)
  have r: "order_ok n es" "co_outcomes st = outcome_list n es" "co_native st = native_of mode n es"
    "co_firstSuccess st = map_option (\<lambda>e. map fst (takeWhile failed_event es) @ [fst e]) (find (\<lambda>e. \<not> failed_event e) es)"
    using assms by (simp_all add: run_ok_def)
  show ?thesis
    using failed_outcomes [OF r(1)] len r(2-4)
    by (cases mode)
       (auto simp: resume_def selected_def native_of_def decide_def all_indices_def split: option.splits list.splits)
qed

lemma coordinated_ok:
  assumes "coordinated mode n es st"
  shows "run_ok mode n es st"
  using assms
proof (induction rule: coordinated.induct)
  case start
  have "native_start mode n = native_of mode n ([] :: (nat \<times> 'a completion) list)"
    by (cases mode) (simp_all add: native_start_def native_of_def)
  then show ?case
    by (simp add: run_ok_def select_start_def order_ok_def outcome_list_def map_replicate_const)
next
  case (settle es st i c)
  have ok: "order_ok n (es @ [(i, c)])" using settle by (auto simp: run_ok_def order_ok_def)
  have out: "outcome_list n (es @ [(i, c)]) = (co_outcomes st)[i := Some c]"
    using settle outcome_list_snoc [of i n es c] by (simp add: run_ok_def)
  have "i \<notin> set (co_rejected st)" using settle by (auto simp: run_ok_def)
  moreover have "co_selection (adapter mode i c st) = co_selection st" by (simp add: adapter_def Let_def)
  moreover have "map_option Inr (decide mode n (es @ [(i, c)])) = Some r" if "co_selection st = Some r" for r
    using settle.IH that decide_snoc [OF _ ok] by (auto simp: run_ok_def)
  moreover have "map fst (takeWhile failed_event (es @ [(i, c)])) =
      (if find (\<lambda>e. \<not> failed_event e) es = None then map fst es @ (if succeeded c then [] else [i])
       else map fst (takeWhile failed_event es))"
    by (auto simp: takeWhile_append find_None_iff failed_event_def)
  ultimately show ?case
    using settle.IH ok out native_of_snoc [OF ok, of mode] takeWhile_none [of failed_event es]
    by (auto simp: run_ok_def adapter_def Let_def find_append failed_event_def split: option.splits)
next
  case (select es st r)
  then show ?case using resume_decides [OF select.IH] by (simp add: run_ok_def)
qed

lemma decide_indices:
  assumes "order_ok n es" "decide mode n es = Some (sel, indices)"
  shows "distinct indices \<and> set indices \<subseteq> {0..<n}"
proof -
  have e: "fst e < n" if "e \<in> set es" for e using assms(1) that by (simp add: order_ok_def)
  have f: "fst e < n" if "find P es = Some e" for P e using that e by (metis find_Some_iff nth_mem)
  have any: "distinct (map fst (takeWhile failed_event es) @ [fst e]) \<and> set (map fst (takeWhile failed_event es) @ [fst e]) \<subseteq> {0..<n}"
    if fe: "find (\<lambda>e. \<not> failed_event e) es = Some e" for e
  proof -
    have d: "distinct (map fst es)" using assms(1) by (simp add: order_ok_def)
    obtain ys where ys: "es = takeWhile failed_event es @ e # ys"
    proof -
      have "dropWhile failed_event es \<noteq> []" "hd (dropWhile failed_event es) = e"
        using fe by (induction es) (auto split: if_splits)
      then show ?thesis using that [of "tl (dropWhile failed_event es)"] takeWhile_dropWhile_id [of failed_event es]
        by (metis list.collapse)
    qed
    then have "distinct (map fst (takeWhile failed_event es @ e # ys))" using d by metis
    then show ?thesis using f [OF fe] e set_takeWhileD by fastforce
  qed
  show ?thesis
  proof (cases mode)
    case AllMode
    then show ?thesis using assms(2) f by (auto simp: decide_def split: option.splits if_splits)
  next
    case SettledMode
    then show ?thesis using assms(2) by (auto simp: decide_def split: if_splits)
  next
    case AnyMode
    then show ?thesis using assms(2) any by (force simp: decide_def split: option.splits if_splits)
  next
    case RaceMode
    then obtain i c where "(i, c) \<in> set es" "indices = [i]"
      using assms(2) by (auto simp: decide_def split: list.splits)
    then show ?thesis using e [of "(i, c)"] by simp
  qed
qed

section \<open>Properties\<close>

text \<open>
  C13: A coordination selects what the order of settlements prescribes. In every run, however
  many participants settle between the decision of the native promise and the continuation,
  the selection made is the one the order decides; a decided coordination that has not been
  selected yet selects exactly that next; and once every participant has settled there is a
  decision, except for a race of nobody.
\<close>

theorem selection_follows_order:
  assumes "coordinated mode n es st"
  shows "(\<forall>r. co_selection st = Some r \<longrightarrow> (\<exists>sel. decide mode n es = Some sel \<and> r = Inr sel))
    \<and> resume mode n st = map_option Inr (decide mode n es)
    \<and> (length es = n \<longrightarrow> (mode = RaceMode \<longrightarrow> 0 < n) \<longrightarrow> decide mode n es \<noteq> None)"
proof -
  have ok: "run_ok mode n es st" using coordinated_ok [OF assms] .
  have "\<exists>sel. decide mode n es = Some sel \<and> r = Inr sel" if "co_selection st = Some r" for r
    using ok that by (auto simp: run_ok_def)
  moreover have "decide mode n es \<noteq> None" if "length es = n" "mode = RaceMode \<longrightarrow> 0 < n"
    using that by (cases mode) (auto simp: decide_def split: option.splits list.splits)
  ultimately show ?thesis using resume_decides [OF ok] by blast
qed

text \<open>
  C40: The owner accepts what a coordination publishes. For a group with one task per
  participant (fewer than 2^53) that has not been published yet, publishing the selected
  participants is never refused; they are pairwise different participants.
\<close>

theorem publication_accepted:
  assumes "coordinated mode n es st" and "co_selection st = Some (Inr (sel, indices))"
    and "length (gr_tasks (groups w ! g)) = n" and "\<not> gr_sealed (groups w ! g)" and "int n \<le> MAX_SAFE_INTEGER"
  shows "distinct indices \<and> (\<exists>w'. Owner.publish g (map int indices) w = Inr w')"
proof -
  have ok: "run_ok mode n es st" using coordinated_ok [OF assms(1)] .
  then have d: "decide mode n es = Some (sel, indices)" "order_ok n es" using assms(2) by (auto simp: run_ok_def)
  note ind = decide_indices [OF d(2,1)]
  have "safe_int (int i)" if "i \<in> set indices" for i
    using ind that assms(5) by (auto simp: safe_int_def)
  then have "\<not> list_ex (\<lambda>i. \<not> safe_int i \<or> i < 0 \<or> int (length (gr_tasks (groups w ! g))) \<le> i) (map int indices)"
    using ind assms(3) by (auto simp: list_ex_iff)
  then show ?thesis using ind assms(4) by (simp add: Owner.publish_def)
qed

text \<open>The reference of the handler loop: one handler after the other up to the first failure.\<close>

lemma handle_each_observations:
  "handle_each each True i cs acc s =
     (case observations (\<lambda>(i, c). each i c) (zip [i..<i + length cs] cs) s of
        (r, s') \<Rightarrow> (map_completion (\<lambda>vs. Collected (acc @ vs)) r, s'))"
proof (induction cs arbitrary: i acc s)
  case (Cons c cs)
  obtain r s1 where r: "each i c s = (r, s1)" by (cases "each i c s")
  have z: "zip [i..<i + length (c # cs)] (c # cs) = (i, c) # zip [Suc i..<Suc i + length cs] cs"
    using upt_conv_Cons [of i "i + length (c # cs)"] by (simp del: upt_Suc)
  show ?case
  proof (cases r)
    case (Ok v)
    obtain q s2 where q: "observations (\<lambda>(i, c). each i c) (zip [Suc i..<Suc i + length cs] cs) s1 = (q, s2)"
      by (cases "observations (\<lambda>(i, c). each i c) (zip [Suc i..<Suc i + length cs] cs) s1")
    show ?thesis unfolding z using r Ok q Cons [of "Suc i" "acc @ [v]" s1]
      by (cases q) (simp_all add: map_completion_def)
  next
    case (Domain t p)
    then show ?thesis unfolding z using r by (simp add: map_completion_def)
  next
    case (Standard k m)
    then show ?thesis unfolding z using r by (simp add: map_completion_def)
  qed
qed (simp add: map_completion_def)

section \<open>A run\<close>

definition demo_failure :: "int completion" where
  "demo_failure = Domain (ascii ''offline'') []"

definition demo_decided :: "int coordination" where
  "demo_decided = adapter AnyMode 0 (Ok 5) (adapter AnyMode 2 demo_failure (select_start AnyMode 3))"

text \<open>The third participant settles after the decision and before the selection.\<close>

definition demo_selected :: "int coordination" where
  "demo_selected = (adapter AnyMode 1 (Ok 7) demo_decided)
     \<lparr>co_selection := Some (Inr (SelectOne 0 (Ok 5), [2, 0]))\<rparr>"

definition demo_order :: "(nat \<times> int completion) list" where
  "demo_order = [(2, demo_failure), (0, Ok 5), (1, Ok 7)]"

lemma demo_coordinated: "coordinated AnyMode 3 demo_order demo_selected"
proof -
  have "coordinated AnyMode 3 ([] @ [(2, demo_failure)]) (adapter AnyMode 2 demo_failure (select_start AnyMode 3))"
    by (intro coordinated.intros) simp_all
  then have "coordinated AnyMode 3 (([] @ [(2, demo_failure)]) @ [(0, Ok 5)]) demo_decided"
    unfolding demo_decided_def by (rule coordinated.settle) simp_all
  then have "coordinated AnyMode 3 ((([] @ [(2, demo_failure)]) @ [(0, Ok 5)]) @ [(1, Ok 7)]) (adapter AnyMode 1 (Ok 7) demo_decided)"
    by (rule coordinated.settle) simp_all
  moreover have "co_selection (adapter AnyMode 1 (Ok 7) demo_decided) = None" by code_simp
  moreover have "resume AnyMode 3 (adapter AnyMode 1 (Ok 7) demo_decided) = Some (Inr (SelectOne 0 (Ok 5), [2, 0]))"
    by code_simp
  ultimately show ?thesis unfolding demo_selected_def demo_order_def
    using coordinated.select by fastforce
qed

theorem selection_follows_order_witness:
  "co_selection demo_selected = Some (Inr (SelectOne 0 (Ok 5), [2, 0]))
   \<and> decide AnyMode 3 demo_order = Some (SelectOne 0 (Ok 5), [2, 0])"
  using selection_follows_order [OF demo_coordinated] by (simp add: demo_selected_def)

definition demo_group :: world where
  "demo_group = createRoot\<lparr>groups := [\<lparr>gr_scope = 0, gr_key = 1, gr_tasks = [0, 1, 2], gr_sealed = False,
     gr_selected = [], gr_pending = 3, gr_active = True\<rparr>]\<rparr>"

theorem publication_accepted_witness:
  "\<exists>w'. Owner.publish 0 [2, 0] demo_group = Inr w'"
  using publication_accepted [OF demo_coordinated, of "SelectOne 0 (Ok 5)" "[2, 0]" demo_group 0]
  by (simp add: demo_selected_def demo_group_def MAX_SAFE_INTEGER_def)

end
