(* ===== verification/Spec2Isabelle.thy ===== *)
theory Spec2Isabelle
  imports LedgerProps DestinationPolicy Numbers Bytes Text Arrays Jsonl JsonValueProps OwnerProps GuardProps BoundaryProps ActionRouteProps FormProps MultipartProps CoordinationProps
begin

text \<open>
  Verification library for the runtime of the Can language.

  \<^bold>\<open>The program.\<close> Can programs are compiled to JavaScript that runs against the TypeScript
  modules under \<open>src/runtime\<close>. The library models the modules with logic of their own and
  treats the platform (Bun, browsers, the \<open>node:\<close> modules), the provider adapters and the
  generated tables as their environment. Four groups of parts are modelled.

  \<^item> \<^emph>\<open>Spending and sending.\<close> \<open>outbound/identity.ts\<close> mints identifiers, \<open>outbound/epoch.ts\<close>
    divides time into epochs, \<open>outbound/ledger.ts\<close> keeps token budgets per pool and epoch over a
    store with optimistic transactions, \<open>ai/budget.ts\<close> guards provider calls with reservations
    in that ledger, and \<open>outbound/destination-policy.ts\<close> decides which addresses may be called.
  \<^item> \<^emph>\<open>Asynchronous work.\<close> \<open>owner-core.ts\<close> owns scopes, resources and tasks,
    \<open>coordination.ts\<close> selects results of the groups the owner launches, and
    \<open>transport/request-budget.ts\<close>, \<open>transport/request-scope.ts\<close> and
    \<open>transport/operation-budget.ts\<close> bound the time of an operation.
  \<^item> \<^emph>\<open>Values.\<close> \<open>number.ts\<close>, \<open>primitive.ts\<close>, \<open>bytes.ts\<close>, \<open>text.ts\<close>, \<open>collections/set.ts\<close>,
    \<open>collections/map.ts\<close>, \<open>collections/array.ts\<close> and the worker records of \<open>callable.ts\<close> are the
    operations on values; \<open>codec/*.ts\<close> turns values into JSON text and back.
  \<^item> \<^emph>\<open>Requests.\<close> \<open>platform/action-routes.ts\<close> dispatches request targets to actions and
    \<open>platform/form.ts\<close> decodes submitted forms; \<open>platform/multipart.ts\<close> parses multipart bodies
    with the media types of \<open>transport/media.ts\<close>.

  \<^bold>\<open>Shared theories.\<close>

  \<^item> \<open>Prelude\<close>: UTF-16 strings as lists of 16-bit words, values of unknown type, plain objects with
    their inherited members, results that may be a thrown error, generic lemmas.
  \<^item> \<open>JsNumber\<close>: the doubles, with rounding to nearest, and where they are exact on safe integers.
  \<^item> \<open>JsString\<close>, \<open>Unicode\<close>, \<open>UriComponent\<close>, \<open>JsonString\<close>: string operations, UTF-8 and UTF-16,
    percent coding and JSON quoting of the language's standard library.
  \<^item> \<open>Completion\<close>, \<open>OpaqueStore\<close>: completions of operations; opaque tokens over a private map.

  \<^bold>\<open>Components.\<close>

  \<^item> \<open>Identity\<close> (\<open>outbound/identity.ts\<close>) and \<open>Epoch\<close> (\<open>outbound/epoch.ts\<close>): the identifier grammar,
    and epochs that partition time across schedule transitions.
  \<^item> \<open>Ledger\<close> (\<open>outbound/ledger.ts\<close>, the pure operations on a ledger state), \<open>LedgerStore\<close> (the
    transaction loop, the memory backend, and clients whose loads and commits interleave),
    \<open>LedgerInv\<close> (the accounting invariant and that every operation keeps it), \<open>LedgerHistory\<close>
    (what no later write takes back) and \<open>LedgerProps\<close> (conservation of tokens, exact admission,
    at most one reservation per identifier, final settlement, quarantine of breached profiles,
    atomicity).
  \<^item> \<open>Guard\<close>, \<open>GuardProps\<close> (\<open>ai/budget.ts\<close>): the guarded dispatch cut at its four awaits. Every
    provider call is covered by a fenced reservation, results are delivered only when accounted,
    an identifier is in flight once, and every dispatch ends.
  \<^item> \<open>DestinationPolicy\<close>: well-formed policies, exactly which URLs are admitted, no private IPv4
    literal among them, and redirects only to admitted URLs.
  \<^item> \<open>Owner\<close> (\<open>owner-core.ts\<close>, one definition per run of the event loop between awaits), \<open>OwnerInv\<close>
    (the step relation and its invariants), \<open>OwnerDrain\<close>, \<open>OwnerReport\<close>, \<open>OwnerProps\<close>: a close
    runs once and never under a lease, a closed scope has nothing open, failures are reported
    once, and a drain ends.
  \<^item> \<open>Coordination\<close>, \<open>CoordinationProps\<close> (\<open>coordination.ts\<close>): each mode selects what the order of
    the settlements prescribes, and the owner accepts its publication.
  \<^item> \<open>Boundary\<close>, \<open>BoundaryProps\<close> (\<open>transport/*.ts\<close> named above): the race of an operation against its
    bound never calls an expired operation finished, and returns.
  \<^item> \<open>Numbers\<close>, \<open>Bytes\<close>, \<open>Text\<close>, \<open>Sets\<close>, \<open>Maps\<close>, \<open>Arrays\<close>: the catalogues of operations on values.
    Sets and maps refine mathematical sets and maps; native worker paths of the array operations
    are invisible; sorting is stable.
  \<^item> \<open>CodecBudget\<close> (\<open>codec/budget.ts\<close>, \<open>codec/numbers.ts\<close>), \<open>Project\<close> (\<open>codec/project.ts\<close>), \<open>Encode\<close>
    (the encoder of \<open>codec/json.ts\<close>), \<open>JsonParse\<close> (\<open>JSON.parse\<close>), \<open>CodecRoundtrip\<close>, \<open>Document\<close>
    (\<open>codec/duplicates.ts\<close>, \<open>codec/document.ts\<close>, the decoder of \<open>codec/json.ts\<close>), \<open>Jsonl\<close>
    (\<open>codec/jsonl.ts\<close>), \<open>JsonValue\<close>, \<open>JsonValueProps\<close> (\<open>codec/value.ts\<close>): the budget charged is
    the length of the text, decoding inverts encoding, and streaming equals decoding at once.
  \<^item> \<open>ActionRoutes\<close>, \<open>ActionRouteProps\<close> (the table half of \<open>platform/action-routes.ts\<close>): dispatch does
    not depend on the order of the declarations, handlers receive clean captures, and a built
    URL comes back to its action.
  \<^item> \<open>Form\<close>, \<open>FormProps\<close> (\<open>platform/form.ts\<close>): a form is accepted exactly when a direct reading of its
    pairs gives a value, and that value is the result.
  \<^item> \<open>Media\<close> (\<open>transport/media.ts\<close>), \<open>Multipart\<close>, \<open>MultipartProps\<close> (\<open>platform/multipart.ts\<close>): rendered
    media types are read back, framed parts are decoded to themselves, a body without a closing
    delimiter is refused; and two kinds of parts that are not read as they were sent.

  \<^bold>\<open>Interfaces.\<close> Each locale states what one part relies on; it is interpreted on the model's
  definitions where they are given, and the properties rest on those facts.

  \<^item> \<open>ledger_backend\<close>: load and commit of a store, with \<open>memory\<close> and the store shared with other
    clients; \<open>ledger_clients\<close> interprets the operations of the ledger for clients.
  \<^item> \<open>ordered_set\<close> and \<open>ordered_map\<close>: the laws of native sets and maps.
  \<^item> \<open>byte_text_codec\<close>: hexadecimal and base64 text of bytes.
  \<^item> \<open>component_coding\<close>: percent coding, used by routes and forms.
  \<^item> \<open>comparator\<close>: the order of sort keys of one type, used by sorting.

  \<^bold>\<open>How code becomes definitions.\<close> Pure functions are HOL functions. A thrown error is the left
  case of a sum, with the message of the source. Stateful objects are records passed along.
  Asynchronous code is cut at its awaits: each run between two awaits is one definition, and a
  step relation interleaves the runs with everything the environment may do in between, so the
  theorems hold for every schedule. Code outside the repository is a parameter: the digest
  \<open>sha256_hex\<close>, the URL parser \<open>url_api\<close>, the Unicode tables and regular expressions
  \<open>text_platform\<close>, the decimal text \<open>nt\<close> of a double, clock readings, provider answers and the
  outcomes of native closes. Where a theorem relies on documented behaviour of a parameter it
  says so in a hypothesis, and its witness instantiates the parameter.

  \<^bold>\<open>Bounds and fuel.\<close> Transactions retry at most 64 times and regular expressions give at most
  10000 matches, as in the source. The parser's fuel is twice the length of the text plus one,
  shown to be enough for every text. The formatter has 66 levels because the preflight admits
  depth 64. The limits of the codecs are those of the source (depth 64, 1000000 nodes). A drain
  ends within eight steps per resource, three more, and the reports owed; a dispatch has four
  awaits. The ring of late records keeps 256 entries. Forms have at most 64 rows and 2048 bytes
  per row value. No other function has fuel; the others are total with a termination proof.

  \<^bold>\<open>Not modelled.\<close>

  \<^item> \<open>catalogue.ts\<close>, \<open>modules.json\<close>: generated. \<open>codec/formats.ts\<close>: wraps parsers that are not
    in the repository.
  \<^item> \<open>domain*.ts\<close>, \<open>data.ts\<close>, \<open>reflect.ts\<close>, the rest of \<open>callable.ts\<close>: registries over object
    identity, proxies and property descriptors; the models use what the operations see of them
    (nominal identities, fields, opaque tokens).
  \<^item> \<open>diagnostics*.ts\<close>, \<open>image.ts\<close>, \<open>vendor/\<close>: rendering of failures, vendored source maps.
  \<^item> \<open>entry.ts\<close>, \<open>environment.ts\<close>, \<open>owner.ts\<close>: process entry and ambient context.
  \<^item> \<open>outbound/file-ledger.ts\<close>, \<open>outbound/sql-ledger.ts\<close>, \<open>outbound/ledger-schema.ts\<close>: storage over
    files and SQL; the ledger is modelled over any store with the laws of \<open>ledger_backend\<close>.
  \<^item> the other files of \<open>ai/\<close>, \<open>transport/\<close> and \<open>platform/\<close>, and the mount half of
    \<open>platform/action-routes.ts\<close>: adapters to providers, fetch, HTTP, SQL, files and processes.
  \<^item> \<open>browser/\<close>, \<open>assert/\<close>: entry points for browsers and the test runner of the language.
  \<^item> \<open>src/host\<close>, \<open>src/tools\<close>, \<open>src/examples\<close>, \<open>src/std\<close> and the compiler, which is written in Go.
  \<^item> the shortest decimal text of a double (\<open>fromFloat\<close> and number formatting of
    \<open>JSON.stringify\<close>), which is the parameter \<open>nt\<close> where it matters.
  \<^item> object identity of immutable values: they are trees, so the cycle checks of the encoders,
    which no constructed value can reach, have no counterpart.
\<close>

end
